(* ===== verification/Prelude.thy ===== *)
theory Prelude
  imports Main "HOL-Library.Word" "HOL-Library.AList" "HOL-Library.Sublist"
begin

text \<open>
  What every component of the model shares: the types that stand for Rust's (bytes, fixed-width
  integers, durations and clock readings), the standard-library operations the code uses on them
  (slicing with \<open>get\<close>, saturating addition, decimal formatting, big-endian integers),
  and the lemmas on association lists, with which hash maps are modelled, that the
  components' proofs use.

  Conventions. \<open>String\<close> and \<open>&str\<close> are \<open>string\<close>, one \<open>char\<close> per UTF-8 byte, so \<open>length\<close> is
  Rust's \<open>len()\<close>. \<open>Vec<u8>\<close> is a list of 8-bit words. \<open>usize\<close> values that are lengths or
  byte counts of data in memory are \<open>nat\<close> (they cannot reach $2^{64}$); integers whose width
  matters are words. An \<open>Instant\<close> and a \<open>Duration\<close> are counts of nanoseconds, Rust's own
  granularity; wall-clock times are unix seconds.
\<close>

named_theorems store_inv_intros \<open>each operation of the relay's store keeps its invariant\<close>
named_theorems same_length \<open>the in-place scrubbing operations keep the length of the file\<close>

section \<open>Types\<close>

type_synonym byte = "8 word"
type_synonym bytes = "byte list"
type_synonym u32 = "32 word"
type_synonym u64 = "64 word"
type_synonym instant = nat
type_synonym duration = nat

definition secs :: "nat \<Rightarrow> duration" where
  "secs n = n * 1000000000"

definition as_secs :: "duration \<Rightarrow> nat" where
  "as_secs d = d div 1000000000"

lemma as_secs_secs [simp]: "as_secs (secs n) = n"
  by (simp add: as_secs_def secs_def)

lemma secs_le_iff [simp]: "secs m \<le> secs n \<longleftrightarrow> m \<le> n"
  by (simp add: secs_def)

lemma secs_less_iff [simp]: "secs m < secs n \<longleftrightarrow> m < n"
  by (simp add: secs_def)

lemma secs_eq_0 [simp]: "secs n = 0 \<longleftrightarrow> n = 0"
  by (simp add: secs_def)

section \<open>Integers\<close>

text \<open>\<open>u64::saturating_add\<close> and \<open>saturating_sub\<close>.\<close>

definition sat_add64 :: "u64 \<Rightarrow> u64 \<Rightarrow> u64" where
  "sat_add64 a b = (if unat a + unat b < 2 ^ 64 then a + b else - 1)"

definition sat_sub64 :: "u64 \<Rightarrow> u64 \<Rightarrow> u64" where
  "sat_sub64 a b = (if b \<le> a then a - b else 0)"

lemma unat_sat_add64: "unat (sat_add64 a b) = min (unat a + unat b) (2 ^ 64 - 1)"
proof (cases "unat a + unat b < 2 ^ 64")
  case True
  then have "unat (a + b) = unat a + unat b"
    by (simp add: unat_word_ariths)
  with True show ?thesis by (simp add: sat_add64_def)
next
  case False
  then show ?thesis by (simp add: sat_add64_def unsigned_minus_1_eq_mask mask_eq_exp_minus_1)
qed

lemma unat_sat_sub64: "unat (sat_sub64 a b) = unat a - unat b"
proof (cases "b \<le> a")
  case True
  then show ?thesis by (simp add: sat_sub64_def unat_sub)
next
  case False
  then have "unat a \<le> unat b" by (simp add: word_le_nat_alt)
  with False show ?thesis by (simp add: sat_sub64_def)
qed

lemma unat_add_no_wrap: "unat a + unat b < 2 ^ LENGTH('n::len) \<Longrightarrow> unat ((a :: 'n word) + b) = unat a + unat b"
  by (simp add: unat_word_ariths)

section \<open>Decimal formatting\<close>

text \<open>\<open>format!("{n}")\<close> for an unsigned integer.\<close>

definition digit_char :: "nat \<Rightarrow> char" where
  "digit_char d = char_of (48 + d)"

fun dec :: "nat \<Rightarrow> string" where
  "dec n = (if n < 10 then [digit_char n] else dec (n div 10) @ [digit_char (n mod 10)])"

declare dec.simps [simp del]

lemma of_char_digit_char: "d < 10 \<Longrightarrow> of_char (digit_char d) = 48 + d"
  by (simp add: digit_char_def)

lemma digit_char_inj: "\<lbrakk>a < 10; b < 10; digit_char a = digit_char b\<rbrakk> \<Longrightarrow> a = b"
  by (metis add_left_cancel of_char_digit_char)

lemma dec_nonempty [simp]: "dec n \<noteq> []"
  by (subst dec.simps) simp

lemma dec_digits: "c \<in> set (dec n) \<Longrightarrow> 48 \<le> (of_char c :: nat) \<and> (of_char c :: nat) \<le> 57"
proof (induction n rule: dec.induct)
  case (1 n)
  show ?case
  proof (cases "n < 10")
    case True
    with "1.prems" have "c = digit_char n" by (simp add: dec.simps [of n])
    with True show ?thesis by (simp add: of_char_digit_char)
  next
    case False
    with "1.prems" have "c \<in> set (dec (n div 10)) \<or> c = digit_char (n mod 10)"
      by (auto simp: dec.simps [of n])
    then show ?thesis
    proof
      assume "c \<in> set (dec (n div 10))"
      with False "1.IH" show ?thesis by simp
    next
      assume "c = digit_char (n mod 10)"
      moreover have "n mod 10 < 10" by simp
      ultimately show ?thesis by (simp add: of_char_digit_char)
    qed
  qed
qed

lemma dec_inj: "dec m = dec n \<Longrightarrow> m = n"
proof (induction m arbitrary: n rule: dec.induct)
  case (1 m)
  have last: "last (dec k) = digit_char (k mod 10)" for k
    by (subst dec.simps) simp
  have but: "butlast (dec k) = (if k < 10 then [] else dec (k div 10))" for k
    by (subst dec.simps) simp
  have "digit_char (m mod 10) = digit_char (n mod 10)"
    using "1.prems" last by metis
  then have mods: "m mod 10 = n mod 10"
    by (rule digit_char_inj [rotated 2]) simp_all
  have buts: "(if m < 10 then [] else dec (m div 10)) = (if n < 10 then [] else dec (n div 10))"
    using "1.prems" but by metis
  have "m div 10 = n div 10"
  proof (cases "m < 10")
    case True
    with buts have "n < 10" by (metis dec_nonempty)
    with True show ?thesis by simp
  next
    case False
    with buts have "\<not> n < 10" and "dec (m div 10) = dec (n div 10)"
      by (auto split: if_splits)
    with False "1.IH" show ?thesis by blast
  qed
  with mods show ?case by (metis div_mult_mod_eq)
qed

section \<open>Strings\<close>

text \<open>
  \<open>str::trim\<close>: the encodings of the characters with the Unicode property \<open>White_Space\<close>, stripped
  from both ends.
\<close>

definition white_space :: "string list" where
  "white_space = map (map char_of)
     ([[9], [10], [11], [12], [13], [32], [0xC2, 0x85], [0xC2, 0xA0], [0xE1, 0x9A, 0x80]]
      @ map (\<lambda>k. [0xE2, 0x80, k]) ([0x80..<0x8B] @ [0xA8, 0xA9, 0xAF])
      @ [[0xE2, 0x81, 0x9F], [0xE3, 0x80, 0x80 :: nat]])"

function strip_all :: "string list \<Rightarrow> string \<Rightarrow> string" where
  "strip_all ws s =
     (case find (\<lambda>w. w \<noteq> [] \<and> prefix w s) ws of
        None \<Rightarrow> s
      | Some w \<Rightarrow> strip_all ws (drop (length w) s))"
  by pat_completeness auto

termination strip_all
proof (relation "measure (\<lambda>(ws, s). length s)")
  fix ws s w
  assume "find (\<lambda>w. w \<noteq> [] \<and> prefix w s) ws = Some w"
  then have "w \<noteq> [] \<and> prefix w s" by (auto simp: find_Some_iff)
  then show "((ws, drop (length w) s), ws, s) \<in> measure (\<lambda>(ws, s). length s)"
    using prefix_length_le [of w s] by (cases w) auto
qed simp

declare strip_all.simps [simp del]

definition trim :: "string \<Rightarrow> string" where
  "trim s = rev (strip_all (map rev white_space) (rev (strip_all white_space s)))"

lemma strip_all_Nil [simp]: "strip_all ws [] = []"
  by (subst strip_all.simps) (auto simp: find_Some_iff split: option.splits)

lemma trim_Nil [simp]: "trim [] = []"
  by (simp add: trim_def)

text \<open>A string that begins and ends with a visible ASCII character is trimmed already.\<close>

definition graph_char :: "char \<Rightarrow> bool" where
  "graph_char c = (32 < (of_char c :: nat) \<and> (of_char c :: nat) < 128)"

lemma white_space_ends: "w \<in> set white_space \<Longrightarrow> w \<noteq> [] \<and> \<not> graph_char (hd w) \<and> \<not> graph_char (last w)"
  by (auto simp: white_space_def graph_char_def)

lemma strip_all_id: "\<forall>w \<in> set ws. w = [] \<or> \<not> prefix w s \<Longrightarrow> strip_all ws s = s"
  by (subst strip_all.simps) (auto simp: find_Some_iff split: option.splits)

lemma trim_id:
  assumes "graph_char (hd s)" and "graph_char (last s)" and "s \<noteq> []"
  shows "trim s = s"
proof -
  have "\<not> prefix w s" if "w \<in> set white_space" for w
    using white_space_ends [OF that] assms by (auto simp: prefix_def)
  then have "strip_all white_space s = s" by (intro strip_all_id) blast
  moreover have "\<not> prefix (rev w) (rev s)" if "w \<in> set white_space" for w
    using white_space_ends [OF that] assms by (auto simp: prefix_def hd_rev dest!: arg_cong [where f = hd])
  then have "strip_all (map rev white_space) (rev s) = rev s" by (intro strip_all_id) auto
  ultimately show ?thesis by (simp add: trim_def)
qed

section \<open>Slices\<close>

text \<open>\<open>data.get(a..b)\<close>: nothing when the range is reversed or runs past the end.\<close>

definition get_range :: "'a list \<Rightarrow> nat \<Rightarrow> nat \<Rightarrow> 'a list option" where
  "get_range xs a b = (if a \<le> b \<and> b \<le> length xs then Some (take (b - a) (drop a xs)) else None)"

text \<open>\<open>data.get(i)\<close>.\<close>

definition get_at :: "'a list \<Rightarrow> nat \<Rightarrow> 'a option" where
  "get_at xs i = (if i < length xs then Some (xs ! i) else None)"

lemma get_range_SomeD:
  "get_range xs a b = Some ys \<Longrightarrow> a \<le> b \<and> b \<le> length xs \<and> ys = take (b - a) (drop a xs) \<and> length ys = b - a"
  by (auto simp: get_range_def split: if_splits)

lemma get_at_SomeD: "get_at xs i = Some x \<Longrightarrow> i < length xs \<and> xs ! i = x"
  by (auto simp: get_at_def split: if_splits)

text \<open>\<open>data[a..b].copy_from_slice(ys)\<close> with \<open>ys\<close> of length \<open>b - a\<close>: overwrite in place.\<close>

definition put_range :: "'a list \<Rightarrow> nat \<Rightarrow> 'a list \<Rightarrow> 'a list" where
  "put_range xs a ys = take a xs @ ys @ drop (a + length ys) xs"

lemma length_put_range [same_length]: "a + length ys \<le> length xs \<Longrightarrow> length (put_range xs a ys) = length xs"
  by (simp add: put_range_def)

lemma nth_put_range:
  assumes "a + length ys \<le> length xs" "i < length xs"
  shows "put_range xs a ys ! i = (if a \<le> i \<and> i < a + length ys then ys ! (i - a) else xs ! i)"
  using assms by (auto simp: put_range_def nth_append min_def)

lemma subseq_set: "subseq xs ys \<Longrightarrow> set xs \<subseteq> set ys"
  by (auto dest: list_emb_set)

section \<open>Big-endian integers\<close>

text \<open>\<open>uN::from_be_bytes\<close>, for any width, and \<open>to_be_bytes\<close> on \<open>n\<close> bytes.\<close>

definition be_nat :: "bytes \<Rightarrow> nat" where
  "be_nat bs = foldl (\<lambda>acc b. acc * 256 + unat b) 0 bs"

fun be_bytes :: "nat \<Rightarrow> nat \<Rightarrow> bytes" where
  "be_bytes 0 v = []"
| "be_bytes (Suc n) v = be_bytes n (v div 256) @ [of_nat (v mod 256)]"

lemma length_be_bytes [simp]: "length (be_bytes n v) = n"
  by (induction n arbitrary: v) auto

lemma be_nat_snoc [simp]: "be_nat (bs @ [b]) = be_nat bs * 256 + unat b"
  by (simp add: be_nat_def)

lemma be_nat_Nil [simp]: "be_nat [] = 0"
  by (simp add: be_nat_def)

lemma be_nat_be_bytes: "v < 256 ^ n \<Longrightarrow> be_nat (be_bytes n v) = v"
proof (induction n arbitrary: v)
  case 0
  then show ?case by simp
next
  case (Suc n)
  have "unat (of_nat (v mod 256) :: byte) = v mod 256"
    by (simp add: unat_of_nat take_bit_eq_mod)
  moreover have "v div 256 < 256 ^ n"
    using Suc.prems by (simp add: less_mult_imp_div_less mult.commute)
  ultimately show ?case
    by (simp add: Suc.IH)
qed

lemma be_nat_bound: "be_nat bs < 256 ^ length bs"
proof (induction bs rule: rev_induct)
  case Nil
  then show ?case by simp
next
  case (snoc b bs)
  have "unat b < 256" using unsigned_less [of b] by simp
  with snoc show ?case by (simp add: algebra_simps)
qed

lemma be_bytes_be_nat: "be_bytes (length bs) (be_nat bs) = bs"
proof (induction bs rule: rev_induct)
  case Nil
  then show ?case by simp
next
  case (snoc b bs)
  have "unat b < 256" using unsigned_less [of b] by simp
  then have "(be_nat bs * 256 + unat b) div 256 = be_nat bs" "(be_nat bs * 256 + unat b) mod 256 = unat b"
    by auto
  with snoc show ?case by (simp add: mod_mult_self3)
qed

section \<open>Hash maps as association lists\<close>

text \<open>
  A \<open>HashMap\<close> is an association list with distinct keys: \<open>AList.update\<close> is an insertion or an
  in-place change, \<open>AList.delete\<close> a removal. \<open>asum f m\<close> sums a measure over the entries.
\<close>

definition asum :: "('v \<Rightarrow> nat) \<Rightarrow> ('k \<times> 'v) list \<Rightarrow> nat" where
  "asum f m = sum_list (map (f \<circ> snd) m)"

definition keys_distinct :: "('k \<times> 'v) list \<Rightarrow> bool" where
  "keys_distinct m = distinct (map fst m)"

lemma asum_Nil [simp]: "asum f [] = 0"
  and asum_Cons [simp]: "asum f (kv # m) = f (snd kv) + asum f m"
  by (simp_all add: asum_def)

lemma asum_update:
  "keys_distinct m \<Longrightarrow>
   asum f (AList.update k v m) + (case map_of m k of None \<Rightarrow> 0 | Some w \<Rightarrow> f w) = asum f m + f v"
  by (induction m) (auto simp: keys_distinct_def map_of_eq_None_iff [THEN iffD2] split: option.splits)

lemma delete_absent: "k \<notin> fst ` set m \<Longrightarrow> AList.delete k m = m"
  by (induction m) auto

lemma asum_delete:
  "keys_distinct m \<Longrightarrow>
   asum f (AList.delete k m) + (case map_of m k of None \<Rightarrow> 0 | Some w \<Rightarrow> f w) = asum f m"
  by (induction m) (auto simp: keys_distinct_def delete_absent split: option.splits)

lemma asum_filter_map:
  "asum f (filter (\<lambda>kv. snd kv \<noteq> []) (map (\<lambda>kv. (fst kv, g (snd kv))) m)) + asum h m = asum f' m"
  if "\<And>v. f (g v) + h v = f' v" and "f [] = 0"
proof (induction m)
  case Nil
  then show ?case by simp
next
  case (Cons kv m)
  then show ?case using that(1) [of "snd kv"] that(2) by auto
qed

lemma keys_distinct_Nil [simp]: "keys_distinct []"
  by (simp add: keys_distinct_def)

lemma keys_distinct_update [simp]: "keys_distinct m \<Longrightarrow> keys_distinct (AList.update k v m)"
  by (simp add: keys_distinct_def distinct_update)

lemma keys_distinct_delete [simp]: "keys_distinct m \<Longrightarrow> keys_distinct (AList.delete k m)"
  by (simp add: keys_distinct_def distinct_delete)

lemma map_of_in: "keys_distinct m \<Longrightarrow> (k, v) \<in> set m \<longleftrightarrow> map_of m k = Some v"
  by (simp add: keys_distinct_def map_of_eq_Some_iff)

lemma keys_distinct_prune_key:
  "keys_distinct m \<Longrightarrow> keys_distinct (filter P (map (\<lambda>kv. (fst kv, g (fst kv) (snd kv))) m))"
  unfolding keys_distinct_def
  by (induction m) (force simp: image_iff)+

lemma map_of_prune_key:
  "keys_distinct m \<Longrightarrow>
   map_of (filter (\<lambda>kv. snd kv \<noteq> []) (map (\<lambda>kv. (fst kv, g (fst kv) (snd kv))) m)) k =
   (case map_of m k of None \<Rightarrow> None | Some q \<Rightarrow> if g k q = [] then None else Some (g k q))"
proof (induction m)
  case Nil
  then show ?case by simp
next
  case (Cons kv m)
  then have "keys_distinct m" and "fst kv \<notin> fst ` set m" by (auto simp: keys_distinct_def)
  with Cons.IH show ?case
    by (auto simp: map_of_eq_None_iff [THEN iffD2] split: option.splits)
qed

lemmas keys_distinct_prune = keys_distinct_prune_key [where g = "\<lambda>_. g" for g]
lemmas map_of_prune = map_of_prune_key [where g = "\<lambda>_. g" for g]

lemma map_of_map_snd: "map_of (map (\<lambda>kv. (fst kv, f (snd kv))) m) k = map_option f (map_of m k)"
  by (induction m) auto

lemma update_absent: "k \<notin> fst ` set m \<Longrightarrow> AList.update k v m = m @ [(k, v)]"
  by (induction m) auto

text \<open>Two maps with the same lookups have the same entries, whatever the order.\<close>

lemma map_of_same_set:
  "keys_distinct m \<Longrightarrow> keys_distinct m' \<Longrightarrow> map_of m = map_of m' \<Longrightarrow> set m = set m'"
  using map_of_in by (metis (no_types, opaque_lifting) set_eqI surj_pair)

lemma sum_list_map_set:
  "keys_distinct m \<Longrightarrow> sum_list (map f m) = (\<Sum>kv \<in> set m. f kv)"
  by (simp add: keys_distinct_def distinct_map sum_list_distinct_conv_sum_set)

text \<open>A sum over a map, through its lookups on any finite set of keys that covers it.\<close>

lemma asum_lookup:
  assumes kd: "keys_distinct m" and H: "finite H" "fst ` set m \<subseteq> H" and d: "f d = 0"
  shows "asum f m = (\<Sum>k \<in> H. f (case map_of m k of None \<Rightarrow> d | Some v \<Rightarrow> v))"
proof -
  have look: "map_of m (fst kv) = Some (snd kv)" if "kv \<in> set m" for kv
    using that kd by (simp add: keys_distinct_def)
  have "asum f m = (\<Sum>kv \<in> set m. f (snd kv))" using kd by (simp add: asum_def sum_list_map_set o_def)
  also have "\<dots> = (\<Sum>kv \<in> set m. f (case map_of m (fst kv) of None \<Rightarrow> d | Some v \<Rightarrow> v))"
    by (intro sum.cong) (simp_all add: look)
  also have "\<dots> = (\<Sum>k \<in> fst ` set m. f (case map_of m k of None \<Rightarrow> d | Some v \<Rightarrow> v))"
    using kd by (simp add: keys_distinct_def distinct_map sum.reindex)
  also have "\<dots> = (\<Sum>k \<in> H. f (case map_of m k of None \<Rightarrow> d | Some v \<Rightarrow> v))"
    using H d by (intro sum.mono_neutral_left) (auto simp: map_of_eq_None_iff [THEN iffD2])
  finally show ?thesis .
qed

lemma set_update_cases: "(k', v') \<in> set (AList.update k v m) \<Longrightarrow> (k', v') = (k, v) \<or> (k', v') \<in> set m"
  by (induction m) (auto split: if_splits)

lemma set_delete_subset: "set (AList.delete k m) \<subseteq> set m"
  by (auto simp: AList.delete_eq)

lemma fst_set_delete: "k \<notin> fst ` set (AList.delete k m)"
  by (auto simp: AList.delete_eq)

end
