(* ===== verification/RelayStore.thy ===== *)
theory RelayStore
  imports Prelude
begin

text \<open>
  The relay's mailbox store, \<open>core/src/relay_client/mod.rs\<close>: the protocol's requests and
  responses, the resource limits, \<open>StoreInner\<close> with \<open>drain_handle_bounded\<close>, and \<open>process\<close>
  with all seven requests, the reaper, and the dashboard snapshot. What comes from outside the
  repository is an argument: the base64 codec and the flow log's hash (record \<open>relay_env\<close>), the
  clock readings and the random tokens.
\<close>

section \<open>Limits and the protocol\<close>

record relay_limits =
  max_blob_bytes :: nat
  max_mailbox_blobs :: nat
  max_mailbox_bytes :: nat
  max_total_bytes :: nat
  small_blob_bytes :: nat
  small_reserve_bytes :: nat
  entry_overhead_bytes :: nat
  max_ttl :: duration
  max_line_bytes :: nat

definition MAX_BLOB_BYTES :: nat where
  "MAX_BLOB_BYTES = 150 * 1024 * 1024"

definition default_limits :: relay_limits where
  "default_limits =
     \<lparr>max_blob_bytes = MAX_BLOB_BYTES,
      max_mailbox_blobs = 256,
      max_mailbox_bytes = 256 * 1024 * 1024,
      max_total_bytes = 1024 * 1024 * 1024,
      small_blob_bytes = 64 * 1024,
      small_reserve_bytes = 128 * 1024 * 1024,
      entry_overhead_bytes = 512,
      max_ttl = secs (24 * 60 * 60),
      max_line_bytes = MAX_BLOB_BYTES div 3 * 4 + 4096\<rparr>"

definition MAX_TAKE_MANY :: nat where
  "MAX_TAKE_MANY = 64"

definition TAKE_BUDGET_BYTES :: nat where
  "TAKE_BUDGET_BYTES = 32 * 1024 * 1024"

definition MAX_RESPONSE_LINE_BYTES :: nat where
  "MAX_RESPONSE_LINE_BYTES = (TAKE_BUDGET_BYTES + MAX_BLOB_BYTES) div 3 * 4 + 8 * 1024 * 1024"

definition MAX_HANDLE_BYTES :: nat where
  "MAX_HANDLE_BYTES = 128"

datatype request =
    Post (post_handle: string) (post_blob: string) (post_ttl_secs: nat)
  | Peek string
  | Fetch string
  | Take string
  | TakeMany "string list"
  | Recall string string string
  | GetDirectory

record response =
  ok :: bool
  error :: "string option"
  blobs :: "string list"
  items :: "(string \<times> string) list"
  count :: nat
  resp_msg_id :: "string option"
  resp_delete_token :: "string option"
  directory :: "string option"

definition default_response :: response where
  "default_response =
     \<lparr>ok = False, error = None, blobs = [], items = [], count = 0,
      resp_msg_id = None, resp_delete_token = None, directory = None\<rparr>"

definition response_err :: "string \<Rightarrow> response" where
  "response_err msg = default_response\<lparr>ok := False, error := Some msg\<rparr>"

definition just_ok :: response where
  "just_ok = default_response\<lparr>ok := True\<rparr>"

text \<open>What the flow log sees of one operation.\<close>

record relay_event =
  ev_op :: string
  ev_handle :: string
  ev_msg_id :: "string option"
  ev_blob_len :: nat
  ev_blob_hash :: string
  ev_ttl_secs :: nat
  ev_queue_depth :: nat
  ev_result :: string

definition simple_ev :: "string \<Rightarrow> string \<Rightarrow> nat \<Rightarrow> string \<Rightarrow> relay_event" where
  "simple_ev op handle depth result =
     \<lparr>ev_op = op, ev_handle = handle, ev_msg_id = None, ev_blob_len = 0, ev_blob_hash = [],
      ev_ttl_secs = 0, ev_queue_depth = depth, ev_result = result\<rparr>"

text \<open>
  The library code the store calls: base64's standard alphabet, and the hasher behind the flow
  log's \<open>short_hash\<close> (the standard library's \<open>DefaultHasher\<close>).
\<close>

record relay_env =
  b64_encode :: "bytes \<Rightarrow> string"
  b64_decode :: "string \<Rightarrow> bytes option"
  default_hash :: "bytes \<Rightarrow> u64"

definition hex_digit :: "nat \<Rightarrow> char" where
  "hex_digit d = char_of (if d < 10 then 48 + d else 87 + d)"

definition short_hash :: "relay_env \<Rightarrow> bytes \<Rightarrow> string" where
  "short_hash env bs =
     (let h = unat (default_hash env bs) mod 2 ^ 16
      in map (\<lambda>i. hex_digit (h div 16 ^ i mod 16)) [3, 2, 1, 0])"

section \<open>The store\<close>

record stored =
  msg_id :: string
  delete_token :: string
  posted :: instant
  expiry :: instant
  expiry_unix :: nat
  blob_bytes :: bytes
  cost :: nat

record store =
  mailboxes :: "(string \<times> stored list) list"
  total_bytes :: nat
  dirty :: bool
  last_flush :: "instant option"

definition empty_store :: store where
  "empty_store = \<lparr>mailboxes = [], total_bytes = 0, dirty = False, last_flush = None\<rparr>"

definition is_handle_char :: "char \<Rightarrow> bool" where
  "is_handle_char c =
     (let n = of_char c :: nat in
      (48 \<le> n \<and> n \<le> 57) \<or> (65 \<le> n \<and> n \<le> 90) \<or> (97 \<le> n \<and> n \<le> 122) \<or>
      c = CHR '':'' \<or> c = CHR ''_'' \<or> c = CHR ''-'' \<or> c = CHR ''.'')"

definition valid_handle :: "string \<Rightarrow> bool" where
  "valid_handle handle =
     (1 \<le> length handle \<and> length handle \<le> MAX_HANDLE_BYTES \<and> list_all is_handle_char handle)"

definition entry_cost :: "string \<Rightarrow> nat \<Rightarrow> nat \<Rightarrow> nat" where
  "entry_cost handle blob_len overhead = blob_len + length handle + overhead"

text \<open>\<open>TakeBudget\<close>: what one draining response may still carry.\<close>

record take_budget =
  room :: nat
  is_first :: bool

definition default_budget :: take_budget where
  "default_budget = \<lparr>room = TAKE_BUDGET_BYTES, is_first = True\<rparr>"

definition admit_blob :: "take_budget \<Rightarrow> nat \<Rightarrow> bool \<times> take_budget" where
  "admit_blob b len =
     (if \<not> is_first b \<and> room b < len then (False, b)
      else (True, b\<lparr>is_first := False, room := room b - len\<rparr>))"

text \<open>
  The loop of \<open>drain_handle_bounded\<close> over one queue: the blobs taken, the cost freed, what stays
  queued, and the budget left.
\<close>

fun drain_queue ::
  "take_budget \<Rightarrow> instant \<Rightarrow> stored list \<Rightarrow> stored list \<times> nat \<times> stored list \<times> take_budget" where
  "drain_queue b now [] = ([], 0, [], b)"
| "drain_queue b now (s # q) =
     (if expiry s \<le> now
      then (let (taken, freed, rest, b') = drain_queue b now q in (taken, freed + cost s, rest, b'))
      else (case admit_blob b (length (blob_bytes s)) of
              (False, _) \<Rightarrow> ([], 0, s # q, b)
            | (True, b1) \<Rightarrow>
                (let (taken, freed, rest, b') = drain_queue b1 now q
                 in (s # taken, freed + cost s, rest, b'))))"

definition drain_handle_bounded ::
  "string \<Rightarrow> take_budget \<Rightarrow> instant \<Rightarrow> store \<Rightarrow> stored list \<times> take_budget \<times> store" where
  "drain_handle_bounded handle b now st =
     (case map_of (mailboxes st) handle of
        None \<Rightarrow> ([], b, st)
      | Some queue \<Rightarrow>
          (let (taken, freed, rest, b') = drain_queue b now queue;
               m = (if rest = [] then AList.delete handle (mailboxes st)
                    else AList.update handle rest (mailboxes st))
           in (taken, b', st\<lparr>mailboxes := m, total_bytes := total_bytes st - freed,
                              dirty := dirty st \<or> 0 < freed\<rparr>)))"

fun drain_many ::
  "string list \<Rightarrow> take_budget \<Rightarrow> instant \<Rightarrow> store \<Rightarrow> stored list \<times> take_budget \<times> store" where
  "drain_many [] b now st = ([], b, st)"
| "drain_many (h # hs) b now st =
     (let (t1, b1, st1) = drain_handle_bounded h b now st;
          (t2, b2, st2) = drain_many hs b1 now st1
      in (t1 @ t2, b2, st2))"

definition depth_of :: "store \<Rightarrow> string \<Rightarrow> nat" where
  "depth_of st h = (case map_of (mailboxes st) h of None \<Rightarrow> 0 | Some q \<Rightarrow> length q)"

section \<open>Requests\<close>

text \<open>The resource limits a post must pass, in the code's order: the reason it is refused, if any.\<close>

definition post_reject :: "relay_limits \<Rightarrow> store \<Rightarrow> string \<Rightarrow> nat \<Rightarrow> string option" where
  "post_reject lim st handle len =
     (let c = entry_cost handle len (entry_overhead_bytes lim) in
      if max_blob_bytes lim < len then Some ''blob too large''
      else if max_total_bytes lim < total_bytes st + c then Some ''relay full''
      else if small_blob_bytes lim < len \<and>
              max_total_bytes lim - small_reserve_bytes lim < total_bytes st + c
           then Some ''relay full''
      else (let q = (case map_of (mailboxes st) handle of None \<Rightarrow> [] | Some q \<Rightarrow> q);
                depth = length q;
                q_bytes = sum_list (map (length \<circ> blob_bytes) q)
            in if max_mailbox_blobs lim \<le> depth \<or> max_mailbox_bytes lim < q_bytes + len
               then Some ''mailbox full'' else None))"

text \<open>\<open>entry(handle).or_default().push(s)\<close>.\<close>

definition push_stored :: "string \<Rightarrow> stored \<Rightarrow> store \<Rightarrow> store" where
  "push_stored handle s st =
     (let q = (case map_of (mailboxes st) handle of None \<Rightarrow> [] | Some q \<Rightarrow> q)
      in st\<lparr>mailboxes := AList.update handle (q @ [s]) (mailboxes st)\<rparr>)"

definition process_post ::
  "relay_env \<Rightarrow> relay_limits \<Rightarrow> instant \<Rightarrow> nat \<Rightarrow> string \<times> string \<Rightarrow>
   string \<Rightarrow> string \<Rightarrow> nat \<Rightarrow> store \<Rightarrow> response \<times> relay_event \<times> store" where
  "process_post env lim now now_u toks handle blob ttl_secs st =
     (let ev = \<lparr>ev_op = ''POST'', ev_handle = handle, ev_msg_id = None, ev_blob_len = 0,
                ev_blob_hash = [], ev_ttl_secs = ttl_secs, ev_queue_depth = 0, ev_result = []\<rparr>
      in case b64_decode env blob of
        None \<Rightarrow> (response_err ''bad blob'', ev\<lparr>ev_result := ''bad blob''\<rparr>, st)
      | Some bs \<Rightarrow>
          (let ev = ev\<lparr>ev_blob_len := length bs, ev_blob_hash := short_hash env bs\<rparr> in
           if \<not> valid_handle handle
           then (response_err ''bad handle'', ev\<lparr>ev_result := ''rejected: bad handle''\<rparr>, st)
           else (case post_reject lim st handle (length bs) of
              Some reason \<Rightarrow>
                (response_err reason,
                 ev\<lparr>ev_queue_depth := depth_of st handle, ev_result := ''rejected: '' @ reason\<rparr>, st)
            | None \<Rightarrow>
                (let c = entry_cost handle (length bs) (entry_overhead_bytes lim);
                     ttl = min (secs ttl_secs) (max_ttl lim);
                     s = \<lparr>msg_id = fst toks, delete_token = snd toks, posted = now,
                          expiry = now + ttl, expiry_unix = now_u + as_secs ttl,
                          blob_bytes = bs, cost = c\<rparr>;
                     st' = push_stored handle s (st\<lparr>total_bytes := total_bytes st + c\<rparr>)\<lparr>dirty := True\<rparr>
                 in (default_response\<lparr>ok := True, resp_msg_id := Some (fst toks),
                                      resp_delete_token := Some (snd toks)\<rparr>,
                     ev\<lparr>ev_msg_id := Some (fst toks), ev_queue_depth := depth_of st' handle,
                        ev_result := ''ok''\<rparr>, st')))))"

definition process_peek :: "instant \<Rightarrow> string \<Rightarrow> store \<Rightarrow> response \<times> relay_event \<times> store" where
  "process_peek now handle st =
     (let n = (case map_of (mailboxes st) handle of None \<Rightarrow> 0
               | Some q \<Rightarrow> length (filter (\<lambda>s. now < expiry s) q))
      in (default_response\<lparr>ok := True, count := n\<rparr>,
          simple_ev ''PEEK'' handle (depth_of st handle) (''count='' @ dec n), st))"

definition process_fetch ::
  "relay_env \<Rightarrow> instant \<Rightarrow> string \<Rightarrow> store \<Rightarrow> response \<times> relay_event \<times> store" where
  "process_fetch env now handle st =
     (let (taken, _, st') = drain_handle_bounded handle default_budget now st;
          its = map (\<lambda>s. (msg_id s, b64_encode env (blob_bytes s))) taken
      in (default_response\<lparr>ok := True, items := its\<rparr>,
          simple_ev ''FETCH'' handle 0 (dec (length its) @ '' items''), st'))"

definition process_take_many ::
  "relay_env \<Rightarrow> instant \<Rightarrow> string list \<Rightarrow> store \<Rightarrow> response \<times> relay_event \<times> store" where
  "process_take_many env now handles st =
     (if MAX_TAKE_MANY < length handles
      then (response_err (''at most '' @ dec MAX_TAKE_MANY @ '' handles''),
            simple_ev ''TAKE_MANY'' ''-'' 0 ''refused: too many handles'', st)
      else (let (taken, _, st') = drain_many handles default_budget now st;
                bl = map (b64_encode env \<circ> blob_bytes) taken
            in (default_response\<lparr>ok := True, blobs := bl\<rparr>,
                simple_ev ''TAKE_MANY'' (case handles of [] \<Rightarrow> ''-'' | h # _ \<Rightarrow> h) 0
                  (dec (length handles) @ '' handles, '' @ dec (length bl) @ '' blobs''), st')))"

definition process_take ::
  "relay_env \<Rightarrow> instant \<Rightarrow> string \<Rightarrow> store \<Rightarrow> response \<times> relay_event \<times> store" where
  "process_take env now handle st =
     (let (taken, _, st') = drain_handle_bounded handle default_budget now st;
          bl = map (b64_encode env \<circ> blob_bytes) taken
      in (default_response\<lparr>ok := True, blobs := bl\<rparr>,
          simple_ev ''TAKE'' handle 0 (dec (length bl) @ '' blobs''), st'))"

definition recall_hit :: "string \<Rightarrow> string \<Rightarrow> stored \<Rightarrow> bool" where
  "recall_hit mid tok s = (msg_id s = mid \<and> delete_token s = tok)"

definition process_recall ::
  "string \<Rightarrow> string \<Rightarrow> string \<Rightarrow> store \<Rightarrow> response \<times> relay_event \<times> store" where
  "process_recall handle mid tok st =
     (let (removed, freed, m) =
            (case map_of (mailboxes st) handle of
               None \<Rightarrow> (False, 0, mailboxes st)
             | Some queue \<Rightarrow>
                 (let q = filter (\<lambda>s. \<not> recall_hit mid tok s) queue
                  in (length q \<noteq> length queue,
                      sum_list (map cost (filter (recall_hit mid tok) queue)),
                      if q = [] then AList.delete handle (mailboxes st)
                      else AList.update handle q (mailboxes st))));
          st' = st\<lparr>mailboxes := m, total_bytes := total_bytes st - freed, dirty := dirty st \<or> removed\<rparr>;
          ev = (simple_ev ''RECALL'' handle (depth_of st' handle)
                 (if removed then ''removed'' else ''not found''))\<lparr>ev_msg_id := Some mid\<rparr>
      in (if removed then just_ok else response_err ''not found'', ev, st'))"

definition process_get_directory ::
  "string option \<Rightarrow> store \<Rightarrow> response \<times> relay_event \<times> store" where
  "process_get_directory dir st =
     (default_response\<lparr>ok := True, directory := dir\<rparr>,
      simple_ev ''DIRECTORY'' ''-'' 0 (if dir \<noteq> None then ''served'' else ''none''), st)"

fun process ::
  "relay_env \<Rightarrow> relay_limits \<Rightarrow> string option \<Rightarrow> instant \<Rightarrow> nat \<Rightarrow> string \<times> string \<Rightarrow>
   request \<Rightarrow> store \<Rightarrow> response \<times> relay_event \<times> store" where
  "process env lim dir now now_u toks (Post h b t) st = process_post env lim now now_u toks h b t st"
| "process env lim dir now now_u toks (Peek h) st = process_peek now h st"
| "process env lim dir now now_u toks (Fetch h) st = process_fetch env now h st"
| "process env lim dir now now_u toks (TakeMany hs) st = process_take_many env now hs st"
| "process env lim dir now now_u toks (Take h) st = process_take env now h st"
| "process env lim dir now now_u toks (Recall h m t) st = process_recall h m t st"
| "process env lim dir now now_u toks GetDirectory st = process_get_directory dir st"

section \<open>The reaper and the dashboard\<close>

text \<open>One sweep of \<open>spawn_reaper\<close>: the store after it, and the \<open>REAP\<close> events.\<close>

definition reap :: "instant \<Rightarrow> store \<Rightarrow> store" where
  "reap now st =
     (let kept = map (\<lambda>hq. (fst hq, filter (\<lambda>s. now < expiry s) (snd hq))) (mailboxes st);
          freed = asum (\<lambda>q. sum_list (map cost (filter (\<lambda>s. \<not> now < expiry s) q))) (mailboxes st)
      in st\<lparr>mailboxes := filter (\<lambda>hq. snd hq \<noteq> []) kept,
            total_bytes := total_bytes st - freed,
            dirty := dirty st \<or> 0 < freed\<rparr>)"

definition reap_events :: "instant \<Rightarrow> store \<Rightarrow> relay_event list" where
  "reap_events now st =
     [simple_ev ''REAP'' h (length kept) (''dropped='' @ dec (length q - length kept)).
        (h, q) \<leftarrow> mailboxes st, kept \<leftarrow> [filter (\<lambda>s. now < expiry s) q], length kept < length q]"

record mailbox_stat =
  stat_handle :: string
  stat_depth :: nat
  stat_oldest_age_secs :: nat
  stat_total_bytes :: nat

definition snapshot :: "instant \<Rightarrow> store \<Rightarrow> mailbox_stat list" where
  "snapshot now st =
     sort_key (\<lambda>m. - int (stat_depth m))
       [\<lparr>stat_handle = h, stat_depth = length q,
         stat_oldest_age_secs = foldr max (map (\<lambda>s. as_secs (now - posted s)) q) 0,
         stat_total_bytes = sum_list (map (length \<circ> blob_bytes) q)\<rparr>.
        (h, q) \<leftarrow> mailboxes st, q \<noteq> []]"

end
