(* ===== verification/RelayInv.thy ===== *)
theory RelayInv
  imports RelayStore
begin

text \<open>
  The relay store's invariant, kept by every request and by the reaper: one queue per handle and
  no empty one, the running byte total equal to the sum of the entries' costs, every resource
  limit respected, and no blob kept past the advertised TTL. The lemmas on \<open>drain_queue\<close> say what
  a draining request takes: a prefix of the queue, its live blobs returned in order.
\<close>

section \<open>Queues\<close>

definition queue_cost :: "stored list \<Rightarrow> nat" where
  "queue_cost q = sum_list (map cost q)"

definition queue_bytes :: "stored list \<Rightarrow> nat" where
  "queue_bytes q = sum_list (map (length \<circ> blob_bytes) q)"

definition queued :: "store \<Rightarrow> string \<Rightarrow> stored list" where
  "queued st h = (case map_of (mailboxes st) h of None \<Rightarrow> [] | Some q \<Rightarrow> q)"

definition is_live :: "instant \<Rightarrow> stored \<Rightarrow> bool" where
  "is_live now s = (now < expiry s)"

lemma queue_cost_simps [simp]:
  "queue_cost [] = 0" "queue_cost (s # q) = cost s + queue_cost q"
  "queue_cost (q @ q') = queue_cost q + queue_cost q'"
  by (simp_all add: queue_cost_def)

lemma queue_bytes_simps [simp]:
  "queue_bytes [] = 0" "queue_bytes (s # q) = length (blob_bytes s) + queue_bytes q"
  "queue_bytes (q @ q') = queue_bytes q + queue_bytes q'"
  by (simp_all add: queue_bytes_def)

lemma queue_cost_filter: "queue_cost (filter P q) + queue_cost (filter (\<lambda>s. \<not> P s) q) = queue_cost q"
  by (induction q) auto

lemma queue_bytes_filter_le: "queue_bytes (filter P q) \<le> queue_bytes q"
  by (induction q) auto

section \<open>The drain loop\<close>

lemma drain_queue_split:
  "drain_queue b now q = (taken, freed, rest, b') \<Longrightarrow>
   \<exists>pre. q = pre @ rest \<and> taken = filter (is_live now) pre \<and> freed = queue_cost pre"
proof (induction b now q arbitrary: taken freed rest b' rule: drain_queue.induct)
  case (1 b now)
  then show ?case by simp
next
  case (2 b now s q)
  show ?case
  proof (cases "expiry s \<le> now")
    case True
    with "2.prems" obtain f where
      "drain_queue b now q = (taken, f, rest, b')" and "freed = f + cost s"
      by (auto split: prod.splits)
    with "2.IH"(1) True obtain pre where
      "q = pre @ rest" "taken = filter (is_live now) pre" "f = queue_cost pre" by blast
    moreover from True have "\<not> is_live now s" by (simp add: is_live_def)
    ultimately show ?thesis using \<open>freed = f + cost s\<close>
      by (intro exI [of _ "s # pre"]) simp
  next
    case live: False
    show ?thesis
    proof (cases "admit_blob b (length (blob_bytes s))")
      case (Pair yes b1)
      show ?thesis
      proof (cases yes)
        case False
        with Pair live "2.prems" show ?thesis by simp
      next
        case True
        then have y: "yes = True" by simp
        with Pair live "2.prems" obtain t f where
          rec: "drain_queue b1 now q = (t, f, rest, b')" and "taken = s # t" "freed = f + cost s"
          by (auto split: prod.splits)
        moreover from "2.IH"(2) [OF live Pair [symmetric] y rec] obtain pre where
          "q = pre @ rest" "t = filter (is_live now) pre" "f = queue_cost pre" by auto
        moreover from live have "is_live now s" by (simp add: is_live_def)
        ultimately show ?thesis
          by (intro exI [of _ "s # pre"]) simp
      qed
    qed
  qed
qed

text \<open>What the budget lets through: after the first blob, no more bytes than the room left.\<close>

lemma drain_queue_budget:
  "drain_queue b now q = (taken, freed, rest, b') \<Longrightarrow>
   (if is_first b \<and> taken \<noteq> [] then queue_bytes (tl taken) \<le> room b - length (blob_bytes (hd taken))
    else queue_bytes taken \<le> room b)
   \<and> room b' = room b - queue_bytes taken \<and> is_first b' = (is_first b \<and> taken = [])"
proof (induction b now q arbitrary: taken freed rest b' rule: drain_queue.induct)
  case (1 b now)
  then show ?case by simp
next
  case (2 b now s q)
  show ?case
  proof (cases "expiry s \<le> now")
    case True
    with "2.prems" obtain f where "drain_queue b now q = (taken, f, rest, b')"
      by (auto split: prod.splits)
    with "2.IH"(1) True show ?thesis by blast
  next
    case live: False
    show ?thesis
    proof (cases "\<not> is_first b \<and> room b < length (blob_bytes s)")
      case True
      with live "2.prems" show ?thesis by (auto simp: admit_blob_def)
    next
      case False
      let ?b = "b\<lparr>is_first := False, room := room b - length (blob_bytes s)\<rparr>"
      have ad: "admit_blob b (length (blob_bytes s)) = (True, ?b)"
        using False by (auto simp: admit_blob_def)
      with live "2.prems" obtain t f where
        rec: "drain_queue ?b now q = (t, f, rest, b')" and t: "taken = s # t"
        by (auto split: prod.splits)
      with "2.IH"(2) [OF live ad [symmetric] refl rec] have
        "queue_bytes t \<le> room b - length (blob_bytes s)"
        "room b' = room b - length (blob_bytes s) - queue_bytes t" "\<not> is_first b'"
        by auto
      with t False show ?thesis by auto
    qed
  qed
qed

lemma drain_queue_stop:
  "drain_queue b now q = (taken, freed, rest, b') \<Longrightarrow>
   rest = [] \<or> (is_live now (hd rest) \<and> room b' < length (blob_bytes (hd rest)) \<and> \<not> is_first b')"
proof (induction b now q arbitrary: taken freed rest b' rule: drain_queue.induct)
  case (1 b now)
  then show ?case by simp
next
  case (2 b now s q)
  show ?case
  proof (cases "expiry s \<le> now")
    case True
    with "2.prems" obtain f where "drain_queue b now q = (taken, f, rest, b')"
      by (auto split: prod.splits)
    with "2.IH"(1) True show ?thesis by blast
  next
    case live: False
    show ?thesis
    proof (cases "admit_blob b (length (blob_bytes s))")
      case (Pair yes b1)
      show ?thesis
      proof (cases yes)
        case False
        with Pair live "2.prems" show ?thesis
          by (auto simp: is_live_def admit_blob_def split: if_splits)
      next
        case True
        then have y: "yes = True" by simp
        with Pair live "2.prems" obtain t f where "drain_queue b1 now q = (t, f, rest, b')"
          by (auto split: prod.splits)
        from "2.IH"(2) [OF live Pair [symmetric] y this] show ?thesis .
      qed
    qed
  qed
qed

section \<open>The invariant\<close>

definition stored_ok :: "relay_limits \<Rightarrow> string \<Rightarrow> stored \<Rightarrow> bool" where
  "stored_ok lim h s =
     (length (blob_bytes s) \<le> max_blob_bytes lim \<and>
      cost s = entry_cost h (length (blob_bytes s)) (entry_overhead_bytes lim) \<and>
      posted s \<le> expiry s \<and> expiry s \<le> posted s + max_ttl lim)"

definition mailbox_ok :: "relay_limits \<Rightarrow> string \<Rightarrow> stored list \<Rightarrow> bool" where
  "mailbox_ok lim h q =
     (q \<noteq> [] \<and> valid_handle h \<and> length q \<le> max_mailbox_blobs lim \<and>
      queue_bytes q \<le> max_mailbox_bytes lim \<and> list_all (stored_ok lim h) q)"

definition store_inv :: "relay_limits \<Rightarrow> store \<Rightarrow> bool" where
  "store_inv lim st =
     (keys_distinct (mailboxes st) \<and>
      total_bytes st = asum queue_cost (mailboxes st) \<and>
      total_bytes st \<le> max_total_bytes lim \<and>
      list_all (\<lambda>(h, q). mailbox_ok lim h q) (mailboxes st))"

lemma store_inv_empty [store_inv_intros]: "store_inv lim empty_store"
  by (simp add: store_inv_def empty_store_def)

lemma mailbox_ok_sub:
  assumes "mailbox_ok lim h q" "q' \<noteq> []" "set q' \<subseteq> set q" "length q' \<le> length q"
    "queue_bytes q' \<le> queue_bytes q"
  shows "mailbox_ok lim h q'"
  using assms by (auto simp: mailbox_ok_def list_all_iff)

lemma store_inv_lookup: "store_inv lim st \<Longrightarrow> map_of (mailboxes st) h = Some q \<Longrightarrow> mailbox_ok lim h q"
  by (auto simp: store_inv_def list_all_iff dest!: map_of_SomeD)

lemma queued_ok: "store_inv lim st \<Longrightarrow> queued st h \<noteq> [] \<Longrightarrow> mailbox_ok lim h (queued st h)"
  by (auto simp: queued_def dest: store_inv_lookup split: option.splits)

text \<open>
  Replacing one queue: dropping it, or putting another well-formed one in its place, keeps the
  invariant when the total moves by the difference of the costs.
\<close>

lemma store_inv_replace:
  assumes inv: "store_inv lim st"
    and q': "q' = [] \<or> mailbox_ok lim h q'"
    and total: "t + queue_cost (queued st h) = total_bytes st + queue_cost q'"
    and le: "t \<le> max_total_bytes lim"
    and m: "m = (if q' = [] then AList.delete h (mailboxes st) else AList.update h q' (mailboxes st))"
  shows "store_inv lim (st\<lparr>mailboxes := m, total_bytes := t, dirty := d\<rparr>)"
proof -
  have kd: "keys_distinct (mailboxes st)" and tot: "total_bytes st = asum queue_cost (mailboxes st)"
    using inv by (auto simp: store_inv_def)
  have "asum queue_cost m + queue_cost (queued st h) = asum queue_cost (mailboxes st) + queue_cost q'"
    using asum_update [OF kd, of queue_cost h q'] asum_delete [OF kd, of queue_cost h] m
    by (auto simp: queued_def split: option.splits)
  with total tot have "t = asum queue_cost m" by simp
  moreover have "list_all (\<lambda>(h, q). mailbox_ok lim h q) m"
    using inv q' set_delete_subset [of h "mailboxes st"] m
    by (auto simp: store_inv_def list_all_iff dest!: set_update_cases)
  moreover have "keys_distinct m" using kd m by simp
  ultimately show ?thesis using le by (simp add: store_inv_def)
qed

section \<open>What each operation does to the queues\<close>

lemma map_of_replace:
  "keys_distinct m \<Longrightarrow> map_of (AList.update h q m) h' = (if h' = h then Some q else map_of m h')"
  by (simp add: update_conv')

lemma map_of_delete: "map_of (AList.delete h m) h' = (if h' = h then None else map_of m h')"
  by (simp add: delete_conv')

text \<open>
  \<open>drain_handle_bounded\<close> in one statement: the queue is a prefix taken and a rest kept, the
  other queues and the flush clock are untouched, and the total goes down by what left.
\<close>

lemma drain_handle_bounded_queued:
  assumes inv: "store_inv lim st" and dr: "drain_handle_bounded h b now st = (taken, b', st')"
  obtains pre where
    "queued st h = pre @ queued st' h" "taken = filter (is_live now) pre"
    "\<And>h'. h' \<noteq> h \<Longrightarrow> queued st' h' = queued st h'"
    "total_bytes st = total_bytes st' + queue_cost pre"
    "queued st' h = [] \<or> (is_live now (hd (queued st' h)) \<and> room b' < length (blob_bytes (hd (queued st' h))) \<and> \<not> is_first b')"
    "store_inv lim st'" "last_flush st' = last_flush st"
    "dirty st' = (dirty st \<or> 0 < queue_cost pre)"
    "pre = [] \<Longrightarrow> mailboxes st' = mailboxes st"
proof (cases "map_of (mailboxes st) h")
  case None
  with dr have "taken = []" "st' = st" by (auto simp: drain_handle_bounded_def)
  with None inv that [of "[]"] show ?thesis by (auto simp: queued_def)
next
  case (Some q)
  from dr Some obtain freed rest where
    dq: "drain_queue b now q = (taken, freed, rest, b')" and
    st': "st' = st\<lparr>mailboxes := (if rest = [] then AList.delete h (mailboxes st) else AList.update h rest (mailboxes st)),
             total_bytes := total_bytes st - freed, dirty := dirty st \<or> 0 < freed\<rparr>"
    by (auto simp: drain_handle_bounded_def Let_def split: prod.splits)
  from drain_queue_split [OF dq] obtain pre where
    pre: "q = pre @ rest" "taken = filter (is_live now) pre" "freed = queue_cost pre" by blast
  have kd: "keys_distinct (mailboxes st)" using inv by (simp add: store_inv_def)
  have qh: "queued st h = q" using Some by (simp add: queued_def)
  have rest: "queued st' h = rest" and other: "\<And>h'. h' \<noteq> h \<Longrightarrow> queued st' h' = queued st h'"
    using kd by (auto simp: st' queued_def map_of_replace map_of_delete)
  have ok: "mailbox_ok lim h q" using inv Some by (rule store_inv_lookup)
  have tot: "queue_cost q \<le> total_bytes st"
    using asum_delete [OF kd, of queue_cost h] Some inv by (simp add: store_inv_def)
  have "rest = [] \<or> mailbox_ok lim h rest"
    using ok pre(1) by (auto intro: mailbox_ok_sub)
  then have inv': "store_inv lim st'"
    unfolding st' using inv tot pre qh
    by (intro store_inv_replace [where h = h and q' = rest]) (auto simp: store_inv_def)
  have same: "mailboxes st' = mailboxes st" if "pre = []"
  proof -
    have "rest = q" "rest \<noteq> []" using that pre(1) ok by (auto simp: mailbox_ok_def)
    with Some show ?thesis by (simp add: st' update_triv)
  qed
  show ?thesis
    by (rule that [of pre])
      (use pre qh rest other tot inv' same drain_queue_stop [OF dq] in \<open>auto simp: st'\<close>)
qed

lemma drain_queue_inv [store_inv_intros]:
  "store_inv lim st \<Longrightarrow> drain_handle_bounded h b now st = (taken, b', st') \<Longrightarrow> store_inv lim st'"
  by (rule drain_handle_bounded_queued)

lemma drain_many_inv [store_inv_intros]:
  "store_inv lim st \<Longrightarrow> drain_many hs b now st = (taken, b', st') \<Longrightarrow> store_inv lim st'"
proof (induction hs b now st arbitrary: taken b' st' rule: drain_many.induct)
  case (1 b now st)
  then show ?case by simp
next
  case (2 h hs b now st)
  from "2.prems"(2) obtain t1 b1 st1 t2 where
    1: "drain_handle_bounded h b now st = (t1, b1, st1)" and 2: "drain_many hs b1 now st1 = (t2, b', st')"
    by (auto split: prod.splits)
  from "2.prems"(1) 1 have "store_inv lim st1" by (rule drain_queue_inv)
  from "2.IH" [OF 1 [symmetric] refl refl this 2] show ?case .
qed

text \<open>A post: refused with the store untouched, or one blob appended to the named queue.\<close>

definition new_stored ::
  "relay_limits \<Rightarrow> instant \<Rightarrow> nat \<Rightarrow> string \<times> string \<Rightarrow> string \<Rightarrow> bytes \<Rightarrow> nat \<Rightarrow> stored" where
  "new_stored lim now now_u toks h bs ttl_secs =
     (let ttl = min (secs ttl_secs) (max_ttl lim)
      in \<lparr>msg_id = fst toks, delete_token = snd toks, posted = now, expiry = now + ttl,
          expiry_unix = now_u + as_secs ttl, blob_bytes = bs,
          cost = entry_cost h (length bs) (entry_overhead_bytes lim)\<rparr>)"

lemma process_post_cases:
  assumes "process_post env lim now now_u toks h b t st = (r, ev, st')"
  obtains (refused) reason where "r = response_err reason" "st' = st"
  | (accepted) bs where
      "b64_decode env b = Some bs" "valid_handle h" "post_reject lim st h (length bs) = None"
      "ok r" "resp_msg_id r = Some (fst toks)" "resp_delete_token r = Some (snd toks)"
      "st' = st\<lparr>mailboxes := AList.update h (queued st h @ [new_stored lim now now_u toks h bs t]) (mailboxes st),
               total_bytes := total_bytes st + entry_cost h (length bs) (entry_overhead_bytes lim),
               dirty := True\<rparr>"
  using assms
  by (auto simp: process_post_def Let_def push_stored_def queued_def new_stored_def default_response_def
      split: option.splits if_splits)

lemma process_post_inv [store_inv_intros]:
  assumes inv: "store_inv lim st" and p: "process_post env lim now now_u toks h b t st = (r, ev, st')"
  shows "store_inv lim st'"
  using p
proof (cases rule: process_post_cases)
  case refused
  with inv show ?thesis by simp
next
  case (accepted bs)
  let ?s = "new_stored lim now now_u toks h bs t"
  let ?q = "queued st h @ [?s]"
  have pr: "length bs \<le> max_blob_bytes lim"
    "total_bytes st + entry_cost h (length bs) (entry_overhead_bytes lim) \<le> max_total_bytes lim"
    "length (queued st h) < max_mailbox_blobs lim"
    "queue_bytes (queued st h) + length bs \<le> max_mailbox_bytes lim"
    using accepted(3) by (auto simp: post_reject_def Let_def queued_def queue_bytes_def split: if_splits)
  have "stored_ok lim h ?s"
    using pr(1) by (simp add: stored_ok_def new_stored_def Let_def)
  moreover have "list_all (stored_ok lim h) (queued st h)"
    using queued_ok [OF inv, of h] by (cases "queued st h = []") (auto simp: mailbox_ok_def)
  ultimately have "mailbox_ok lim h ?q"
    using pr accepted(2) by (simp add: mailbox_ok_def new_stored_def Let_def)
  moreover have "cost ?s = entry_cost h (length bs) (entry_overhead_bytes lim)"
    by (simp add: new_stored_def Let_def)
  ultimately show ?thesis
    unfolding accepted(7) using inv pr(2)
    by (intro store_inv_replace [where h = h and q' = ?q]) simp_all
qed

text \<open>A recall: only blobs whose id and token both match leave, and only from the named queue.\<close>

lemma process_recall_queued:
  assumes inv: "store_inv lim st" and p: "process_recall h mid tok st = (r, ev, st')"
  shows "queued st' h = filter (\<lambda>s. \<not> recall_hit mid tok s) (queued st h)"
    and "\<And>h'. h' \<noteq> h \<Longrightarrow> queued st' h' = queued st h'"
    and "store_inv lim st'" and "last_flush st' = last_flush st"
    and "ok r \<longleftrightarrow> (\<exists>s \<in> set (queued st h). recall_hit mid tok s)"
    and "\<not> ok r \<Longrightarrow> st' = st" and "dirty st' = (dirty st \<or> ok r)"
proof -
  let ?Q = "queued st h" and ?q = "filter (\<lambda>s. \<not> recall_hit mid tok s) (queued st h)"
  let ?f = "queue_cost (filter (recall_hit mid tok) ?Q)"
  have kd: "keys_distinct (mailboxes st)" using inv by (simp add: store_inv_def)
  have len: "length ?q \<noteq> length ?Q \<longleftrightarrow> (\<exists>s \<in> set ?Q. recall_hit mid tok s)"
  proof
    assume "length ?q \<noteq> length ?Q"
    then show "\<exists>s \<in> set ?Q. recall_hit mid tok s"
      by (metis (mono_tags, lifting) filter_True)
  next
    assume "\<exists>s \<in> set ?Q. recall_hit mid tok s"
    then show "length ?q \<noteq> length ?Q"
      using length_filter_less [of _ ?Q "\<lambda>s. \<not> recall_hit mid tok s"] by fastforce
  qed
  let ?m = "if ?q = [] then AList.delete h (mailboxes st) else AList.update h ?q (mailboxes st)"
  have form: "st' = st\<lparr>mailboxes := (if ?q = [] then AList.delete h (mailboxes st) else AList.update h ?q (mailboxes st)),
      total_bytes := total_bytes st - ?f, dirty := dirty st \<or> ok r\<rparr>
      \<and> (ok r \<longleftrightarrow> length ?q \<noteq> length ?Q)"
  proof (cases "map_of (mailboxes st) h")
    case None
    then have "h \<notin> fst ` set (mailboxes st)" by (simp add: map_of_eq_None_iff)
    with None p show ?thesis
      by (auto simp: process_recall_def Let_def queued_def delete_absent response_err_def default_response_def)
  next
    case (Some q)
    with p show ?thesis
      by (auto simp: process_recall_def Let_def queued_def queue_cost_def just_ok_def
          response_err_def default_response_def)
  qed
  have tot: "queue_cost ?Q \<le> total_bytes st"
    using asum_delete [OF kd, of queue_cost h] inv
    by (auto simp: store_inv_def queued_def split: option.splits)
  show "queued st' h = ?q" "\<And>h'. h' \<noteq> h \<Longrightarrow> queued st' h' = queued st h'"
    using form kd by (auto simp: queued_def map_of_replace map_of_delete)
  have "?q = [] \<or> mailbox_ok lim h ?q"
    using queued_ok [OF inv, of h]
    by (cases "?Q = []") (auto intro!: mailbox_ok_sub [where q = ?Q] simp: queue_bytes_filter_le)
  then have "store_inv lim (st\<lparr>mailboxes := ?m, total_bytes := total_bytes st - ?f, dirty := dirty st \<or> ok r\<rparr>)"
    using tot queue_cost_filter [of "recall_hit mid tok" ?Q] inv
    by (intro store_inv_replace [OF inv, where h = h and q' = ?q]) (auto simp: store_inv_def)
  with form show "store_inv lim st'" by (simp only: conj_commute)
  show "last_flush st' = last_flush st" "dirty st' = (dirty st \<or> ok r)" using form by auto
  show "ok r \<longleftrightarrow> (\<exists>s \<in> set ?Q. recall_hit mid tok s)" using form len by simp
  show "st' = st" if "\<not> ok r"
  proof -
    have "\<not> (\<exists>s \<in> set ?Q. recall_hit mid tok s)" using that form len by simp
    then have eq: "?q = ?Q" by (intro filter_True) blast
    then have "?f = 0" using queue_cost_filter [of "recall_hit mid tok" ?Q] by simp
    moreover have "(if ?q = [] then AList.delete h (mailboxes st) else AList.update h ?q (mailboxes st)) = mailboxes st"
    proof (cases "map_of (mailboxes st) h")
      case None
      then have "?Q = []" "h \<notin> fst ` set (mailboxes st)"
        by (simp_all add: queued_def) (simp add: map_of_eq_None_iff)
      then show ?thesis by (simp add: delete_absent)
    next
      case (Some q)
      then have "q \<noteq> []" using store_inv_lookup [OF inv] by (auto simp: mailbox_ok_def)
      with Some eq show ?thesis by (simp add: queued_def update_triv)
    qed
    ultimately show ?thesis using form that by simp
  qed
qed

text \<open>The reaper: each queue keeps exactly its live blobs.\<close>

lemma reap_queued:
  assumes inv: "store_inv lim st"
  shows "queued (reap now st) h = filter (is_live now) (queued st h)"
    and "store_inv lim (reap now st)"
    and "last_flush (reap now st) = last_flush st"
    and "dirty (reap now st) \<longleftrightarrow> dirty st \<or> total_bytes (reap now st) < total_bytes st"
proof -
  let ?keep = "\<lambda>q. filter (\<lambda>s. now < expiry s) q" and ?drop = "\<lambda>q. queue_cost (filter (\<lambda>s. \<not> now < expiry s) q)"
  let ?m = "filter (\<lambda>hq. snd hq \<noteq> []) (map (\<lambda>hq. (fst hq, ?keep (snd hq))) (mailboxes st))"
  have kd: "keys_distinct (mailboxes st)" and tot: "total_bytes st = asum queue_cost (mailboxes st)"
    using inv by (auto simp: store_inv_def)
  have rd: "reap now st = st\<lparr>mailboxes := ?m, total_bytes := total_bytes st - asum ?drop (mailboxes st),
              dirty := dirty st \<or> 0 < asum ?drop (mailboxes st)\<rparr>"
    by (simp add: reap_def Let_def queue_cost_def)
  have sum: "asum queue_cost ?m + asum ?drop (mailboxes st) = asum queue_cost (mailboxes st)"
    by (rule asum_filter_map [where g = ?keep]) (simp_all add: queue_cost_filter)
  have kd': "keys_distinct ?m"
    using kd by (rule keys_distinct_prune)
  have mem: "(k, q') \<in> set ?m \<longleftrightarrow> (\<exists>q. (k, q) \<in> set (mailboxes st) \<and> q' = ?keep q \<and> q' \<noteq> [])" for k q'
    by force
  show qd: "queued (reap now st) h = filter (is_live now) (queued st h)"
    unfolding rd by (simp add: queued_def map_of_prune [OF kd] is_live_def [abs_def] split: option.splits)
  have "list_all (\<lambda>(h, q). mailbox_ok lim h q) ?m"
    unfolding list_all_iff
  proof clarify
    fix k q' assume "(k, q') \<in> set ?m"
    then obtain q where q: "(k, q) \<in> set (mailboxes st)" "q' = ?keep q" "q' \<noteq> []"
      unfolding mem by blast
    then have "mailbox_ok lim k q" using inv by (auto simp: store_inv_def list_all_iff)
    with q show "mailbox_ok lim k q'"
      by (auto intro: mailbox_ok_sub simp: queue_bytes_filter_le)
  qed
  moreover have "total_bytes st - asum ?drop (mailboxes st) = asum queue_cost ?m"
    using sum tot by simp
  moreover have "total_bytes st - asum ?drop (mailboxes st) \<le> max_total_bytes lim"
    using inv unfolding store_inv_def by linarith
  ultimately show "store_inv lim (reap now st)"
    unfolding rd using kd' by (simp add: store_inv_def)
  show "last_flush (reap now st) = last_flush st" by (simp add: rd)
  show "dirty (reap now st) \<longleftrightarrow> dirty st \<or> total_bytes (reap now st) < total_bytes st"
    using sum tot by (auto simp: rd)
qed

section \<open>Runs of the service\<close>

text \<open>
  The store's lock makes requests and sweeps atomic, so what the service does is a sequence of
  them; each carries the clocks it read and the tokens it drew.
\<close>

datatype relay_op =
    Serve (op_now: instant) (op_unix: nat) (op_tokens: "string \<times> string") (op_request: request)
  | Sweep (op_now: instant)

fun apply_op :: "relay_env \<Rightarrow> relay_limits \<Rightarrow> string option \<Rightarrow> relay_op \<Rightarrow> store \<Rightarrow> store" where
  "apply_op env lim dir (Serve now now_u toks req) st = snd (snd (process env lim dir now now_u toks req st))"
| "apply_op env lim dir (Sweep now) st = reap now st"

definition run_ops :: "relay_env \<Rightarrow> relay_limits \<Rightarrow> string option \<Rightarrow> relay_op list \<Rightarrow> store \<Rightarrow> store" where
  "run_ops env lim dir ops st = fold (apply_op env lim dir) ops st"

lemma process_inv [store_inv_intros]:
  assumes inv: "store_inv lim st" and p: "process env lim dir now now_u toks req st = (r, ev, st')"
  shows "store_inv lim st'"
proof (cases req)
  case (Post h b t)
  with p inv show ?thesis by (auto intro: process_post_inv)
next
  case (Recall h m t)
  with p inv show ?thesis by (auto intro: process_recall_queued)
qed (use p inv in \<open>auto simp: process_peek_def process_fetch_def process_take_def process_take_many_def
      process_get_directory_def Let_def intro: drain_queue_inv drain_many_inv split: prod.splits if_splits\<close>)

text \<open>What any operation does to the queues: one accepted post, or blobs leaving, in place.\<close>

lemma drain_handle_subseq:
  assumes "store_inv lim st" and "drain_handle_bounded h b now st = (t, b', st')"
  shows "subseq (queued st' h') (queued st h')"
proof (cases rule: drain_handle_bounded_queued [OF assms])
  case (1 pre)
  then show ?thesis by (cases "h' = h") (simp_all add: subseq_drop_many)
qed

lemma drain_many_subseq:
  "store_inv lim st \<Longrightarrow> drain_many hs b now st = (t, b', st') \<Longrightarrow> subseq (queued st' h) (queued st h)"
proof (induction hs b now st arbitrary: t b' st' rule: drain_many.induct)
  case (1 b now st)
  then show ?case by simp
next
  case (2 x hs b now st)
  obtain t1 b1 st1 t2 where
    1: "drain_handle_bounded x b now st = (t1, b1, st1)" and 2: "drain_many hs b1 now st1 = (t2, b', st')"
    using "2.prems"(2) by (auto split: prod.splits)
  have "store_inv lim st1" using "2.prems"(1) 1 by (rule drain_queue_inv)
  then have "subseq (queued st' h) (queued st1 h)"
    using "2.IH" [OF 1 [symmetric] refl refl _ 2] by blast
  then show ?case using drain_handle_subseq [OF "2.prems"(1) 1, of h] by (rule subseq_order.order_trans)
qed

lemma apply_op_queues:
  assumes inv: "store_inv lim st"
  obtains (accepted) now u toks h b t bs where
    "x = Serve now u toks (Post h b t)" "b64_decode env b = Some bs"
    "post_reject lim st h (length bs) = None"
    "apply_op env lim dir x st = st\<lparr>mailboxes := AList.update h (queued st h @ [new_stored lim now u toks h bs t]) (mailboxes st),
       total_bytes := total_bytes st + entry_cost h (length bs) (entry_overhead_bytes lim), dirty := True\<rparr>"
  | (shrunk) "\<And>h. subseq (queued (apply_op env lim dir x st) h) (queued st h)"
proof (cases x)
  case (Sweep now)
  then show thesis by (intro shrunk) (simp add: reap_queued(1) [OF inv])
next
  case (Serve now u toks req)
  obtain r ev st' where p: "process env lim dir now u toks req st = (r, ev, st')" by (metis prod_cases3)
  then have st': "apply_op env lim dir x st = st'" by (simp add: Serve)
  show thesis
  proof (cases req)
    case (Post h b t)
    with p have pp: "process_post env lim now u toks h b t st = (r, ev, st')" by simp
    show thesis
    proof (cases rule: process_post_cases [OF pp])
      case (1 reason)
      with st' show thesis by (intro shrunk) simp
    next
      case (2 bs)
      with st' Serve Post show thesis by (intro accepted) simp_all
    qed
  next
    case (Recall h m t)
    with p have "process_recall h m t st = (r, ev, st')" by simp
    note q = process_recall_queued(1,2) [OF inv this]
    have "subseq (queued st' h') (queued st h')" for h'
      using q(1) q(2) [of h'] by (cases "h' = h") simp_all
    with st' show thesis by (intro shrunk) simp
  next
    case (TakeMany hs)
    with p have "subseq (queued st' h) (queued st h)" for h
      by (auto simp: process_take_many_def Let_def dest: drain_many_subseq [OF inv] split: prod.splits if_splits)
    with st' show thesis by (intro shrunk) simp
  next
    case (Peek h)
    with p st' show thesis by (intro shrunk) (simp add: process_peek_def Let_def)
  next
    case GetDirectory
    with p st' show thesis by (intro shrunk) (simp add: process_get_directory_def)
  next
    case (Fetch h)
    with p have "subseq (queued st' h') (queued st h')" for h'
      by (auto simp: process_fetch_def Let_def dest: drain_handle_subseq [OF inv] split: prod.splits)
    with st' show thesis by (intro shrunk) simp
  next
    case (Take h)
    with p have "subseq (queued st' h') (queued st h')" for h'
      by (auto simp: process_take_def Let_def dest: drain_handle_subseq [OF inv] split: prod.splits)
    with st' show thesis by (intro shrunk) simp
  qed
qed

lemma apply_op_inv [store_inv_intros]: "store_inv lim st \<Longrightarrow> store_inv lim (apply_op env lim dir op st)"
proof (cases op)
  case (Serve now now_u toks req)
  assume "store_inv lim st"
  with Serve show ?thesis
    by (cases "process env lim dir now now_u toks req st") (auto intro: process_inv)
next
  case (Sweep now)
  assume "store_inv lim st"
  with Sweep show ?thesis by (simp add: reap_queued(2))
qed

lemma run_ops_inv [store_inv_intros]: "store_inv lim st \<Longrightarrow> store_inv lim (run_ops env lim dir ops st)"
  unfolding run_ops_def by (induction ops arbitrary: st) (auto intro: apply_op_inv)

section \<open>Properties\<close>

text \<open>
  C6. Whatever sequence of requests (valid, hostile or refused) and reaper sweeps the relay
  serves from an empty store, with any clock readings and tokens: every handle has one queue,
  none is empty, the running byte total is exactly the sum of the entries' costs (so freeing never
  underflows it), the total stays within \<open>max_total_bytes\<close>, each mailbox within its blob and byte
  limits under a well-formed handle, each blob within \<open>max_blob_bytes\<close>, and no blob's expiry lies
  beyond the advertised TTL after its post.
\<close>

theorem relay_store_invariant: "store_inv lim (run_ops env lim dir ops empty_store)"
  by (rule run_ops_inv) (rule store_inv_empty)

end
