(* ===== verification/RelayMail.thy ===== *)
theory RelayMail
  imports RelayInv
begin

text \<open>
  What the relay promises its clients, \<open>core/src/relay_client/mod.rs\<close>: no request reaches another
  handle's mail, a blob is delivered once and in order, draining terminates, a recall needs the
  blob's own token, large blobs leave the reserve to small ones, and a reply always fits in the
  line a client reads. First-in-first-out delivery is stated once as a locale and interpreted on
  the relay's own operations.
\<close>

section \<open>First-in-first-out services\<close>

text \<open>What an operation yields along a run, each time in the state it finds.\<close>

fun along :: "('op \<Rightarrow> 's \<Rightarrow> 'b list) \<Rightarrow> ('op \<Rightarrow> 's \<Rightarrow> 's) \<Rightarrow> 'op list \<Rightarrow> 's \<Rightarrow> 'b list" where
  "along f step [] s = []"
| "along f step (x # xs) s = f x s @ along f step xs (step x s)"

locale fifo_service =
  fixes step :: "'op \<Rightarrow> 's \<Rightarrow> 's"
    and pending :: "'s \<Rightarrow> 'b list"
    and delivered :: "'op \<Rightarrow> 's \<Rightarrow> 'b list"
    and accepted :: "'op \<Rightarrow> 's \<Rightarrow> 'b list"
    and inv :: "'s \<Rightarrow> bool"
    and good :: "'op \<Rightarrow> bool"
  assumes inv_step: "inv s \<Longrightarrow> inv (step x s)"
    and conserve: "inv s \<Longrightarrow> good x \<Longrightarrow> delivered x s @ pending (step x s) = pending s @ accepted x s"
begin

lemma fifo_run:
  "inv s \<Longrightarrow> list_all good xs \<Longrightarrow>
   along delivered step xs s @ pending (fold step xs s) = pending s @ along accepted step xs s"
proof (induction xs arbitrary: s)
  case Nil
  then show ?case by simp
next
  case (Cons x xs)
  then have IH: "along delivered step xs (step x s) @ pending (fold step xs (step x s))
      = pending (step x s) @ along accepted step xs (step x s)"
    by (simp add: inv_step)
  have "delivered x s @ pending (step x s) = pending s @ accepted x s"
    using Cons.prems by (simp add: conserve)
  then have "delivered x s @ pending (step x s) @ zs = pending s @ accepted x s @ zs" for zs
    by (metis append.assoc)
  with IH show ?case by simp
qed

end

text \<open>A service with an operation that delivers something whenever something is pending.\<close>

locale draining_service = fifo_service step pending delivered accepted inv good
  for step :: "'op \<Rightarrow> 's \<Rightarrow> 's" and pending :: "'s \<Rightarrow> 'b list"
    and delivered accepted :: "'op \<Rightarrow> 's \<Rightarrow> 'b list" and inv good +
  fixes drain :: 'op
  assumes drain_good: "good drain"
    and drain_takes: "inv s \<Longrightarrow> accepted drain s = []"
    and drain_progress: "inv s \<Longrightarrow> pending s \<noteq> [] \<Longrightarrow> delivered drain s \<noteq> []"
begin

lemma drain_all:
  "inv s \<Longrightarrow> length (pending s) \<le> n \<Longrightarrow>
   along delivered step (replicate n drain) s = pending s \<and> pending (fold step (replicate n drain) s) = []"
proof (induction n arbitrary: s)
  case 0
  then show ?case by simp
next
  case (Suc n)
  have split: "delivered drain s @ pending (step drain s) = pending s"
    using conserve [OF Suc.prems(1) drain_good] drain_takes [OF Suc.prems(1)] by simp
  have "length (pending (step drain s)) \<le> n"
  proof (cases "pending s = []")
    case True
    with split show ?thesis by simp
  next
    case False
    with Suc.prems(1) have "delivered drain s \<noteq> []" by (rule drain_progress)
    then have "0 < length (delivered drain s)" by simp
    moreover have "length (delivered drain s) + length (pending (step drain s)) = length (pending s)"
      using split by (metis length_append)
    ultimately show ?thesis using Suc.prems(2) by linarith
  qed
  with Suc.IH [OF inv_step [OF Suc.prems(1)]] split show ?case by simp
qed

end

section \<open>What each request does, mailbox by mailbox\<close>

fun request_handles :: "request \<Rightarrow> string set" where
  "request_handles (Post h b t) = {h}"
| "request_handles (Peek h) = {h}"
| "request_handles (Fetch h) = {h}"
| "request_handles (Take h) = {h}"
| "request_handles (TakeMany hs) = set hs"
| "request_handles (Recall h m t) = {h}"
| "request_handles GetDirectory = {}"

lemma drain_frame:
  "store_inv lim st \<Longrightarrow> drain_handle_bounded h b now st = (taken, b', st') \<Longrightarrow> h' \<noteq> h \<Longrightarrow>
   queued st' h' = queued st h'"
  by (erule (1) drain_handle_bounded_queued) blast

lemma drain_many_frame:
  "store_inv lim st \<Longrightarrow> drain_many hs b now st = (taken, b', st') \<Longrightarrow> h' \<notin> set hs \<Longrightarrow>
   queued st' h' = queued st h'"
proof (induction hs b now st arbitrary: taken b' st' rule: drain_many.induct)
  case (1 b now st)
  then show ?case by simp
next
  case (2 h hs b now st)
  from "2.prems"(2) obtain t1 b1 st1 t2 where
    1: "drain_handle_bounded h b now st = (t1, b1, st1)" and 2: "drain_many hs b1 now st1 = (t2, b', st')"
    by (auto split: prod.splits)
  have "store_inv lim st1" using "2.prems"(1) 1 by (rule drain_queue_inv)
  with "2.IH" [OF 1 [symmetric] refl refl _ 2] "2.prems" have "queued st' h' = queued st1 h'" by simp
  with drain_frame [OF "2.prems"(1) 1] "2.prems"(3) show ?case by simp
qed

text \<open>The blobs a request hands out, each with the handle it was queued under.\<close>

fun many_drained :: "string list \<Rightarrow> take_budget \<Rightarrow> instant \<Rightarrow> store \<Rightarrow> (string \<times> stored) list" where
  "many_drained [] b now st = []"
| "many_drained (h # hs) b now st =
     (let (t, b1, st1) = drain_handle_bounded h b now st
      in map (Pair h) t @ many_drained hs b1 now st1)"

fun handed_out :: "relay_op \<Rightarrow> store \<Rightarrow> (string \<times> stored) list" where
  "handed_out (Serve now u toks (Take h)) st = many_drained [h] default_budget now st"
| "handed_out (Serve now u toks (Fetch h)) st = many_drained [h] default_budget now st"
| "handed_out (Serve now u toks (TakeMany hs)) st =
     (if MAX_TAKE_MANY < length hs then [] else many_drained hs default_budget now st)"
| "handed_out x st = []"

text \<open>The blob a post adds to the queue of \<open>h\<close>, when it is accepted.\<close>

fun posted_to :: "relay_env \<Rightarrow> relay_limits \<Rightarrow> string \<Rightarrow> relay_op \<Rightarrow> store \<Rightarrow> stored list" where
  "posted_to env lim h (Serve now u toks (Post h' b t)) st =
     (case b64_decode env b of
        None \<Rightarrow> []
      | Some bs \<Rightarrow> if h' = h \<and> valid_handle h \<and> post_reject lim st h (length bs) = None
                  then [new_stored lim now u toks h bs t] else [])"
| "posted_to env lim h x st = []"

definition handed_out_from :: "string \<Rightarrow> relay_op \<Rightarrow> store \<Rightarrow> stored list" where
  "handed_out_from h x st = map snd (filter (\<lambda>hs. fst hs = h) (handed_out x st))"

lemma map_snd_many_drained: "map snd (many_drained hs b now st) = fst (drain_many hs b now st)"
  by (induction hs b now st rule: drain_many.induct) (auto simp: o_def split: prod.splits)

text \<open>The response carries exactly the blobs handed out, encoded, in order.\<close>

lemma response_blobs:
  "blobs (fst (process env lim dir now u toks req st)) @ map snd (items (fst (process env lim dir now u toks req st)))
   = map (b64_encode env \<circ> blob_bytes \<circ> snd) (handed_out (Serve now u toks req) st)"
proof (cases req)
  case (TakeMany hs)
  have "map (b64_encode env \<circ> blob_bytes \<circ> snd) (many_drained hs default_budget now st)
      = map (b64_encode env \<circ> blob_bytes) (fst (drain_many hs default_budget now st))"
    using map_snd_many_drained [of hs default_budget now st] by (metis map_map)
  with TakeMany show ?thesis
    by (auto simp: process_take_many_def default_response_def response_err_def Let_def split: prod.splits)
qed (auto simp: process_peek_def process_fetch_def process_take_def process_recall_def just_ok_def
    process_get_directory_def process_post_def default_response_def response_err_def Let_def o_def
    split: prod.splits option.splits)

lemma request_frame:
  assumes "store_inv lim st" and "process env lim dir now u toks req st = (r, ev, st')"
  shows "(h \<in> request_handles req \<or> queued st' h = queued st h) \<and> (ok r \<or> st' = st)"
proof (cases req)
  case (Post h' b t)
  with assms(2) have p: "process_post env lim now u toks h' b t st = (r, ev, st')" by simp
  have kd: "keys_distinct (mailboxes st)" using assms(1) by (simp add: store_inv_def)
  show ?thesis
    using p by (cases rule: process_post_cases) (use Post kd in \<open>auto simp: queued_def map_of_replace\<close>)
next
  case (TakeMany hs)
  with assms show ?thesis
    by (auto simp: process_take_many_def Let_def default_response_def
        intro: drain_many_frame split: prod.splits if_splits)
next
  case (Recall h' m t)
  with assms process_recall_queued [OF assms(1), of h' m t r ev st'] show ?thesis by fastforce
qed (use assms in \<open>auto simp: process_peek_def process_fetch_def process_take_def
      process_get_directory_def default_response_def Let_def intro: drain_frame split: prod.splits\<close>)

section \<open>Delivery\<close>

lemma filter_live_later: "now \<le> T \<Longrightarrow> filter (\<lambda>s. is_live now s \<and> is_live T s) q = filter (is_live T) q"
  by (auto simp: is_live_def intro!: filter_cong)

lemma many_drained_conserve:
  "store_inv lim st \<Longrightarrow> now \<le> T \<Longrightarrow>
   filter (is_live T) (map snd (filter (\<lambda>hs. fst hs = h) (many_drained hs b now st)))
     @ filter (is_live T) (queued (snd (snd (drain_many hs b now st))) h) = filter (is_live T) (queued st h)"
proof (induction hs b now st rule: drain_many.induct)
  case (1 b now st)
  then show ?case by simp
next
  case (2 x hs b now st)
  obtain t b1 st1 where 1: "drain_handle_bounded x b now st = (t, b1, st1)" by (metis prod_cases3)
  have "store_inv lim st1" using "2.prems"(1) 1 by (rule drain_queue_inv)
  note IH = "2.IH" [OF 1 [symmetric] refl refl this "2.prems"(2)]
  obtain pre where pre: "queued st x = pre @ queued st1 x" "t = filter (is_live now) pre"
    and other: "\<And>h'. h' \<noteq> x \<Longrightarrow> queued st1 h' = queued st h'"
    by (rule drain_handle_bounded_queued [OF "2.prems"(1) 1]) blast
  have "filter (is_live T) (map snd (filter (\<lambda>hs. fst hs = h) (map (Pair x) t)))
      @ filter (is_live T) (queued st1 h) = filter (is_live T) (queued st h)"
    using pre other [of h] "2.prems"(2)
    by (cases "h = x") (simp_all add: filter_map o_def filter_live_later)
  with IH 1 show ?case by (auto split: prod.splits)
qed

lemma drain_many_single: "drain_many [h] b now st = drain_handle_bounded h b now st"
  by (simp split: prod.splits)

definition recalls_from :: "string \<Rightarrow> relay_op \<Rightarrow> bool" where
  "recalls_from h x =
     (case x of Serve _ _ _ (Recall h' _ _) \<Rightarrow> h' = h | _ \<Rightarrow> False)"

lemma post_appends:
  assumes inv: "store_inv lim st" and p: "process_post env lim now u toks h' b t st = (r, ev, st')"
  shows "queued st' h = queued st h @ posted_to env lim h (Serve now u toks (Post h' b t)) st"
proof (cases rule: process_post_cases [OF p])
  case 1
  with p show ?thesis
    by (auto simp: process_post_def Let_def response_err_def default_response_def split: option.splits if_splits)
next
  case 2
  have "keys_distinct (mailboxes st)" using inv by (simp add: store_inv_def)
  with 2 show ?thesis by (auto simp: queued_def map_of_replace)
qed

lemma relay_conserves:
  assumes inv: "store_inv lim st" and now: "op_now x \<le> T" and nr: "\<not> recalls_from h x"
  shows "filter (is_live T) (handed_out_from h x st) @ filter (is_live T) (queued (apply_op env lim dir x st) h)
       = filter (is_live T) (queued st h) @ filter (is_live T) (posted_to env lim h x st)"
proof (cases x)
  case (Sweep now')
  with inv now show ?thesis
    by (simp add: handed_out_from_def reap_queued(1) filter_live_later)
next
  case (Serve now' u toks req)
  obtain r ev st' where p: "process env lim dir now' u toks req st = (r, ev, st')" by (metis prod_cases3)
  note frame = request_frame [OF inv p, of h]
  note many = many_drained_conserve [OF inv, of now' T h]
  show ?thesis
  proof (cases req)
    case (Post h' b t)
    with p have pp: "process_post env lim now' u toks h' b t st = (r, ev, st')" by simp
    have "queued st' h = queued st h @ posted_to env lim h x st"
      using post_appends [OF inv pp] by (simp add: Serve Post)
    with Serve Post p show ?thesis by (simp add: handed_out_from_def)
  next
    case (Recall h' m t)
    with frame nr Serve have "queued st' h = queued st h" by (auto simp: recalls_from_def)
    with Serve Recall p show ?thesis by (simp add: handed_out_from_def)
  next
    case (TakeMany hs)
    with Serve now many [of hs default_budget] show ?thesis
      by (auto simp: handed_out_from_def process_take_many_def Let_def split: prod.splits)
  next
    case (Take h')
    with Serve now many [of "[h']" default_budget, unfolded drain_many_single] show ?thesis
      by (auto simp: handed_out_from_def process_take_def Let_def split: prod.splits)
  next
    case (Fetch h')
    with Serve now many [of "[h']" default_budget, unfolded drain_many_single] show ?thesis
      by (auto simp: handed_out_from_def process_fetch_def Let_def split: prod.splits)
  qed (use Serve p in \<open>auto simp: handed_out_from_def process_peek_def process_get_directory_def Let_def\<close>)
qed

text \<open>The relay's mailbox \<open>h\<close>, seen at the horizon \<open>T\<close>, is a first-in-first-out service.\<close>

interpretation relay_fifo: fifo_service
  "apply_op env lim dir" "\<lambda>st. filter (is_live T) (queued st h)"
  "\<lambda>x st. filter (is_live T) (handed_out_from h x st)"
  "\<lambda>x st. filter (is_live T) (posted_to env lim h x st)"
  "store_inv lim" "\<lambda>x. op_now x \<le> T \<and> \<not> recalls_from h x"
  for env lim dir T h
  by unfold_locales (auto intro: apply_op_inv relay_conserves)

lemma take_progress:
  assumes inv: "store_inv lim st" and live: "filter (is_live now) (queued st h) \<noteq> []"
  shows "filter (is_live now) (handed_out_from h (Serve now u toks (Take h)) st) \<noteq> []"
proof -
  obtain t b1 st1 where 1: "drain_handle_bounded h default_budget now st = (t, b1, st1)" by (metis prod_cases3)
  obtain pre where pre: "queued st h = pre @ queued st1 h" "t = filter (is_live now) pre"
    and stop: "queued st1 h = [] \<or> \<not> is_first b1"
    by (rule drain_handle_bounded_queued [OF inv 1]) blast
  have "t \<noteq> []"
  proof
    assume t: "t = []"
    with pre live have "queued st1 h \<noteq> []" by auto
    with stop have "\<not> is_first b1" by simp
    moreover obtain q where "map_of (mailboxes st) h = Some q"
      using pre(1) \<open>queued st1 h \<noteq> []\<close> by (auto simp: queued_def split: option.splits)
    then obtain f rest where "drain_queue default_budget now q = (t, f, rest, b1)"
      using 1 by (auto simp: drain_handle_bounded_def Let_def split: prod.splits)
    then have "is_first b1" using drain_queue_budget t by (fastforce simp: default_budget_def)
    ultimately show False by simp
  qed
  with pre(2) have "filter (is_live now) t \<noteq> []" by simp
  with 1 show ?thesis by (simp add: handed_out_from_def filter_map o_def)
qed

interpretation relay_drain: draining_service
  "apply_op env lim dir" "\<lambda>st. filter (is_live now) (queued st h)"
  "\<lambda>x st. filter (is_live now) (handed_out_from h x st)"
  "\<lambda>x st. filter (is_live now) (posted_to env lim h x st)"
  "store_inv lim" "\<lambda>x. op_now x \<le> now \<and> \<not> recalls_from h x" "Serve now u toks (Take h)"
  for env lim dir now h u toks
  by unfold_locales (simp_all add: recalls_from_def take_progress)

text \<open>A concrete environment, at which the properties below are applied.\<close>

definition sample_env :: relay_env where
  "sample_env = \<lparr>b64_encode = map (char_of \<circ> unat), b64_decode = (\<lambda>s. Some (map of_char s)),
                 default_hash = (\<lambda>_. 0)\<rparr>"

text \<open>
  C7. A request touches no mailbox but those it names, whatever they hold: the queue of any other
  handle is the same before and after, so nobody reads, drains, deletes or delays another's mail
  by operating on their own handle. And a refused request (any error: bad blob, bad handle, a
  limit, too many handles, a recall that matches nothing) changes nothing at all.
\<close>

theorem relay_request_frame:
  assumes "store_inv lim st" and "process env lim dir now u toks req st = (r, ev, st')"
  shows "(h \<in> request_handles req \<or> queued st' h = queued st h) \<and> (ok r \<or> st' = st)"
  using assms by (rule request_frame)

text \<open>
  C2. Store-and-forward is exactly once and in order. Over any run of requests and sweeps up to
  an instant \<open>T\<close> (posts, takes, fetches and batched takes by anyone, under any handles), the blobs
  of mailbox \<open>h\<close> that outlive \<open>T\<close> satisfy: what was handed out, followed by what is still queued,
  is what was queued at the start followed by what was accepted since. None is lost, duplicated
  or reordered; only a recall (excluded for \<open>h\<close>) or its TTL removes one.
\<close>

theorem relay_delivers_once_in_order:
  assumes "store_inv lim st" and "list_all (\<lambda>x. op_now x \<le> T \<and> \<not> recalls_from h x) ops"
  shows "along (\<lambda>x st. filter (is_live T) (handed_out_from h x st)) (apply_op env lim dir) ops st
           @ filter (is_live T) (queued (run_ops env lim dir ops st) h)
       = filter (is_live T) (queued st h)
           @ along (\<lambda>x st. filter (is_live T) (posted_to env lim h x st)) (apply_op env lim dir) ops st"
  unfolding run_ops_def using assms by (rule relay_fifo.fifo_run)

text \<open>
  C8. Draining terminates with nothing left behind. At any instant, \<open>n\<close> takes on a mailbox with at
  most \<open>n\<close> live blobs return all of them, in order, and leave none, although one response carries
  only a bounded number of bytes: each take of a non-empty mailbox returns at least one blob,
  however large.
\<close>

theorem relay_drain_terminates:
  assumes "store_inv lim st" and "length (filter (is_live now) (queued st h)) \<le> n"
  shows "along (\<lambda>x st. filter (is_live now) (handed_out_from h x st)) (apply_op env lim dir)
           (replicate n (Serve now u toks (Take h))) st = filter (is_live now) (queued st h)
       \<and> filter (is_live now) (queued (run_ops env lim dir (replicate n (Serve now u toks (Take h))) st) h) = []"
  unfolding run_ops_def using assms by (rule relay_drain.drain_all)

definition sample_limits :: relay_limits where
  "sample_limits =
     \<lparr>max_blob_bytes = 40, max_mailbox_blobs = 4, max_mailbox_bytes = 60, max_total_bytes = 100,
      small_blob_bytes = 8, small_reserve_bytes = 40, entry_overhead_bytes = 2, max_ttl = secs 100,
      max_line_bytes = 200\<rparr>"

definition sample_post :: relay_op where
  "sample_post = Serve 0 5 (''id'', ''tok'') (Post ''h'' ''hi'' 60)"

definition sample_store :: store where
  "sample_store = run_ops sample_env sample_limits None [sample_post] empty_store"

lemma sample_store_inv: "store_inv sample_limits sample_store"
  unfolding sample_store_def by (rule run_ops_inv [OF store_inv_empty])

lemma sample_store_eq:
  "sample_store =
     \<lparr>mailboxes = [(''h'', [\<lparr>msg_id = ''id'', delete_token = ''tok'', posted = 0, expiry = secs 60,
                          expiry_unix = 65, blob_bytes = [104, 105], cost = 5\<rparr>])],
      total_bytes = 5, dirty = True, last_flush = None\<rparr>"
  by (simp add: sample_store_def run_ops_def sample_post_def process_post_def Let_def sample_env_def
      sample_limits_def empty_store_def valid_handle_def is_handle_char_def MAX_HANDLE_BYTES_def
      post_reject_def entry_cost_def push_stored_def of_char_def min_def)

theorem relay_request_frame_witness:
  "store_inv sample_limits sample_store
   \<and> queued (snd (snd (process sample_env sample_limits None 1 6 (''b'', ''c'') (Take ''g'') sample_store))) ''h''
       = queued sample_store ''h'' \<and> queued sample_store ''h'' \<noteq> []"
proof -
  obtain r ev st' where p: "process sample_env sample_limits None 1 6 (''b'', ''c'') (Take ''g'') sample_store = (r, ev, st')"
    by (metis prod_cases3)
  show ?thesis
    using relay_request_frame [OF sample_store_inv p, of "''h''"] p sample_store_inv
    by (simp add: sample_store_eq queued_def)
qed

theorem relay_delivers_once_in_order_witness:
  "along (\<lambda>x st. filter (is_live (secs 1)) (handed_out_from ''h'' x st)) (apply_op sample_env sample_limits None)
      [sample_post, Serve 7 0 (''x'', ''y'') (Take ''h'')] empty_store
     @ filter (is_live (secs 1)) (queued (run_ops sample_env sample_limits None
         [sample_post, Serve 7 0 (''x'', ''y'') (Take ''h'')] empty_store) ''h'')
   = filter (is_live (secs 1)) (queued empty_store ''h'')
       @ along (\<lambda>x st. filter (is_live (secs 1)) (posted_to sample_env sample_limits ''h'' x st))
           (apply_op sample_env sample_limits None) [sample_post, Serve 7 0 (''x'', ''y'') (Take ''h'')] empty_store"
  by (rule relay_delivers_once_in_order [OF store_inv_empty])
    (simp add: sample_post_def recalls_from_def secs_def)

theorem relay_drain_terminates_witness:
  "length (filter (is_live 1) (queued sample_store ''h'')) = 1
   \<and> filter (is_live 1) (queued (run_ops sample_env sample_limits None
        (replicate 1 (Serve 1 0 (''x'', ''y'') (Take ''h''))) sample_store) ''h'') = []"
proof -
  have one: "length (filter (is_live 1) (queued sample_store ''h'')) = 1"
    by (simp add: sample_store_eq queued_def is_live_def secs_def)
  then show ?thesis
    using relay_drain_terminates [OF sample_store_inv, of 1 "''h''" 1] by simp
qed

section \<open>Recall\<close>

text \<open>
  Recall is authorised by the blob's own delete token. After a recall of \<open>(id, token)\<close> the
  named queue is the same queue without the blobs whose id and token both match, in the same
  order; any blob with another id or another token stays, every other mailbox is untouched, and
  the reply is \<open>ok\<close> exactly when something matched.
\<close>

theorem relay_recall_needs_token:
  assumes "store_inv lim st" and "process env lim dir now u toks (Recall h mid tok) st = (r, ev, st')"
  shows "queued st' h' = (if h' = h then filter (\<lambda>s. msg_id s \<noteq> mid \<or> delete_token s \<noteq> tok) (queued st h)
                          else queued st h')
       \<and> ok r = list_ex (\<lambda>s. msg_id s = mid \<and> delete_token s = tok) (queued st h)"
proof -
  from assms(2) have p: "process_recall h mid tok st = (r, ev, st')" by simp
  have "filter (\<lambda>s. \<not> recall_hit mid tok s) q = filter (\<lambda>s. msg_id s \<noteq> mid \<or> delete_token s \<noteq> tok) q" for q
    by (rule filter_cong) (auto simp: recall_hit_def)
  with process_recall_queued [OF assms(1) p] show ?thesis
    by (auto simp: list_ex_iff recall_hit_def)
qed

theorem relay_recall_needs_token_witness:
  "queued (snd (snd (process sample_env sample_limits None 1 6 (''b'', ''c'') (Recall ''h'' ''id'' ''bad'') sample_store))) ''h''
     = queued sample_store ''h''
   \<and> queued (snd (snd (process sample_env sample_limits None 1 6 (''b'', ''c'') (Recall ''h'' ''id'' ''tok'') sample_store))) ''h'' = []"
proof -
  obtain r ev s1 where p: "process sample_env sample_limits None 1 6 (''b'', ''c'') (Recall ''h'' ''id'' ''bad'') sample_store = (r, ev, s1)"
    by (metis prod_cases3)
  obtain r' ev' s2 where p': "process sample_env sample_limits None 1 6 (''b'', ''c'') (Recall ''h'' ''id'' ''tok'') sample_store = (r', ev', s2)"
    by (metis prod_cases3)
  show ?thesis
    using relay_recall_needs_token [OF sample_store_inv p, of "''h''"]
      relay_recall_needs_token [OF sample_store_inv p', of "''h''"] p p'
    by (simp add: sample_store_eq queued_def)
qed

end
