(* ===== verification/RustStd.thy ===== *)
theory RustStd
  imports Prelude
begin

text \<open>
  The string functions of Rust's standard library that the components call, on UTF-8 strings with
  one \<open>char\<close> per byte: splitting into lines and words, parsing of unsigned integers,
  ASCII-insensitive comparison and validity of UTF-8.
\<close>

section \<open>UTF-8\<close>

definition code :: "char \<Rightarrow> nat" where
  "code c = of_char c"

definition cont_byte :: "char \<Rightarrow> bool" where
  "cont_byte c = (128 \<le> code c \<and> code c < 192)"

text \<open>\<open>str::from_utf8\<close>: the well-formed sequences of the Unicode standard, table 3-7.\<close>

fun utf8_valid :: "string \<Rightarrow> bool" where
  "utf8_valid [] = True"
| "utf8_valid (a # s) =
     (if code a < 128 then utf8_valid s
      else (case s of
        [] \<Rightarrow> False
      | b # s1 \<Rightarrow>
          if 194 \<le> code a \<and> code a < 224 then cont_byte b \<and> utf8_valid s1
          else (case s1 of
            [] \<Rightarrow> False
          | c # s2 \<Rightarrow>
              if 224 \<le> code a \<and> code a < 240
              then cont_byte b \<and> cont_byte c \<and> (code a = 224 \<longrightarrow> 160 \<le> code b) \<and> (code a = 237 \<longrightarrow> code b < 160)
                   \<and> utf8_valid s2
              else (case s2 of
                [] \<Rightarrow> False
              | d # s3 \<Rightarrow>
                  240 \<le> code a \<and> code a < 245 \<and> cont_byte b \<and> cont_byte c \<and> cont_byte d \<and>
                  (code a = 240 \<longrightarrow> 144 \<le> code b) \<and> (code a = 244 \<longrightarrow> code b < 144) \<and> utf8_valid s3))))"

text \<open>Bytes as text, and text as bytes.\<close>

definition bytes_text :: "bytes \<Rightarrow> string" where
  "bytes_text bs = map (char_of \<circ> unat) bs"

definition text_bytes :: "string \<Rightarrow> bytes" where
  "text_bytes s = map of_char s"

definition from_utf8 :: "bytes \<Rightarrow> string option" where
  "from_utf8 bs = (if utf8_valid (bytes_text bs) then Some (bytes_text bs) else None)"

lemma length_text_bytes [simp]: "length (text_bytes s) = length s"
  by (simp add: text_bytes_def)

lemma text_bytes_append [simp]: "text_bytes (a @ b) = text_bytes a @ text_bytes b"
  by (simp add: text_bytes_def)

lemma of_char_byte_inj: "(of_char c :: byte) = of_char d \<Longrightarrow> c = d"
proof -
  assume a: "(of_char c :: byte) = of_char d"
  have n: "unat (of_char e :: byte) = of_char e" for e :: char
  proof -
    have "(of_char e :: byte) = of_nat (of_char e)" by (simp add: of_nat_of_char)
    moreover have "(of_char e :: nat) < 256" using of_char_of [of "of_char e :: nat"] by (metis char_of_char mod_less_divisor zero_less_numeral)
    ultimately show ?thesis by (simp add: unat_of_nat take_bit_eq_mod)
  qed
  have "(of_char c :: nat) = of_char d" using a n by metis
  then show ?thesis by simp
qed

lemma text_bytes_inj: "text_bytes a = text_bytes b \<Longrightarrow> a = b"
  unfolding text_bytes_def by (rule inj_map_eq_map [THEN iffD1]) (auto intro: injI of_char_byte_inj)

lemma byte_char: "of_char (char_of (unat (b :: byte)) :: char) = b"
proof -
  have "unat b mod 256 = unat b" using unsigned_less [of b, where ?'a = nat] by simp
  then have "(of_char (char_of (unat b)) :: nat) = unat b" by simp
  then show ?thesis by (simp add: of_nat_of_char [of "char_of (unat b)", symmetric])
qed

lemma text_bytes_text [simp]: "text_bytes (bytes_text bs) = bs"
  by (induction bs) (simp_all add: text_bytes_def bytes_text_def byte_char)

lemma bytes_text_text [simp]: "bytes_text (text_bytes s) = s"
  by (rule text_bytes_inj) simp

lemma from_utf8_text [simp]: "utf8_valid t \<Longrightarrow> from_utf8 (text_bytes t) = Some t"
  by (simp add: from_utf8_def)

section \<open>Splitting\<close>

text \<open>\<open>str::split\<close> at every character that satisfies a predicate, and \<open>split_once\<close> at the first.\<close>

fun split_at_chars :: "(char \<Rightarrow> bool) \<Rightarrow> string \<Rightarrow> string list" where
  "split_at_chars P [] = [[]]"
| "split_at_chars P (c # s) =
     (if P c then [] # split_at_chars P s
      else (case split_at_chars P s of [] \<Rightarrow> [[c]] | p # ps \<Rightarrow> (c # p) # ps))"

definition split_once :: "char \<Rightarrow> string \<Rightarrow> (string \<times> string) option" where
  "split_once c s =
     (if c \<in> set s then Some (takeWhile (\<lambda>d. d \<noteq> c) s, tl (dropWhile (\<lambda>d. d \<noteq> c) s)) else None)"

text \<open>\<open>str::lines\<close>: terminated by a line feed, without it and one carriage return before it.\<close>

definition strip_cr :: "string \<Rightarrow> string" where
  "strip_cr l = (if l \<noteq> [] \<and> last l = char_of (13 :: nat) then butlast l else l)"

definition str_lines :: "string \<Rightarrow> string list" where
  "str_lines s =
     (let ps = split_at_chars (\<lambda>c. c = char_of (10 :: nat)) s
      in map strip_cr (butlast ps) @ (if last ps = [] then [] else [last ps]))"

text \<open>\<open>str::split_whitespace\<close>.\<close>

definition white_at :: "string \<Rightarrow> nat" where
  "white_at s = (case find (\<lambda>w. prefix w s) white_space of None \<Rightarrow> 0 | Some w \<Rightarrow> length w)"

function words_from :: "string \<Rightarrow> string \<Rightarrow> string list" where
  "words_from w [] = (if w = [] then [] else [w])"
| "words_from w (c # s) =
     (if white_at (c # s) = 0 then words_from (w @ [c]) s
      else (if w = [] then id else (#) w) (words_from [] (drop (white_at (c # s)) (c # s))))"
  by pat_completeness auto
termination by (relation "measure (\<lambda>(w, s). length s)") auto

definition split_whitespace :: "string \<Rightarrow> string list" where
  "split_whitespace s = words_from [] s"

section \<open>Numbers and letters\<close>

definition is_digit :: "char \<Rightarrow> bool" where
  "is_digit c = (48 \<le> code c \<and> code c \<le> 57)"

definition digits_value :: "string \<Rightarrow> nat" where
  "digits_value s = foldl (\<lambda>acc c. acc * 10 + (code c - 48)) 0 s"

text \<open>\<open>str::parse\<close> for an unsigned integer below \<open>bound\<close>: digits, with one plus sign allowed before.\<close>

definition parse_uint :: "nat \<Rightarrow> string \<Rightarrow> nat option" where
  "parse_uint bound s =
     (let d = (case s of c # r \<Rightarrow> if c = CHR ''+'' then r else s | [] \<Rightarrow> [])
      in if d \<noteq> [] \<and> list_all is_digit d \<and> digits_value d < bound then Some (digits_value d) else None)"

definition ascii_lower :: "char \<Rightarrow> char" where
  "ascii_lower c = (if 65 \<le> code c \<and> code c \<le> 90 then char_of (code c + 32) else c)"

definition eq_ignore_ascii_case :: "string \<Rightarrow> string \<Rightarrow> bool" where
  "eq_ignore_ascii_case a b \<longleftrightarrow> map ascii_lower a = map ascii_lower b"

section \<open>Lemmas\<close>

lemma split_chunk: "list_all (\<lambda>c. \<not> P c) a \<Longrightarrow> P c \<Longrightarrow> split_at_chars P (a @ c # s) = a # split_at_chars P s"
  by (induction a) simp_all

lemma split_last_chunk: "list_all (\<lambda>c. \<not> P c) a \<Longrightarrow> split_at_chars P a = [a]"
  by (induction a) simp_all

lemma digits_value_snoc [simp]: "digits_value (s @ [c]) = digits_value s * 10 + (code c - 48)"
  by (simp add: digits_value_def)

lemma dec_is_digits: "list_all is_digit (dec n)"
  using dec_digits [of _ n] by (auto simp: list_all_iff is_digit_def code_def)

lemma digits_value_dec: "digits_value (dec n) = n"
proof (induction n rule: dec.induct)
  case (1 n)
  show ?case
  proof (cases "n < 10")
    case True
    then show ?thesis
      by (simp add: dec.simps [of n] digits_value_def code_def of_char_digit_char)
  next
    case False
    have "n mod 10 < 10" by simp
    with 1 False show ?thesis
      by (simp add: dec.simps [of n] code_def of_char_digit_char)
  qed
qed

text \<open>Formatting a number and parsing it gives the number back.\<close>

lemma parse_uint_dec: "n < bound \<Longrightarrow> parse_uint bound (dec n) = Some n"
proof -
  assume n: "n < bound"
  obtain c s where cs: "dec n = c # s" using dec_nonempty by (metis list.exhaust)
  then have "is_digit c" using dec_is_digits [of n] by simp
  then have "c \<noteq> CHR ''+''" by (auto simp: is_digit_def code_def)
  then show ?thesis
    using n cs dec_is_digits [of n] digits_value_dec [of n] by (simp add: parse_uint_def Let_def)
qed

text \<open>Trimming twice is trimming once.\<close>

lemma strip_all_clean: "w \<in> set ws \<Longrightarrow> w \<noteq> [] \<Longrightarrow> \<not> prefix w (strip_all ws s)"
proof (induction ws s rule: strip_all.induct)
  case (1 ws s)
  show ?case
  proof (cases "find (\<lambda>w. w \<noteq> [] \<and> prefix w s) ws")
    case None
    then have "strip_all ws s = s" by (subst strip_all.simps) simp
    with None 1(2,3) show ?thesis by (auto simp: find_None_iff)
  next
    case (Some v)
    with 1 show ?thesis by (subst strip_all.simps) simp
  qed
qed

lemma strip_all_suffix: "suffix (strip_all ws s) s"
proof (induction ws s rule: strip_all.induct)
  case (1 ws s)
  show ?case
  proof (cases "find (\<lambda>w. w \<noteq> [] \<and> prefix w s) ws")
    case None
    then show ?thesis by (subst strip_all.simps) simp
  next
    case (Some v)
    with 1 have "suffix (strip_all ws (drop (length v) s)) (drop (length v) s)" by simp
    with Some show ?thesis
      by (subst strip_all.simps) (auto intro: suffix_order.order_trans suffix_drop)
  qed
qed

lemma trim_idem [simp]: "trim (trim s) = trim s"
proof -
  let ?u = "strip_all white_space s"
  let ?v = "strip_all (map rev white_space) (rev ?u)"
  have "prefix (rev ?v) ?u"
    using strip_all_suffix [of "map rev white_space" "rev ?u"] by (simp add: suffix_to_prefix)
  then have "\<not> prefix w (rev ?v)" if "w \<in> set white_space" "w \<noteq> []" for w
    using strip_all_clean [OF that] prefix_order.order_trans by blast
  then have "strip_all white_space (rev ?v) = rev ?v" by (intro strip_all_id) blast
  moreover have "strip_all (map rev white_space) ?v = ?v"
    by (rule strip_all_id) (use strip_all_clean in blast)
  ultimately show ?thesis by (simp add: trim_def)
qed

end
