(* ===== verification/RelayPersist.thy ===== *)
theory RelayPersist
  imports RelayMail RustStd
begin

text \<open>
  Queue persistence, \<open>core/src/relay_client/mod.rs\<close>: \<open>serialize_store\<close>, \<open>load_store\<close>, \<open>do_flush\<close>
  with its writer lock, and the relay as a step relation in which requests, sweeps, the two
  halves of a flush (snapshot under the store lock, write off it), failed writes, clock ticks and
  restarts interleave. JSON is an argument (\<open>json_env\<close>), with the laws \<open>codec_laws\<close>: decoding
  what was encoded gives the same map back, in whatever order.
\<close>

section \<open>Saving and loading\<close>

record persisted_blob =
  p_msg_id :: string
  p_delete_token :: string
  p_expiry_unix :: nat
  p_blob :: string

type_synonym persisted_store = "(string \<times> persisted_blob list) list"

record json_env =
  json_write :: "persisted_store \<Rightarrow> bytes option"
  json_read :: "bytes \<Rightarrow> persisted_store option"

definition persist_blob :: "relay_env \<Rightarrow> stored \<Rightarrow> persisted_blob" where
  "persist_blob env s =
     \<lparr>p_msg_id = msg_id s, p_delete_token = delete_token s, p_expiry_unix = expiry_unix s,
      p_blob = b64_encode env (blob_bytes s)\<rparr>"

definition serialize_store :: "relay_env \<Rightarrow> json_env \<Rightarrow> store \<Rightarrow> bytes option" where
  "serialize_store env js inner =
     json_write js (map (\<lambda>hq. (fst hq, map (persist_blob env) (snd hq)))
                        (filter (\<lambda>hq. snd hq \<noteq> []) (mailboxes inner)))"

fun load_queue ::
  "relay_env \<Rightarrow> nat \<Rightarrow> instant \<Rightarrow> nat \<Rightarrow> string \<Rightarrow> persisted_blob list \<Rightarrow> stored list" where
  "load_queue env overhead now_i now_u h [] = []"
| "load_queue env overhead now_i now_u h (b # bs) =
     (if p_expiry_unix b \<le> now_u then load_queue env overhead now_i now_u h bs
      else (case b64_decode env (p_blob b) of
              None \<Rightarrow> load_queue env overhead now_i now_u h bs
            | Some v \<Rightarrow>
                \<lparr>msg_id = p_msg_id b, delete_token = p_delete_token b, posted = now_i,
                 expiry = now_i + secs (p_expiry_unix b - now_u), expiry_unix = p_expiry_unix b,
                 blob_bytes = v, cost = entry_cost h (length v) overhead\<rparr>
                # load_queue env overhead now_i now_u h bs))"

fun load_boxes ::
  "relay_env \<Rightarrow> nat \<Rightarrow> instant \<Rightarrow> nat \<Rightarrow> persisted_store \<Rightarrow> store \<Rightarrow> store" where
  "load_boxes env overhead now_i now_u [] inner = inner"
| "load_boxes env overhead now_i now_u ((h, bs) # p) inner =
     (let queue = load_queue env overhead now_i now_u h bs;
          inner' = inner\<lparr>total_bytes := total_bytes inner + sum_list (map cost queue)\<rparr>
      in load_boxes env overhead now_i now_u p
           (if queue = [] then inner'
            else inner'\<lparr>mailboxes := AList.update h queue (mailboxes inner')\<rparr>))"

definition load_store ::
  "relay_env \<Rightarrow> json_env \<Rightarrow> nat \<Rightarrow> instant \<Rightarrow> nat \<Rightarrow> bytes option \<Rightarrow> store" where
  "load_store env js overhead now_i now_u file =
     (case file of
        None \<Rightarrow> empty_store
      | Some d \<Rightarrow>
          (case json_read js d of
             None \<Rightarrow> empty_store
           | Some p \<Rightarrow> load_boxes env overhead now_i now_u p empty_store))"

definition FLUSH_MIN_INTERVAL :: duration where
  "FLUSH_MIN_INTERVAL = 500 * 1000000"

text \<open>
  \<open>do_flush\<close> up to the release of the store lock: the bytes to write and the store left behind,
  or nothing when there is nothing to do.
\<close>

definition flush_begin ::
  "relay_env \<Rightarrow> json_env \<Rightarrow> bool \<Rightarrow> instant \<Rightarrow> store \<Rightarrow> (bytes \<times> store) option" where
  "flush_begin env js respect_interval now inner =
     (if \<not> dirty inner then None
      else if respect_interval \<and>
              (case last_flush inner of None \<Rightarrow> False | Some t \<Rightarrow> now - t < FLUSH_MIN_INTERVAL)
           then None
      else (case serialize_store env js inner of
              None \<Rightarrow> None
            | Some json \<Rightarrow> Some (json, inner\<lparr>dirty := False, last_flush := Some now\<rparr>)))"

text \<open>The write itself (temporary file, sync, rename: the old file or the new one), and what follows.\<close>

definition flush_end :: "bool \<Rightarrow> bytes \<Rightarrow> store \<times> bytes option \<Rightarrow> store \<times> bytes option" where
  "flush_end written json sf =
     (if written then (fst sf, Some json) else ((fst sf)\<lparr>dirty := True\<rparr>, snd sf))"

section \<open>The relay with its disk\<close>

record relay_sys =
  mem :: store
  disk :: "bytes option"
  writing :: "bytes option"
  mono :: instant
  wall :: nat

definition boot_sys :: relay_sys where
  "boot_sys = \<lparr>mem = empty_store, disk = None, writing = None, mono = 0, wall = 0\<rparr>"

inductive sys_step ::
  "relay_env \<Rightarrow> json_env \<Rightarrow> relay_limits \<Rightarrow> string option \<Rightarrow> relay_sys \<Rightarrow> relay_sys \<Rightarrow> bool"
  for env js lim dir where
  sys_serve: "sys_step env js lim dir s
     (s\<lparr>mem := apply_op env lim dir (Serve (mono s) (wall s) toks req) (mem s)\<rparr>)"
| sys_sweep: "sys_step env js lim dir s (s\<lparr>mem := apply_op env lim dir (Sweep (mono s)) (mem s)\<rparr>)"
| sys_begin: "\<lbrakk>writing s = None; flush_begin env js respect (mono s) (mem s) = Some (json, st')\<rbrakk>
     \<Longrightarrow> sys_step env js lim dir s (s\<lparr>mem := st', writing := Some json\<rparr>)"
| sys_end: "\<lbrakk>writing s = Some json; flush_end written json (mem s, disk s) = (st', file')\<rbrakk>
     \<Longrightarrow> sys_step env js lim dir s (s\<lparr>mem := st', disk := file', writing := None\<rparr>)"
| sys_restart: "sys_step env js lim dir s
     (s\<lparr>mem := load_store env js (entry_overhead_bytes lim) now (wall s) (disk s),
        writing := None, mono := now\<rparr>)"
| sys_tick: "sys_step env js lim dir s (s\<lparr>mono := mono s + d, wall := wall s + e\<rparr>)"

inductive sys_reachable ::
  "relay_env \<Rightarrow> json_env \<Rightarrow> relay_limits \<Rightarrow> string option \<Rightarrow> relay_sys \<Rightarrow> bool"
  for env js lim dir where
  reach_boot: "sys_reachable env js lim dir boot_sys"
| reach_step: "\<lbrakk>sys_reachable env js lim dir s; sys_step env js lim dir s s'\<rbrakk>
     \<Longrightarrow> sys_reachable env js lim dir s'"

text \<open>What the libraries promise: base64 and JSON decode what they encoded; a decoded map has distinct keys.\<close>

definition codec_laws :: "relay_env \<Rightarrow> json_env \<Rightarrow> bool" where
  "codec_laws env js \<longleftrightarrow>
     (\<forall>bs. b64_decode env (b64_encode env bs) = Some bs) \<and>
     (\<forall>p j. keys_distinct p \<longrightarrow> json_write js p = Some j \<longrightarrow>
        (\<exists>p'. json_read js j = Some p' \<and> keys_distinct p' \<and> map_of p' = map_of p))"

text \<open>What identifies a queued blob across a restart, and the live part of a mailbox at wall time \<open>u\<close>.\<close>

definition blob_key :: "stored \<Rightarrow> string \<times> string \<times> nat \<times> bytes" where
  "blob_key s = (msg_id s, delete_token s, expiry_unix s, blob_bytes s)"

definition unexpired :: "nat \<Rightarrow> store \<Rightarrow> string \<Rightarrow> (string \<times> string \<times> nat \<times> bytes) list" where
  "unexpired u st h = map blob_key (filter (\<lambda>s. u < expiry_unix s) (queued st h))"

section \<open>Round trip\<close>

lemma load_queue_persisted:
  assumes "\<forall>bs. b64_decode env (b64_encode env bs) = Some bs" and "list_all (stored_ok lim h) q"
  shows "load_queue env (entry_overhead_bytes lim) now u h (map (persist_blob env) q) =
     map (\<lambda>s. s\<lparr>posted := now, expiry := now + secs (expiry_unix s - u)\<rparr>) (filter (\<lambda>s. u < expiry_unix s) q)"
  using assms by (induction q) (auto simp: persist_blob_def stored_ok_def)

lemma load_boxes_total:
  "total_bytes (load_boxes env ov now u p inner)
     = total_bytes inner + sum_list (map (\<lambda>hb. queue_cost (load_queue env ov now u (fst hb) (snd hb))) p)"
  by (induction env ov now u p inner rule: load_boxes.induct) (auto simp: queue_cost_def Let_def)

lemma load_boxes_flags:
  "dirty (load_boxes env ov now u p inner) = dirty inner"
  "last_flush (load_boxes env ov now u p inner) = last_flush inner"
  by (induction env ov now u p inner rule: load_boxes.induct) (auto simp: Let_def)

lemma load_boxes_mailboxes:
  "keys_distinct p \<Longrightarrow> fst ` set p \<inter> fst ` set (mailboxes inner) = {} \<Longrightarrow>
   mailboxes (load_boxes env ov now u p inner)
     = mailboxes inner @ filter (\<lambda>hq. snd hq \<noteq> [])
         (map (\<lambda>hb. (fst hb, load_queue env ov now u (fst hb) (snd hb))) p)"
proof (induction env ov now u p inner rule: load_boxes.induct)
  case (1 env ov now u inner)
  then show ?case by simp
next
  case (2 env ov now u h bs p inner)
  have new: "h \<notin> fst ` set (mailboxes inner)" and kd: "keys_distinct p" "h \<notin> fst ` set p"
    using "2.prems" by (auto simp: keys_distinct_def)
  show ?case
  proof (cases "load_queue env ov now u h bs = []")
    case True
    with 2 kd show ?thesis by (simp add: Let_def)
  next
    case False
    with kd new "2.prems" "2.IH" [OF refl refl] show ?thesis
      by (auto simp: Let_def update_absent)
  qed
qed

lemma load_boxes_queued:
  assumes "keys_distinct p"
  shows "queued (load_boxes env ov now u p empty_store) h
     = (case map_of p h of None \<Rightarrow> [] | Some bs \<Rightarrow> load_queue env ov now u h bs)"
  using assms load_boxes_mailboxes [of p empty_store env ov now u]
  by (auto simp: empty_store_def queued_def map_of_prune_key split: option.splits)

text \<open>A saved store, as the loader sees it.\<close>

lemma saved_boxes:
  assumes laws: "codec_laws env js" and inv: "store_inv lim st" and j: "serialize_store env js st = Some j"
  obtains p where "json_read js j = Some p" "keys_distinct p"
    "\<And>h. map_of p h = map_option (map (persist_blob env)) (map_of (mailboxes st) h)"
proof -
  let ?p = "map (\<lambda>hq. (fst hq, map (persist_blob env) (snd hq))) (mailboxes st)"
  have "filter (\<lambda>hq. snd hq \<noteq> []) (mailboxes st) = mailboxes st"
    using inv by (auto simp: store_inv_def list_all_iff mailbox_ok_def intro!: filter_True)
  then have "json_write js ?p = Some j" using j by (simp add: serialize_store_def)
  moreover have "keys_distinct ?p"
    using inv by (simp add: store_inv_def keys_distinct_def o_def)
  ultimately obtain p' where "json_read js j = Some p'" "keys_distinct p'" "map_of p' = map_of ?p"
    using laws unfolding codec_laws_def by blast
  moreover have "map_of ?p h = map_option (map (persist_blob env)) (map_of (mailboxes st) h)" for h
    by (rule map_of_map_snd)
  ultimately show thesis by (metis that)
qed

definition revive :: "instant \<Rightarrow> nat \<Rightarrow> stored \<Rightarrow> stored" where
  "revive now u s = s\<lparr>posted := now, expiry := now + secs (expiry_unix s - u)\<rparr>"

lemma revive_keeps [simp]:
  "msg_id (revive now u s) = msg_id s" "delete_token (revive now u s) = delete_token s"
  "expiry_unix (revive now u s) = expiry_unix s" "blob_bytes (revive now u s) = blob_bytes s"
  "cost (revive now u s) = cost s" "blob_key (revive now u s) = blob_key s"
  by (simp_all add: revive_def blob_key_def)

lemma load_saved_queued:
  assumes laws: "codec_laws env js" and inv: "store_inv lim st" and j: "serialize_store env js st = Some j"
  shows "queued (load_store env js (entry_overhead_bytes lim) now u (Some j)) h
       = map (revive now u) (filter (\<lambda>s. u < expiry_unix s) (queued st h))"
proof -
  obtain p where p: "json_read js j = Some p" "keys_distinct p"
    "map_of p h = map_option (map (persist_blob env)) (map_of (mailboxes st) h)"
    using saved_boxes [OF assms] by metis
  have "list_all (stored_ok lim h) (queued st h)"
    using queued_ok [OF inv, of h] by (cases "queued st h = []") (auto simp: mailbox_ok_def)
  with laws have "load_queue env (entry_overhead_bytes lim) now u h (map (persist_blob env) (queued st h))
      = map (revive now u) (filter (\<lambda>s. u < expiry_unix s) (queued st h))"
    by (simp add: load_queue_persisted codec_laws_def revive_def [abs_def])
  then show ?thesis
    using p load_boxes_queued [OF p(2), of env "entry_overhead_bytes lim" now u h]
    by (simp add: load_store_def queued_def split: option.splits)
qed

text \<open>Wall-clock expiries never lie further ahead than the longest TTL.\<close>

definition wall_ok :: "relay_limits \<Rightarrow> nat \<Rightarrow> store \<Rightarrow> bool" where
  "wall_ok lim u st \<longleftrightarrow> (\<forall>h s. s \<in> set (queued st h) \<longrightarrow> expiry_unix s \<le> u + as_secs (max_ttl lim))"

lemma load_saved_inv:
  assumes laws: "codec_laws env js" and inv: "store_inv lim st" and j: "serialize_store env js st = Some j"
    and w: "wall_ok lim u st"
  shows "store_inv lim (load_store env js (entry_overhead_bytes lim) now u (Some j))"
proof -
  let ?ov = "entry_overhead_bytes lim"
  obtain p where p: "json_read js j = Some p" "keys_distinct p"
    "\<And>h. map_of p h = map_option (map (persist_blob env)) (map_of (mailboxes st) h)"
    using saved_boxes [OF laws inv j] by metis
  let ?st = "load_boxes env ?ov now u p empty_store"
  have ld: "load_store env js ?ov now u (Some j) = ?st" using p(1) by (simp add: load_store_def)
  have boxes: "mailboxes ?st = filter (\<lambda>hq. snd hq \<noteq> []) (map (\<lambda>hb. (fst hb, load_queue env ?ov now u (fst hb) (snd hb))) p)"
    using load_boxes_mailboxes [OF p(2), of empty_store env ?ov now u] by (simp add: empty_store_def)
  have kd: "keys_distinct (mailboxes ?st)" unfolding boxes using p(2) by (rule keys_distinct_prune_key)
  have q: "queued ?st h = map (revive now u) (filter (\<lambda>s. u < expiry_unix s) (queued st h))" for h
    using load_saved_queued [OF laws inv j, of now u h] ld by simp
  have total: "total_bytes ?st = asum queue_cost (mailboxes ?st)"
    unfolding boxes load_boxes_total by (simp add: empty_store_def asum_def o_def) (induction p, auto)
  have cost_le: "queue_cost (map (revive now u) (filter P q)) \<le> queue_cost q" for P q
    by (induction q) auto
  have bytes_le: "queue_bytes (map (revive now u) (filter P q)) \<le> queue_bytes q" for P q
    by (induction q) auto
  have ok: "mailbox_ok lim h q'" if "(h, q') \<in> set (mailboxes ?st)" for h q'
  proof -
    have "map_of (mailboxes ?st) h = Some q'" using that kd by (simp add: map_of_in)
    moreover have "q' \<noteq> []" using that unfolding boxes by auto
    ultimately have "q' = queued ?st h" "q' \<noteq> []" by (simp_all add: queued_def)
    then have q': "q' = map (revive now u) (filter (\<lambda>s. u < expiry_unix s) (queued st h))" "queued st h \<noteq> []"
      using q [of h] by auto
    have mo: "mailbox_ok lim h (queued st h)" using queued_ok [OF inv q'(2)] .
    have "stored_ok lim h (revive now u s)" if "s \<in> set (queued st h)" for s
    proof -
      have "expiry_unix s - u \<le> as_secs (max_ttl lim)" using w that by (fastforce simp: wall_ok_def)
      then have "secs (expiry_unix s - u) \<le> secs (as_secs (max_ttl lim))" by simp
      also have "\<dots> \<le> max_ttl lim" by (simp add: secs_def as_secs_def)
      finally have "secs (expiry_unix s - u) \<le> max_ttl lim" .
      moreover have "stored_ok lim h s" using mo that by (auto simp: mailbox_ok_def list_all_iff)
      ultimately show ?thesis by (simp add: stored_ok_def) (simp add: revive_def)
    qed
    then show ?thesis
      using mo \<open>q' \<noteq> []\<close> bytes_le [of "\<lambda>s. u < expiry_unix s" "queued st h"]
      by (auto simp: mailbox_ok_def q'(1) list_all_iff intro: order_trans [OF length_filter_le])
  qed
  have "load_queue env ?ov now u (fst hb) (snd hb) = queued ?st (fst hb)" if "hb \<in> set p" for hb
  proof -
    have "map_of p (fst hb) = Some (snd hb)" using p(2) that by (metis map_of_in prod.collapse)
    then show ?thesis by (simp add: load_boxes_queued [OF p(2)])
  qed
  then have "map (\<lambda>hb. queue_cost (load_queue env ?ov now u (fst hb) (snd hb))) p
      = map (\<lambda>hb. queue_cost (queued ?st (fst hb))) p"
    by (intro map_cong) simp_all
  then have "total_bytes ?st = sum_list (map (\<lambda>hb. queue_cost (queued ?st (fst hb))) p)"
    by (simp only: load_boxes_total) (simp add: empty_store_def)
  also have "\<dots> \<le> sum_list (map (\<lambda>hb. queue_cost (queued st (fst hb))) p)"
    unfolding q by (intro sum_list_mono cost_le)
  also have "\<dots> = (\<Sum>h \<in> fst ` set p. queue_cost (queued st h))"
    using p(2) by (subst sum_list_map_set) (auto simp: keys_distinct_def distinct_map sum.reindex)
  also have "fst ` set p = fst ` set (mailboxes st)"
    using p(3) by (auto simp: dom_map_of_conv_image_fst [symmetric] dom_def)
  also have "(\<Sum>h \<in> fst ` set (mailboxes st). queue_cost (queued st h)) = asum queue_cost (mailboxes st)"
  proof -
    have kd': "keys_distinct (mailboxes st)" using inv by (simp add: store_inv_def)
    then have "queue_cost (queued st (fst hq)) = queue_cost (snd hq)" if "hq \<in> set (mailboxes st)" for hq
      using that by (cases hq) (auto simp: queued_def map_of_in)
    then show ?thesis using kd'
      by (simp add: asum_def o_def sum_list_map_set sum.reindex keys_distinct_def distinct_map)
  qed
  finally have "total_bytes ?st \<le> total_bytes st" using inv by (simp add: store_inv_def)
  then have "total_bytes ?st \<le> max_total_bytes lim" using inv by (simp add: store_inv_def)
  with kd total ok show ?thesis unfolding ld store_inv_def list_all_iff by auto
qed

section \<open>What the operations leave clean\<close>

text \<open>An operation that leaves the store clean found it clean and changed no queue.\<close>

lemma entry_cost_pos: "mailbox_ok lim h q \<Longrightarrow> s \<in> set q \<Longrightarrow> 0 < cost s"
  by (auto simp: mailbox_ok_def list_all_iff stored_ok_def entry_cost_def valid_handle_def)

lemma clean_queue: "mailbox_ok lim h q \<Longrightarrow> set q' \<subseteq> set q \<Longrightarrow> queue_cost q' = 0 \<Longrightarrow> q' = []"
  using entry_cost_pos [of lim h q] by (cases q') fastforce+

lemma drain_handle_clean:
  assumes inv: "store_inv lim st" and dr: "drain_handle_bounded h b now st = (t, b', st')" and c: "\<not> dirty st'"
  shows "\<not> dirty st \<and> queued st' = queued st"
proof (cases rule: drain_handle_bounded_queued [OF inv dr])
  case (1 pre)
  have "pre = []"
  proof (cases "queued st h = []")
    case True
    then show ?thesis using 1(1) by simp
  next
    case False
    have "set pre \<subseteq> set (queued st h)" "queue_cost pre = 0" using 1(1) 1(8) c by simp_all
    then show ?thesis by (rule clean_queue [OF queued_ok [OF inv False]])
  qed
  then have "queued st h = queued st' h" using 1(1) by simp
  then have "queued st' = queued st" using 1(3) by (intro ext) (metis (full_types))
  moreover have "\<not> dirty st" using 1(8) c by blast
  ultimately show ?thesis by blast
qed

lemma drain_many_clean:
  "store_inv lim st \<Longrightarrow> drain_many hs b now st = (t, b', st') \<Longrightarrow> \<not> dirty st' \<Longrightarrow>
   \<not> dirty st \<and> queued st' = queued st"
proof (induction hs b now st arbitrary: t b' st' rule: drain_many.induct)
  case (1 b now st)
  then show ?case by simp
next
  case (2 h hs b now st)
  obtain t1 b1 st1 t2 where
    1: "drain_handle_bounded h b now st = (t1, b1, st1)" and 2: "drain_many hs b1 now st1 = (t2, b', st')"
    using "2.prems"(2) by (auto split: prod.splits)
  have "store_inv lim st1" using "2.prems"(1) 1 by (rule drain_queue_inv)
  then have "\<not> dirty st1 \<and> queued st' = queued st1"
    using "2.IH" [OF 1 [symmetric] refl refl _ 2] "2.prems"(3) by blast
  with drain_handle_clean [OF "2.prems"(1) 1] show ?case by simp
qed

lemma apply_op_clean:
  assumes inv: "store_inv lim st" and c: "\<not> dirty (apply_op env lim dir x st)"
  shows "\<not> dirty st \<and> queued (apply_op env lim dir x st) = queued st"
proof (cases x)
  case (Sweep now)
  have tb: "total_bytes (reap now st) = total_bytes st" "\<not> dirty st"
    using c Sweep reap_queued(4) [OF inv, of now] reap_queued(2) [OF inv, of now] by (auto simp: reap_def Let_def)
  have "filter (is_live now) (queued st h) = queued st h" for h
  proof (cases "queued st h = []")
    case False
    let ?dead = "filter (\<lambda>s. \<not> now < expiry s) (queued st h)"
    from False obtain q where q: "(h, q) \<in> set (mailboxes st)" "q = queued st h"
      by (auto simp: queued_def dest: map_of_SomeD split: option.splits)
    have "asum (\<lambda>q. queue_cost (filter (\<lambda>s. \<not> now < expiry s) q)) (mailboxes st) = 0"
      using c Sweep by (simp add: reap_def Let_def queue_cost_def)
    then have "queue_cost ?dead = 0" using q unfolding asum_def by fastforce
    then have "?dead = []" by (intro clean_queue [OF queued_ok [OF inv False]]) auto
    then show ?thesis by (auto simp: filter_empty_conv is_live_def intro!: filter_True)
  qed simp
  with Sweep tb reap_queued(1) [OF inv, of now] show ?thesis by auto
next
  case (Serve now u toks req)
  obtain r ev st' where p: "process env lim dir now u toks req st = (r, ev, st')" by (metis prod_cases3)
  with Serve c have c': "\<not> dirty st'" by simp
  have "\<not> dirty st \<and> queued st' = queued st"
  proof (cases req)
    case (Post h b t)
    with p have "process_post env lim now u toks h b t st = (r, ev, st')" by simp
    then show ?thesis by (cases rule: process_post_cases) (use c' in auto)
  next
    case (Recall h m t)
    with p have "process_recall h m t st = (r, ev, st')" by simp
    from process_recall_queued(6,7) [OF inv this] c' show ?thesis by auto
  next
    case (TakeMany hs)
    with p c' show ?thesis
      by (auto simp: process_take_many_def Let_def dest: drain_many_clean [OF inv] split: prod.splits if_splits)
  qed (use p c' in \<open>auto simp: process_peek_def process_fetch_def process_take_def process_get_directory_def
        Let_def dest: drain_handle_clean [OF inv] split: prod.splits\<close>)
  with Serve p show ?thesis by simp
qed

section \<open>The invariant of the relay and its disk\<close>

lemma wall_ok_later: "wall_ok lim u st \<Longrightarrow> u \<le> u' \<Longrightarrow> wall_ok lim u' st"
  by (force simp: wall_ok_def)

lemma wall_ok_sub: "wall_ok lim u st \<Longrightarrow> (\<And>h. set (queued st' h) \<subseteq> set (queued st h)) \<Longrightarrow> wall_ok lim u st'"
  unfolding wall_ok_def by blast

lemma apply_op_wall_ok:
  assumes inv: "store_inv lim st" and w: "wall_ok lim u st" and u: "\<forall>now u' toks req. x = Serve now u' toks req \<longrightarrow> u' = u"
  shows "wall_ok lim u (apply_op env lim dir x st)"
proof (cases rule: apply_op_queues [OF inv, of x env dir])
  case (1 now u' toks h b t bs)
  have "keys_distinct (mailboxes st)" using inv by (simp add: store_inv_def)
  moreover have "expiry_unix (new_stored lim now u toks h bs t) \<le> u + as_secs (max_ttl lim)"
    by (simp add: new_stored_def Let_def as_secs_def div_le_mono)
  moreover have "u' = u" using u 1(1) by blast
  ultimately show ?thesis
    using w unfolding 1(4) by (auto simp: wall_ok_def queued_def map_of_replace split: if_splits option.splits)
next
  case 2
  then show ?thesis by (intro wall_ok_sub [OF w] subseq_set)
qed

text \<open>A file the relay wrote: a complete snapshot of a well-formed store.\<close>

definition file_ok :: "relay_env \<Rightarrow> json_env \<Rightarrow> relay_limits \<Rightarrow> nat \<Rightarrow> bytes option \<Rightarrow> bool" where
  "file_ok env js lim u f \<longleftrightarrow>
     (\<forall>j. f = Some j \<longrightarrow> (\<exists>st. store_inv lim st \<and> wall_ok lim u st \<and> serialize_store env js st = Some j))"

lemma file_ok_None [simp]: "file_ok env js lim u None"
  by (simp add: file_ok_def)

lemma file_ok_later: "file_ok env js lim u f \<Longrightarrow> u \<le> u' \<Longrightarrow> file_ok env js lim u' f"
  unfolding file_ok_def by (blast intro: wall_ok_later)

definition latest_file :: "relay_sys \<Rightarrow> bytes option" where
  "latest_file s = (case writing s of None \<Rightarrow> disk s | Some j \<Rightarrow> Some j)"

definition sys_inv :: "relay_env \<Rightarrow> json_env \<Rightarrow> relay_limits \<Rightarrow> relay_sys \<Rightarrow> bool" where
  "sys_inv env js lim s \<longleftrightarrow>
     store_inv lim (mem s) \<and> wall_ok lim (wall s) (mem s) \<and>
     file_ok env js lim (wall s) (disk s) \<and> file_ok env js lim (wall s) (writing s) \<and>
     (\<not> dirty (mem s) \<longrightarrow> (\<forall>now u h. wall s \<le> u \<longrightarrow>
        unexpired u (load_store env js (entry_overhead_bytes lim) now u (latest_file s)) h = unexpired u (mem s) h))"

lemma load_none: "load_store env js ov now u None = empty_store"
  by (simp add: load_store_def)

lemma unexpired_revived:
  "u \<le> v \<Longrightarrow> filter (\<lambda>s. v < expiry_unix s) (map (revive now u) (filter (\<lambda>s. u < expiry_unix s) q))
     = map (revive now u) (filter (\<lambda>s. v < expiry_unix s) q)"
  by (induction q) auto

lemma load_saved_unexpired:
  assumes "codec_laws env js" "store_inv lim st" "serialize_store env js st = Some j" "u \<le> v"
  shows "unexpired v (load_store env js (entry_overhead_bytes lim) now u (Some j)) h = unexpired v st h"
  by (simp add: unexpired_def load_saved_queued [OF assms(1-3)] unexpired_revived [OF assms(4)])

text \<open>Loading at \<open>u\<close> and looking at \<open>v\<close> is loading at \<open>v\<close>.\<close>

lemma load_file_unexpired:
  assumes "codec_laws env js" "file_ok env js lim w f" "u \<le> v"
  shows "unexpired v (load_store env js (entry_overhead_bytes lim) now' v f) h
       = unexpired v (load_store env js (entry_overhead_bytes lim) now u f) h"
proof (cases f)
  case (Some j)
  then obtain st where st: "store_inv lim st" "serialize_store env js st = Some j"
    using assms(2) by (auto simp: file_ok_def)
  show ?thesis
    unfolding Some by (simp add: load_saved_unexpired [OF assms(1) st assms(3)] load_saved_unexpired [OF assms(1) st order_refl])
qed (simp add: load_none)

lemma load_file_ok:
  assumes "codec_laws env js" "file_ok env js lim u f"
  shows "store_inv lim (load_store env js (entry_overhead_bytes lim) now u f)"
    and "wall_ok lim u (load_store env js (entry_overhead_bytes lim) now u f)"
    and "\<not> dirty (load_store env js (entry_overhead_bytes lim) now u f)"
    and "s \<in> set (queued (load_store env js (entry_overhead_bytes lim) now u f) h) \<Longrightarrow>
           u < expiry_unix s \<and> expiry s = now + secs (expiry_unix s - u)"
proof -
  let ?L = "load_store env js (entry_overhead_bytes lim) now u f"
  have "store_inv lim ?L \<and> wall_ok lim u ?L \<and> \<not> dirty ?L \<and>
     (\<forall>h. \<forall>s \<in> set (queued ?L h). u < expiry_unix s \<and> expiry s = now + secs (expiry_unix s - u))"
  proof (cases f)
    case None
    then show ?thesis using store_inv_empty [of lim] by (simp add: load_none empty_store_def wall_ok_def queued_def)
  next
    case (Some j)
    then obtain st where st: "store_inv lim st" "wall_ok lim u st" "serialize_store env js st = Some j"
      using assms(2) by (auto simp: file_ok_def)
    have "\<not> dirty ?L" by (auto simp: load_store_def load_boxes_flags empty_store_def split: option.splits)
    moreover have "queued ?L h = map (revive now u) (filter (\<lambda>s. u < expiry_unix s) (queued st h))" for h
      unfolding Some by (rule load_saved_queued [OF assms(1) st(1,3)])
    moreover have "store_inv lim ?L" unfolding Some by (rule load_saved_inv [OF assms(1) st(1,3,2)])
    ultimately show ?thesis using st(2) by (auto simp: wall_ok_def) (simp add: revive_def)
  qed
  then show "store_inv lim ?L" "wall_ok lim u ?L" "\<not> dirty ?L"
    "s \<in> set (queued ?L h) \<Longrightarrow> u < expiry_unix s \<and> expiry s = now + secs (expiry_unix s - u)" by blast+
qed

lemma latest_file_mem [simp]: "latest_file (s\<lparr>mem := m\<rparr>) = latest_file s"
  by (simp add: latest_file_def cong: option.case_cong)

lemma boot_sys_inv: "sys_inv env js lim boot_sys"
  using store_inv_empty [of lim]
  by (simp add: sys_inv_def boot_sys_def latest_file_def load_none wall_ok_def)
    (simp add: empty_store_def queued_def)

lemma unexpired_queued: "queued st = queued st' \<Longrightarrow> unexpired u st h = unexpired u st' h"
  by (simp add: unexpired_def)

lemma sys_op_inv:
  assumes inv: "sys_inv env js lim s" and w: "wall_ok lim (wall s) (apply_op env lim dir x (mem s))"
  shows "sys_inv env js lim (s\<lparr>mem := apply_op env lim dir x (mem s)\<rparr>)"
proof -
  have si: "store_inv lim (mem s)" using inv by (simp add: sys_inv_def)
  have "unexpired u (apply_op env lim dir x (mem s)) h = unexpired u (mem s) h \<and> \<not> dirty (mem s)"
    if "\<not> dirty (apply_op env lim dir x (mem s))" for u h
    using apply_op_clean [OF si that] by (auto intro: unexpired_queued)
  with inv w apply_op_inv [OF si, of env dir x] show ?thesis
    by (auto simp: sys_inv_def)
qed

lemma sys_step_inv:
  assumes laws: "codec_laws env js" and step: "sys_step env js lim dir s s'" and inv: "sys_inv env js lim s"
  shows "sys_inv env js lim s'"
  using step
proof cases
  case (sys_serve toks req)
  have "wall_ok lim (wall s) (apply_op env lim dir (Serve (mono s) (wall s) toks req) (mem s))"
    using inv by (intro apply_op_wall_ok) (simp_all add: sys_inv_def)
  then show ?thesis unfolding sys_serve by (rule sys_op_inv [OF inv])
next
  case sys_sweep
  have "wall_ok lim (wall s) (apply_op env lim dir (Sweep (mono s)) (mem s))"
    using inv by (intro apply_op_wall_ok) (simp_all add: sys_inv_def)
  then show ?thesis unfolding sys_sweep by (rule sys_op_inv [OF inv])
next
  case (sys_begin respect json st')
  then have st': "st' = (mem s)\<lparr>dirty := False, last_flush := Some (mono s)\<rparr>"
    and js: "serialize_store env js (mem s) = Some json"
    by (auto simp: flush_begin_def split: if_splits option.splits)
  have si: "store_inv lim (mem s)" "wall_ok lim (wall s) (mem s)" using inv by (simp_all add: sys_inv_def)
  have "store_inv lim st'" using si(1) by (simp add: st' store_inv_def)
  moreover have q: "queued st' = queued (mem s)" by (simp add: st' queued_def fun_eq_iff)
  then have "wall_ok lim (wall s) st'" using si(2) by (simp add: wall_ok_def)
  moreover have "file_ok env js lim (wall s) (Some json)"
    using si js by (auto simp: file_ok_def)
  ultimately show ?thesis
    using inv load_saved_unexpired [OF laws si(1) js order_refl] unexpired_queued [OF q]
    by (simp add: sys_inv_def sys_begin latest_file_def)
next
  case (sys_end json written st' file')
  show ?thesis
  proof (cases written)
    case True
    with inv sys_end show ?thesis by (auto simp: sys_inv_def flush_end_def latest_file_def)
  next
    case False
    then have "st' = (mem s)\<lparr>dirty := True\<rparr>" "file' = disk s" using sys_end(3) by (auto simp: flush_end_def)
    with inv sys_end(1) show ?thesis by (simp add: sys_inv_def store_inv_def wall_ok_def queued_def)
  qed
next
  case (sys_restart now)
  have f: "file_ok env js lim (wall s) (disk s)" using inv by (simp add: sys_inv_def)
  show ?thesis
    unfolding sys_restart
    using f load_file_ok [OF laws f, where now = now] load_file_unexpired [OF laws f]
    by (simp add: sys_inv_def latest_file_def)
next
  case (sys_tick e d)
  have "file_ok env js lim (wall s + e) (disk s)" "file_ok env js lim (wall s + e) (writing s)"
    "wall_ok lim (wall s + e) (mem s)"
    using inv by (auto simp: sys_inv_def intro: file_ok_later wall_ok_later)
  moreover have "latest_file s' = latest_file s" by (simp add: sys_tick latest_file_def cong: option.case_cong)
  ultimately show ?thesis using inv unfolding sys_tick by (simp add: sys_inv_def)
qed

lemma sys_reachable_inv:
  assumes laws: "codec_laws env js"
  shows "sys_reachable env js lim dir s \<Longrightarrow> sys_inv env js lim s"
  by (induction rule: sys_reachable.induct) (auto intro: boot_sys_inv sys_step_inv [OF laws])

section \<open>Properties\<close>

text \<open>
  C9. No mail is lost to a restart once it is on disk. In every state the relay can reach, with
  any interleaving of requests, sweeps, flushes (successful or failed), clock ticks and earlier
  restarts: when the store is clean and no write is under way, loading the file gives back, for
  every mailbox and from any wall time on, exactly the unexpired blobs in memory, in order, with
  their ids and delete tokens. In particular a request that arrives during the write, or a write
  that fails, leaves the store dirty.
\<close>

theorem relay_restart_recovers:
  assumes "codec_laws env js" and "sys_reachable env js lim dir s"
    and "writing s = None" and "\<not> dirty (mem s)" and "wall s \<le> u"
  shows "unexpired u (load_store env js (entry_overhead_bytes lim) now u (disk s)) h = unexpired u (mem s) h"
  using sys_reachable_inv [OF assms(1,2)] assms(3-5) by (auto simp: sys_inv_def latest_file_def)

text \<open>
  A restart at any moment is safe. Whatever the relay was doing when it stopped (a write half
  done included: the file is replaced by a rename), the store it loads satisfies the store's
  invariant, limits and byte total included, and holds no blob past its wall-clock expiry; what it
  holds expires when it would have.
\<close>

theorem relay_restart_safe:
  assumes "codec_laws env js" and "sys_reachable env js lim dir s"
  shows "store_inv lim (load_store env js (entry_overhead_bytes lim) now (wall s) (disk s)) \<and>
         list_all (\<lambda>b. wall s < expiry_unix b \<and> expiry b = now + secs (expiry_unix b - wall s))
           (queued (load_store env js (entry_overhead_bytes lim) now (wall s) (disk s)) h)"
  using sys_reachable_inv [OF assms] load_file_ok [OF assms(1), where f = "disk s"]
  by (auto simp: sys_inv_def list_all_iff)

text \<open>A concrete run: a post, a flush, and the file it leaves.\<close>

definition sample_persisted :: persisted_store where
  "sample_persisted =
     [(''h'', [\<lparr>p_msg_id = ''id'', p_delete_token = ''tok'', p_expiry_unix = 65, p_blob = ''hi''\<rparr>])]"

definition sample_json :: json_env where
  "sample_json =
     \<lparr>json_write = (\<lambda>p. if p = [] then Some [0] else if p = sample_persisted then Some [1] else None),
      json_read = (\<lambda>d. if d = [0] then Some [] else if d = [1] then Some sample_persisted else None)\<rparr>"

lemma sample_chars: "char_of (104 :: nat) = CHR ''h''" "char_of (105 :: nat) = CHR ''i''"
  using char_of_char [of "CHR ''h''", where ?'a = nat] char_of_char [of "CHR ''i''", where ?'a = nat]
  by (simp_all add: of_char_def)

lemma sample_codec_laws: "codec_laws sample_env sample_json"
  by (auto simp: byte_char codec_laws_def sample_env_def sample_json_def sample_persisted_def keys_distinct_def o_def
      split: if_splits)

definition sample_clean :: store where
  "sample_clean = sample_store\<lparr>dirty := False, last_flush := Some 0\<rparr>"

definition sample_flushed :: relay_sys where
  "sample_flushed = \<lparr>mem = sample_clean, disk = Some [1], writing = None, mono = 0, wall = 5\<rparr>"

lemma sample_serialized: "serialize_store sample_env sample_json sample_store = Some [1]"
  by (simp add: serialize_store_def sample_store_eq sample_json_def sample_persisted_def persist_blob_def
      sample_env_def sample_chars)

lemma sample_reachable: "sys_reachable sample_env sample_json sample_limits None sample_flushed"
proof -
  let ?R = "sys_reachable sample_env sample_json sample_limits None"
  have "?R (boot_sys\<lparr>mono := mono boot_sys + 0, wall := wall boot_sys + 5\<rparr>)"
    by (rule reach_step [OF reach_boot sys_tick])
  from reach_step [OF this sys_serve [where toks = "(''id'', ''tok'')" and req = "Post ''h'' ''hi'' 60"]]
  have "?R \<lparr>mem = sample_store, disk = None, writing = None, mono = 0, wall = 5\<rparr>"
    by (simp add: boot_sys_def sample_store_def sample_post_def run_ops_def)
  moreover have "flush_begin sample_env sample_json True 0 sample_store = Some ([1], sample_clean)"
    by (simp add: flush_begin_def sample_serialized sample_clean_def) (simp add: sample_store_eq)
  ultimately have "?R \<lparr>mem = sample_clean, disk = None, writing = Some [1], mono = 0, wall = 5\<rparr>"
    using reach_step [OF _ sys_begin] by fastforce
  from reach_step [OF this sys_end [where json = "[1]" and written = True]]
  show ?thesis by (simp add: flush_end_def sample_flushed_def)
qed

theorem relay_restart_recovers_witness:
  "unexpired 10 (load_store sample_env sample_json 2 99 10 (disk sample_flushed)) ''h''
     = [(''id'', ''tok'', 65, [104, 105])]"
  using relay_restart_recovers [OF sample_codec_laws sample_reachable, of 10 99 "''h''"]
  by (simp add: sample_flushed_def sample_clean_def sample_store_eq unexpired_def queued_def blob_key_def
      sample_limits_def)

theorem relay_restart_safe_witness:
  "store_inv sample_limits (load_store sample_env sample_json 2 99 5 (disk sample_flushed))
   \<and> list_all (\<lambda>b. 5 < expiry_unix b) (queued (load_store sample_env sample_json 2 99 5 (disk sample_flushed)) ''h'')"
  using relay_restart_safe [OF sample_codec_laws sample_reachable, of 99 "''h''"]
  by (simp add: sample_flushed_def sample_limits_def list_all_iff)

end
