(* ===== verification/RelayBounds.thy ===== *)
theory RelayBounds
  imports RelayMail
begin

text \<open>
  What the relay's limits are for: the bytes one reply can carry, whatever is queued, against the
  line a client will read (\<open>MAX_RESPONSE_LINE_BYTES\<close>), and the part of the store that large blobs
  can never take from small ones (\<open>small_reserve_bytes\<close>).
\<close>

section \<open>The size of a reply\<close>

text \<open>The bytes a drain takes under a budget: at most the room, or one blob of any size.\<close>

definition within_budget :: "take_budget \<Rightarrow> stored list \<Rightarrow> take_budget \<Rightarrow> bool" where
  "within_budget b taken b' \<longleftrightarrow>
     (if is_first b \<and> taken \<noteq> [] then queue_bytes (tl taken) \<le> room b - length (blob_bytes (hd taken))
      else queue_bytes taken \<le> room b)
     \<and> room b' = room b - queue_bytes taken \<and> is_first b' = (is_first b \<and> taken = [])"

lemma within_budget_append:
  "within_budget b t1 b1 \<Longrightarrow> within_budget b1 t2 b2 \<Longrightarrow> within_budget b (t1 @ t2) b2"
  by (cases t1) (auto simp: within_budget_def split: if_splits)

lemma drain_handle_budget:
  "drain_handle_bounded h b now st = (taken, b', st') \<Longrightarrow> within_budget b taken b'"
  by (auto simp: drain_handle_bounded_def Let_def within_budget_def dest: drain_queue_budget
      split: option.splits prod.splits)

lemma drain_many_budget:
  "drain_many hs b now st = (taken, b', st') \<Longrightarrow> within_budget b taken b'"
proof (induction hs b now st arbitrary: taken b' st' rule: drain_many.induct)
  case (1 b now st)
  then show ?case by (simp add: within_budget_def)
next
  case (2 x hs b now st)
  obtain t1 b1 st1 t2 where
    1: "drain_handle_bounded x b now st = (t1, b1, st1)" and 2: "drain_many hs b1 now st1 = (t2, b', st')"
    and t: "taken = t1 @ t2"
    using "2.prems" by (auto split: prod.splits)
  have "within_budget b1 t2 b'" using "2.IH" [OF 1 [symmetric] refl refl 2] .
  with drain_handle_budget [OF 1] show ?case unfolding t by (rule within_budget_append)
qed

text \<open>How many blobs, and of what size.\<close>

lemma drain_handle_taken:
  assumes inv: "store_inv lim st" and dr: "drain_handle_bounded h b now st = (taken, b', st')"
  shows "length taken \<le> max_mailbox_blobs lim \<and> (\<forall>s \<in> set taken. length (blob_bytes s) \<le> max_blob_bytes lim)"
proof (cases rule: drain_handle_bounded_queued [OF inv dr])
  case (1 pre)
  show ?thesis
  proof (cases "queued st h = []")
    case True
    with 1 show ?thesis by simp
  next
    case False
    have "mailbox_ok lim h (queued st h)" using inv False by (rule queued_ok)
    moreover have "length taken \<le> length (queued st h)"
      unfolding 1(1) 1(2) by (simp add: trans_le_add1)
    moreover have "set taken \<subseteq> set (queued st h)" unfolding 1(1) 1(2) by auto
    ultimately show ?thesis by (auto simp: mailbox_ok_def list_all_iff stored_ok_def)
  qed
qed

lemma drain_many_taken:
  "store_inv lim st \<Longrightarrow> drain_many hs b now st = (taken, b', st') \<Longrightarrow>
   length taken \<le> length hs * max_mailbox_blobs lim \<and> (\<forall>s \<in> set taken. length (blob_bytes s) \<le> max_blob_bytes lim)"
proof (induction hs b now st arbitrary: taken b' st' rule: drain_many.induct)
  case (1 b now st)
  then show ?case by simp
next
  case (2 x hs b now st)
  obtain t1 b1 st1 t2 where
    1: "drain_handle_bounded x b now st = (t1, b1, st1)" and 2: "drain_many hs b1 now st1 = (t2, b', st')"
    and t: "taken = t1 @ t2"
    using "2.prems" by (auto split: prod.splits)
  have "store_inv lim st1" using "2.prems"(1) 1 by (rule drain_queue_inv)
  from "2.IH" [OF 1 [symmetric] refl refl this 2] drain_handle_taken [OF "2.prems"(1) 1]
  show ?case by (auto simp: t)
qed

lemma within_budget_bytes:
  assumes "within_budget default_budget taken b'" and "\<forall>s \<in> set taken. length (blob_bytes s) \<le> m"
  shows "queue_bytes taken \<le> TAKE_BUDGET_BYTES + m"
  using assms by (cases taken) (auto simp: within_budget_def default_budget_def)

lemma b64_total:
  "\<forall>bs. length (enc bs) \<le> (length bs + 2) div 3 * 4 \<Longrightarrow>
   3 * sum_list (map (\<lambda>s. length (enc (blob_bytes s))) q) \<le> 4 * queue_bytes q + 8 * length q"
proof (induction q)
  case (Cons s q)
  let ?n = "length (blob_bytes s)"
  have "3 * length (enc (blob_bytes s)) \<le> 3 * ((?n + 2) div 3 * 4)" using Cons.prems by (metis mult_le_mono2)
  also have "\<dots> \<le> 4 * (?n + 2)" by simp
  finally show ?case using Cons by simp
qed simp

definition reply_bytes :: "response \<Rightarrow> nat" where
  "reply_bytes r = sum_list (map (\<lambda>b. length b + 64) (blobs r)) + sum_list (map (\<lambda>(i, b). length b + 64) (items r)) + 4096"

lemma drained_reply:
  assumes enc: "\<forall>bs. length (b64_encode env bs) \<le> (length bs + 2) div 3 * 4"
    and n: "length taken \<le> MAX_TAKE_MANY * 256" and bytes: "queue_bytes taken \<le> TAKE_BUDGET_BYTES + MAX_BLOB_BYTES"
  shows "sum_list (map (\<lambda>s. length (b64_encode env (blob_bytes s)) + 64) taken) + 4096 \<le> MAX_RESPONSE_LINE_BYTES"
proof -
  have "sum_list (map (\<lambda>s. length (b64_encode env (blob_bytes s)) + 64) taken)
      = sum_list (map (\<lambda>s. length (b64_encode env (blob_bytes s))) taken) + 64 * length taken"
    by (simp add: sum_list_addf sum_list_triv)
  with b64_total [OF enc, of taken] n bytes show ?thesis
    by (simp add: MAX_RESPONSE_LINE_BYTES_def TAKE_BUDGET_BYTES_def MAX_BLOB_BYTES_def MAX_TAKE_MANY_def)
qed

text \<open>
  Every reply fits the line a client will read. For any store a relay with the default
  limits can hold and any request, the base64 of all blobs the reply carries, with 64 bytes of
  JSON per entry and 4 KiB for the rest, stays within \<open>MAX_RESPONSE_LINE_BYTES\<close>: however much is
  queued, and with up to 64 mailboxes named in one request, a client that reads no further than
  its cap never loses drained mail to it. (A base64 text is at most four characters per started
  three bytes.)
\<close>

theorem relay_reply_fits:
  assumes "store_inv default_limits st"
    and "\<forall>bs. length (b64_encode env bs) \<le> (length bs + 2) div 3 * 4"
    and "process env default_limits dir now u toks req st = (r, ev, st')"
  shows "reply_bytes r \<le> MAX_RESPONSE_LINE_BYTES"
proof -
  have lim: "max_mailbox_blobs default_limits = 256" "max_blob_bytes default_limits = MAX_BLOB_BYTES"
    by (simp_all add: default_limits_def)
  have small: "4096 \<le> MAX_RESPONSE_LINE_BYTES" "1 \<le> MAX_TAKE_MANY"
    by (simp_all add: MAX_RESPONSE_LINE_BYTES_def TAKE_BUDGET_BYTES_def MAX_BLOB_BYTES_def MAX_TAKE_MANY_def)
  have one: "sum_list (map (\<lambda>s. length (b64_encode env (blob_bytes s)) + 64) taken) + 4096 \<le> MAX_RESPONSE_LINE_BYTES"
    if "drain_handle_bounded h default_budget now st = (taken, b', s')" for h taken b' s'
    using drain_handle_taken [OF assms(1) that] within_budget_bytes [OF drain_handle_budget [OF that]] small(2)
    by (intro drained_reply [OF assms(2)]) (auto simp: lim)
  have many: "sum_list (map (\<lambda>s. length (b64_encode env (blob_bytes s)) + 64) taken) + 4096 \<le> MAX_RESPONSE_LINE_BYTES"
    if "drain_many hs default_budget now st = (taken, b', s')" "length hs \<le> MAX_TAKE_MANY" for hs taken b' s'
  proof (rule drained_reply [OF assms(2)])
    have "length taken \<le> length hs * 256" using drain_many_taken [OF assms(1) that(1)] by (simp add: lim)
    also have "\<dots> \<le> MAX_TAKE_MANY * 256" using that(2) by simp
    finally show "length taken \<le> MAX_TAKE_MANY * 256" .
    show "queue_bytes taken \<le> TAKE_BUDGET_BYTES + MAX_BLOB_BYTES"
      using within_budget_bytes [OF drain_many_budget [OF that(1)]] drain_many_taken [OF assms(1) that(1)]
      by (simp add: lim)
  qed
  show ?thesis
    using assms(3) small
    by (cases req)
      (auto simp: process_post_def process_peek_def process_fetch_def process_take_def process_take_many_def
        process_recall_def process_get_directory_def Let_def default_response_def response_err_def just_ok_def
        reply_bytes_def o_def dest!: one many split: prod.splits option.splits if_splits)
qed

theorem relay_reply_fits_witness:
  "reply_bytes (fst (process sample_env default_limits None 1 6 (''b'', ''c'') (Take ''h'') empty_store))
     \<le> MAX_RESPONSE_LINE_BYTES"
proof -
  obtain r ev st' where p: "process sample_env default_limits None 1 6 (''b'', ''c'') (Take ''h'') empty_store = (r, ev, st')"
    by (metis prod_cases3)
  have "n \<le> (n + 2) div 3 * 4" for n :: nat by presburger
  then have "\<forall>bs. length (b64_encode sample_env bs) \<le> (length bs + 2) div 3 * 4"
    by (simp add: sample_env_def)
  from relay_reply_fits [OF store_inv_empty this p] p show ?thesis by simp
qed

section \<open>The reserve for small blobs\<close>

definition large_cost :: "relay_limits \<Rightarrow> stored list \<Rightarrow> nat" where
  "large_cost lim q = queue_cost (filter (\<lambda>s. small_blob_bytes lim < length (blob_bytes s)) q)"

definition small_cost :: "relay_limits \<Rightarrow> stored list \<Rightarrow> nat" where
  "small_cost lim q = queue_cost (filter (\<lambda>s. \<not> small_blob_bytes lim < length (blob_bytes s)) q)"

lemma split_cost: "large_cost lim q + small_cost lim q = queue_cost q"
  unfolding large_cost_def small_cost_def by (rule queue_cost_filter)

lemma large_cost_simps [simp]:
  "large_cost lim [] = 0"
  "large_cost lim (q @ [s]) = large_cost lim q + (if small_blob_bytes lim < length (blob_bytes s) then cost s else 0)"
  by (simp_all add: large_cost_def)

lemma queue_cost_subseq: "subseq q' q \<Longrightarrow> queue_cost q' \<le> queue_cost q"
  by (induction rule: list_emb.induct) auto

lemma large_cost_subseq: "subseq q' q \<Longrightarrow> large_cost lim q' \<le> large_cost lim q"
  unfolding large_cost_def by (intro queue_cost_subseq subseq_filter)

lemma asum_split: "asum (large_cost lim) m + asum (small_cost lim) m = asum queue_cost m"
  by (induction m) (auto simp: split_cost [symmetric, of _ lim])

text \<open>The blobs above \<open>small_blob_bytes\<close> never cost more than the store less the reserve.\<close>

definition reserve_kept :: "relay_limits \<Rightarrow> store \<Rightarrow> bool" where
  "reserve_kept lim st \<longleftrightarrow>
     asum (large_cost lim) (mailboxes st) \<le> max_total_bytes lim - small_reserve_bytes lim"

lemma asum_queued:
  "keys_distinct (mailboxes st) \<Longrightarrow> finite H \<Longrightarrow> fst ` set (mailboxes st) \<subseteq> H \<Longrightarrow> f [] = 0 \<Longrightarrow>
   asum f (mailboxes st) = (\<Sum>h \<in> H. f (queued st h))"
  by (simp add: queued_def asum_lookup [where d = "[]"])

lemma apply_op_reserve:
  assumes inv: "store_inv lim st" and res: "reserve_kept lim st"
  shows "reserve_kept lim (apply_op env lim dir x st)"
proof (cases rule: apply_op_queues [OF inv, of x env dir])
  case (1 now u toks h b t bs)
  let ?s = "new_stored lim now u toks h bs t" and ?c = "entry_cost h (length bs) (entry_overhead_bytes lim)"
  have kd: "keys_distinct (mailboxes st)" and tot: "total_bytes st = asum queue_cost (mailboxes st)"
    using inv by (simp_all add: store_inv_def)
  have new: "asum (large_cost lim) (AList.update h (queued st h @ [?s]) (mailboxes st))
      = asum (large_cost lim) (mailboxes st) + (if small_blob_bytes lim < length bs then ?c else 0)"
    using asum_update [OF kd, of "large_cost lim" h "queued st h @ [?s]"]
    by (auto simp: queued_def new_stored_def Let_def split: option.splits)
  have "small_blob_bytes lim < length bs \<Longrightarrow> total_bytes st + ?c \<le> max_total_bytes lim - small_reserve_bytes lim"
    using 1(3) by (auto simp: post_reject_def Let_def split: if_splits)
  then show ?thesis
    using new res tot asum_split [of lim "mailboxes st"] unfolding 1(4) by (auto simp: reserve_kept_def)
next
  case 2
  let ?st = "apply_op env lim dir x st" and ?H = "fst ` set (mailboxes st) \<union> fst ` set (mailboxes (apply_op env lim dir x st))"
  have kd: "keys_distinct (mailboxes st)" "keys_distinct (mailboxes ?st)"
    using inv apply_op_inv [OF inv, of env dir x] by (simp_all add: store_inv_def)
  have "asum (large_cost lim) (mailboxes ?st) = (\<Sum>h \<in> ?H. large_cost lim (queued ?st h))"
    by (intro asum_queued [OF kd(2)]) auto
  also have "\<dots> \<le> (\<Sum>h \<in> ?H. large_cost lim (queued st h))"
    by (intro sum_mono large_cost_subseq 2)
  also have "\<dots> = asum (large_cost lim) (mailboxes st)"
    by (rule asum_queued [OF kd(1), symmetric]) auto
  finally show ?thesis using res by (simp add: reserve_kept_def)
qed

lemma run_ops_reserve: "reserve_kept lim (run_ops env lim dir ops empty_store)"
proof -
  have "store_inv lim st \<Longrightarrow> reserve_kept lim st \<Longrightarrow> reserve_kept lim (fold (apply_op env lim dir) ops st)" for st
    by (induction ops arbitrary: st) (auto intro: apply_op_inv apply_op_reserve)
  moreover have "reserve_kept lim empty_store" by (simp add: reserve_kept_def empty_store_def)
  ultimately show ?thesis using store_inv_empty by (simp add: run_ops_def)
qed

text \<open>
  Large blobs cannot starve small ones. After any run from an empty store, a blob of at most
  \<open>small_blob_bytes\<close> is never refused with "relay full" while the small blobs queued, with it,
  fit the reserve: a flood of media, however large, leaves room for messages and pairing traffic.
\<close>

theorem relay_small_reserve:
  assumes "small_reserve_bytes lim \<le> max_total_bytes lim" and "len \<le> small_blob_bytes lim"
    and "asum (small_cost lim) (mailboxes (run_ops env lim dir ops empty_store))
           + entry_cost h len (entry_overhead_bytes lim) \<le> small_reserve_bytes lim"
  shows "post_reject lim (run_ops env lim dir ops empty_store) h len \<noteq> Some ''relay full''"
proof -
  let ?st = "run_ops env lim dir ops empty_store"
  have "total_bytes ?st = asum queue_cost (mailboxes ?st)"
    using run_ops_inv [OF store_inv_empty, of lim env dir ops] by (simp add: store_inv_def)
  then have "total_bytes ?st + entry_cost h len (entry_overhead_bytes lim) \<le> max_total_bytes lim"
    using run_ops_reserve [of lim env dir ops] asum_split [of lim "mailboxes ?st"] assms
    by (simp add: reserve_kept_def)
  with assms(2) show ?thesis by (simp add: post_reject_def Let_def)
qed

theorem relay_small_reserve_witness:
  "post_reject sample_limits (run_ops sample_env sample_limits None [sample_post] empty_store) ''g'' 8 \<noteq> Some ''relay full''"
proof (rule relay_small_reserve)
  show "asum (small_cost sample_limits) (mailboxes (run_ops sample_env sample_limits None [sample_post] empty_store))
      + entry_cost ''g'' 8 (entry_overhead_bytes sample_limits) \<le> small_reserve_bytes sample_limits"
    unfolding sample_store_def [symmetric] sample_store_eq
    by (simp add: sample_limits_def small_cost_def entry_cost_def)
qed (simp_all add: sample_limits_def)

end
