(* ===== verification/Watchdog.thy ===== *)
theory Watchdog
  imports Prelude
begin

text \<open>
  The relay's self-healing watchdog, \<open>relay/src/main.rs\<close>: \<open>DarkClocks\<close>, \<open>Cycle::verdict\<close> and
  \<open>escalate\<close>, the loop that feeds them, the persisted count of unhealthy restarts, and the guard
  reset at start. What a cycle sees of the network (the self-dial's outcome, the publisher's
  state, the Tor client's complaint, the accept loop's served counter, the clock) is an
  observation, the input of the loop.
\<close>

section \<open>Clocks and verdicts\<close>

definition WATCHDOG_MAX_DARK :: duration where
  "WATCHDOG_MAX_DARK = secs (15 * 60)"

definition UNHEALTHY_RESET_THRESHOLD :: u32 where
  "UNHEALTHY_RESET_THRESHOLD = 2"

record dark_clocks =
  publisher :: "instant option"
  dial :: "instant option"

definition default_clocks :: dark_clocks where
  "default_clocks = \<lparr>publisher = None, dial = None\<rparr>"

definition get_or_insert :: "'a option \<Rightarrow> 'a \<Rightarrow> 'a option" where
  "get_or_insert x v = (case x of None \<Rightarrow> Some v | Some y \<Rightarrow> Some y)"

definition observe :: "bool \<Rightarrow> bool \<Rightarrow> instant \<Rightarrow> dark_clocks \<Rightarrow> dark_clocks" where
  "observe publisher_is_dark dial_has_failed now c =
     \<lparr>publisher = (if publisher_is_dark then get_or_insert (publisher c) now else None),
      dial = (if dial_has_failed then get_or_insert (dial c) now else None)\<rparr>"

definition dark_since :: "dark_clocks \<Rightarrow> bool \<Rightarrow> instant \<Rightarrow> duration" where
  "dark_since c publisher_is_dark now =
     (case (if publisher_is_dark then publisher c else dial c) of None \<Rightarrow> 0 | Some t \<Rightarrow> now - t)"

definition excuse :: "bool \<Rightarrow> dark_clocks \<Rightarrow> dark_clocks" where
  "excuse unusable c = (let c = c\<lparr>dial := None\<rparr> in if unusable then c\<lparr>publisher := None\<rparr> else c)"

record cycle =
  dial_failed :: bool
  publisher_dark :: bool
  served_since_dark :: bool
  client_unusable :: "string option"
  dark_for :: duration

datatype verdict = Healthy | Inconclusive string | Dark string | Restart string

definition escalate :: "cycle \<Rightarrow> string \<Rightarrow> verdict" where
  "escalate cy why = (if dark_for cy < WATCHDOG_MAX_DARK then Dark why else Restart why)"

definition verdict_of :: "cycle \<Rightarrow> verdict" where
  "verdict_of cy =
     (if \<not> dial_failed cy \<and> \<not> publisher_dark cy then Healthy
      else if client_unusable cy \<noteq> None then Inconclusive ''our own Tor client is unusable''
      else if publisher_dark cy
           then escalate cy ''the descriptor is missing from one of the two HsDir rings''
      else if served_since_dark cy then Inconclusive ''clients are still being served''
      else escalate cy ''the self-dial could not reach this relay'')"

section \<open>The loop\<close>

record observation =
  obs_dial_failed :: bool
  obs_publisher_dark :: bool
  obs_served :: nat
  obs_unusable :: "string option"
  obs_now :: instant

record watchdog =
  clocks :: dark_clocks
  cleared :: bool
  unhealthy :: u32
  exited :: bool

text \<open>The cycle the loop judges: \<open>observe\<close> has run, and the dial's clock dates the served counter.\<close>

definition judged_cycle :: "instant \<Rightarrow> dark_clocks \<Rightarrow> observation \<Rightarrow> cycle" where
  "judged_cycle start c ob =
     \<lparr>dial_failed = obs_dial_failed ob, publisher_dark = obs_publisher_dark ob,
      served_since_dark =
        (as_secs ((case dial c of None \<Rightarrow> obs_now ob | Some t \<Rightarrow> t) - start) < obs_served ob),
      client_unusable = obs_unusable ob,
      dark_for = dark_since c (obs_publisher_dark ob) (obs_now ob)\<rparr>"

definition watch_cycle :: "instant \<Rightarrow> observation \<Rightarrow> watchdog \<Rightarrow> verdict \<times> watchdog" where
  "watch_cycle start ob w =
     (let c = observe (obs_publisher_dark ob) (obs_dial_failed ob) (obs_now ob) (clocks w);
          cy = judged_cycle start c ob;
          v = verdict_of cy
      in (v, case v of
               Healthy \<Rightarrow> w\<lparr>clocks := default_clocks,
                            unhealthy := (if cleared w then unhealthy w else 0), cleared := True\<rparr>
             | Inconclusive why \<Rightarrow> w\<lparr>clocks := excuse (client_unusable cy \<noteq> None) c\<rparr>
             | Dark why \<Rightarrow> w\<lparr>clocks := c\<rparr>
             | Restart why \<Rightarrow> w\<lparr>clocks := c, unhealthy := unhealthy w + 1, exited := True\<rparr>))"

text \<open>One process: cycles until one exits. The verdicts passed, and the state at the end.\<close>

fun watch_run :: "instant \<Rightarrow> observation list \<Rightarrow> watchdog \<Rightarrow> verdict list \<times> watchdog" where
  "watch_run start [] w = ([], w)"
| "watch_run start (ob # obs) w =
     (let (v, w') = watch_cycle start ob w
      in if exited w' then ([v], w')
         else (let (vs, w'') = watch_run start obs w' in (v # vs, w'')))"

text \<open>A start reads the persisted count, and resets the guards when it has reached the threshold.\<close>

definition watch_start :: "u32 \<Rightarrow> bool \<times> watchdog" where
  "watch_start marker =
     (UNHEALTHY_RESET_THRESHOLD \<le> marker,
      \<lparr>clocks = default_clocks, cleared = False, unhealthy = marker, exited = False\<rparr>)"

section \<open>What the clocks remember\<close>

text \<open>\<open>t\<close> starts a stretch of \<open>hist\<close>, up to its end, in which every observation satisfies \<open>P\<close>.\<close>

definition spell :: "(observation \<Rightarrow> bool) \<Rightarrow> observation list \<Rightarrow> instant \<Rightarrow> bool" where
  "spell P hist t \<longleftrightarrow> (\<exists>suf. suffix suf hist \<and> suf \<noteq> [] \<and> obs_now (hd suf) = t \<and> list_all P suf)"

lemma spell_start: "P ob \<Longrightarrow> obs_now ob = t \<Longrightarrow> spell P (hist @ [ob]) t"
  unfolding spell_def by (intro exI [of _ "[ob]"]) simp

lemma spell_extend: "spell P hist t \<Longrightarrow> P ob \<Longrightarrow> spell P (hist @ [ob]) t"
proof -
  assume "spell P hist t" "P ob"
  then obtain suf where "suffix suf hist" "suf \<noteq> []" "obs_now (hd suf) = t" "list_all P suf"
    by (auto simp: spell_def)
  with \<open>P ob\<close> show ?thesis
    unfolding spell_def by (intro exI [of _ "suf @ [ob]"]) (simp add: suffix_def)
qed

definition remembers :: "(observation \<Rightarrow> bool) \<Rightarrow> observation list \<Rightarrow> instant option \<Rightarrow> bool" where
  "remembers P hist clock \<longleftrightarrow> (\<forall>t. clock = Some t \<longrightarrow> spell P hist t)"

lemma remembers_None [simp]: "remembers P hist None"
  by (simp add: remembers_def)

lemma remembers_insert: "remembers P hist clock \<Longrightarrow> P ob \<Longrightarrow> remembers P (hist @ [ob]) (get_or_insert clock (obs_now ob))"
  by (auto simp: remembers_def get_or_insert_def intro: spell_start spell_extend split: option.splits)

definition usable_dark :: "observation \<Rightarrow> bool" where
  "usable_dark ob \<longleftrightarrow> obs_publisher_dark ob \<and> obs_unusable ob = None"

definition usable_unreached :: "observation \<Rightarrow> bool" where
  "usable_unreached ob \<longleftrightarrow> obs_dial_failed ob \<and> obs_unusable ob = None"

definition clocks_ok :: "observation list \<Rightarrow> dark_clocks \<Rightarrow> bool" where
  "clocks_ok hist c \<longleftrightarrow> remembers usable_dark hist (publisher c) \<and> remembers usable_unreached hist (dial c)"

lemma clocks_ok_default [simp]: "clocks_ok hist default_clocks"
  by (simp add: clocks_ok_def default_clocks_def)

lemma observe_ok:
  assumes "clocks_ok hist c" and "obs_unusable ob = None"
  shows "clocks_ok (hist @ [ob]) (observe (obs_publisher_dark ob) (obs_dial_failed ob) (obs_now ob) c)"
  using assms by (auto simp: clocks_ok_def observe_def usable_dark_def usable_unreached_def intro!: remembers_insert)

lemma watch_cycle_ok:
  assumes ok: "clocks_ok hist (clocks w)" and st: "watch_cycle start ob w = (v, w')"
  shows "clocks_ok (hist @ [ob]) (clocks w')"
proof (cases "obs_unusable ob = None")
  case True
  from observe_ok [OF ok True] st show ?thesis
    by (auto simp: watch_cycle_def Let_def excuse_def clocks_ok_def default_clocks_def split: verdict.splits)
next
  case False
  let ?c = "observe (obs_publisher_dark ob) (obs_dial_failed ob) (obs_now ob) (clocks w)"
  have "v = Healthy \<or> (\<exists>why. v = Inconclusive why)"
    using False st by (auto simp: watch_cycle_def Let_def verdict_of_def judged_cycle_def)
  with False st show ?thesis
    by (auto simp: watch_cycle_def Let_def excuse_def clocks_ok_def default_clocks_def judged_cycle_def)
qed

section \<open>Properties\<close>

text \<open>The evidence for a restart: a stretch of cycles, ending now, that lasted and that nothing excuses.\<close>

definition restart_evidence :: "instant \<Rightarrow> observation list \<Rightarrow> observation list \<Rightarrow> bool" where
  "restart_evidence start hist suf \<longleftrightarrow>
     suffix suf hist \<and> suf \<noteq> [] \<and>
     WATCHDOG_MAX_DARK \<le> obs_now (last hist) - obs_now (hd suf) \<and>
     (list_all usable_dark suf \<or>
      list_all usable_unreached suf \<and> obs_served (last hist) \<le> as_secs (obs_now (hd suf) - start))"

lemma restart_cycle:
  assumes ok: "clocks_ok hist (clocks w)" and st: "watch_cycle start ob w = (Restart why, w')"
  shows "\<exists>suf. restart_evidence start (hist @ [ob]) suf"
proof -
  let ?c = "observe (obs_publisher_dark ob) (obs_dial_failed ob) (obs_now ob) (clocks w)"
  have v: "verdict_of (judged_cycle start ?c ob) = Restart why"
    using st by (simp add: watch_cycle_def Let_def)
  then have u: "obs_unusable ob = None" by (auto simp: verdict_of_def judged_cycle_def split: if_splits)
  have c: "clocks_ok (hist @ [ob]) ?c" using ok u by (rule observe_ok)
  have lasted: "WATCHDOG_MAX_DARK \<le> dark_since ?c (obs_publisher_dark ob) (obs_now ob)"
    using v by (auto simp: verdict_of_def judged_cycle_def escalate_def split: if_splits)
  have pos: "0 < WATCHDOG_MAX_DARK" by (simp add: WATCHDOG_MAX_DARK_def secs_def)
  show ?thesis
  proof (cases "obs_publisher_dark ob")
    case True
    then obtain t where "publisher ?c = Some t" "WATCHDOG_MAX_DARK \<le> obs_now ob - t"
      using lasted pos by (auto simp: dark_since_def split: option.splits)
    then show ?thesis using c
      unfolding restart_evidence_def clocks_ok_def remembers_def spell_def by fastforce
  next
    case False
    then obtain t where t: "dial ?c = Some t" "WATCHDOG_MAX_DARK \<le> obs_now ob - t"
      using lasted pos by (auto simp: dark_since_def split: option.splits)
    moreover have "obs_served ob \<le> as_secs (t - start)"
      using v False t(1) by (auto simp: verdict_of_def judged_cycle_def split: if_splits)
    ultimately show ?thesis using c
      unfolding restart_evidence_def clocks_ok_def remembers_def spell_def by fastforce
  qed
qed

lemma restart_exits: "watch_cycle start ob w = (v, w') \<Longrightarrow> \<not> exited w \<Longrightarrow> exited w' \<longleftrightarrow> (\<exists>why. v = Restart why)"
  by (auto simp: watch_cycle_def Let_def split: verdict.splits)

lemma run_restart_evidence:
  "clocks_ok hist (clocks w) \<Longrightarrow> \<not> exited w \<Longrightarrow> watch_run start obs w = (vs, w') \<Longrightarrow> exited w' \<Longrightarrow>
   \<exists>suf. restart_evidence start (hist @ take (length vs) obs) suf"
proof (induction start obs w arbitrary: hist vs w' rule: watch_run.induct)
  case (1 start w)
  then show ?case by simp
next
  case (2 start ob obs w)
  obtain v w1 where st: "watch_cycle start ob w = (v, w1)" by fastforce
  show ?case
  proof (cases "exited w1")
    case True
    with st "2.prems"(2) obtain why where "v = Restart why" using restart_exits by blast
    with restart_cycle [OF "2.prems"(1)] st True "2.prems"(3) show ?thesis by fastforce
  next
    case False
    with st "2.prems"(3) obtain vs' where rec: "watch_run start obs w1 = (vs', w')" "vs = v # vs'"
      by (auto split: prod.splits)
    have "clocks_ok (hist @ [ob]) (clocks w1)" using "2.prems"(1) st by (rule watch_cycle_ok)
    from "2.IH" [OF st [symmetric] refl False this False rec(1) "2.prems"(4)] rec(2) show ?thesis by simp
  qed
qed

text \<open>
  C10. The watchdog never restarts a relay without lasting, unexcused evidence. When a
  process exits for a restart, the cycles it judged end in a stretch of at least fifteen minutes
  in which its own Tor client was usable at every cycle, and in which either the descriptor was
  missing from a ring at every cycle, or the self-dial failed at every cycle and no client had
  been served since (the second in which) the stretch began. So a relay that served someone, was
  offline itself, or answered one probe, is not restarted on the strength of what came before.
\<close>

theorem watchdog_restart_justified:
  assumes "watch_run start obs (snd (watch_start marker)) = (vs, w)" and "exited w"
  shows "\<exists>suf. restart_evidence start (take (length vs) obs) suf"
  using run_restart_evidence [of "[]" "snd (watch_start marker)" start obs vs w] assms
  by (simp add: watch_start_def)

text \<open>The publisher's clock: nothing but its own signal, or an unusable client, stops it.\<close>

lemma ring_cycle:
  assumes ob: "usable_dark ob" and c: "publisher (clocks w) = Some t" and ex: "\<not> exited w"
    and st: "watch_cycle start ob w = (v, w')"
  shows "exited w' \<longleftrightarrow> WATCHDOG_MAX_DARK \<le> obs_now ob - t" and "publisher (clocks w') = Some t"
  using ob c ex st
  by (auto simp: watch_cycle_def Let_def verdict_of_def judged_cycle_def escalate_def observe_def
      get_or_insert_def dark_since_def usable_dark_def split: if_splits)

lemma ring_run:
  "\<not> exited w \<Longrightarrow> publisher (clocks w) = Some t \<Longrightarrow> list_all usable_dark obs \<Longrightarrow>
   exited (snd (watch_run start obs w)) \<longleftrightarrow> list_ex (\<lambda>ob. WATCHDOG_MAX_DARK \<le> obs_now ob - t) obs"
proof (induction start obs w rule: watch_run.induct)
  case (2 start ob obs w)
  obtain v w1 where st: "watch_cycle start ob w = (v, w1)" by fastforce
  have dark: "usable_dark ob" using "2.prems"(3) by simp
  note one = ring_cycle [OF dark "2.prems"(2,1) st]
  show ?case
  proof (cases "exited w1")
    case True
    with one st show ?thesis by simp
  next
    case False
    from "2.IH" [OF st [symmetric] refl False False one(2)] "2.prems"(3) one False st
    show ?thesis by (auto split: prod.splits)
  qed
qed simp

text \<open>
  A one-sided outage is always acted on. While the publisher reports the descriptor
  missing from one ring and the relay's Tor client is usable, the process exits at the first cycle
  fifteen minutes or more after the first one, whether or not its self-dials succeed and however
  many clients reach it over the other ring: neither can reset the publisher's clock.
\<close>

theorem watchdog_one_sided_outage:
  assumes "list_all usable_dark (ob # obs)"
  shows "exited (snd (watch_run start (ob # obs) (snd (watch_start marker))))
     = list_ex (\<lambda>ob'. WATCHDOG_MAX_DARK \<le> obs_now ob' - obs_now ob) obs"
proof -
  let ?w = "snd (watch_start marker)"
  obtain v w1 where st: "watch_cycle start ob ?w = (v, w1)" by fastforce
  have "publisher (clocks w1) = Some (obs_now ob) \<and> \<not> exited w1"
    using assms st
    by (auto simp: watch_cycle_def Let_def watch_start_def verdict_of_def judged_cycle_def escalate_def observe_def
        get_or_insert_def dark_since_def usable_dark_def default_clocks_def WATCHDOG_MAX_DARK_def secs_def)
  with ring_run [of w1 "obs_now ob" obs start] assms st show ?thesis by (auto split: prod.splits)
qed

theorem watchdog_restart_justified_witness:
  "\<exists>suf. restart_evidence 0
     (map (\<lambda>k. \<lparr>obs_dial_failed = True, obs_publisher_dark = False, obs_served = 0, obs_unusable = None,
                obs_now = secs (300 * k)\<rparr>) [1, 2, 3, 4]) suf"
proof -
  let ?ob = "\<lambda>k. \<lparr>obs_dial_failed = True, obs_publisher_dark = False, obs_served = 0, obs_unusable = None,
                obs_now = secs (300 * k)\<rparr>"
  let ?r = "watch_run 0 (map ?ob [1, 2, 3, 4]) (snd (watch_start 0))"
  have "length (fst ?r) = 4 \<and> exited (snd ?r)"
    by (simp add: watch_start_def watch_cycle_def verdict_of_def judged_cycle_def observe_def escalate_def
        get_or_insert_def dark_since_def default_clocks_def WATCHDOG_MAX_DARK_def secs_def Let_def)
  with watchdog_restart_justified [of 0 "map ?ob [1, 2, 3, 4]" 0 "fst ?r" "snd ?r"] show ?thesis by simp
qed

theorem watchdog_one_sided_outage_witness:
  "exited (snd (watch_run 0
     (map (\<lambda>k. \<lparr>obs_dial_failed = False, obs_publisher_dark = True, obs_served = 300 * k, obs_unusable = None,
                obs_now = secs (300 * k)\<rparr>) [1, 2, 3, 4]) (snd (watch_start 0))))"
  using watchdog_one_sided_outage [of
      "\<lparr>obs_dial_failed = False, obs_publisher_dark = True, obs_served = 300, obs_unusable = None, obs_now = secs 300\<rparr>"
      "map (\<lambda>k. \<lparr>obs_dial_failed = False, obs_publisher_dark = True, obs_served = 300 * k, obs_unusable = None,
                obs_now = secs (300 * k)\<rparr>) [2, 3, 4]" 0 0]
  by (simp add: usable_dark_def WATCHDOG_MAX_DARK_def secs_def del: watch_run.simps)

section \<open>Escalation across restarts\<close>

lemma run_marker:
  "\<not> exited w \<Longrightarrow> watch_run start obs w = (vs, w') \<Longrightarrow>
   unhealthy w' = (if Healthy \<in> set vs \<and> \<not> cleared w then 0 else unhealthy w) + (if exited w' then 1 else 0)"
proof (induction start obs w arbitrary: vs w' rule: watch_run.induct)
  case (2 start ob obs w)
  obtain v w1 where st: "watch_cycle start ob w = (v, w1)" by fastforce
  have upd: "unhealthy w1 = (if v = Healthy \<and> \<not> cleared w then 0 else unhealthy w) + (if exited w1 then 1 else 0)"
    "cleared w1 = (cleared w \<or> v = Healthy)" "exited w1 \<Longrightarrow> v \<noteq> Healthy"
    using st "2.prems"(1) by (auto simp: watch_cycle_def Let_def split: verdict.splits)
  show ?case
  proof (cases "exited w1")
    case True
    with upd st "2.prems"(2) show ?thesis by auto
  next
    case False
    with st "2.prems"(2) obtain vs' where rec: "watch_run start obs w1 = (vs', w')" "vs = v # vs'"
      by (auto split: prod.splits)
    from "2.IH" [OF st [symmetric] refl False False rec(1)] upd False rec(2) show ?thesis by auto
  qed
qed simp

text \<open>
  The guards are reset only for a relay that restarts have not helped. After a
  process, the next start resets the entry guards exactly when no cycle of that process reached
  the relay and the persisted count, with this process's own restart, has reached the threshold of
  two; one healthy cycle makes the next outage start again with a plain restart.
\<close>

theorem watchdog_escalation:
  "fst (watch_start (unhealthy (snd (watch_run start obs (snd (watch_start marker))))))
     = (Healthy \<notin> set (fst (watch_run start obs (snd (watch_start marker))))
        \<and> UNHEALTHY_RESET_THRESHOLD
            \<le> marker + (if exited (snd (watch_run start obs (snd (watch_start marker)))) then 1 else 0))"
proof -
  obtain vs w where r: "watch_run start obs (snd (watch_start marker)) = (vs, w)" by fastforce
  have "unhealthy w = (if Healthy \<in> set vs then 0 else marker) + (if exited w then 1 else 0)"
    using run_marker [OF _ r] by (simp add: watch_start_def)
  moreover have "\<not> (2 :: u32) \<le> 1" "\<not> (2 :: u32) \<le> 0" by (simp_all add: word_le_nat_alt)
  ultimately show ?thesis using r by (simp add: watch_start_def UNHEALTHY_RESET_THRESHOLD_def)
qed

end
