(* ===== verification/LineReader.thy ===== *)
theory LineReader
  imports Prelude
begin

text \<open>
  Reading one request line: \<open>read_line_capped\<close> (\<open>core/src/relay_client/mod.rs\<close>) and its asynchronous
  twin \<open>read_line_paced\<close> with \<open>LineBudget\<close> (\<open>relay/src/main.rs\<close>). What the peer sends is a list of
  chunks, as \<open>fill_buf\<close> returns them, each after a wait, and what the stream does after them; what
  the other streams hold of the shared budget is a function of the clock. A line is its bytes (the
  code then decodes them as UTF-8, lossily).
\<close>

definition newline :: byte where
  "newline = 10"

datatype stream_tail = AtEof | Silent | Broken

datatype read_error = LineTooLong | TimedOut | OutOfBudget | IoFailed

type_synonym read_result = "read_error + bytes option"

section \<open>The blocking reader\<close>

text \<open>Up to the newline, and what stays unread of a chunk that holds one.\<close>

definition line_part :: "bytes \<Rightarrow> bytes" where
  "line_part c = takeWhile (\<lambda>b. b \<noteq> newline) c"

definition push_back :: "bytes \<Rightarrow> 'a \<Rightarrow> ('a \<times> bytes) list \<Rightarrow> ('a \<times> bytes) list" where
  "push_back c w cs = (if c = [] then cs else (w, c) # cs)"

fun read_line_capped :: "nat \<Rightarrow> bytes \<Rightarrow> bytes list \<Rightarrow> stream_tail \<Rightarrow> read_result" where
  "read_line_capped max_len buf [] after =
     (if after = AtEof then Inr (if buf = [] then None else Some buf) else Inl IoFailed)"
| "read_line_capped max_len buf (c # cs) after =
     (if c = [] then Inr (if buf = [] then None else Some buf)
      else if newline \<in> set c then Inr (Some (buf @ line_part c))
      else if max_len < length (buf @ c) then Inl LineTooLong
      else read_line_capped max_len (buf @ c) cs after)"

section \<open>The paced reader\<close>

definition LINE_IDLE :: duration where
  "LINE_IDLE = secs 60"

definition LINE_GRACE :: duration where
  "LINE_GRACE = secs 120"

definition MIN_LINE_RATE :: nat where
  "MIN_LINE_RATE = 256"

definition MAX_LINE_BYTES_IN_FLIGHT :: nat where
  "MAX_LINE_BYTES_IN_FLIGHT = 512 * 1024 * 1024"

text \<open>\<open>LineBudget::grow\<close> and its \<open>drop\<close>, on the counter all streams share.\<close>

definition grow :: "nat \<Rightarrow> nat \<times> nat \<Rightarrow> bool \<times> nat \<times> nat" where
  "grow n st =
     (case st of (in_flight, held) \<Rightarrow>
        if in_flight + n \<le> MAX_LINE_BYTES_IN_FLIGHT then (True, in_flight + n, held + n)
        else (False, in_flight, held))"

definition release_held :: "nat \<times> nat \<Rightarrow> nat \<times> nat" where
  "release_held st = (fst st - snd st, 0)"

record pacing =
  idle :: duration
  grace :: duration
  min_rate :: nat

definition line_pacing :: pacing where
  "line_pacing = \<lparr>idle = LINE_IDLE, grace = LINE_GRACE, min_rate = MIN_LINE_RATE\<rparr>"

text \<open>Past the grace period, fewer bytes than \<open>min_rate\<close> per second so far.\<close>

definition too_slow :: "pacing \<Rightarrow> duration \<Rightarrow> nat \<Rightarrow> bool" where
  "too_slow p elapsed n \<longleftrightarrow> grace p < elapsed \<and> n * 1000000000 < min_rate p * elapsed"

text \<open>
  The loop, at \<open>now\<close>, with \<open>buf\<close> read so far: its outcome, when, and the chunks left. \<open>others t\<close> is
  what the other streams hold of the budget at \<open>t\<close>; this one holds \<open>length buf\<close>.
\<close>

fun read_line_paced ::
  "pacing \<Rightarrow> nat \<Rightarrow> (instant \<Rightarrow> nat) \<Rightarrow> instant \<Rightarrow> instant \<Rightarrow> bytes \<Rightarrow>
   (duration \<times> bytes) list \<Rightarrow> stream_tail \<Rightarrow> read_result \<times> instant \<times> (duration \<times> bytes) list" where
  "read_line_paced p max_len others started now buf [] after =
     (if too_slow p (now - started) (length buf) then (Inl TimedOut, now, [])
      else (case after of
              AtEof \<Rightarrow> (Inr (if buf = [] then None else Some buf), now, [])
            | Silent \<Rightarrow> (Inl TimedOut, now + idle p, [])
            | Broken \<Rightarrow> (Inl IoFailed, now, [])))"
| "read_line_paced p max_len others started now buf ((d, c) # cs) after =
     (if too_slow p (now - started) (length buf) then (Inl TimedOut, now, (d, c) # cs)
      else if idle p < d then (Inl TimedOut, now + idle p, (d - idle p, c) # cs)
      else (let now' = now + d in
        if c = [] then (Inr (if buf = [] then None else Some buf), now', (0, c) # cs)
        else if newline \<in> set c then
          (if fst (grow (length (line_part c)) (others now' + length buf, length buf))
           then (Inr (Some (buf @ line_part c)), now', push_back (drop (length (line_part c) + 1) c) 0 cs)
           else (Inl OutOfBudget, now', (0, c) # cs))
        else if \<not> fst (grow (length c) (others now' + length buf, length buf))
          then (Inl OutOfBudget, now', (0, c) # cs)
        else if max_len < length (buf @ c) then (Inl LineTooLong, now', cs)
        else read_line_paced p max_len others started now' (buf @ c) cs after))"

section \<open>What a reader returns\<close>

text \<open>The bytes a stream still has to deliver: up to the first empty chunk, which is its end.\<close>

definition sent :: "bytes list \<Rightarrow> bytes" where
  "sent cs = concat (takeWhile (\<lambda>c. c \<noteq> []) cs)"

lemma sent_simps [simp]: "sent [] = []" "sent (c # cs) = c @ (if c = [] then [] else sent cs)"
  by (simp_all add: sent_def)

lemma line_part_append: "newline \<notin> set a \<Longrightarrow> line_part (a @ b) = a @ line_part b"
  by (induction a) (auto simp: line_part_def)

lemma line_part_in: "newline \<in> set c \<Longrightarrow> line_part (c @ b) = line_part c"
  by (induction c) (auto simp: line_part_def)

lemma line_part_all: "newline \<notin> set c \<Longrightarrow> line_part c = c"
  by (induction c) (auto simp: line_part_def)

text \<open>The two readers agree whenever timing and the shared budget do not intervene.\<close>

lemma paced_capped:
  "fst (read_line_paced p max_len others started now buf cs after) \<notin> {Inl TimedOut, Inl OutOfBudget} \<Longrightarrow>
   read_line_capped max_len buf (map snd cs) after = fst (read_line_paced p max_len others started now buf cs after)"
proof (induction p max_len others started now buf cs after rule: read_line_paced.induct)
  case (1 p max_len others started now buf after)
  then show ?case by (cases after) (auto split: if_splits)
next
  case (2 p max_len others started now buf d c cs after)
  then show ?case by (auto simp: Let_def split: if_splits)
qed

lemma capped_line:
  "newline \<notin> set buf \<Longrightarrow> read_line_capped max_len buf cs after = Inr (Some line) \<Longrightarrow>
   line = line_part (buf @ sent cs)"
proof (induction max_len buf cs after rule: read_line_capped.induct)
  case (1 max_len buf after)
  then show ?case by (auto simp: line_part_all split: if_splits)
next
  case (2 max_len buf c cs after)
  then show ?case
    by (auto simp: line_part_all line_part_append line_part_in split: if_splits)
qed

lemma capped_length:
  "length buf \<le> max_len \<Longrightarrow> list_all (\<lambda>c. length c \<le> m) cs \<Longrightarrow> read_line_capped max_len buf cs after = Inr (Some line) \<Longrightarrow>
   length line \<le> max_len + m"
proof (induction max_len buf cs after rule: read_line_capped.induct)
  case (2 max_len buf c cs after)
  have "length (line_part c) \<le> length c" by (simp add: line_part_def length_takeWhile_le)
  with 2 show ?case by (auto split: if_splits)
qed (auto split: if_splits)

text \<open>Time: while the loop goes on, either the grace period runs or the peer keeps the rate.\<close>

lemma not_too_slow: "\<not> too_slow p e n \<Longrightarrow> e \<le> grace p \<or> min_rate p * e \<le> n * 1000000000"
  by (auto simp: too_slow_def)

definition in_time :: "pacing \<Rightarrow> nat \<Rightarrow> duration \<Rightarrow> bool" where
  "in_time p max_len e \<longleftrightarrow> e \<le> grace p + idle p \<or> min_rate p * (e - idle p) \<le> max_len * 1000000000"

lemma in_time_wait:
  assumes "\<not> too_slow p e n" "n \<le> max_len" "d \<le> idle p"
  shows "in_time p max_len (e + d)"
proof (cases "e \<le> grace p")
  case True
  with assms(3) show ?thesis by (simp add: in_time_def)
next
  case False
  then have "min_rate p * e \<le> n * 1000000000" using not_too_slow [OF assms(1)] by simp
  moreover have "min_rate p * (e + d - idle p) \<le> min_rate p * e"
    using assms(3) by (intro mult_le_mono2) simp
  moreover have "n * 1000000000 \<le> max_len * 1000000000" using assms(2) by simp
  ultimately have "min_rate p * (e + d - idle p) \<le> max_len * 1000000000" by linarith
  then show ?thesis by (simp add: in_time_def)
qed

lemma paced_time:
  "started \<le> now \<Longrightarrow> length buf \<le> max_len \<Longrightarrow> in_time p max_len (now - started) \<Longrightarrow>
   read_line_paced p max_len others started now buf cs after = (r, now', rest) \<Longrightarrow>
   in_time p max_len (now' - started)"
proof (induction p max_len others started now buf cs after rule: read_line_paced.induct)
  case (1 p max_len others started now buf after)
  have "in_time p max_len (now - started + idle p)" if "\<not> too_slow p (now - started) (length buf)"
    using that 1(2) by (rule in_time_wait) simp
  with 1 show ?case by (auto split: if_splits stream_tail.splits)
next
  case (2 p max_len others started now buf d c cs after)
  show ?case
  proof (cases "too_slow p (now - started) (length buf)")
    case True
    with "2.prems" show ?thesis by simp
  next
    case False
    then have w: "d' \<le> idle p \<Longrightarrow> in_time p max_len (now + d' - started)" for d'
      using in_time_wait [OF False "2.prems"(2), of d'] "2.prems"(1) by simp
    show ?thesis
    proof (cases "idle p < d")
      case True
      with False w [of "idle p"] "2.prems"(4) show ?thesis by simp
    next
      case d: False
      then have t: "in_time p max_len (now + d - started)" by (intro w) simp
      show ?thesis
      proof (cases "c = [] \<or> newline \<in> set c
          \<or> \<not> fst (grow (length c) (others (now + d) + length buf, length buf)) \<or> max_len < length (buf @ c)")
        case True
        with False d "2.prems"(4) t show ?thesis by (auto simp: Let_def split: if_splits)
      next
        case go: False
        with False d "2.prems"(4) have rec: "read_line_paced p max_len others started (now + d) (buf @ c) cs after = (r, now', rest)"
          by (simp add: Let_def)
        show ?thesis
          by (rule "2.IH" [OF False d refl _ _ _ _ _ _ t rec]) (use go "2.prems"(1) in auto)
      qed
    qed
  qed
qed

section \<open>Properties\<close>

text \<open>
  The relay reads a line as the protocol defines it, however the bytes arrive. Whatever the
  chunks, waits and load, when \<open>read_line_paced\<close> returns a line it is what precedes the first
  newline of the bytes sent (or all of them, at the end of the stream); it is what the blocking
  \<open>read_line_capped\<close> returns on the same bytes; and it is no longer than \<open>max\<close> and one chunk.
\<close>

theorem paced_reader_line:
  assumes "fst (read_line_paced p max_len others now now [] cs after) = Inr (Some line)"
  shows "line = line_part (sent (map snd cs)) \<and>
         read_line_capped max_len [] (map snd cs) after = Inr (Some line) \<and>
         (list_all (\<lambda>c. length (snd c) \<le> m) cs \<longrightarrow> length line \<le> max_len + m)"
proof -
  have r: "read_line_capped max_len [] (map snd cs) after = Inr (Some line)"
    using paced_capped [of p max_len others now now "[]" cs after] assms by simp
  moreover have "line = line_part (sent (map snd cs))"
    using capped_line [OF _ r] by simp
  moreover have "length line \<le> max_len + m" if "list_all (\<lambda>c. length (snd c) \<le> m) cs"
    using capped_length [OF _ _ r, of m] that by (simp add: list_all_iff)
  ultimately show ?thesis by simp
qed

theorem paced_reader_line_witness:
  "fst (read_line_paced line_pacing 100 (\<lambda>_. 0) 7 7 [] [(1, [104, 105]), (2, [33, 10, 9])] Silent) = Inr (Some [104, 105, 33])
   \<and> line_part (sent [[104, 105], [33, 10, 9]]) = [104, 105, 33]"
proof -
  have "fst (read_line_paced line_pacing 100 (\<lambda>_. 0) 7 7 [] [(1, [104, 105]), (2, [33, 10, 9])] Silent) = Inr (Some [104, 105, 33])"
    by (simp add: line_pacing_def too_slow_def LINE_IDLE_def LINE_GRACE_def secs_def newline_def grow_def
        MAX_LINE_BYTES_IN_FLIGHT_def line_part_def)
  from this paced_reader_line [OF this, of 3] show ?thesis by simp
qed

text \<open>
  No peer holds a stream slot for long by sending slowly. Reading one line ends, with a line or an
  error, within the grace period and one idle wait of its start, or within the idle wait and the
  time its bytes (at most \<open>max\<close>) take at \<open>min_rate\<close>: an idle stream is cut after the idle wait, a
  dripping one at the rate's pace, whatever the peer does.
\<close>

theorem paced_reader_slot:
  "in_time p max_len (fst (snd (read_line_paced p max_len others now now [] cs after)) - now)"
  using paced_time [of now now "[]" max_len p others cs after]
  by (cases "read_line_paced p max_len others now now [] cs after") (simp add: in_time_def)

text \<open>
  A line longer than \<open>max\<close> is accepted when its newline arrives in the chunk that crosses the cap:
  the length is checked only after a chunk without a newline.
\<close>

lemma overlong_line_accepted:
  "read_line_capped 4 [] [[1, 2, 3, 4, 5, 6, 10]] AtEof = Inr (Some [1, 2, 3, 4, 5, 6])"
  by (simp add: newline_def line_part_def)

section \<open>The shared budget\<close>

text \<open>Lines being read, each with its share of the counter: opened, grown (or refused), dropped.\<close>

inductive budget_step :: "nat \<times> (nat \<times> nat) list \<Rightarrow> nat \<times> (nat \<times> nat) list \<Rightarrow> bool" where
  budget_open: "map_of m k = None \<Longrightarrow> budget_step (f, m) (f, (k, 0) # m)"
| budget_grow: "map_of m k = Some h \<Longrightarrow> grow n (f, h) = (granted, f', h') \<Longrightarrow>
     budget_step (f, m) (f', AList.update k h' m)"
| budget_drop: "map_of m k = Some h \<Longrightarrow> budget_step (f, m) (fst (release_held (f, h)), AList.delete k m)"

inductive_cases budget_stepE: "budget_step (f, m) s'"

inductive budget_reachable :: "nat \<times> (nat \<times> nat) list \<Rightarrow> bool" where
  budget_start: "budget_reachable (0, [])"
| budget_more: "budget_reachable s \<Longrightarrow> budget_step s s' \<Longrightarrow> budget_reachable s'"

definition budget_ok :: "nat \<times> (nat \<times> nat) list \<Rightarrow> bool" where
  "budget_ok s \<longleftrightarrow> keys_distinct (snd s) \<and> fst s = asum id (snd s) \<and> fst s \<le> MAX_LINE_BYTES_IN_FLIGHT"

lemma budget_step_ok:
  assumes "budget_step s s'" and "budget_ok s"
  shows "budget_ok s'"
  using assms
proof cases
  case (budget_open m k f)
  with assms(2) show ?thesis by (auto simp: budget_ok_def keys_distinct_def map_of_eq_None_iff)
next
  case (budget_grow m k h n f granted f' h')
  with assms(2) asum_update [of m id k h'] show ?thesis
    by (auto simp: budget_ok_def grow_def split: if_splits)
next
  case (budget_drop m k h f)
  with assms(2) asum_delete [of m id k] show ?thesis
    by (auto simp: budget_ok_def release_held_def)
qed

text \<open>
  Partly read lines never hold more memory than the shared cap. However lines open, grow and
  end across all streams, the counter is exactly the sum of what the open lines hold and stays
  within \<open>MAX_LINE_BYTES_IN_FLIGHT\<close>; nothing is leaked or returned twice.
\<close>

theorem line_budget_invariant:
  assumes "budget_reachable (in_flight, lines)"
  shows "in_flight = asum id lines \<and> in_flight \<le> MAX_LINE_BYTES_IN_FLIGHT"
proof -
  have "budget_reachable s \<Longrightarrow> budget_ok s" for s
  proof (induction rule: budget_reachable.induct)
    case budget_start
    then show ?case by (simp add: budget_ok_def)
  next
    case (budget_more s s')
    then show ?case by (blast intro: budget_step_ok)
  qed
  with assms show ?thesis by (fastforce simp: budget_ok_def)
qed

theorem line_budget_invariant_witness: "asum id [(7, 300), (3 :: nat, 40)] = (340 :: nat)"
proof -
  have "budget_reachable (340, [(7, 300), (3, 40)])"
  proof -
    have "budget_reachable (0, [(3, 0)])"
      by (rule budget_more [OF budget_start budget_open]) simp
    then have "budget_reachable (0, [(7, 0), (3, 0)])"
      by (rule budget_more [OF _ budget_open]) simp
    then have "budget_reachable (300, AList.update 7 300 [(7, 0), (3, 0)])"
      by (rule budget_more [OF _ budget_grow [where h = 0 and n = 300]])
        (simp_all add: grow_def MAX_LINE_BYTES_IN_FLIGHT_def)
    then have "budget_reachable (300, [(7, 300), (3, 0)])" by simp
    then have "budget_reachable (340, AList.update 3 40 [(7, 300), (3, 0)])"
      by (rule budget_more [OF _ budget_grow [where h = 0 and n = 40]])
        (simp_all add: grow_def MAX_LINE_BYTES_IN_FLIGHT_def)
    then show ?thesis by simp
  qed
  from line_budget_invariant [OF this] show ?thesis by simp
qed

end
