(* ===== verification/RelayServe.thy ===== *)
theory RelayServe
  imports Complex_Main LineReader RelayMail
begin

text \<open>
  The relay's accept loop and per-stream loop, \<open>relay/src/main.rs\<close>: \<open>serve_stream\<close> with its token
  bucket, the limit on concurrent streams, and \<open>relay/src/stats.rs\<close>, the counters fed from the
  store's events. The store behind \<open>handle_line\<close> is any state; lines come as \<open>LineReader\<close> returns
  them, each with the instant it was complete. Token counts are rationals (the code has \<open>f64\<close>).
\<close>

section \<open>The token bucket\<close>

definition REQ_BURST :: rat where
  "REQ_BURST = 60"

definition REQ_RATE_PER_SEC :: rat where
  "REQ_RATE_PER_SEC = 30"

record bucket =
  tokens :: rat
  last_refill :: instant

definition full_bucket :: "instant \<Rightarrow> bucket" where
  "full_bucket now = \<lparr>tokens = REQ_BURST, last_refill = now\<rparr>"

definition as_secs_f64 :: "duration \<Rightarrow> rat" where
  "as_secs_f64 d = of_nat d / 1000000000"

definition refill :: "instant \<Rightarrow> bucket \<Rightarrow> bucket" where
  "refill now b =
     \<lparr>tokens = min (tokens b + as_secs_f64 (now - last_refill b) * REQ_RATE_PER_SEC) REQ_BURST,
      last_refill = now\<rparr>"

section \<open>One stream\<close>

datatype reply = Answer instant string | Refusal string

datatype stream_end = Closed | Failed | Open

text \<open>
  \<open>serve_stream\<close> on what the reader returns, with the instant of each: what was written, how the
  stream ended (\<open>Open\<close>: the script ran out), and the core's state. \<open>error_line\<close> formats a refusal.
\<close>

fun serve_stream ::
  "(string \<Rightarrow> 'c \<Rightarrow> string \<times> 'c) \<Rightarrow> (string \<Rightarrow> string) \<Rightarrow> bucket \<Rightarrow>
   ((read_error + string option) \<times> instant) list \<Rightarrow> 'c \<Rightarrow> reply list \<times> stream_end \<times> 'c" where
  "serve_stream handle_line error_line b [] core = ([], Open, core)"
| "serve_stream handle_line error_line b ((r, now) # script) core =
     (case r of
        Inr None \<Rightarrow> ([], Closed, core)
      | Inr (Some line) \<Rightarrow>
          (let line = trim line in
           if line = [] then serve_stream handle_line error_line b script core
           else (let b = refill now b in
             if tokens b < 1
             then ([Refusal (error_line ''rate limit exceeded'')], Closed, core)
             else (let (answer, core') = handle_line line core;
                       (rs, e, core'') = serve_stream handle_line error_line (b\<lparr>tokens := tokens b - 1\<rparr>) script core'
                   in (Answer now answer # rs, e, core''))))
      | Inl LineTooLong \<Rightarrow> ([Refusal (error_line ''line too long'')], Closed, core)
      | Inl TimedOut \<Rightarrow> ([], Closed, core)
      | Inl OutOfBudget \<Rightarrow> ([Refusal (error_line ''relay busy'')], Closed, core)
      | Inl IoFailed \<Rightarrow> ([], Failed, core))"

section \<open>Concurrent streams\<close>

definition MAX_CONCURRENT_STREAMS :: nat where
  "MAX_CONCURRENT_STREAMS = 512"

text \<open>
  The accept loop's counter and the tasks that hold a \<open>ConnGuard\<close>: a rendezvous is dropped at
  capacity, or starts a task; a task that ends drops its guard.
\<close>

record stream_slots =
  active :: nat
  tasks :: nat
  dropped :: nat

definition accept_stream :: "stream_slots \<Rightarrow> bool \<times> stream_slots" where
  "accept_stream s =
     (let open_before = active s; s1 = s\<lparr>active := active s + 1\<rparr>
      in if MAX_CONCURRENT_STREAMS \<le> open_before
         then (False, s1\<lparr>active := active s1 - 1, dropped := dropped s1 + 1\<rparr>)
         else (True, s1\<lparr>tasks := tasks s1 + 1\<rparr>))"

definition end_stream :: "stream_slots \<Rightarrow> stream_slots" where
  "end_stream s = (if tasks s = 0 then s else s\<lparr>active := active s - 1, tasks := tasks s - 1\<rparr>)"

section \<open>Counters\<close>

definition OPS :: "string list" where
  "OPS = [''POST'', ''FETCH'', ''TAKE'', ''TAKE_MANY'', ''PEEK'', ''RECALL'', ''DIRECTORY'', ''REAP'']"

record stats =
  op_counts :: "u64 list"
  rejected_full :: u64
  rejected_mailbox :: u64
  rejected_large :: u64
  rejected_other :: u64
  posted_bytes :: u64
  peak_open :: nat

definition new_stats :: stats where
  "new_stats = \<lparr>op_counts = replicate 8 0, rejected_full = 0, rejected_mailbox = 0, rejected_large = 0,
                rejected_other = 0, posted_bytes = 0, peak_open = 0\<rparr>"

text \<open>\<open>iter().position\<close>, and \<open>str::contains\<close>.\<close>

fun position :: "'a \<Rightarrow> 'a list \<Rightarrow> nat option" where
  "position x [] = None"
| "position x (y # ys) = (if y = x then Some 0 else map_option Suc (position x ys))"

definition contains_str :: "string \<Rightarrow> string \<Rightarrow> bool" where
  "contains_str s t \<longleftrightarrow> sublist t s"

definition stats_record :: "relay_event \<Rightarrow> stats \<Rightarrow> stats" where
  "stats_record ev s =
     (let s = (case position (ev_op ev) OPS of
                 None \<Rightarrow> s
               | Some i \<Rightarrow> s\<lparr>op_counts := (op_counts s)[i := op_counts s ! i + 1]\<rparr>)
      in if ev_op ev \<noteq> ''POST'' then s
         else if ev_result ev = ''ok'' then s\<lparr>posted_bytes := posted_bytes s + of_nat (ev_blob_len ev)\<rparr>
         else if contains_str (ev_result ev) ''relay full'' then s\<lparr>rejected_full := rejected_full s + 1\<rparr>
         else if contains_str (ev_result ev) ''mailbox full'' then s\<lparr>rejected_mailbox := rejected_mailbox s + 1\<rparr>
         else if contains_str (ev_result ev) ''too large'' then s\<lparr>rejected_large := rejected_large s + 1\<rparr>
         else s\<lparr>rejected_other := rejected_other s + 1\<rparr>)"

definition note_open :: "nat \<Rightarrow> stats \<Rightarrow> stats" where
  "note_open n s = s\<lparr>peak_open := max (peak_open s) n\<rparr>"

definition take_counters :: "nat \<Rightarrow> stats \<Rightarrow> nat \<times> stats \<times> stats" where
  "take_counters open_now s = (max (peak_open s) open_now, s, new_stats\<lparr>peak_open := open_now\<rparr>)"

section \<open>The bucket's bound\<close>

fun answer_times :: "reply list \<Rightarrow> instant list" where
  "answer_times [] = []"
| "answer_times (Answer t a # rs) = t # answer_times rs"
| "answer_times (Refusal e # rs) = answer_times rs"

definition earned :: "instant \<Rightarrow> instant \<Rightarrow> rat" where
  "earned t t' = as_secs_f64 (t' - t) * REQ_RATE_PER_SEC"

lemma earned_nonneg [simp]: "0 \<le> earned t t'"
  by (simp add: earned_def as_secs_f64_def REQ_RATE_PER_SEC_def)

lemma earned_refl [simp]: "earned t t = 0"
  by (simp add: earned_def as_secs_f64_def)

lemma earned_add: "t \<le> t' \<Longrightarrow> t' \<le> t'' \<Longrightarrow> earned t t' + earned t' t'' = earned t t''"
  by (simp add: earned_def as_secs_f64_def REQ_RATE_PER_SEC_def of_nat_diff field_simps)

lemma refill_tokens: "tokens (refill t b) = min (tokens b + earned (last_refill b) t) REQ_BURST"
  and refill_time [simp]: "last_refill (refill t b) = t"
  by (simp_all add: refill_def earned_def)

definition script_times :: "('r \<times> instant) list \<Rightarrow> instant list" where
  "script_times script = map snd script"

lemma answers_sub:
  "serve_stream h e b script core = (rs, en, core') \<Longrightarrow> set (answer_times rs) \<subseteq> set (script_times script)"
proof (induction script arbitrary: b core rs en core')
  case (Cons x script)
  obtain r now where x: "x = (r, now)" by fastforce
  have tail: "set (answer_times rs') \<subseteq> set (script_times (x # script))"
    if "serve_stream h e b' script c = (rs', en, core')" for b' c rs'
    using Cons.IH [OF that] by (auto simp: script_times_def)
  show ?case
  proof (cases "\<exists>line. r = Inr (Some line) \<and> trim line \<noteq> []")
    case True
    then obtain line where r: "r = Inr (Some line)" "trim line \<noteq> []" by blast
    obtain a c1 where h: "h (trim line) core = (a, c1)" by fastforce
    obtain rs1 e1 c2 where
      rec: "serve_stream h e (refill now b\<lparr>tokens := tokens (refill now b) - 1\<rparr>) script c1 = (rs1, e1, c2)"
      by (metis prod_cases3)
    show ?thesis
      using Cons.prems x r h rec Cons.IH [OF rec] by (auto simp: Let_def script_times_def split: if_splits)
  next
    case False
    then show ?thesis
      using Cons.prems x tail by (auto simp: Let_def split: sum.splits option.splits read_error.splits)
  qed
qed simp

text \<open>No window of answers exceeds the burst and what its length earns.\<close>

definition within_rate :: "instant list \<Rightarrow> bool" where
  "within_rate ts \<longleftrightarrow>
     (\<forall>j < length ts. \<forall>i \<le> j. of_nat (j - i + 1) \<le> REQ_BURST + earned (ts ! i) (ts ! j))"

lemma within_rate_Cons:
  "within_rate (t # ts) \<longleftrightarrow>
     within_rate ts \<and> (\<forall>j < length ts. of_nat (j + 2) \<le> REQ_BURST + earned t (ts ! j))"
  (is "?L \<longleftrightarrow> ?R")
proof
  assume L: ?L
  show ?R
  proof (intro conjI allI impI)
    show "within_rate ts"
      unfolding within_rate_def
    proof (intro allI impI)
      fix j i assume "j < length ts" "i \<le> j"
      then show "of_nat (j - i + 1) \<le> REQ_BURST + earned (ts ! i) (ts ! j)"
        using L [unfolded within_rate_def, rule_format, of "Suc j" "Suc i"] by simp
    qed
    fix j assume "j < length ts"
    then show "of_nat (j + 2) \<le> REQ_BURST + earned t (ts ! j)"
      using L [unfolded within_rate_def, rule_format, of "Suc j" 0] by simp
  qed
next
  assume R: ?R
  show ?L
    unfolding within_rate_def
  proof (intro allI impI)
    fix j i assume ji: "j < length (t # ts)" "i \<le> j"
    show "of_nat (j - i + 1) \<le> REQ_BURST + earned ((t # ts) ! i) ((t # ts) ! j)"
    proof (cases j)
      case 0
      with ji show ?thesis by (simp add: REQ_BURST_def)
    next
      case (Suc j')
      show ?thesis
      proof (cases i)
        case 0
        with R Suc ji show ?thesis by auto
      next
        case (Suc i')
        with R \<open>j = Suc j'\<close> ji show ?thesis by (auto simp: within_rate_def)
      qed
    qed
  qed
qed

lemma bucket_bound:
  "sorted (last_refill b # script_times script) \<Longrightarrow> serve_stream h e b script core = (rs, en, core') \<Longrightarrow>
   within_rate (answer_times rs) \<and>
   (\<forall>j < length (answer_times rs). of_nat (j + 1) \<le> tokens b + earned (last_refill b) (answer_times rs ! j))"
proof (induction h e b script core arbitrary: rs en core' rule: serve_stream.induct)
  case (1 h e b core)
  then show ?case by (simp add: within_rate_def)
next
  case (2 h e b r now script core)
  have le: "last_refill b \<le> now" and tail: "sorted (now # script_times script)"
    "sorted (last_refill b # script_times script)"
    using "2.prems"(1) by (auto simp: script_times_def)
  have none: ?case if "answer_times rs = []" using that by (simp add: within_rate_def)
  show ?case
  proof (cases "\<exists>line. r = Inr (Some line)")
    case False
    with "2.prems"(2) have "answer_times rs = []"
      by (auto split: sum.splits option.splits read_error.splits)
    then show ?thesis by (rule none)
  next
    case True
    then obtain line where r: "r = Inr (Some line)" by blast
    show ?thesis
    proof (cases "trim line = []")
      case True
      with r "2.prems"(2) have "serve_stream h e b script core = (rs, en, core')" by (simp add: Let_def)
      from "2.IH"(1) [OF r refl refl True tail(2) this] show ?thesis .
    next
      case line: False
      let ?b = "refill now b"
      show ?thesis
      proof (cases "tokens ?b < 1")
        case True
        with r line "2.prems"(2) have "answer_times rs = []" by (auto simp: Let_def)
        then show ?thesis by (rule none)
      next
        case False
        obtain a core1 where h: "h (trim line) core = (a, core1)" by fastforce
        with r line False "2.prems"(2) obtain rs' where
          rec: "serve_stream h e (?b\<lparr>tokens := tokens ?b - 1\<rparr>) script core1 = (rs', en, core')"
          and rs: "rs = Answer now a # rs'"
          by (auto simp: Let_def split: prod.splits)
        let ?ts = "answer_times rs'"
        have srt: "sorted (last_refill (?b\<lparr>tokens := tokens ?b - 1\<rparr>) # script_times script)" using tail(1) by simp
        have IH: "within_rate ?ts" "\<forall>j < length ?ts. of_nat (j + 1) \<le> tokens ?b - 1 + earned now (?ts ! j)"
          using "2.IH"(2) [OF r refl refl line refl False h [symmetric] refl srt rec] by auto
        have later: "now \<le> ?ts ! j" if "j < length ?ts" for j
          using answers_sub [OF rec] that tail(1) by force
        have T: "tokens ?b \<le> tokens b + earned (last_refill b) now" "tokens ?b \<le> REQ_BURST"
          by (simp_all add: refill_tokens)
        have first: "of_nat (j + 1) \<le> tokens b + earned (last_refill b) ((now # ?ts) ! j)" if "j < length (now # ?ts)" for j
        proof (cases j)
          case 0
          with False T show ?thesis by simp
        next
          case (Suc k)
          with that IH(2) have "of_nat (k + 1) \<le> tokens ?b - 1 + earned now (?ts ! k)" by simp
          with T(1) earned_add [OF le later [of k]] Suc that show ?thesis by (simp add: algebra_simps)
        qed
        have "of_nat (j + 2) \<le> REQ_BURST + earned now (?ts ! j)" if "j < length ?ts" for j
          using IH(2) that T(2) by (fastforce simp: algebra_simps)
        with IH(1) first show ?thesis by (simp add: rs within_rate_Cons)
      qed
    qed
  qed
qed

text \<open>And conversely: a client within the rate is never refused.\<close>

lemma bucket_serves:
  "sorted (last_refill b # map snd reqs) \<Longrightarrow> list_all (\<lambda>q. trim (fst q) \<noteq> []) reqs \<Longrightarrow> within_rate (map snd reqs) \<Longrightarrow>
   \<forall>j < length reqs. of_nat (j + 1) \<le> tokens b + earned (last_refill b) (map snd reqs ! j) \<Longrightarrow>
   \<exists>rs core'. serve_stream h e b (map (\<lambda>q. (Inr (Some (fst q)), snd q)) reqs) core = (rs, Open, core')
      \<and> answer_times rs = map snd reqs"
proof (induction reqs arbitrary: b core)
  case Nil
  then show ?case by simp
next
  case (Cons q reqs)
  let ?t = "snd q" and ?b = "refill (snd q) b"
  have le: "last_refill b \<le> ?t" and srt: "sorted (?t # map snd reqs)" using Cons.prems(1) by auto
  have rate: "within_rate (map snd reqs)"
    "\<And>j. j < length reqs \<Longrightarrow> of_nat (j + 2) \<le> REQ_BURST + earned ?t (map snd reqs ! j)"
    using Cons.prems(3) by (auto simp: within_rate_Cons)
  have "1 \<le> tokens b + earned (last_refill b) ?t" using Cons.prems(4) [rule_format, of 0] by simp
  then have one: "\<not> tokens ?b < 1" by (simp add: refill_tokens REQ_BURST_def)
  obtain a core1 where h: "h (trim (fst q)) core = (a, core1)" by fastforce
  have "of_nat (j + 1) \<le> tokens (?b\<lparr>tokens := tokens ?b - 1\<rparr>) + earned (last_refill (?b\<lparr>tokens := tokens ?b - 1\<rparr>)) (map snd reqs ! j)"
    if "j < length reqs" for j
  proof -
    have "?t \<le> map snd reqs ! j" using srt that by simp
    moreover have "of_nat (j + 2) \<le> tokens b + earned (last_refill b) (map snd reqs ! j)"
      using Cons.prems(4) [rule_format, of "Suc j"] that by simp
    ultimately show ?thesis
      using rate(2) [OF that] earned_add [OF le, of "map snd reqs ! j"]
      by (simp add: refill_tokens min_def algebra_simps)
  qed
  then obtain rs core' where "serve_stream h e (?b\<lparr>tokens := tokens ?b - 1\<rparr>)
      (map (\<lambda>q. (Inr (Some (fst q)), snd q)) reqs) core1 = (rs, Open, core') \<and> answer_times rs = map snd reqs"
    using Cons.IH [of "?b\<lparr>tokens := tokens ?b - 1\<rparr>" core1] srt Cons.prems(2) rate(1) by auto
  with h one Cons.prems(2) show ?case by (simp add: Let_def)
qed

section \<open>Properties of a stream\<close>

text \<open>
  No stream is answered faster than the limit. Over any script of lines, errors and pauses, and
  any store behind it, every window of answers on one stream holds at most 60 and 30 per second
  of its length: a flood is closed on, whatever its pattern.
\<close>

theorem stream_rate_bound:
  assumes "sorted (start # map snd script)"
    and "serve_stream handle_line error_line (full_bucket start) script core = (rs, en, core')"
  shows "within_rate (answer_times rs)"
  using bucket_bound [of "full_bucket start" script handle_line error_line core rs en core'] assms
  by (simp add: full_bucket_def script_times_def)

theorem stream_rate_bound_witness:
  "within_rate (answer_times (fst (serve_stream (\<lambda>l n. (l, n + length l)) id (full_bucket 3)
     [(Inr (Some ''a''), 5), (Inr (Some []), 6), (Inr (Some ''b''), 9), (Inl TimedOut, 70)] 0)))"
proof -
  let ?s = "[(Inr (Some ''a''), 5), (Inr (Some []), 6), (Inr (Some ''b''), 9), (Inl TimedOut, 70)]"
  obtain rs en c where r: "serve_stream (\<lambda>l n. (l, n + length l)) id (full_bucket 3) ?s 0 = (rs, en, c :: nat)"
    by (rule prod_cases3)
  have "sorted ((3 :: instant) # map snd ?s)" by simp
  from stream_rate_bound [OF this r] show ?thesis unfolding r fst_conv .
qed

text \<open>
  A client within the limit is never cut. Requests (not blank) whose every window keeps to
  the burst and the rate are all answered, each at its own instant, and the stream stays open.
\<close>

theorem stream_rate_serves:
  assumes "sorted (start # map snd reqs)" and "list_all (\<lambda>q. trim (fst q) \<noteq> []) reqs"
    and "within_rate (map snd reqs)"
  shows "\<exists>rs core'. serve_stream handle_line error_line (full_bucket start)
       (map (\<lambda>q. (Inr (Some (fst q)), snd q)) reqs) core = (rs, Open, core') \<and> answer_times rs = map snd reqs"
proof (rule bucket_serves)
  show "\<forall>j < length reqs. of_nat (j + 1)
      \<le> tokens (full_bucket start) + earned (last_refill (full_bucket start)) (map snd reqs ! j)"
  proof (intro allI impI)
    fix j assume j: "j < length reqs"
    let ?t = "map snd reqs"
    have "of_nat (j + 1) \<le> REQ_BURST + earned (?t ! 0) (?t ! j)"
      using assms(3) [unfolded within_rate_def, rule_format, of j 0] j by simp
    also have "earned (?t ! 0) (?t ! j) \<le> earned start (?t ! j)"
    proof -
      have "start \<le> ?t ! 0" using assms(1) j by (cases reqs) auto
      moreover have "?t ! 0 \<le> ?t ! j"
        using assms(1) j sorted_nth_mono [of ?t 0 j] by simp
      ultimately show ?thesis using earned_add [of start "?t ! 0" "?t ! j"] earned_nonneg [of start "?t ! 0"] by linarith
    qed
    finally show "of_nat (j + 1)
        \<le> tokens (full_bucket start) + earned (last_refill (full_bucket start)) (?t ! j)"
      by (simp add: full_bucket_def)
  qed
qed (use assms in \<open>simp_all add: full_bucket_def\<close>)

lemma trim_letter: "trim ''a'' = ''a''"
  by (simp add: trim_id graph_char_def)

theorem stream_rate_serves_witness:
  "\<exists>rs core'. serve_stream (\<lambda>l n. (l, n + 1)) id (full_bucket 0)
     [(Inr (Some ''a''), 5), (Inr (Some ''a''), 5)] (0 :: nat) = (rs, Open, core') \<and> answer_times rs = [5, 5]"
proof -
  have "within_rate (map snd [(''a'', 5), (''a'', 5)])"
    by (simp add: within_rate_Cons) (simp add: within_rate_def REQ_BURST_def)
  with stream_rate_serves [of 0 "[(''a'', 5), (''a'', 5)]" "\<lambda>l n. (l, n + 1)" id "0 :: nat"]
  show ?thesis by (simp add: trim_letter del: serve_stream.simps)
qed

section \<open>Capacity\<close>

datatype slot_op = Rendezvous | TaskEnds

fun apply_slot :: "slot_op \<Rightarrow> stream_slots \<Rightarrow> stream_slots" where
  "apply_slot Rendezvous s = snd (accept_stream s)"
| "apply_slot TaskEnds s = end_stream s"

lemma slot_inv:
  "active s = tasks s \<and> tasks s \<le> MAX_CONCURRENT_STREAMS \<Longrightarrow>
   active (fold apply_slot ops s) = tasks (fold apply_slot ops s) \<and> tasks (fold apply_slot ops s) \<le> MAX_CONCURRENT_STREAMS"
proof (induction ops arbitrary: s)
  case (Cons x ops)
  have "active (apply_slot x s) = tasks (apply_slot x s) \<and> tasks (apply_slot x s) \<le> MAX_CONCURRENT_STREAMS"
    using Cons.prems by (cases x) (auto simp: accept_stream_def end_stream_def Let_def)
  with Cons.IH show ?case by simp
qed simp

text \<open>
  The number of streams served at once is bounded and slots never leak. After any sequence of
  rendezvous and ended tasks, the counter is the number of running tasks and at most 512, and
  the next rendezvous is accepted exactly when fewer than 512 run.
\<close>

theorem stream_capacity:
  fixes ops :: "slot_op list"
  defines "s \<equiv> fold apply_slot ops \<lparr>active = 0, tasks = 0, dropped = 0\<rparr>"
  shows "active s = tasks s \<and> tasks s \<le> MAX_CONCURRENT_STREAMS
       \<and> fst (accept_stream s) = (tasks s < MAX_CONCURRENT_STREAMS)"
  using slot_inv [of "\<lparr>active = 0, tasks = 0, dropped = 0\<rparr>" ops]
  by (auto simp: s_def accept_stream_def Let_def)

section \<open>What the counters count\<close>

text \<open>The events of an operation, and, for a post, its reply and the bytes it carried.\<close>

fun op_events :: "relay_env \<Rightarrow> relay_limits \<Rightarrow> string option \<Rightarrow> relay_op \<Rightarrow> store \<Rightarrow> relay_event list" where
  "op_events env lims dir (Serve now u toks req) st = [fst (snd (process env lims dir now u toks req st))]"
| "op_events env lims dir (Sweep now) st = reap_events now st"

fun post_replies :: "relay_env \<Rightarrow> relay_limits \<Rightarrow> string option \<Rightarrow> relay_op \<Rightarrow> store \<Rightarrow> (response \<times> nat) list" where
  "post_replies env lims dir (Serve now u toks (Post h b t)) st =
     [(fst (process env lims dir now u toks (Post h b t) st),
       case b64_decode env b of None \<Rightarrow> 0 | Some bs \<Rightarrow> length bs)]"
| "post_replies env lims dir x st = []"

definition refused_with :: "(string \<Rightarrow> bool) \<Rightarrow> (response \<times> nat) list \<Rightarrow> nat" where
  "refused_with P rs = length (filter (\<lambda>r. case error (fst r) of None \<Rightarrow> False | Some e \<Rightarrow> P e) rs)"

definition accepted_bytes :: "(response \<times> nat) list \<Rightarrow> nat" where
  "accepted_bytes rs = sum_list (map snd (filter (\<lambda>r. ok (fst r)) rs))"

text \<open>The counters of one stretch of a run, and how they add up.\<close>

definition counted :: "stats \<Rightarrow> (response \<times> nat) list \<Rightarrow> stats \<Rightarrow> bool" where
  "counted s rs s' \<longleftrightarrow>
     length (op_counts s) = 8 \<longrightarrow>
     (length (op_counts s') = 8 \<and> op_counts s' ! 0 = op_counts s ! 0 + of_nat (length rs) \<and>
      posted_bytes s' = posted_bytes s + of_nat (accepted_bytes rs) \<and>
      rejected_full s' = rejected_full s + of_nat (refused_with (\<lambda>e. e = ''relay full'') rs) \<and>
      rejected_mailbox s' = rejected_mailbox s + of_nat (refused_with (\<lambda>e. e = ''mailbox full'') rs) \<and>
      rejected_large s' = rejected_large s + of_nat (refused_with (\<lambda>e. e = ''blob too large'') rs) \<and>
      rejected_other s' = rejected_other s +
        of_nat (refused_with (\<lambda>e. e \<notin> {''relay full'', ''mailbox full'', ''blob too large''}) rs))"

lemma counted_refl: "counted s [] s"
  by (simp add: counted_def accepted_bytes_def refused_with_def)

lemma counted_trans: "counted s rs s' \<Longrightarrow> counted s' rs' s'' \<Longrightarrow> counted s (rs @ rs') s''"
  by (simp add: counted_def accepted_bytes_def refused_with_def)

lemma contains_reasons:
  "contains_str ''rejected: relay full'' ''relay full''"
  "\<not> contains_str ''rejected: mailbox full'' ''relay full''" "contains_str ''rejected: mailbox full'' ''mailbox full''"
  "\<not> contains_str ''rejected: blob too large'' ''relay full''"
  "\<not> contains_str ''rejected: blob too large'' ''mailbox full''"
  "contains_str ''rejected: blob too large'' ''too large''"
  "\<not> contains_str ''rejected: bad handle'' ''relay full''"
  "\<not> contains_str ''rejected: bad handle'' ''mailbox full''"
  "\<not> contains_str ''rejected: bad handle'' ''too large''"
  "\<not> contains_str ''bad blob'' ''relay full''" "\<not> contains_str ''bad blob'' ''mailbox full''"
  "\<not> contains_str ''bad blob'' ''too large''"
  by (simp_all add: contains_str_def sublist_code prefix_code)

lemma not_post_counted: "ev_op ev \<noteq> ''POST'' \<Longrightarrow> counted s [] (stats_record ev s)"
  by (auto simp: counted_def stats_record_def accepted_bytes_def refused_with_def Let_def OPS_def split: option.splits)

lemma post_reject_reasons:
  "post_reject lims st h n = Some e \<Longrightarrow> e = ''relay full'' \<or> e = ''mailbox full'' \<or> e = ''blob too large''"
  by (auto simp: post_reject_def Let_def split: if_splits)

lemma accepted_counted:
  "ev_op ev = ''POST'' \<Longrightarrow> ev_result ev = ''ok'' \<Longrightarrow> ok r \<Longrightarrow> error r = None \<Longrightarrow> ev_blob_len ev = n \<Longrightarrow>
   counted s [(r, n)] (stats_record ev s)"
  by (simp add: counted_def stats_record_def OPS_def accepted_bytes_def refused_with_def)

lemma refused_counted:
  assumes "ev_op ev = ''POST''" and "\<not> ok r" and "error r = Some e"
    and "(e, ev_result ev) \<in> {(''relay full'', ''rejected: relay full''), (''mailbox full'', ''rejected: mailbox full''),
      (''blob too large'', ''rejected: blob too large''), (''bad handle'', ''rejected: bad handle''), (''bad blob'', ''bad blob'')}"
  shows "counted s [(r, n)] (stats_record ev s)"
proof -
  have "op_counts s ! 0 + 1 = (op_counts s)[0 := op_counts s ! 0 + 1] ! 0" if "length (op_counts s) = 8"
    using that by simp
  with assms show ?thesis
    unfolding counted_def stats_record_def
    by (elim insertE emptyE) (simp_all add: OPS_def accepted_bytes_def refused_with_def contains_reasons)
qed

text \<open>A post's event and its reply tell the same story.\<close>

lemma post_event:
  assumes "process_post env lims now u toks h b t st = (r, ev, st')"
  obtains (accepted) bs where "b64_decode env b = Some bs"
      "ev_op ev = ''POST''" "ev_result ev = ''ok''" "ok r" "error r = None" "ev_blob_len ev = length bs"
  | (undecoded) "ev_op ev = ''POST''" "\<not> ok r" "error r = Some ''bad blob''" "ev_result ev = ''bad blob''"
  | (bad_handle) "ev_op ev = ''POST''" "\<not> ok r" "error r = Some ''bad handle''"
      "ev_result ev = ''rejected: bad handle''"
  | (limited) e where "post_reject lims st h (case b64_decode env b of None \<Rightarrow> 0 | Some bs \<Rightarrow> length bs) = Some e"
      "ev_op ev = ''POST''" "\<not> ok r" "error r = Some e" "ev_result ev = ''rejected: '' @ e"
proof (cases "b64_decode env b")
  case None
  with assms show thesis
    by (intro undecoded) (auto simp: process_post_def default_response_def response_err_def Let_def)
next
  case (Some bs)
  note e = assms [unfolded process_post_def Some option.case Let_def]
  show thesis
  proof (cases "valid_handle h")
    case False
    with e show thesis by (intro bad_handle) (auto simp: default_response_def response_err_def)
  next
    case True
    show thesis
    proof (cases "post_reject lims st h (length bs)")
      case None
      with e True Some show thesis by (intro accepted) (auto simp: default_response_def)
    next
      case (Some reason)
      with e True \<open>b64_decode env b = Some bs\<close> show thesis
        by (intro limited [of reason]) (auto simp: default_response_def response_err_def)
    qed
  qed
qed

lemma post_counted:
  assumes p: "process_post env lims now u toks h b t st = (r, ev, st')"
  shows "counted s [(r, case b64_decode env b of None \<Rightarrow> 0 | Some bs \<Rightarrow> length bs)] (stats_record ev s)"
  using p
proof (cases rule: post_event)
  case (accepted bs)
  then show ?thesis by (intro accepted_counted) simp_all
next
  case undecoded
  then show ?thesis by (intro refused_counted [where e = "''bad blob''"]) simp_all
next
  case bad_handle
  then show ?thesis by (intro refused_counted [where e = "''bad handle''"]) simp_all
next
  case (limited e)
  from post_reject_reasons [OF limited(1)] limited(2-) show ?thesis
    by (intro refused_counted [where e = e]) auto
qed

lemma reap_counted: "counted s [] (fold stats_record (reap_events now st) s)"
proof -
  have "list_all (\<lambda>ev. ev_op ev \<noteq> ''POST'') evs \<Longrightarrow> counted s [] (fold stats_record evs s)" for evs s
  proof (induction evs arbitrary: s)
    case (Cons ev evs)
    then show ?case using counted_trans [OF not_post_counted Cons.IH] by fastforce
  qed (simp add: counted_refl)
  moreover have "list_all (\<lambda>ev. ev_op ev \<noteq> ''POST'') (reap_events now st)"
    by (auto simp: reap_events_def simple_ev_def list_all_iff)
  ultimately show ?thesis by blast
qed

lemma op_counted:
  "counted s (post_replies env lims dir x st) (fold stats_record (op_events env lims dir x st) s)"
proof (cases x)
  case (Serve now u toks req)
  show ?thesis
  proof (cases req)
    case (Post h b t)
    with Serve show ?thesis
      by (cases "process_post env lims now u toks h b t st") (auto intro: post_counted)
  qed (auto simp: Serve process_peek_def process_fetch_def process_take_def process_take_many_def
      process_recall_def process_get_directory_def simple_ev_def Let_def split: prod.splits intro!: not_post_counted)
qed (simp add: reap_counted)

text \<open>
  The traffic counters tell the truth about posts. Over any run of the service, the count of
  posts, the bytes accepted, and each of the four refusal counters equal (modulo 2^64) what the
  replies sent say: every refused post is counted once, under its own reason, and no other request
  or sweep is counted among them.
\<close>

theorem stats_account_for_posts:
  fixes env lims dir ops st
  defines "rs \<equiv> along (post_replies env lims dir) (apply_op env lims dir) ops st"
    and "s \<equiv> fold stats_record (along (op_events env lims dir) (apply_op env lims dir) ops st) new_stats"
  shows "op_counts s ! 0 = of_nat (length rs) \<and> posted_bytes s = of_nat (accepted_bytes rs)
       \<and> rejected_full s = of_nat (refused_with (\<lambda>e. e = ''relay full'') rs)
       \<and> rejected_mailbox s = of_nat (refused_with (\<lambda>e. e = ''mailbox full'') rs)
       \<and> rejected_large s = of_nat (refused_with (\<lambda>e. e = ''blob too large'') rs)
       \<and> rejected_other s = of_nat (refused_with (\<lambda>e. e \<notin> {''relay full'', ''mailbox full'', ''blob too large''}) rs)"
proof -
  have "counted s0 (along (post_replies env lims dir) (apply_op env lims dir) ops st)
     (fold stats_record (along (op_events env lims dir) (apply_op env lims dir) ops st) s0)" for s0
    by (induction ops arbitrary: s0 st) (auto intro: counted_refl counted_trans op_counted)
  from this [of new_stats] show ?thesis
    by (simp add: counted_def rs_def s_def new_stats_def)
qed

end
