(* ===== verification/ContactLimits.thy ===== *)
theory ContactLimits
  imports Prelude
begin

text \<open>
  \<open>core/src/node/limits.rs\<close>: the daily allowance of one contact (\<open>Allowance::admit\<close>), the cut of an
  over-long text at a character boundary (\<open>clamp_text\<close>), and what ids and addresses may look like.
\<close>

section \<open>The daily allowance\<close>

definition MAX_TEXT_BYTES :: nat where
  "MAX_TEXT_BYTES = 64 * 1024"

definition MAX_ID_BYTES :: nat where
  "MAX_ID_BYTES = 128"

definition MAX_ADDRESS_BYTES :: nat where
  "MAX_ADDRESS_BYTES = 128"

definition MAX_MESSAGES_PER_DAY :: u32 where
  "MAX_MESSAGES_PER_DAY = 5000"

definition MAX_MEDIA_BYTES_PER_DAY :: u64 where
  "MAX_MEDIA_BYTES_PER_DAY = 1024 * 1024 * 1024"

definition DAY_SECS :: u64 where
  "DAY_SECS = 24 * 60 * 60"

record allowance =
  window_start :: u64
  messages :: u32
  media_bytes :: u64
  noticed :: bool

definition default_allowance :: allowance where
  "default_allowance = \<lparr>window_start = 0, messages = 0, media_bytes = 0, noticed = False\<rparr>"

datatype admission = Yes | DropAndNotice | DropQuietly

definition admit :: "u64 \<Rightarrow> u64 \<Rightarrow> allowance \<Rightarrow> admission \<times> allowance" where
  "admit now media a =
     (let a = (if now < window_start a \<or> sat_add64 (window_start a) DAY_SECS \<le> now
               then default_allowance\<lparr>window_start := now\<rparr> else a)
      in if MAX_MESSAGES_PER_DAY \<le> messages a \<or> MAX_MEDIA_BYTES_PER_DAY < sat_add64 (media_bytes a) media
         then (if noticed a then (DropQuietly, a) else (DropAndNotice, a\<lparr>noticed := True\<rparr>))
         else (Yes, a\<lparr>messages := messages a + 1, media_bytes := media_bytes a + media\<rparr>))"

text \<open>What becomes of a sequence of messages, each at its time and with its attachment bytes.\<close>

fun admit_all :: "(u64 \<times> u64) list \<Rightarrow> allowance \<Rightarrow> (admission \<times> u64) list" where
  "admit_all [] a = []"
| "admit_all ((now, media) # xs) a =
     (let (v, a') = admit now media a in (v, media) # admit_all xs a')"

section \<open>Text, ids and addresses\<close>

text \<open>\<open>str::is_char_boundary\<close> on UTF-8: not in the middle of an encoding.\<close>

definition is_cont :: "char \<Rightarrow> bool" where
  "is_cont c = (128 \<le> (of_char c :: nat) \<and> (of_char c :: nat) < 192)"

definition is_char_boundary :: "string \<Rightarrow> nat \<Rightarrow> bool" where
  "is_char_boundary s i = (i = 0 \<or> i = length s \<or> i < length s \<and> \<not> is_cont (s ! i))"

fun floor_boundary :: "string \<Rightarrow> nat \<Rightarrow> nat" where
  "floor_boundary s 0 = 0"
| "floor_boundary s (Suc i) = (if is_char_boundary s (Suc i) then Suc i else floor_boundary s i)"

definition cut_mark :: string where
  "cut_mark = '' ['' @ map char_of [0xE2, 0x80, 0xA6 :: nat] @ '']''"

definition clamp_text :: "string \<Rightarrow> string" where
  "clamp_text t =
     (if length t \<le> MAX_TEXT_BYTES then t else take (floor_boundary t MAX_TEXT_BYTES) t @ cut_mark)"

definition is_ascii_graphic :: "char \<Rightarrow> bool" where
  "is_ascii_graphic c = (33 \<le> (of_char c :: nat) \<and> (of_char c :: nat) \<le> 126)"

definition is_ascii_alnum :: "char \<Rightarrow> bool" where
  "is_ascii_alnum c =
     (let n = of_char c :: nat in (48 \<le> n \<and> n \<le> 57) \<or> (65 \<le> n \<and> n \<le> 90) \<or> (97 \<le> n \<and> n \<le> 122))"

definition sane_id :: "string \<Rightarrow> bool" where
  "sane_id i = (1 \<le> length i \<and> length i \<le> MAX_ID_BYTES \<and> list_all is_ascii_graphic i)"

definition sane_address :: "string \<Rightarrow> bool" where
  "sane_address a =
     (1 \<le> length a \<and> length a \<le> MAX_ADDRESS_BYTES \<and>
      list_all (\<lambda>c. is_ascii_alnum c \<or> c = CHR ''.'' \<or> c = CHR '':'' \<or> c = CHR ''-'' \<or> c = CHR ''_'') a)"

section \<open>What one window keeps\<close>

definition kept :: "(admission \<times> u64) list \<Rightarrow> (admission \<times> u64) list" where
  "kept vs = filter (\<lambda>v. fst v = Yes) vs"

definition kept_bytes :: "(admission \<times> u64) list \<Rightarrow> nat" where
  "kept_bytes vs = sum_list (map (unat \<circ> snd) (kept vs))"

definition notices :: "(admission \<times> u64) list \<Rightarrow> nat" where
  "notices vs = length (filter (\<lambda>v. fst v = DropAndNotice) vs)"

lemma kept_simps [simp]:
  "kept [] = []" "kept ((v, m) # vs) = (if v = Yes then (v, m) # kept vs else kept vs)"
  "kept_bytes [] = 0" "kept_bytes ((v, m) # vs) = (if v = Yes then unat m else 0) + kept_bytes vs"
  "notices [] = 0" "notices ((v, m) # vs) = (if v = DropAndNotice then 1 else 0) + notices vs"
  by (simp_all add: kept_def kept_bytes_def notices_def)

text \<open>The limits as numbers.\<close>

definition max_messages :: nat where "max_messages = 5000"
definition max_media :: nat where "max_media = 1024 * 1024 * 1024"
definition day :: nat where "day = 86400"

lemma unat_limits [simp]:
  "unat MAX_MESSAGES_PER_DAY = max_messages" "unat MAX_MEDIA_BYTES_PER_DAY = max_media" "unat DAY_SECS = day"
  by (simp_all add: MAX_MESSAGES_PER_DAY_def max_messages_def MAX_MEDIA_BYTES_PER_DAY_def max_media_def
      DAY_SECS_def day_def)

definition allowance_ok :: "allowance \<Rightarrow> bool" where
  "allowance_ok a \<longleftrightarrow> unat (messages a) \<le> max_messages \<and> unat (media_bytes a) \<le> max_media"

definition in_window :: "allowance \<Rightarrow> u64 \<Rightarrow> bool" where
  "in_window a now \<longleftrightarrow> \<not> (now < window_start a \<or> sat_add64 (window_start a) DAY_SECS \<le> now)"

lemma in_window_nat:
  "unat (window_start a) \<le> unat now \<Longrightarrow> unat now < unat (window_start a) + day \<Longrightarrow> unat now < 2 ^ 64 - 1 \<Longrightarrow>
   in_window a now"
  by (simp add: in_window_def word_less_nat_alt word_le_nat_alt unat_sat_add64)

lemma admit_outside: "\<not> in_window a now \<Longrightarrow> admit now m a = admit now m (default_allowance\<lparr>window_start := now\<rparr>)"
  by (simp add: admit_def in_window_def Let_def)

lemma admit_inside:
  assumes w: "in_window a now" and ok: "allowance_ok a" and ad: "admit now m a = (v, a')"
  shows "window_start a' = window_start a" and "allowance_ok a'"
    and "unat (messages a') = unat (messages a) + (if v = Yes then 1 else 0)"
    and "unat (media_bytes a') = unat (media_bytes a) + (if v = Yes then unat m else 0)"
    and "(v = DropAndNotice) = (\<not> noticed a \<and> noticed a')" "noticed a \<Longrightarrow> noticed a'"
proof -
  note num = max_messages_def max_media_def
  let ?over = "MAX_MESSAGES_PER_DAY \<le> messages a \<or> MAX_MEDIA_BYTES_PER_DAY < sat_add64 (media_bytes a) m"
  have eq: "(v, a') = (if ?over then (if noticed a then (DropQuietly, a) else (DropAndNotice, a\<lparr>noticed := True\<rparr>))
         else (Yes, a\<lparr>messages := messages a + 1, media_bytes := media_bytes a + m\<rparr>))"
    using w ad by (simp add: admit_def in_window_def Let_def)
  have under: "unat (messages a) < max_messages \<and> unat (media_bytes a) + unat m \<le> max_media" if "\<not> ?over"
    using that by (auto simp: word_le_nat_alt word_less_nat_alt unat_sat_add64 num)
  have msg: "unat (messages a + 1) = unat (messages a) + 1" if "\<not> ?over"
    using under [OF that] by (subst unat_add_no_wrap) (simp_all add: num)
  have med: "unat (media_bytes a + m) = unat (media_bytes a) + unat m" if "\<not> ?over"
    using under [OF that] by (subst unat_add_no_wrap) (simp_all add: num)
  show "window_start a' = window_start a" "(v = DropAndNotice) = (\<not> noticed a \<and> noticed a')"
    "noticed a \<Longrightarrow> noticed a'"
    using eq by (auto split: if_splits)
  show "unat (messages a') = unat (messages a) + (if v = Yes then 1 else 0)"
    using eq msg by (auto split: if_splits)
  show "unat (media_bytes a') = unat (media_bytes a) + (if v = Yes then unat m else 0)"
    using eq med by (auto split: if_splits)
  show "allowance_ok a'"
    using eq ok under msg med by (auto simp: allowance_ok_def split: if_splits)
qed

lemma in_window_start: "window_start a' = window_start a \<Longrightarrow> in_window a' = in_window a"
  by (simp add: in_window_def fun_eq_iff)

text \<open>Within one window: the limits, less what was used, and one notice.\<close>

lemma window_kept:
  "list_all (\<lambda>x. in_window a (fst x)) xs \<Longrightarrow> allowance_ok a \<Longrightarrow>
   length (kept (admit_all xs a)) + unat (messages a) \<le> max_messages \<and>
   kept_bytes (admit_all xs a) + unat (media_bytes a) \<le> max_media \<and>
   notices (admit_all xs a) + (if noticed a then 1 else 0) \<le> 1"
proof (induction xs arbitrary: a)
  case Nil
  then show ?case by (simp add: allowance_ok_def)
next
  case (Cons x xs)
  obtain t m where x: "x = (t, m)" by fastforce
  obtain v a' where ad: "admit t m a = (v, a')" by fastforce
  have w: "in_window a t" using Cons.prems(1) x by simp
  note st = admit_inside [OF w Cons.prems(2) ad]
  have "list_all (\<lambda>x. in_window a' (fst x)) xs"
    using Cons.prems(1) in_window_start [OF st(1)] by simp
  from Cons.IH [OF this st(2)] st(3-6) show ?case
    by (auto simp: x ad split: if_splits)
qed

text \<open>Times that rise within less than a day meet at most one fresh window after the one they start in.\<close>

lemma fresh_window:
  assumes "sorted (map (unat \<circ> fst) ((t, m) # xs))"
    and "list_all (\<lambda>x. unat (fst x) < unat t + day \<and> unat (fst x) < 2 ^ 64 - 1) ((t, m) # xs)"
  shows "list_all (\<lambda>x. in_window (default_allowance\<lparr>window_start := t\<rparr>) (fst x)) ((t, m) # xs)"
  using assms by (auto simp: list_all_iff intro!: in_window_nat)

lemma day_kept:
  "sorted (map (unat \<circ> fst) xs) \<Longrightarrow> list_all (\<lambda>x. t0 \<le> unat (fst x) \<and> unat (fst x) < t0 + day \<and> unat (fst x) < 2 ^ 64 - 1) xs \<Longrightarrow>
   allowance_ok a \<Longrightarrow>
   length (kept (admit_all xs a)) + unat (messages a) \<le> 2 * max_messages \<and>
   kept_bytes (admit_all xs a) + unat (media_bytes a) \<le> 2 * max_media \<and>
   notices (admit_all xs a) + (if noticed a then 1 else 0) \<le> 2"
proof (induction xs arbitrary: a)
  case Nil
  then show ?case by (simp add: allowance_ok_def)
next
  case (Cons x xs)
  obtain t m where x: "x = (t, m)" by fastforce
  show ?case
  proof (cases "in_window a t")
    case True
    obtain v a' where ad: "admit t m a = (v, a')" by fastforce
    note st = admit_inside [OF True Cons.prems(3) ad]
    have "sorted (map (unat \<circ> fst) xs)"
      "list_all (\<lambda>x. t0 \<le> unat (fst x) \<and> unat (fst x) < t0 + day \<and> unat (fst x) < 2 ^ 64 - 1) xs"
      using Cons.prems(1,2) by (simp_all add: o_def)
    from Cons.IH [OF this st(2)] st(3-6) show ?thesis by (auto simp: x ad split: if_splits)
  next
    case False
    let ?f = "default_allowance\<lparr>window_start := t\<rparr>"
    have same: "admit_all (x # xs) a = admit_all (x # xs) ?f"
      using admit_outside [OF False] by (simp add: x)
    have "list_all (\<lambda>x. in_window ?f (fst x)) (x # xs)"
      unfolding x by (rule fresh_window) (use Cons.prems(1,2) x in \<open>auto simp: list_all_iff o_def\<close>)
    from window_kept [OF this] have
      "length (kept (admit_all (x # xs) ?f)) \<le> max_messages" "kept_bytes (admit_all (x # xs) ?f) \<le> max_media"
      "notices (admit_all (x # xs) ?f) \<le> 1"
      by (simp_all add: allowance_ok_def default_allowance_def)
    with Cons.prems(3) show ?thesis
      unfolding same by (auto simp: allowance_ok_def)
  qed
qed

section \<open>Properties of the allowance\<close>

text \<open>
  A contact's flood is bounded. Of messages arriving in time order within less than a day, from
  whatever allowance is left, at most 5,000 and 1 GiB of attachments are kept for each of the at
  most two windows they meet, and at most one notice is shown for each; the counters never wrap.
\<close>

theorem allowance_bounds_a_day:
  assumes "sorted (map (unat \<circ> fst) xs)" and "allowance_ok a"
    and "list_all (\<lambda>x. t0 \<le> unat (fst x) \<and> unat (fst x) < t0 + 86400 \<and> unat (fst x) < 2 ^ 64 - 1) xs"
  shows "length (kept (admit_all xs a)) \<le> 2 * 5000 \<and> kept_bytes (admit_all xs a) \<le> 2 * (1024 * 1024 * 1024)
       \<and> notices (admit_all xs a) \<le> 2"
  using day_kept [OF assms(1) assms(3) [folded day_def] assms(2)]
  by (simp add: max_messages_def max_media_def)

lemma allowance_ok_default: "allowance_ok default_allowance"
  by (simp add: allowance_ok_def default_allowance_def)

text \<open>The window does not roll: two full allowances fit within two seconds, across a window's end.\<close>

lemma two_allowances_in_a_day:
  "map fst (admit_all [(100000, 0), (186399, MAX_MEDIA_BYTES_PER_DAY), (186400, MAX_MEDIA_BYTES_PER_DAY)] default_allowance)
     = [Yes, Yes, Yes]"
  by (simp add: admit_def default_allowance_def Let_def MAX_MEDIA_BYTES_PER_DAY_def MAX_MESSAGES_PER_DAY_def
      DAY_SECS_def sat_add64_def word_le_nat_alt word_less_nat_alt)

theorem allowance_bounds_a_day_witness:
  "kept_bytes (admit_all [(1, 0), (86400, MAX_MEDIA_BYTES_PER_DAY)] default_allowance) \<le> 2 * (1024 * 1024 * 1024)"
proof -
  have "sorted (map (unat \<circ> fst) [(1 :: u64, 0 :: u64), (86400, MAX_MEDIA_BYTES_PER_DAY)])" by simp
  from allowance_bounds_a_day [OF this allowance_ok_default, of 1] show ?thesis by (simp del: admit_all.simps)
qed

section \<open>The cut\<close>

text \<open>The encoding of one character, and a text as the concatenation of its characters.\<close>

definition utf8_char :: "string \<Rightarrow> bool" where
  "utf8_char c \<longleftrightarrow> c \<noteq> [] \<and> length c \<le> 4 \<and> \<not> is_cont (hd c) \<and> list_all is_cont (tl c)"

lemma boundary_prefix:
  "list_all utf8_char cs \<Longrightarrow> is_char_boundary (concat cs) i \<Longrightarrow> i \<le> length (concat cs) \<Longrightarrow>
   \<exists>k \<le> length cs. take i (concat cs) = concat (take k cs)"
proof (induction cs arbitrary: i)
  case Nil
  then show ?case by simp
next
  case (Cons c cs)
  show ?case
  proof (cases "i < length c")
    case True
    have "i = 0"
    proof (rule ccontr)
      assume "i \<noteq> 0"
      with True Cons.prems(1) have "is_cont (concat (c # cs) ! i)"
        by (cases c) (auto simp: utf8_char_def list_all_length nth_Cons' nth_append)
      with Cons.prems(2) True \<open>i \<noteq> 0\<close> show False by (auto simp: is_char_boundary_def)
    qed
    then show ?thesis by (intro exI [of _ 0]) simp
  next
    case False
    then have i: "i = length c + (i - length c)" by simp
    have "is_char_boundary (concat cs) (i - length c)"
      using Cons.prems(2) False by (auto simp: is_char_boundary_def nth_append)
    moreover have "i - length c \<le> length (concat cs)" using Cons.prems(3) by simp
    ultimately obtain k where
      "k \<le> length cs" "take (i - length c) (concat cs) = concat (take k cs)"
      using Cons.IH [of "i - length c"] Cons.prems(1) by auto
    with False show ?thesis by (intro exI [of _ "Suc k"]) simp
  qed
qed

lemma floor_boundary_le: "floor_boundary s i \<le> i"
  by (induction s i rule: floor_boundary.induct) auto

lemma floor_boundary_ok: "is_char_boundary s (floor_boundary s i)"
  by (induction s i rule: floor_boundary.induct) (auto simp: is_char_boundary_def)

text \<open>No run of four continuation bytes inside a text: the cut moves back by at most three.\<close>

lemma boundary_near:
  "list_all utf8_char cs \<Longrightarrow> i \<le> length (concat cs) \<Longrightarrow> \<exists>j \<le> i. i \<le> j + 3 \<and> is_char_boundary (concat cs) j"
proof (induction cs arbitrary: i)
  case Nil
  then show ?case by (simp add: is_char_boundary_def)
next
  case (Cons c cs)
  show ?case
  proof (cases "i < length c")
    case True
    with Cons.prems(1) show ?thesis
      by (intro exI [of _ 0]) (auto simp: utf8_char_def is_char_boundary_def)
  next
    case False
    have "i - length c \<le> length (concat cs)" using Cons.prems(2) by simp
    then obtain j where
      j: "j \<le> i - length c" "i - length c \<le> j + 3" "is_char_boundary (concat cs) j"
      using Cons.IH [of "i - length c"] Cons.prems(1) by auto
    have "is_char_boundary (concat (c # cs)) (length c + j)"
    proof (cases "j = 0 \<and> concat cs \<noteq> []")
      case True
      then obtain d ds where "cs = d # ds" "utf8_char d" using Cons.prems(1) by (cases cs) auto
      then have "\<not> is_cont (concat cs ! 0)" by (cases d) (auto simp: utf8_char_def)
      with True show ?thesis by (auto simp: is_char_boundary_def nth_append)
    next
      case False
      with j(3) show ?thesis by (auto simp: is_char_boundary_def nth_append)
    qed
    with j False show ?thesis by (intro exI [of _ "length c + j"]) auto
  qed
qed

lemma floor_boundary_greatest: "is_char_boundary s j \<Longrightarrow> j \<le> i \<Longrightarrow> j \<le> floor_boundary s i"
proof (induction i)
  case (Suc i)
  then show ?case by (cases "j = Suc i") auto
qed simp

text \<open>
  A received text is cut at a character boundary and never by more than needed. A valid text
  within 64 KiB is kept whole; a longer one becomes its longest whole-character prefix within
  64 KiB, at most three bytes short of it, followed by the mark: still valid UTF-8.
\<close>

theorem clamp_text_cuts_whole_characters:
  assumes "list_all utf8_char cs" and "MAX_TEXT_BYTES < length (concat cs)"
  shows "\<exists>k. clamp_text (concat cs) = concat (take k cs) @ cut_mark
       \<and> length (concat (take k cs)) \<le> MAX_TEXT_BYTES \<and> MAX_TEXT_BYTES \<le> length (concat (take k cs)) + 3"
proof -
  let ?t = "concat cs" and ?e = "floor_boundary (concat cs) MAX_TEXT_BYTES"
  have e: "?e \<le> MAX_TEXT_BYTES" by (rule floor_boundary_le)
  obtain k where k: "take ?e ?t = concat (take k cs)"
    using boundary_prefix [OF assms(1) floor_boundary_ok] e assms(2) by (metis less_imp_le_nat order_trans)
  then have len: "length (concat (take k cs)) = ?e" using e assms(2) by (metis length_take less_imp_le_nat min_absorb2 order_trans)
  obtain j where "j \<le> MAX_TEXT_BYTES" "MAX_TEXT_BYTES \<le> j + 3" "is_char_boundary ?t j"
    using boundary_near [OF assms(1)] assms(2) by (metis less_imp_le_nat)
  then have "MAX_TEXT_BYTES \<le> ?e + 3" using floor_boundary_greatest [of ?t j MAX_TEXT_BYTES] by simp
  with k len e assms(2) show ?thesis by (auto simp: clamp_text_def intro!: exI [of _ k])
qed

theorem clamp_text_cuts_whole_characters_witness:
  "\<exists>k. clamp_text (concat (replicate 65537 ''a'')) = concat (take k (replicate 65537 ''a'')) @ cut_mark"
proof -
  have len: "length (concat (replicate n ''a'')) = n" for n by (induction n) simp_all
  have "list_all utf8_char (replicate n ''a'')" for n
    by (induction n) (simp_all add: utf8_char_def is_cont_def)
  moreover have "MAX_TEXT_BYTES < length (concat (replicate 65537 ''a''))"
    unfolding len by (simp add: MAX_TEXT_BYTES_def)
  ultimately show ?thesis using clamp_text_cuts_whole_characters by blast
qed

end
