(* ===== verification/Keyroll.thy ===== *)
theory Keyroll
  imports RustStd
begin

text \<open>
  Rotating a signing key, \<open>core/src/keyroll.rs\<close>: what a rotation statement says, which key an install
  trusts, and the operator's side that makes one. The signature scheme (\<open>ed25519_dalek\<close>) and
  base64 are an argument, the record \<open>sig_scheme\<close>; what is relied on is a hypothesis where it is
  used.
\<close>

section \<open>Keys and statements\<close>

record sig_scheme =
  vk_ok :: "bytes \<Rightarrow> bool"
  verify_strict :: "bytes \<Rightarrow> bytes \<Rightarrow> bytes \<Rightarrow> bool"
  sk_sign :: "bytes \<Rightarrow> bytes \<Rightarrow> bytes"
  sk_public :: "bytes \<Rightarrow> bytes"
  enc64 :: "bytes \<Rightarrow> string"
  dec64 :: "string \<Rightarrow> bytes option"

datatype purpose = Update | Directory

fun label :: "purpose \<Rightarrow> string" where
  "label Update = ''update''"
| "label Directory = ''directory''"

definition parse_purpose :: "string \<Rightarrow> purpose option" where
  "parse_purpose s =
     (if s = ''update'' then Some Update else if s = ''directory'' then Some Directory else None)"

record roots =
  root_purpose :: purpose
  signing :: bytes
  recovery :: bytes

record rotation =
  seq :: u64
  rot_key :: string
  rot_sig :: string

record trust =
  trust_seq :: u64
  trust_key :: string
  trust_sig :: string

definition line_feed :: string where
  "line_feed = [char_of (10 :: nat)]"

definition rotation_message :: "purpose \<Rightarrow> u64 \<Rightarrow> string \<Rightarrow> bytes" where
  "rotation_message p sq key_b64 =
     text_bytes (''nightdrop/key-rotation/v1'' @ line_feed @ label p @ line_feed @ dec (unat sq) @ line_feed @ key_b64)"

text \<open>\<open>try_into::<[u8; n]>\<close>.\<close>

definition try_into :: "nat \<Rightarrow> bytes \<Rightarrow> bytes option" where
  "try_into n bs = (if length bs = n then Some bs else None)"

definition decode_key :: "sig_scheme \<Rightarrow> string \<Rightarrow> bytes option" where
  "decode_key S b64 = Option.bind (dec64 S (trim b64)) (try_into 32)"

definition encode_key :: "sig_scheme \<Rightarrow> bytes \<Rightarrow> string" where
  "encode_key S key = enc64 S key"

section \<open>The app's side\<close>

definition verify_rotation :: "sig_scheme \<Rightarrow> roots \<Rightarrow> rotation \<Rightarrow> bool" where
  "verify_rotation S rts r =
     (if \<not> vk_ok S (recovery rts) then False
      else (case Option.bind (dec64 S (trim (rot_sig r))) (try_into 64) of
              None \<Rightarrow> False
            | Some sg \<Rightarrow>
                verify_strict S (recovery rts) (rotation_message (root_purpose rts) (seq r) (trim (rot_key r))) sg))"

text \<open>The first half of \<open>current_key\<close>: the sequence and key trusted before looking at a rotation.\<close>

definition trusted :: "sig_scheme \<Rightarrow> roots \<Rightarrow> trust option \<Rightarrow> u64 \<times> bytes" where
  "trusted S rts learned =
     (let learned = (case learned of
                       None \<Rightarrow> None
                     | Some t \<Rightarrow>
                         if verify_rotation S rts \<lparr>seq = trust_seq t, rot_key = trust_key t, rot_sig = trust_sig t\<rparr>
                         then Some t else None)
      in case Option.bind learned (\<lambda>t. map_option (Pair (trust_seq t)) (decode_key S (trust_key t))) of
           None \<Rightarrow> (0, signing rts)
         | Some (s, k) \<Rightarrow> if 0 < s then (s, k) else (0, signing rts))"

definition current_key ::
  "sig_scheme \<Rightarrow> roots \<Rightarrow> trust option \<Rightarrow> rotation option \<Rightarrow> bytes \<times> trust option" where
  "current_key S rts learned rot =
     (let (sq, key) = trusted S rts learned
      in case rot of
           None \<Rightarrow> (key, None)
         | Some r \<Rightarrow>
             if sq < seq r \<and> verify_rotation S rts r
             then (case decode_key S (rot_key r) of
                     None \<Rightarrow> (key, None)
                   | Some k \<Rightarrow>
                       (k, Some \<lparr>trust_seq = seq r, trust_key = trim (rot_key r), trust_sig = trim (rot_sig r)\<rparr>))
             else (key, None))"

section \<open>The operator's side\<close>

definition sign_rotation :: "sig_scheme \<Rightarrow> string \<Rightarrow> purpose \<Rightarrow> u64 \<Rightarrow> string \<Rightarrow> rotation option" where
  "sign_rotation S recovery_secret_b64 p sq new_key_b64 =
     (case Option.bind (dec64 S (trim recovery_secret_b64)) (try_into 32) of
        None \<Rightarrow> None
      | Some secret \<Rightarrow>
          (case decode_key S new_key_b64 of
             None \<Rightarrow> None
           | Some _ \<Rightarrow>
               Some \<lparr>seq = sq, rot_key = trim new_key_b64,
                     rot_sig = enc64 S (sk_sign S secret (rotation_message p sq (trim new_key_b64)))\<rparr>))"

section \<open>What a message says\<close>

lemma code_nl: "code (char_of (10 :: nat)) = 10"
  by (simp add: code_def)

lemma nl_not_in_dec: "char_of (10 :: nat) \<notin> set (dec n)"
  using dec_is_digits [of n] by (auto simp: list_all_iff is_digit_def code_nl)

lemma split_at_first:
  "c \<notin> set a \<Longrightarrow> c \<notin> set b \<Longrightarrow> a @ c # x = b @ c # y \<Longrightarrow> a = b \<and> x = y"
  by (induction a arbitrary: b) (auto simp: Cons_eq_append_conv append_eq_Cons_conv)

lemma nl_not_in_label: "char_of (10 :: nat) \<notin> set (label p)"
proof -
  have "list_all (\<lambda>c. code c \<noteq> 10) (label p)" by (cases p) (simp_all add: code_def)
  then show ?thesis using code_nl by (auto simp: list_all_iff)
qed

lemma label_inj: "label p = label q \<Longrightarrow> p = q"
  by (cases p; cases q) simp_all

text \<open>A rotation's message determines its purpose, its sequence and its key.\<close>

lemma rotation_message_inj:
  assumes "rotation_message p s k = rotation_message q t l"
  shows "p = q \<and> s = t \<and> k = l"
proof -
  have "label p @ line_feed @ dec (unat s) @ line_feed @ k = label q @ line_feed @ dec (unat t) @ line_feed @ l"
    using text_bytes_inj [OF assms [unfolded rotation_message_def]] by simp
  then have "label p = label q" "dec (unat s) @ line_feed @ k = dec (unat t) @ line_feed @ l"
    using split_at_first [OF nl_not_in_label nl_not_in_label] by (simp_all add: line_feed_def)
  moreover from this(2) have "dec (unat s) = dec (unat t)" "k = l"
    using split_at_first [OF nl_not_in_dec nl_not_in_dec] by (simp_all add: line_feed_def)
  ultimately show ?thesis using label_inj dec_inj by (metis word_unat_eq_iff)
qed

section \<open>What is remembered\<close>

definition remember :: "trust option \<Rightarrow> trust option \<Rightarrow> trust option" where
  "remember learned moved = (case moved of None \<Rightarrow> learned | Some t \<Rightarrow> Some t)"

text \<open>One fetch after another: what is trusted at the end, whatever the rotations shown.\<close>

definition learn_all :: "sig_scheme \<Rightarrow> roots \<Rightarrow> rotation option list \<Rightarrow> trust option \<Rightarrow> trust option" where
  "learn_all S rts rots learned = fold (\<lambda>r l. remember l (snd (current_key S rts l r))) rots learned"

lemma decode_key_trim [simp]: "decode_key S (trim k) = decode_key S k"
  by (simp add: decode_key_def)

lemma current_key_cases:
  obtains (kept) "current_key S rts learned rot = (snd (trusted S rts learned), None)"
  | (moved) r k where "rot = Some r" "fst (trusted S rts learned) < seq r" "verify_rotation S rts r"
      "decode_key S (rot_key r) = Some k"
      "current_key S rts learned rot =
         (k, Some \<lparr>trust_seq = seq r, trust_key = trim (rot_key r), trust_sig = trim (rot_sig r)\<rparr>)"
proof (cases rot)
  case None
  then show thesis by (intro kept) (simp add: current_key_def split: prod.splits)
next
  case (Some r)
  show thesis
  proof (cases "fst (trusted S rts learned) < seq r \<and> verify_rotation S rts r \<and> decode_key S (rot_key r) \<noteq> None")
    case True
    then obtain k where "decode_key S (rot_key r) = Some k" by blast
    with True Some show thesis by (intro moved) (auto simp: current_key_def split: prod.splits)
  next
    case False
    with Some show thesis by (intro kept) (auto simp: current_key_def split: prod.splits option.splits)
  qed
qed

lemma trusted_cases:
  obtains (baked) "trusted S rts learned = (0, signing rts)"
  | (learned) t k where "learned = Some t"
      "verify_rotation S rts \<lparr>seq = trust_seq t, rot_key = trust_key t, rot_sig = trust_sig t\<rparr>"
      "decode_key S (trust_key t) = Some k" "0 < trust_seq t" "trusted S rts learned = (trust_seq t, k)"
proof (cases "\<exists>t k. learned = Some t \<and>
    verify_rotation S rts \<lparr>seq = trust_seq t, rot_key = trust_key t, rot_sig = trust_sig t\<rparr> \<and>
    decode_key S (trust_key t) = Some k \<and> 0 < trust_seq t")
  case True
  then obtain t k where "learned = Some t"
    "verify_rotation S rts \<lparr>seq = trust_seq t, rot_key = trust_key t, rot_sig = trust_sig t\<rparr>"
    "decode_key S (trust_key t) = Some k" "0 < trust_seq t" by blast
  then show thesis by (intro that(2) [of t k]) (simp_all add: trusted_def Let_def)
next
  case False
  then have "trusted S rts learned = (0, signing rts)"
    by (cases learned) (auto simp: trusted_def Let_def split: option.splits bind_splits)
  then show thesis by (rule that(1))
qed

lemma trusted_moved:
  assumes "verify_rotation S rts r" and "decode_key S (rot_key r) = Some k" and "0 < seq r"
  shows "trusted S rts (Some \<lparr>trust_seq = seq r, trust_key = trim (rot_key r), trust_sig = trim (rot_sig r)\<rparr>) = (seq r, k)"
proof -
  have "verify_rotation S rts \<lparr>seq = seq r, rot_key = trim (rot_key r), rot_sig = trim (rot_sig r)\<rparr>"
    using assms(1) by (auto simp: verify_rotation_def split: if_splits option.splits)
  with assms(2,3) show ?thesis by (simp add: trusted_def Let_def)
qed

lemma fetch_trusted:
  assumes "current_key S rts learned rot = (key, m)"
  shows "trusted S rts (remember learned m) = trusted S rts learned \<and> key = snd (trusted S rts learned) \<or>
         fst (trusted S rts learned) < fst (trusted S rts (remember learned m)) \<and>
         key = snd (trusted S rts (remember learned m))"
proof (cases rule: current_key_cases [of S rts learned rot])
  case kept
  with assms show ?thesis by (simp add: remember_def)
next
  case (moved r k)
  have "0 < seq r" using moved(2) by (metis word_gt_0 word_not_simps(1))
  from trusted_moved [OF moved(3,4) this] moved(2,5) assms show ?thesis by (simp add: remember_def)
qed

lemma learn_all_mono:
  "fst (trusted S rts learned) \<le> fst (trusted S rts (learn_all S rts rots learned)) \<and>
   (fst (trusted S rts (learn_all S rts rots learned)) = fst (trusted S rts learned) \<longrightarrow>
    trusted S rts (learn_all S rts rots learned) = trusted S rts learned)"
proof (induction rots arbitrary: learned)
  case Nil
  then show ?case by (simp add: learn_all_def)
next
  case (Cons r rots)
  obtain key m where ck: "current_key S rts learned r = (key, m)" by fastforce
  have "learn_all S rts (r # rots) learned = learn_all S rts rots (remember learned m)"
    by (simp add: learn_all_def ck)
  with fetch_trusted [OF ck] Cons.IH [of "remember learned m"] show ?case by auto
qed

section \<open>Properties\<close>

text \<open>
  A signing key is never rolled back. Whatever rotations an install is shown in whatever order
  (valid, forged, stale, for another purpose, or none), the sequence it trusts never goes down, a
  sequence always stands for the same key, and the key each fetch is verified with is the one
  trusted after it: once sequence n is seen, no older key (the baked one included) is used again.
\<close>

theorem key_never_rolled_back:
  "fst (current_key S rts (learn_all S rts rots learned) rot) = snd (trusted S rts (learn_all S rts (rots @ [rot]) learned))
   \<and> (fst (trusted S rts learned) < fst (trusted S rts (learn_all S rts (rots @ [rot]) learned))
      \<or> trusted S rts (learn_all S rts (rots @ [rot]) learned) = trusted S rts learned)"
proof -
  let ?before = "learn_all S rts rots learned"
  obtain key m where ck: "current_key S rts ?before rot = (key, m)" by fastforce
  have "learn_all S rts (rots @ [rot]) learned = remember ?before m"
    by (simp add: learn_all_def ck [unfolded learn_all_def])
  with learn_all_mono [of S rts learned "rots @ [rot]"] fetch_trusted [OF ck] ck show ?thesis
    by (auto simp: order_le_less)
qed

text \<open>
  Only the operator's recovery key moves a signing key. Suppose every message that
  verifies under the recovery key is a rotation the operator signed (unforgeability): then the key
  in use is the baked one, or the operator signed a rotation for this very purpose, with a positive
  sequence, naming exactly this key. Neither a rotation for the other purpose nor a crafted state
  file (a backup's \<open>Trust\<close>) can place a key.
\<close>

theorem key_names_operator:
  assumes "\<forall>m sg. verify_strict S (recovery rts) m sg \<longrightarrow> (\<exists>(p, n, k) \<in> issued. m = rotation_message p n k)"
    and "current_key S rts learned rot = (key, moved)"
  shows "key = signing rts \<or> (\<exists>n k. (root_purpose rts, n, k) \<in> issued \<and> 0 < n \<and> decode_key S k = Some key)"
proof -
  have auth: "(root_purpose rts, seq r, trim (rot_key r)) \<in> issued" if "verify_rotation S rts r" for r
    using that assms(1) rotation_message_inj
    by (fastforce simp: verify_rotation_def split: if_splits option.splits)
  have base: "snd (trusted S rts learned) = signing rts \<or>
      (\<exists>n k. (root_purpose rts, n, k) \<in> issued \<and> 0 < n \<and> decode_key S k = Some (snd (trusted S rts learned)))"
  proof (cases rule: trusted_cases [of S rts learned])
    case baked
    then show ?thesis by simp
  next
    case (learned t k)
    from auth [OF learned(2)] learned(3-5) show ?thesis
      by (auto intro!: exI [of _ "trust_seq t"] exI [of _ "trim (trust_key t)"])
  qed
  show ?thesis
  proof (cases rule: current_key_cases [of S rts learned rot])
    case kept
    with base assms(2) show ?thesis by simp
  next
    case (moved r k)
    have "0 < seq r" using moved(2) by (metis word_gt_0 word_not_simps(1))
    with auth [OF moved(3)] moved(4,5) assms(2) show ?thesis
      by (auto intro!: exI [of _ "seq r"] exI [of _ "trim (rot_key r)"])
  qed
qed

text \<open>What the operator's tool relies on: a signature verifies, with the sizes of Ed25519; base64 decodes.\<close>

definition sig_laws :: "sig_scheme \<Rightarrow> bool" where
  "sig_laws S \<longleftrightarrow>
     (\<forall>sk m. length sk = 32 \<longrightarrow> vk_ok S (sk_public S sk) \<and> length (sk_sign S sk m) = 64 \<and>
        verify_strict S (sk_public S sk) m (sk_sign S sk m)) \<and>
     (\<forall>bs. dec64 S (enc64 S bs) = Some bs \<and> trim (enc64 S bs) = enc64 S bs)"

text \<open>
  A rotation the operator signs takes effect. With the recovery secret whose public half the app
  carries, \<open>sign_rotation\<close> for the app's purpose and a sequence above the one trusted makes a
  statement on which \<open>current_key\<close> moves to the new key and remembers it; what it remembers
  verifies again on every later start.
\<close>

theorem signed_rotation_accepted:
  assumes "sig_laws S" and "dec64 S (trim secret64) = Some secret" and "length secret = 32"
    and "recovery rts = sk_public S secret"
    and "sign_rotation S secret64 (root_purpose rts) n new64 = Some r"
    and "fst (trusted S rts learned) < n"
  shows "\<exists>k t. decode_key S new64 = Some k \<and> current_key S rts learned (Some r) = (k, Some t)
             \<and> trusted S rts (Some t) = (n, k)"
proof -
  let ?m = "rotation_message (root_purpose rts) n (trim new64)"
  obtain k where k: "decode_key S new64 = Some k"
    and r: "r = \<lparr>seq = n, rot_key = trim new64, rot_sig = enc64 S (sk_sign S secret ?m)\<rparr>"
    using assms(2,3,5) by (auto simp: sign_rotation_def try_into_def split: option.splits)
  have ver: "verify_rotation S rts r"
    using assms(1,3,4) by (simp add: verify_rotation_def sig_laws_def r try_into_def)
  have "0 < n" using assms(6) by (metis word_gt_0 word_not_simps(1))
  with k have tr: "trusted S rts (Some \<lparr>trust_seq = seq r, trust_key = trim (rot_key r), trust_sig = trim (rot_sig r)\<rparr>) = (n, k)"
    using trusted_moved [OF ver, of k] by (simp add: r)
  have "current_key S rts learned (Some r)
      = (k, Some \<lparr>trust_seq = seq r, trust_key = trim (rot_key r), trust_sig = trim (rot_sig r)\<rparr>)"
    using assms(6) ver k unfolding r current_key_def by (cases "trusted S rts learned") simp
  with k tr show ?thesis by blast
qed

text \<open>Concrete schemes: one that accepts what it signs, and one that knows a single signed statement.\<close>

definition sample_scheme :: sig_scheme where
  "sample_scheme =
     \<lparr>vk_ok = (\<lambda>_. True), verify_strict = (\<lambda>k m sg. sg = replicate 64 (hd k)), sk_sign = (\<lambda>sk m. replicate 64 (hd sk)),
      sk_public = (\<lambda>sk. sk), enc64 = (\<lambda>bs. ''<'' @ bytes_text bs @ ''>''),
      dec64 = (\<lambda>s. Some (text_bytes (butlast (tl s))))\<rparr>"

lemma sample_enc_trim: "trim (''<'' @ bytes_text bs @ ''>'') = ''<'' @ bytes_text bs @ ''>''"
  by (rule trim_id) (simp_all add: graph_char_def)

lemma sample_sig_laws: "sig_laws sample_scheme"
  using sample_enc_trim by (simp add: sig_laws_def sample_scheme_def butlast_append)

definition sample_key :: "byte \<Rightarrow> bytes" where
  "sample_key b = replicate 32 b"

theorem signed_rotation_accepted_witness:
  "\<exists>r. sign_rotation sample_scheme (enc64 sample_scheme (sample_key 5)) Update 3 (enc64 sample_scheme (sample_key 8)) = Some r
     \<and> fst (current_key sample_scheme \<lparr>root_purpose = Update, signing = sample_key 1, recovery = sample_key 5\<rparr> None (Some r))
        = sample_key 8"
proof -
  let ?rts = "\<lparr>root_purpose = Update, signing = sample_key 1, recovery = sample_key 5\<rparr>"
  have dec: "dec64 sample_scheme (trim (enc64 sample_scheme k)) = Some k" for k
    using sample_sig_laws by (simp add: sig_laws_def)
  obtain r where r: "sign_rotation sample_scheme (enc64 sample_scheme (sample_key 5)) Update 3 (enc64 sample_scheme (sample_key 8)) = Some r"
    by (auto simp: sign_rotation_def decode_key_def dec try_into_def sample_key_def)
  have "(0 :: u64) < 3" by (simp add: word_less_nat_alt)
  then have "fst (trusted sample_scheme ?rts None) < 3" by (simp add: trusted_def)
  moreover have "recovery ?rts = sk_public sample_scheme (sample_key 5)" by (simp add: sample_scheme_def)
  moreover have "sign_rotation sample_scheme (enc64 sample_scheme (sample_key 5)) (root_purpose ?rts) 3
      (enc64 sample_scheme (sample_key 8)) = Some r" using r by simp
  moreover have "length (sample_key 5) = 32" by (simp add: sample_key_def)
  ultimately obtain k t where k: "decode_key sample_scheme (enc64 sample_scheme (sample_key 8)) = Some k"
    "current_key sample_scheme ?rts None (Some r) = (k, Some t)"
    using signed_rotation_accepted [OF sample_sig_laws dec [of "sample_key 5"]] by metis
  have "k = sample_key 8" using k(1) by (simp add: decode_key_def dec try_into_def sample_key_def)
  with r k(2) show ?thesis by auto
qed

definition known_scheme :: sig_scheme where
  "known_scheme = sample_scheme\<lparr>verify_strict := \<lambda>k m sg. m = rotation_message Directory 3 ''<k>''\<rparr>"

theorem key_names_operator_witness:
  "fst (current_key known_scheme \<lparr>root_purpose = Update, signing = sample_key 1, recovery = sample_key 5\<rparr> None
     (Some \<lparr>seq = 3, rot_key = ''<k>'', rot_sig = ''<>''\<rparr>)) = sample_key 1"
proof -
  let ?rts = "\<lparr>root_purpose = Update, signing = sample_key 1, recovery = sample_key 5\<rparr>"
  obtain key m where ck: "current_key known_scheme ?rts None (Some \<lparr>seq = 3, rot_key = ''<k>'', rot_sig = ''<>''\<rparr>) = (key, m)"
    by fastforce
  have "\<forall>m sg. verify_strict known_scheme (recovery ?rts) m sg \<longrightarrow>
      (\<exists>(p, n, k) \<in> {(Directory, 3, ''<k>'')}. m = rotation_message p n k)"
    by (simp add: known_scheme_def)
  from key_names_operator [OF this ck] ck show ?thesis by simp
qed

end
