(* ===== verification/Update.thy ===== *)
theory Update
  imports Keyroll
begin

text \<open>
  The update check and download, \<open>core/src/update.rs\<close>: the signed manifest and its expiry, version
  comparison, the incremental response parser \<open>ResponseHead\<close>, and \<open>download\<close>, which places a file
  only after its hash matched. JSON, SHA-256 and the transport are arguments.
\<close>

section \<open>The signed manifest\<close>

definition UPDATE_SIGN_CONTEXT :: bytes where
  "UPDATE_SIGN_CONTEXT = text_bytes (''nightdrop/update/v1'' @ line_feed)"

record signed_payload =
  payload64 :: string
  payload_sig :: string

record signed_envelope =
  env_signed :: "signed_payload option"
  env_rotation :: "rotation option"

record update_download =
  dl_url :: string
  dl_sha256 :: string

record update_manifest =
  latest :: string
  android :: "(string \<times> update_download) list"
  linux :: "(string \<times> update_download) list"
  windows :: "(string \<times> update_download) list"
  expires :: u64

datatype update_error =
    BadJson | NotSigned | BadBase64 | BadSigLength | BadKey | BadSignature | Expired
  | NoHeadEnd | BadStatus nat | NotText | BadStatusLine
  | NoBuild | NoPath | FetchFailed | Unreadable | HashMismatch | NotPlaced

record update_json =
  read_envelope :: "bytes \<Rightarrow> signed_envelope option"
  read_manifest :: "bytes \<Rightarrow> update_manifest option"

definition verified_payload :: "sig_scheme \<Rightarrow> signed_envelope \<Rightarrow> bytes \<Rightarrow> update_error + bytes" where
  "verified_payload S e pubkey =
     (case env_signed e of
        None \<Rightarrow> Inl NotSigned
      | Some sp \<Rightarrow>
          (case dec64 S (trim (payload64 sp)) of
             None \<Rightarrow> Inl BadBase64
           | Some payload \<Rightarrow>
               (case dec64 S (trim (payload_sig sp)) of
                  None \<Rightarrow> Inl BadBase64
                | Some sg \<Rightarrow>
                    if length sg \<noteq> 64 then Inl BadSigLength
                    else if \<not> vk_ok S pubkey then Inl BadKey
                    else if verify_strict S pubkey (UPDATE_SIGN_CONTEXT @ payload) sg then Inr payload
                    else Inl BadSignature)))"

definition verify_envelope ::
  "sig_scheme \<Rightarrow> update_json \<Rightarrow> u64 \<Rightarrow> signed_envelope \<Rightarrow> bytes \<Rightarrow> update_error + update_manifest" where
  "verify_envelope S J now e pubkey =
     (case verified_payload S e pubkey of
        Inl err \<Rightarrow> Inl err
      | Inr payload \<Rightarrow>
          (case read_manifest J payload of
             None \<Rightarrow> Inl BadJson
           | Some m \<Rightarrow> if now < expires m then Inr m else Inl Expired))"

definition parse_manifest_rooted ::
  "sig_scheme \<Rightarrow> update_json \<Rightarrow> u64 \<Rightarrow> bytes \<Rightarrow> roots \<Rightarrow> trust option \<Rightarrow>
   update_error + update_manifest \<times> trust option" where
  "parse_manifest_rooted S J now body rts learned =
     (case read_envelope J body of
        None \<Rightarrow> Inl BadJson
      | Some e \<Rightarrow>
          (let (key, moved) = current_key S rts learned (env_rotation e)
           in case verify_envelope S J now e key of
                Inl err \<Rightarrow> Inl err
              | Inr m \<Rightarrow> Inr (m, moved)))"

definition sign_manifest :: "sig_scheme \<Rightarrow> string \<Rightarrow> bytes \<Rightarrow> string option" where
  "sign_manifest S secret_b64 payload =
     (case Option.bind (dec64 S (trim secret_b64)) (try_into 32) of
        None \<Rightarrow> None
      | Some secret \<Rightarrow> Some (enc64 S (sk_sign S secret (UPDATE_SIGN_CONTEXT @ payload))))"

section \<open>Versions\<close>

text \<open>\<open>MAJOR.MINOR.PATCH\<close> as numbers; missing or unparsable components are 0.\<close>

definition version_parts :: "string \<Rightarrow> nat \<times> nat \<times> nat" where
  "version_parts v =
     (let core = hd (split_at_chars (\<lambda>c. c = CHR ''+'' \<or> c = CHR ''-'') (dropWhile (\<lambda>c. c = CHR ''v'') (trim v)));
          it = map (\<lambda>p. case parse_uint (2 ^ 64) (trim p) of None \<Rightarrow> 0 | Some n \<Rightarrow> n)
                   (split_at_chars (\<lambda>c. c = CHR ''.'') core);
          nth_or = (\<lambda>i. if i < length it then it ! i else 0)
      in (nth_or 0, nth_or 1, nth_or 2))"

fun triple_less :: "nat \<times> nat \<times> nat \<Rightarrow> nat \<times> nat \<times> nat \<Rightarrow> bool" where
  "triple_less (a, b, c) (a', b', c') = (a < a' \<or> a = a' \<and> (b < b' \<or> b = b' \<and> c < c'))"

definition is_newer :: "string \<Rightarrow> string \<Rightarrow> bool" where
  "is_newer a b = triple_less (version_parts b) (version_parts a)"

definition ensure_newer :: "string option \<Rightarrow> string \<Rightarrow> bool" where
  "ensure_newer current latest_v = (case current of None \<Rightarrow> False | Some c \<Rightarrow> is_newer latest_v c)"

section \<open>The response head\<close>

definition MAX_MANIFEST_BYTES :: nat where
  "MAX_MANIFEST_BYTES = 8 * 1024"

definition terminator :: bytes where
  "terminator = [13, 10, 13, 10]"

text \<open>\<open>windows(4).position(...)\<close>.\<close>

fun find_end :: "bytes \<Rightarrow> nat option" where
  "find_end [] = None"
| "find_end (b # bs) = (if take 4 (b # bs) = terminator then Some 0 else map_option Suc (find_end bs))"

definition parse_status :: "bytes \<Rightarrow> update_error + nat" where
  "parse_status h =
     (case from_utf8 h of
        None \<Rightarrow> Inl NotText
      | Some t \<Rightarrow>
          (let status = (case str_lines t of [] \<Rightarrow> [] | l # _ \<Rightarrow> l); ws = split_whitespace status
           in if 1 < length ws
              then (case parse_uint (2 ^ 16) (ws ! 1) of None \<Rightarrow> Inl BadStatusLine | Some n \<Rightarrow> Inr n)
              else Inl BadStatusLine))"

definition parse_content_length :: "bytes \<Rightarrow> nat option" where
  "parse_content_length h =
     (case from_utf8 h of
        None \<Rightarrow> None
      | Some t \<Rightarrow>
          (case find (\<lambda>nv. eq_ignore_ascii_case (trim (fst nv)) ''content-length'')
                     (List.map_filter (split_once CHR '':'') (str_lines t)) of
             None \<Rightarrow> None
           | Some (_, v) \<Rightarrow> parse_uint (2 ^ 64) (trim v)))"

record response_head =
  head :: bytes
  head_done :: bool
  head_content_length :: "nat option"
  head_status :: nat

definition new_head :: response_head where
  "new_head = \<lparr>head = [], head_done = False, head_content_length = None, head_status = 0\<rparr>"

definition push_chunk :: "bytes \<Rightarrow> response_head \<Rightarrow> update_error + bytes \<times> response_head" where
  "push_chunk chunk r =
     (if head_done r then Inr (chunk, r)
      else (let r = r\<lparr>head := head r @ chunk\<rparr>
        in case find_end (head r) of
             None \<Rightarrow> if MAX_MANIFEST_BYTES < length (head r) then Inl NoHeadEnd else Inr ([], r)
           | Some e \<Rightarrow>
               (case parse_status (take e (head r)) of
                  Inl err \<Rightarrow> Inl err
                | Inr st \<Rightarrow>
                    if st \<noteq> 200 \<and> st \<noteq> 206 then Inl (BadStatus st)
                    else (let consumed = min (length (head r) - (e + 4)) (length chunk)
                      in Inr (drop (length chunk - consumed) chunk,
                              r\<lparr>head_status := st, head_content_length := parse_content_length (take e (head r)),
                                head_done := True\<rparr>)))))"

fun push_all :: "bytes list \<Rightarrow> response_head \<Rightarrow> update_error + bytes \<times> response_head" where
  "push_all [] r = Inr ([], r)"
| "push_all (c # cs) r =
     (case push_chunk c r of
        Inl err \<Rightarrow> Inl err
      | Inr (b, r') \<Rightarrow> (case push_all cs r' of Inl err \<Rightarrow> Inl err | Inr (bs, r'') \<Rightarrow> Inr (b @ bs, r'')))"

section \<open>The download\<close>

definition builds :: "update_manifest \<Rightarrow> string \<Rightarrow> (string \<times> update_download) list option" where
  "builds m platform =
     (if platform = ''android'' then Some (android m) else if platform = ''linux'' then Some (linux m)
      else if platform = ''windows'' then Some (windows m) else None)"

record download_files =
  part_file :: "bytes option"
  dest_file :: "bytes option"

text \<open>
  What the transport does with a fetch that resumes after what the part file holds: no anonymized
  path, or an error or success (with the count it reports), each leaving some contents of the part
  file.
\<close>

datatype fetch_result = Unavailable | Interrupted "bytes option" | Fetched nat "bytes option"

text \<open>
  \<open>download\<close>: \<open>fetch url resume part\<close> is the transport, \<open>sha256_hex\<close> the hash, \<open>placed\<close> whether the
  final rename succeeds. A part file that cannot be read back is absent.
\<close>

definition download ::
  "(string \<Rightarrow> nat \<Rightarrow> bytes option \<Rightarrow> fetch_result) \<Rightarrow> (bytes \<Rightarrow> string) \<Rightarrow> bool \<Rightarrow>
   update_manifest \<Rightarrow> string \<Rightarrow> string \<Rightarrow> download_files \<Rightarrow> (update_error + nat) \<times> download_files" where
  "download fetch sha256_hex placed m platform key fs =
     (case Option.bind (builds m platform) (\<lambda>b. map_of b key) of
        None \<Rightarrow> (Inl NoBuild, fs)
      | Some entry \<Rightarrow>
          (let resume_from = (case part_file fs of None \<Rightarrow> 0 | Some p \<Rightarrow> length p)
           in case fetch (dl_url entry) resume_from (part_file fs) of
                Unavailable \<Rightarrow> (Inl NoPath, fs)
              | Interrupted p \<Rightarrow> (Inl FetchFailed, fs\<lparr>part_file := p\<rparr>)
              | Fetched n None \<Rightarrow> (Inl Unreadable, fs\<lparr>part_file := None\<rparr>)
              | Fetched n (Some p) \<Rightarrow>
                  if \<not> eq_ignore_ascii_case (sha256_hex p) (trim (dl_sha256 entry))
                  then (Inl HashMismatch, fs\<lparr>part_file := None\<rparr>)
                  else if placed then (Inr n, fs\<lparr>part_file := None, dest_file := Some p\<rparr>)
                  else (Inl NotPlaced, fs\<lparr>part_file := None\<rparr>)))"

section \<open>Streaming is independent of the chunks\<close>

lemma take4_append: "4 \<le> length a \<Longrightarrow> take 4 (a @ b) = take 4 a"
  by simp

lemma terminator_length: "take 4 a = terminator \<Longrightarrow> 4 \<le> length a"
proof -
  assume "take 4 a = terminator"
  then have "length (take 4 a) = 4" by (simp add: terminator_def)
  then show ?thesis by simp
qed

lemma find_end_bound: "find_end a = Some e \<Longrightarrow> e + 4 \<le> length a"
proof (induction a arbitrary: e)
  case (Cons x a)
  show ?case
  proof (cases "take 4 (x # a) = terminator")
    case True
    with Cons.prems terminator_length [OF True] show ?thesis by simp
  next
    case False
    with Cons show ?thesis by fastforce
  qed
qed simp

lemma find_end_append: "find_end a = Some e \<Longrightarrow> find_end (a @ b) = Some e"
proof (induction a arbitrary: e)
  case (Cons x a)
  have "4 \<le> length (x # a)" using find_end_bound [OF Cons.prems] by simp
  then have "take 4 ((x # a) @ b) = take 4 (x # a)" by (rule take4_append)
  with Cons show ?case by (auto split: if_splits)
qed simp

text \<open>A terminator found only with more bytes reaches into them.\<close>

lemma find_end_late:
  assumes "find_end a = None" and "find_end (a @ b) = Some e"
  shows "length a < e + 4"
proof (rule ccontr)
  assume "\<not> length a < e + 4"
  then have "e + 4 \<le> length a" by simp
  have "find_end a = Some e" using assms(2) \<open>e + 4 \<le> length a\<close>
  proof (induction a arbitrary: e)
    case (Cons x a)
    show ?case
    proof (cases "take 4 (x # a) = terminator")
      case True
      then have "4 \<le> length (x # a)" using Cons.prems(2) by simp
      with True Cons.prems show ?thesis using take4_append [of "x # a" b] by simp
    next
      case False
      have "take 4 ((x # a) @ b) \<noteq> terminator"
        using False Cons.prems(2) take4_append [of "x # a" b] by simp
      with Cons.prems obtain e' where "find_end (a @ b) = Some e'" "e = Suc e'" by auto
      with Cons.IH [of e'] Cons.prems(2) False show ?thesis by simp
    qed
  qed simp
  with assms(1) show False by simp
qed

lemma push_done: "head_done r \<Longrightarrow> push_all cs r = Inr (concat cs, r)"
  by (induction cs) (simp_all add: push_chunk_def)

text \<open>What a whole response delivers.\<close>

definition whole_response :: "bytes \<Rightarrow> update_error + bytes" where
  "whole_response resp =
     (case find_end resp of
        None \<Rightarrow> if MAX_MANIFEST_BYTES < length resp then Inl NoHeadEnd else Inr []
      | Some e \<Rightarrow>
          (case parse_status (take e resp) of
             Inl err \<Rightarrow> Inl err
           | Inr st \<Rightarrow> if st \<noteq> 200 \<and> st \<noteq> 206 then Inl (BadStatus st) else Inr (drop (e + 4) resp)))"

lemma push_partial:
  assumes "\<not> head_done r" and "find_end (head r) = None" and "length (head r) \<le> MAX_MANIFEST_BYTES"
    and "\<forall>e. find_end (head r @ concat cs) = Some e \<longrightarrow> e + 4 \<le> MAX_MANIFEST_BYTES"
  shows "map_sum id fst (push_all cs r) = whole_response (head r @ concat cs)"
  using assms
proof (induction cs arbitrary: r)
  case Nil
  then show ?case by (simp add: whole_response_def)
next
  case (Cons c cs)
  let ?h = "head r @ c" and ?all = "head r @ concat (c # cs)"
  show ?case
  proof (cases "find_end ?h")
    case None
    show ?thesis
    proof (cases "MAX_MANIFEST_BYTES < length ?h")
      case True
      have "find_end ?all = None"
      proof (rule ccontr)
        assume "find_end ?all \<noteq> None"
        then obtain e where e: "find_end ?all = Some e" by blast
        then have "length ?h < e + 4" using find_end_late [OF None, of "concat cs"] by simp
        with e Cons.prems(4) True show False by fastforce
      qed
      with True None Cons.prems(1) show ?thesis
        by (simp add: push_chunk_def Let_def whole_response_def)
    next
      case False
      let ?r = "r\<lparr>head := ?h\<rparr>"
      have "push_chunk c r = Inr ([], ?r)" using None False Cons.prems(1) by (simp add: push_chunk_def Let_def)
      moreover have "map_sum id fst (push_all cs ?r) = whole_response (head ?r @ concat cs)"
        by (rule Cons.IH) (use None False Cons.prems in auto)
      ultimately show ?thesis by (cases "push_all cs ?r") (auto split: prod.splits)
    qed
  next
    case (Some e)
    then have all: "find_end ?all = Some e" using find_end_append [OF Some, of "concat cs"] by simp
    have le: "e + 4 \<le> length ?h" using Some by (rule find_end_bound)
    have late: "length (head r) < e + 4" using find_end_late [OF Cons.prems(2) Some] .
    have tk: "take e ?all = take e ?h" using le by simp
    have body: "drop (length c - min (length ?h - (e + 4)) (length c)) c @ concat cs = drop (e + 4) ?all"
      using le late by (simp add: min_def)
    have W: "whole_response ?all = (case parse_status (take e ?h) of Inl err \<Rightarrow> Inl err
        | Inr st \<Rightarrow> if st \<noteq> 200 \<and> st \<noteq> 206 then Inl (BadStatus st) else Inr (drop (e + 4) ?all))"
      by (simp only: whole_response_def all tk option.case)
    show ?thesis
    proof (cases "parse_status (take e ?h)")
      case (Inl err)
      with Some Cons.prems(1) show ?thesis unfolding W by (simp add: push_chunk_def Let_def)
    next
      case (Inr st)
      with Some Cons.prems(1) body show ?thesis
        unfolding W by (simp add: push_chunk_def Let_def push_done)
    qed
  qed
qed

section \<open>Properties\<close>

text \<open>
  A streamed response is read the same at every chunk boundary. For any cut of a response whose
  head, if it ends, ends within 8 KiB, feeding the chunks to \<open>ResponseHead\<close> yields what the whole
  response says: its body after the head's terminator when the status is 200 or 206, the same
  error otherwise.
\<close>

theorem streamed_head_any_chunks:
  assumes "\<forall>e. find_end (concat cs) = Some e \<longrightarrow> e + 4 \<le> MAX_MANIFEST_BYTES"
  shows "map_sum id fst (push_all cs new_head) = whole_response (concat cs)"
  using push_partial [of new_head cs] assms by (simp add: new_head_def)

theorem streamed_head_any_chunks_witness:
  "map_sum id fst (push_all [[72, 32, 50, 48], [48, 13, 10, 13], [10, 1], [2]] new_head)
     = whole_response [72, 32, 50, 48, 48, 13, 10, 13, 10, 1, 2]"
  using streamed_head_any_chunks [of "[[72, 32, 50, 48], [48, 13, 10, 13], [10, 1], [2]]"]
  by (simp add: terminator_def MAX_MANIFEST_BYTES_def del: push_all.simps)

text \<open>
  Only what the release key signed, for this purpose and not expired, is ever offered. Suppose
  the key in use verifies nothing but published manifests under the update context: a manifest
  accepted from a served body is exactly a published one, and its expiry lies in the future. The
  unsigned fields of the body, and signatures made for another purpose, count for nothing.
\<close>

theorem manifest_authentic:
  assumes "parse_manifest_rooted S J now body rts learned = Inr (m, moved)"
    and "\<forall>rot msg sg. verify_strict S (fst (current_key S rts learned rot)) msg sg \<longrightarrow>
           (\<exists>p \<in> published. msg = UPDATE_SIGN_CONTEXT @ p)"
  shows "\<exists>p \<in> published. read_manifest J p = Some m \<and> now < expires m"
proof -
  obtain e where e: "read_envelope J body = Some e"
    and v: "verify_envelope S J now e (fst (current_key S rts learned (env_rotation e))) = Inr m"
    using assms(1) by (auto simp: parse_manifest_rooted_def split: option.splits sum.splits prod.splits)
  then obtain p where p: "verified_payload S e (fst (current_key S rts learned (env_rotation e))) = Inr p"
    and m: "read_manifest J p = Some m" "now < expires m"
    by (auto simp: verify_envelope_def split: option.splits sum.splits if_splits)
  from p obtain sg where "verify_strict S (fst (current_key S rts learned (env_rotation e))) (UPDATE_SIGN_CONTEXT @ p) sg"
    by (auto simp: verified_payload_def split: option.splits if_splits)
  with assms(2) obtain q where "q \<in> published" "UPDATE_SIGN_CONTEXT @ p = UPDATE_SIGN_CONTEXT @ q" by blast
  with m show ?thesis by auto
qed

text \<open>
  What the publishing tool signs, the app accepts. For the secret whose public half is the
  key in use, an envelope carrying the payload and \<open>sign_manifest\<close>'s signature yields the manifest
  in the payload, as long as it has not expired.
\<close>

theorem signed_manifest_accepted:
  assumes "sig_laws S" and "dec64 S (trim secret64) = Some secret" and "length secret = 32"
    and "sign_manifest S secret64 p = Some sg64"
    and "read_envelope J body = Some \<lparr>env_signed = Some \<lparr>payload64 = enc64 S p, payload_sig = sg64\<rparr>, env_rotation = rot\<rparr>"
    and "fst (current_key S rts learned rot) = sk_public S secret"
    and "read_manifest J p = Some m" and "now < expires m"
  shows "parse_manifest_rooted S J now body rts learned = Inr (m, snd (current_key S rts learned rot))"
proof -
  have sg: "sg64 = enc64 S (sk_sign S secret (UPDATE_SIGN_CONTEXT @ p))"
    using assms(2,3,4) by (simp add: sign_manifest_def try_into_def)
  have "verified_payload S \<lparr>env_signed = Some \<lparr>payload64 = enc64 S p, payload_sig = sg64\<rparr>, env_rotation = rot\<rparr> (sk_public S secret) = Inr p"
    using assms(1,3) by (simp add: verified_payload_def sig_laws_def sg)
  with assms(5-8) show ?thesis
    by (cases "current_key S rts learned rot") (simp add: parse_manifest_rooted_def verify_envelope_def)
qed

definition sample_manifest :: update_manifest where
  "sample_manifest = \<lparr>latest = ''1.2.3'', android = [], linux = [], windows = [], expires = 100\<rparr>"

definition sample_update_json :: "string \<Rightarrow> update_json" where
  "sample_update_json sg =
     \<lparr>read_envelope = (\<lambda>_. Some \<lparr>env_signed = Some \<lparr>payload64 = enc64 sample_scheme [1, 2], payload_sig = sg\<rparr>,
                                env_rotation = None\<rparr>),
      read_manifest = (\<lambda>p. if p = [1, 2] then Some sample_manifest else None)\<rparr>"

definition sample_rts :: roots where
  "sample_rts = \<lparr>root_purpose = Update, signing = sample_key 1, recovery = sample_key 5\<rparr>"

lemma sample_current: "current_key S sample_rts None None = (sample_key 1, None)"
  by (simp add: current_key_def trusted_def sample_rts_def)

theorem signed_manifest_accepted_witness:
  "\<exists>sg. sign_manifest sample_scheme (enc64 sample_scheme (sample_key 1)) [1, 2] = Some sg
     \<and> parse_manifest_rooted sample_scheme (sample_update_json sg) 7 [] sample_rts None = Inr (sample_manifest, None)"
proof -
  have dec: "dec64 sample_scheme (trim (enc64 sample_scheme k)) = Some k" for k
    using sample_sig_laws by (simp add: sig_laws_def)
  obtain sg where sg: "sign_manifest sample_scheme (enc64 sample_scheme (sample_key 1)) [1, 2] = Some sg"
    by (simp add: sign_manifest_def dec try_into_def sample_key_def)
  have exp: "(7 :: u64) < expires sample_manifest" by (simp add: sample_manifest_def word_less_nat_alt)
  have "parse_manifest_rooted sample_scheme (sample_update_json sg) 7 [] sample_rts None
      = Inr (sample_manifest, snd (current_key sample_scheme sample_rts None None))"
    by (rule signed_manifest_accepted [OF sample_sig_laws dec _ sg _ _ _ exp])
      (simp_all add: sample_key_def sample_update_json_def sample_current, simp_all add: sample_scheme_def)
  with sg show ?thesis by (simp add: sample_current)
qed

definition one_message_scheme :: sig_scheme where
  "one_message_scheme = sample_scheme\<lparr>verify_strict := \<lambda>k m sg. m = UPDATE_SIGN_CONTEXT @ [1, 2]\<rparr>"

theorem manifest_authentic_witness:
  "read_manifest (sample_update_json (enc64 sample_scheme (replicate 64 0))) [1, 2] = Some sample_manifest
   \<and> 7 < expires sample_manifest"
proof -
  let ?J = "sample_update_json (enc64 sample_scheme (replicate 64 0))"
  have dec: "dec64 one_message_scheme (trim (enc64 sample_scheme k)) = Some k" for k
    using sample_sig_laws by (simp add: sig_laws_def one_message_scheme_def)
  have exp: "(7 :: u64) < expires sample_manifest" by (simp add: sample_manifest_def word_less_nat_alt)
  have vk: "vk_ok one_message_scheme k" for k by (simp add: one_message_scheme_def sample_scheme_def)
  have "parse_manifest_rooted one_message_scheme ?J 7 [] sample_rts None = Inr (sample_manifest, None)"
    using exp by (simp add: parse_manifest_rooted_def verify_envelope_def verified_payload_def sample_update_json_def
        sample_current dec vk) (simp add: one_message_scheme_def)
  from manifest_authentic [OF this, of "{[1, 2]}"] show ?thesis by (simp add: one_message_scheme_def)
qed

section \<open>Versions and the download\<close>

lemma triple_less_trans: "triple_less a b \<Longrightarrow> triple_less b c \<Longrightarrow> triple_less a c"
  by (cases a; cases b; cases c) auto

lemma triple_less_irrefl: "\<not> triple_less a a"
  by (cases a) auto

text \<open>A version as the build writes it, \<open>0.2.0\<close> or \<open>0.2.0+416\<close>, is read back as its numbers.\<close>

definition version_text :: "nat \<times> nat \<times> nat \<Rightarrow> string" where
  "version_text v = (case v of (a, b, c) \<Rightarrow> dec a @ ''.'' @ dec b @ ''.'' @ dec c)"

lemma digit_graph: "is_digit c \<Longrightarrow> graph_char c"
  by (simp add: is_digit_def graph_char_def code_def)

lemma dec_all: "(\<And>c. is_digit c \<Longrightarrow> P c) \<Longrightarrow> list_all P (dec n)"
  using dec_is_digits [of n] by (auto simp: list_all_iff)

lemma trim_dec [simp]: "trim (dec n) = dec n"
  using dec_is_digits [of n] by (intro trim_id) (auto simp: list_all_iff intro!: digit_graph)

lemma version_parts_text:
  assumes "a < 2 ^ 64" "b < 2 ^ 64" "c < 2 ^ 64"
    and "sfx = [] \<or> (hd sfx = CHR ''+'' \<or> hd sfx = CHR ''-'') \<and> graph_char (last sfx)"
  shows "version_parts (version_text (a, b, c) @ sfx) = (a, b, c)"
proof -
  let ?v = "version_text (a, b, c)"
  have dig: "is_digit (hd (dec n))" "is_digit (last (dec n))" for n
    using dec_is_digits [of n] by (auto simp: list_all_iff)
  have "trim (?v @ sfx) = ?v @ sfx"
    using assms(4) dig by (intro trim_id) (auto simp: version_text_def hd_append last_append intro: digit_graph)
  moreover have "dropWhile (\<lambda>c. c = CHR ''v'') (?v @ sfx) = ?v @ sfx"
    using dig(1) [of a] by (cases "dec a") (auto simp: version_text_def is_digit_def code_def)
  moreover have "hd (split_at_chars (\<lambda>c. c = CHR ''+'' \<or> c = CHR ''-'') (?v @ sfx)) = ?v"
  proof -
    have plain: "list_all (\<lambda>c. \<not> (c = CHR ''+'' \<or> c = CHR ''-'')) ?v"
      by (auto simp: version_text_def is_digit_def code_def intro!: dec_all)
    show ?thesis
    proof (cases sfx)
      case Nil
      then show ?thesis using split_last_chunk [OF plain] by simp
    next
      case (Cons x xs)
      then show ?thesis using split_chunk [OF plain, of x xs] assms(4) by simp
    qed
  qed
  moreover have "split_at_chars (\<lambda>c. c = CHR ''.'') ?v = [dec a, dec b, dec c]"
  proof -
    have nodot: "list_all (\<lambda>c. c \<noteq> CHR ''.'') (dec n)" for n by (rule dec_all) (auto simp: is_digit_def code_def)
    show ?thesis by (simp add: version_text_def split_chunk split_last_chunk nodot)
  qed
  ultimately show ?thesis
    using assms(1-3) by (simp add: version_parts_def Let_def parse_uint_dec)
qed

text \<open>
  An update is offered exactly when it is newer as numbers, and never twice around. Versions
  written \<open>a.b.c\<close>, with build metadata or not, compare as the triples of their numbers, the
  metadata ignored; and a chain of downloads each newer than the last can never come back to, or
  below, a version it left.
\<close>

theorem newer_is_numeric:
  assumes "a < 2 ^ 64" "b < 2 ^ 64" "c < 2 ^ 64" "a' < 2 ^ 64" "b' < 2 ^ 64" "c' < 2 ^ 64"
    and "sfx = [] \<or> (hd sfx = CHR ''+'' \<or> hd sfx = CHR ''-'') \<and> graph_char (last sfx)"
    and "sfx' = [] \<or> (hd sfx' = CHR ''+'' \<or> hd sfx' = CHR ''-'') \<and> graph_char (last sfx')"
  shows "ensure_newer (Some (version_text (a, b, c) @ sfx)) (version_text (a', b', c') @ sfx')
           = (a < a' \<or> a = a' \<and> (b < b' \<or> b = b' \<and> c < c'))
       \<and> (ensure_newer (Some u) v \<and> ensure_newer (Some v) w \<longrightarrow> ensure_newer (Some u) w \<and> \<not> ensure_newer (Some w) u)"
  using version_parts_text [OF assms(1-3,7)] version_parts_text [OF assms(4-6,8)] triple_less_trans triple_less_irrefl
  by (simp add: ensure_newer_def is_newer_def) blast

theorem newer_is_numeric_witness:
  "ensure_newer (Some (version_text (0, 9, 3) @ ''+416'')) (version_text (0, 10, 0))"
  using newer_is_numeric [of 0 9 3 0 10 0 "''+416''" "[]" "[]" "[]" "[]"] by (simp add: graph_char_def)

text \<open>
  C11. Nothing unverified ever appears where the user would install it. Whatever the transport
  delivers and leaves in the part file, \<open>download\<close> either leaves the destination as it was, or
  puts there bytes whose hash is the one the manifest publishes for this platform and key; after a
  mismatch the partial is discarded, and after an interruption it is kept to resume from.
\<close>

theorem download_places_only_verified:
  assumes "download fetch sha256_hex placed m platform key fs = (r, fs')"
  shows "(dest_file fs' = dest_file fs \<or>
          (\<exists>entry bs. Option.bind (builds m platform) (\<lambda>b. map_of b key) = Some entry \<and> dest_file fs' = Some bs \<and>
             eq_ignore_ascii_case (sha256_hex bs) (trim (dl_sha256 entry)) \<and> (\<exists>n. r = Inr n)))
       \<and> (r = Inl HashMismatch \<longrightarrow> part_file fs' = None \<and> dest_file fs' = dest_file fs)
       \<and> (r = Inl FetchFailed \<longrightarrow>
            (\<exists>url p. fetch url (case part_file fs of None \<Rightarrow> 0 | Some p \<Rightarrow> length p) (part_file fs) = Interrupted p \<and> part_file fs' = p))"
  using assms by (auto simp: download_def Let_def split: option.splits fetch_result.splits if_splits)

theorem download_places_only_verified_witness:
  "dest_file (snd (download (\<lambda>u n p. Fetched 3 (Some [1, 2, 3])) (\<lambda>bs. ''ab'') True
     (sample_manifest\<lparr>linux := [(''x86_64'', \<lparr>dl_url = ''/a'', dl_sha256 = ''cd''\<rparr>)]\<rparr>) ''linux'' ''x86_64''
     \<lparr>part_file = None, dest_file = Some [9]\<rparr>)) = Some [9]"
proof -
  let ?m = "sample_manifest\<lparr>linux := [(''x86_64'', \<lparr>dl_url = ''/a'', dl_sha256 = ''cd''\<rparr>)]\<rparr>"
  let ?fs = "\<lparr>part_file = None, dest_file = Some [9]\<rparr>"
  obtain r fs' where d: "download (\<lambda>u n p. Fetched 3 (Some [1, 2, 3])) (\<lambda>bs. ''ab'') True ?m ''linux'' ''x86_64'' ?fs = (r, fs')"
    by fastforce
  have "trim ''cd'' = ''cd''" by (simp add: trim_id graph_char_def)
  then have "r = Inl HashMismatch"
    using d by (auto simp: download_def builds_def eq_ignore_ascii_case_def ascii_lower_def code_def)
  with download_places_only_verified [OF d] d show ?thesis by simp
qed

end
