(* ===== verification/Wire.thy ===== *)
theory Wire
  imports RustStd
begin

text \<open>
  The peer-to-peer wire codec, \<open>core/src/wire/mod.rs\<close>: the frames, the length prefix and the padding
  to size buckets, decoding with its version check, and \<open>legacy_sender\<close>. JSON is an argument: the
  record \<open>wire_json\<close>, with the round trip of one envelope, of less than 4 GiB, as the hypothesis
  \<open>json_round_trip\<close>.
\<close>

section \<open>Frames\<close>

record wire_olm =
  message_type :: "8 word"
  body :: string

datatype frame =
    Hello string string wire_olm
  | Pake string
  | Message string string wire_olm
  | Edit string wire_olm
  | Unsend string wire_olm
  | Burn string string wire_olm
  | BurnMedia string wire_olm
  | Viewed string wire_olm
  | Storage string wire_olm
  | Disappearing string wire_olm
  | Approved string string
  | CodeInUse string string
  | Closed string wire_olm
  | BackedUp string wire_olm
  | Verified string wire_olm
  | Captures string wire_olm
  | Burns string wire_olm
  | MailboxKey string wire_olm
  | Ack string wire_olm
  | Name string wire_olm
  | Address string wire_olm
  | RelaySet string wire_olm
  | Version string wire_olm
  | ClientKey string string
  | ClientKeySealed string wire_olm
  | Media string wire_olm
  | MediaIncoming string wire_olm
  | Screenshot string wire_olm
  | Cover bytes
  | Delivered string wire_olm

definition WIRE_VERSION :: "8 word" where
  "WIRE_VERSION = 3"

definition LEGACY_WIRE_VERSION :: "8 word" where
  "LEGACY_WIRE_VERSION = 2"

definition PAD_BUCKETS :: "nat list" where
  "PAD_BUCKETS = [1024, 4096, 16384]"

definition PAD_BLOCK :: nat where
  "PAD_BLOCK = 16 * 1024"

definition MAX_MEDIA_BYTES :: nat where
  "MAX_MEDIA_BYTES = 100 * 1024 * 1024"

definition div_ceil :: "nat \<Rightarrow> nat \<Rightarrow> nat" where
  "div_ceil n d = (n + (d - 1)) div d"

definition MAX_FRAME_BYTES :: nat where
  "MAX_FRAME_BYTES = div_ceil MAX_MEDIA_BYTES 3 * 4 + 1024 * 1024"

datatype wire_error = FrameTooLong nat | NoPrefix | ShortBuffer nat | BadEnvelope | WrongVersion "8 word"

definition frame_len :: "bytes \<Rightarrow> wire_error + nat" where
  "frame_len prefix4 = (let len = be_nat prefix4 in if len \<le> MAX_FRAME_BYTES then Inr len else Inl (FrameTooLong len))"

definition padded_len :: "nat \<Rightarrow> nat" where
  "padded_len raw =
     (case find (\<lambda>bucket. raw \<le> bucket) PAD_BUCKETS of
        Some bucket \<Rightarrow> bucket
      | None \<Rightarrow> div_ceil raw PAD_BLOCK * PAD_BLOCK)"

section \<open>Encoding and decoding\<close>

text \<open>What \<open>serde_json\<close> does with the envelope, and with any JSON value.\<close>

datatype json_value =
    JNull | JBool bool | JInt int | JFloat | JStr string | JArr "json_value list"
  | JObj "(string \<times> json_value) list"

record wire_json =
  write_envelope :: "8 word \<Rightarrow> frame \<Rightarrow> bytes"
  read_envelope :: "bytes \<Rightarrow> (8 word \<times> frame) option"
  read_value :: "bytes \<Rightarrow> json_value option"

definition json_round_trip :: "wire_json \<Rightarrow> 8 word \<Rightarrow> frame \<Rightarrow> bool" where
  "json_round_trip J v f \<longleftrightarrow>
     read_envelope J (write_envelope J v f) = Some (v, f) \<and> length (write_envelope J v f) < 2 ^ 32"

definition encode_at :: "wire_json \<Rightarrow> frame \<Rightarrow> 8 word \<Rightarrow> bytes" where
  "encode_at J f v =
     (let json = write_envelope J v f;
          total = padded_len (4 + length json);
          out = be_bytes 4 (length json) @ json
      in take total (out @ replicate (total - length out) 0))"

definition encode_frame :: "wire_json \<Rightarrow> frame \<Rightarrow> bytes" where
  "encode_frame J f = encode_at J f WIRE_VERSION"

definition encode_legacy :: "wire_json \<Rightarrow> frame \<Rightarrow> bytes" where
  "encode_legacy J f = encode_at J f LEGACY_WIRE_VERSION"

definition decode_frame :: "wire_json \<Rightarrow> bytes \<Rightarrow> wire_error + frame" where
  "decode_frame J bs =
     (if length bs < 4 then Inl NoPrefix
      else (let len = be_nat (take 4 bs)
            in if length bs < 4 + len then Inl (ShortBuffer len)
               else (case read_envelope J (take len (drop 4 bs)) of
                       None \<Rightarrow> Inl BadEnvelope
                     | Some (v, f) \<Rightarrow> if v \<noteq> WIRE_VERSION then Inl (WrongVersion v) else Inr f)))"

definition json_get :: "string \<Rightarrow> json_value \<Rightarrow> json_value option" where
  "json_get k v = (case v of JObj kvs \<Rightarrow> map_of kvs k | _ \<Rightarrow> None)"

definition as_u64 :: "json_value \<Rightarrow> nat option" where
  "as_u64 v = (case v of JInt i \<Rightarrow> if 0 \<le> i \<and> i < 2 ^ 64 then Some (nat i) else None | _ \<Rightarrow> None)"

definition as_str :: "json_value \<Rightarrow> string option" where
  "as_str v = (case v of JStr s \<Rightarrow> Some s | _ \<Rightarrow> None)"

definition legacy_sender :: "wire_json \<Rightarrow> bytes \<Rightarrow> string option" where
  "legacy_sender J bs =
     Option.bind (get_range bs 0 4) (\<lambda>p.
     Option.bind (get_range bs 4 (4 + be_nat p)) (\<lambda>bd.
     Option.bind (read_value J bd) (\<lambda>e.
     Option.bind (Option.bind (json_get ''v'' e) as_u64) (\<lambda>v.
       if unat WIRE_VERSION \<le> v then None
       else Option.bind (json_get ''f'' e) (\<lambda>f.
         Option.bind (case json_get ''from'' f of Some x \<Rightarrow> Some x | None \<Rightarrow> json_get ''identity_key'' f) as_str)))))"

section \<open>Padding\<close>

lemma div_ceil_bounds: "0 < d \<Longrightarrow> n \<le> div_ceil n d * d \<and> div_ceil n d * d < n + d"
proof -
  assume d: "0 < d"
  have "(n + (d - 1)) div d * d + (n + (d - 1)) mod d = n + (d - 1)" by simp
  moreover have "(n + (d - 1)) mod d < d" using d by simp
  ultimately show ?thesis using d unfolding div_ceil_def by linarith
qed

lemma padded_len_cases:
  "padded_len raw = (if raw \<le> 1024 then 1024 else if raw \<le> 4096 then 4096 else if raw \<le> 16384 then 16384
     else div_ceil raw PAD_BLOCK * PAD_BLOCK)"
  by (simp add: padded_len_def PAD_BUCKETS_def)

lemma padded_len_ge: "raw \<le> padded_len raw"
  using div_ceil_bounds [of PAD_BLOCK raw] by (auto simp: padded_len_cases PAD_BLOCK_def)

lemma padded_len_less: "padded_len raw < raw + PAD_BLOCK \<or> padded_len raw \<le> 16384"
  using div_ceil_bounds [of PAD_BLOCK raw] by (auto simp: padded_len_cases PAD_BLOCK_def)

lemma padded_len_mono: "a \<le> b \<Longrightarrow> padded_len a \<le> padded_len b"
proof -
  assume ab: "a \<le> b"
  have "div_ceil a PAD_BLOCK * PAD_BLOCK \<le> div_ceil b PAD_BLOCK * PAD_BLOCK"
    using ab by (intro mult_le_mono1) (simp add: div_ceil_def div_le_mono)
  moreover have "16384 \<le> div_ceil b PAD_BLOCK * PAD_BLOCK" if "16384 < b"
    using div_ceil_bounds [of PAD_BLOCK b] that by (simp add: PAD_BLOCK_def)
  ultimately show ?thesis using ab by (auto simp: padded_len_cases)
qed

lemma encode_at_eq:
  "encode_at J f v = be_bytes 4 (length (write_envelope J v f)) @ write_envelope J v f
     @ replicate (padded_len (4 + length (write_envelope J v f)) - (4 + length (write_envelope J v f))) 0"
  using padded_len_ge [of "4 + length (write_envelope J v f)"] by (simp add: encode_at_def Let_def)

lemma length_encode_at: "length (encode_at J f v) = padded_len (4 + length (write_envelope J v f))"
  using padded_len_ge [of "4 + length (write_envelope J v f)"] by (simp add: encode_at_eq)

lemma decode_encode_at:
  assumes "json_round_trip J v f"
  shows "decode_frame J (encode_at J f v @ rest) = (if v \<noteq> WIRE_VERSION then Inl (WrongVersion v) else Inr f)"
proof -
  have "be_nat (be_bytes 4 (length (write_envelope J v f))) = length (write_envelope J v f)"
    using assms by (intro be_nat_be_bytes) (simp add: json_round_trip_def)
  with assms show ?thesis
    by (simp add: decode_frame_def encode_at_eq Let_def json_round_trip_def)
qed

section \<open>Properties\<close>

text \<open>
  What one build sends, another of its version reads: decoding an encoded frame gives the
  frame back, whatever follows it in the buffer; a frame encoded for 0.1.x is refused, naming its
  version, never misread.
\<close>

theorem wire_round_trip:
  assumes "json_round_trip J WIRE_VERSION f" and "json_round_trip J LEGACY_WIRE_VERSION f"
  shows "decode_frame J (encode_frame J f @ rest) = Inr f
       \<and> decode_frame J (encode_legacy J f @ rest) = Inl (WrongVersion LEGACY_WIRE_VERSION)"
  using decode_encode_at [OF assms(1)] decode_encode_at [OF assms(2)]
  by (simp add: encode_frame_def encode_legacy_def WIRE_VERSION_def LEGACY_WIRE_VERSION_def)

text \<open>
  A frame's length on the wire tells only its bucket. Every encoded frame is 1024, 4096 or 16384
  bytes or a multiple of 16384, at least its content and less than one block (or the top bucket)
  more; so any two frames whose envelopes fit the same bucket have the same length on the wire.
\<close>

theorem wire_length_hides:
  "length (encode_frame J f) \<in> {1024, 4096} \<union> {n. 16384 dvd n}
   \<and> 4 + length (write_envelope J WIRE_VERSION f) \<le> length (encode_frame J f)
   \<and> (length (encode_frame J f) < 4 + length (write_envelope J WIRE_VERSION f) + 16384
      \<or> length (encode_frame J f) \<le> 16384)
   \<and> (length (encode_frame J f) = length (encode_frame J g))
      = (padded_len (4 + length (write_envelope J WIRE_VERSION f)) = padded_len (4 + length (write_envelope J WIRE_VERSION g)))"
  using padded_len_ge [of "4 + length (write_envelope J WIRE_VERSION f)"]
    padded_len_less [of "4 + length (write_envelope J WIRE_VERSION f)"]
  by (auto simp: encode_frame_def length_encode_at padded_len_cases PAD_BLOCK_def)

text \<open>
  The largest attachment's frame passes the length check, and nothing larger is accepted.
  An envelope no longer than a base64 of \<open>MAX_MEDIA_BYTES\<close> and a mebibyte less one padding block
  encodes to a frame whose announced length every transport accepts; any announced length over
  the limit is refused before a byte of the body is read.
\<close>

theorem wire_frame_limit:
  assumes "length (write_envelope J WIRE_VERSION f) \<le> div_ceil MAX_MEDIA_BYTES 3 * 4 + 1024 * 1024 - 16384 - 4"
  shows "frame_len (be_bytes 4 (length (encode_frame J f))) = Inr (length (encode_frame J f))
       \<and> (MAX_FRAME_BYTES < be_nat p4) = (frame_len p4 = Inl (FrameTooLong (be_nat p4)))"
proof -
  have top: "MAX_FRAME_BYTES < 256 ^ 4" "16384 \<le> MAX_FRAME_BYTES"
    by (simp_all add: MAX_FRAME_BYTES_def div_ceil_def MAX_MEDIA_BYTES_def)
  have "length (encode_frame J f) \<le> MAX_FRAME_BYTES"
    using padded_len_less [of "4 + length (write_envelope J WIRE_VERSION f)"] assms top(2)
    by (auto simp: encode_frame_def length_encode_at MAX_FRAME_BYTES_def PAD_BLOCK_def div_ceil_def MAX_MEDIA_BYTES_def)
  with top(1) show ?thesis
    using be_nat_be_bytes [of "length (encode_frame J f)" 4] by (auto simp: frame_len_def Let_def)
qed

text \<open>
  An older contact is told apart from a current one, and the current one is never taken for
  old. When \<open>legacy_sender\<close> names someone, the buffer holds a whole envelope whose version is below
  ours, so this build's own frames are never reported; and it never reads past the buffer.
\<close>

theorem legacy_sender_only_older:
  assumes "legacy_sender J bs = Some who"
  shows "\<exists>n e v. 4 + n \<le> length bs \<and> read_value J (take n (drop 4 bs)) = Some e
       \<and> Option.bind (json_get ''v'' e) as_u64 = Some v \<and> v < unat WIRE_VERSION"
proof -
  from assms obtain e v where
    "4 + be_nat (take 4 bs) \<le> length bs" "read_value J (take (be_nat (take 4 bs)) (drop 4 bs)) = Some e"
    "Option.bind (json_get ''v'' e) as_u64 = Some v" "v < unat WIRE_VERSION"
    by (auto simp: legacy_sender_def get_range_def not_le split: bind_splits if_splits)
  then show ?thesis by blast
qed

text \<open>A concrete codec for one frame.\<close>

definition sample_frame :: frame where
  "sample_frame = ClientKey ''me'' ''descriptor:x25519:k''"

definition sample_wire :: wire_json where
  "sample_wire =
     \<lparr>write_envelope = (\<lambda>v f. [v, 7]),
      read_envelope = (\<lambda>b. case b of [v, _] \<Rightarrow> Some (v, sample_frame) | _ \<Rightarrow> None),
      read_value = (\<lambda>b. case b of [v, _] \<Rightarrow> Some (JObj [(''v'', JInt (uint v)), (''f'', JObj [(''from'', JStr ''me'')])])
                                  | _ \<Rightarrow> None)\<rparr>"

lemma sample_json_round_trip: "json_round_trip sample_wire v sample_frame"
  by (simp add: json_round_trip_def sample_wire_def)

theorem wire_round_trip_witness:
  "decode_frame sample_wire (encode_frame sample_wire sample_frame @ [9]) = Inr sample_frame"
  using wire_round_trip [OF sample_json_round_trip sample_json_round_trip, of "[9]"] by simp

theorem wire_frame_limit_witness:
  "frame_len (be_bytes 4 (length (encode_frame sample_wire sample_frame))) = Inr 1024"
proof -
  have "length (write_envelope sample_wire WIRE_VERSION sample_frame) \<le> div_ceil MAX_MEDIA_BYTES 3 * 4 + 1024 * 1024 - 16384 - 4"
    by (simp add: sample_wire_def)
  moreover have "length (encode_frame sample_wire sample_frame) = 1024"
    by (simp add: encode_frame_def length_encode_at sample_wire_def padded_len_cases)
  ultimately show ?thesis using wire_frame_limit [of sample_wire sample_frame] by simp
qed

theorem legacy_sender_only_older_witness:
  "legacy_sender sample_wire (encode_legacy sample_wire sample_frame) = Some ''me''
   \<and> (\<exists>n e v. 4 + n \<le> length (encode_legacy sample_wire sample_frame)
        \<and> read_value sample_wire (take n (drop 4 (encode_legacy sample_wire sample_frame))) = Some e
        \<and> Option.bind (json_get ''v'' e) as_u64 = Some v \<and> v < unat WIRE_VERSION)"
proof -
  have "encode_legacy sample_wire sample_frame = be_bytes 4 (Suc (Suc 0)) @ [2, 7] @ replicate 1018 0"
    by (simp add: encode_legacy_def encode_at_eq LEGACY_WIRE_VERSION_def)
      (simp add: sample_wire_def padded_len_cases)
  moreover have "be_nat (be_bytes 4 (Suc (Suc 0))) = Suc (Suc 0)" by (rule be_nat_be_bytes) simp
  ultimately have "legacy_sender sample_wire (encode_legacy sample_wire sample_frame) = Some ''me''"
    by (simp add: legacy_sender_def get_range_def sample_wire_def json_get_def as_u64_def as_str_def WIRE_VERSION_def)
  from this legacy_sender_only_older [OF this] show ?thesis by blast
qed

end
