(* ===== verification/MediaKind.thy ===== *)
theory MediaKind
  imports RustStd
begin

text \<open>
  \<open>core/src/node/media_kind.rs\<close>: what an attachment may claim to be (\<open>sanitize\<close>), the extension a
  received video is opened with, read from its own bytes (\<open>video_ext\<close>), the check that an ISO media
  file names nothing outside itself, and the JPEG frame header behind \<open>displayable_image\<close>. The two
  parsers are compared with descriptions of what they accept: \<open>plays_alone\<close> for videos, and
  \<open>frame_header\<close>, a grammar of JPEG headers, for images.
\<close>

section \<open>Kind and mime\<close>

definition IMAGE_MIMES :: "string list" where
  "IMAGE_MIMES = [''image/jpeg'', ''image/png'', ''image/gif'', ''image/webp'', ''image/heic'']"

definition VIDEO_MIMES :: "string list" where
  "VIDEO_MIMES = [''video/mp4'', ''video/quicktime'', ''video/webm'', ''video/x-matroska'', ''video/x-msvideo'',
     ''video/x-m4v'', ''video/3gpp'', ''video/octet-stream'']"

definition sanitize :: "string \<Rightarrow> string \<Rightarrow> string \<times> string" where
  "sanitize kind mime =
     (let (kind, allowed, fallback) =
            (if kind = ''video'' then (''video'', VIDEO_MIMES, ''video/octet-stream'')
             else (''image'', IMAGE_MIMES, ''image/jpeg''));
          mime = map ascii_lower (trim mime)
      in (kind, if mime \<in> set allowed then mime else fallback))"

section \<open>ISO boxes\<close>

text \<open>A byte string literal.\<close>

definition tag :: "string \<Rightarrow> bytes" where
  "tag = text_bytes"

text \<open>One round of the loop in \<open>boxes\<close>: the type and body of the first box, and what follows it.\<close>

definition box_size :: "bytes \<Rightarrow> nat \<Rightarrow> (nat \<times> nat) option" where
  "box_size data size32 =
     (if size32 = 0 then Some (8, length data)
      else if size32 = 1 then map_option (\<lambda>b. (16, be_nat b)) (get_range data 8 16)
      else Some (8, size32))"

definition next_box :: "bytes \<Rightarrow> (bytes \<times> bytes \<times> bytes) option" where
  "next_box data =
     Option.bind (get_range data 0 4) (\<lambda>size32.
     Option.bind (get_range data 4 8) (\<lambda>kind.
     Option.bind (box_size data (be_nat size32)) (\<lambda>(header, size).
       if size < header \<or> length data < size then None
       else Some (kind, take (size - header) (drop header data), drop size data))))"

lemma next_box_SomeD:
  assumes "next_box data = Some (kind, body, rest)"
  shows "length kind = 4 \<and> length body + 8 \<le> length data \<and> length rest + 8 \<le> length data
       \<and> (\<exists>hdr. data = hdr @ body @ rest \<and> length hdr \<in> {8, 16} \<and> take 4 (drop 4 hdr) = kind)"
proof -
  obtain header size where bs: "box_size data (be_nat (take 4 data)) = Some (header, size)"
    and hs: "header \<le> size" "size \<le> length data" "kind = take 4 (drop 4 data)" "8 \<le> length data"
      "body = take (size - header) (drop header data)" "rest = drop size data"
    using assms by (auto simp: next_box_def bind_eq_Some_conv not_less dest!: get_range_SomeD split: if_splits)
  have h: "header \<in> {8, 16}" using bs by (auto simp: box_size_def split: if_splits)
  have "data = take header data @ body @ rest"
    using hs(1,2,5,6) by (metis append_take_drop_id drop_drop le_add_diff_inverse2)
  moreover have "length (take header data) \<in> {8, 16}" "take 4 (drop 4 (take header data)) = kind"
    using hs h by (auto simp: drop_take min_def)
  moreover have "length kind = 4" "length body + 8 \<le> length data" "length rest + 8 \<le> length data"
    using hs h by auto
  ultimately show ?thesis by blast
qed

function boxes :: "bytes \<Rightarrow> (bytes \<times> bytes) list option" where
  "boxes data =
     (if data = [] then Some []
      else (case next_box data of
              None \<Rightarrow> None
            | Some (kind, body, rest) \<Rightarrow> map_option ((#) (kind, body)) (boxes rest)))"
  by pat_completeness auto
termination
  by (relation "measure length") (auto dest: next_box_SomeD)

declare boxes.simps [simp del]

lemma boxes_smaller: "boxes data = Some bs \<Longrightarrow> (k, b) \<in> set bs \<Longrightarrow> length k = 4 \<and> length b < length data"
proof (induction data arbitrary: bs rule: boxes.induct)
  case (1 data)
  show ?case
  proof (cases "data = []")
    case True
    with "1.prems" show ?thesis by (simp add: boxes.simps)
  next
    case False
    then obtain kind body rest bs' where nb: "next_box data = Some (kind, body, rest)" "boxes rest = Some bs'"
        "bs = (kind, body) # bs'"
      using "1.prems"(1) by (auto simp: boxes.simps [of data] split: option.splits)
    note d = next_box_SomeD [OF nb(1)]
    from "1.IH" [OF False nb(1) refl refl nb(2)] "1.prems"(2) d nb(3) show ?thesis by fastforce
  qed
qed

definition ISO_CONTAINERS :: "bytes list" where
  "ISO_CONTAINERS = map tag [''moov'', ''trak'', ''mdia'', ''minf'', ''dinf'', ''edts'', ''udta'']"

text \<open>\<open>windows(n).any(|w| w == t)\<close>.\<close>

fun windows_any :: "bytes \<Rightarrow> bytes \<Rightarrow> bool" where
  "windows_any t [] = False"
| "windows_any t (b # bs) = (prefix t (b # bs) \<or> windows_any t bs)"

definition dref_self_contained :: "bytes \<Rightarrow> bool" where
  "dref_self_contained body =
     (if length body < 8 then False
      else (case boxes (drop 8 body) of
              None \<Rightarrow> False
            | Some entries \<Rightarrow>
                list_all (\<lambda>e. case get_at (snd e) 3 of None \<Rightarrow> False | Some flags \<Rightarrow> odd (unat flags)) entries))"

function drefs_self_contained :: "bytes \<Rightarrow> bool" where
  "drefs_self_contained body =
     (case boxes body of
        None \<Rightarrow> False
      | Some children \<Rightarrow>
          list_all (\<lambda>c. if fst c = tag ''dref'' then dref_self_contained (snd c)
                        else if fst c \<in> set ISO_CONTAINERS then drefs_self_contained (snd c)
                        else True) children)"
  by pat_completeness auto
termination
  by (relation "measure length") (auto dest: boxes_smaller)

declare drefs_self_contained.simps [simp del]

definition iso_bmff_is_self_contained :: "bytes \<Rightarrow> bool" where
  "iso_bmff_is_self_contained data =
     (case boxes data of
        None \<Rightarrow> False
      | Some tops \<Rightarrow>
          list_all (\<lambda>b. fst b = tag ''moov'' \<longrightarrow>
                       \<not> list_ex (\<lambda>t. windows_any (tag t) (snd b)) [''rmra'', ''rmda'', ''rdrf'']
                       \<and> drefs_self_contained (snd b)) tops
          \<and> list_ex (\<lambda>b. fst b = tag ''moov'') tops)"

definition iso_ext :: "bytes \<Rightarrow> string option" where
  "iso_ext data =
     (let k = take 4 (drop 4 data); brand = take 4 (drop 8 data)
      in if k = tag ''ftyp''
         then (if brand = tag ''qt  '' then Some ''mov''
               else if brand \<in> set (map tag [''3gp4'', ''3gp5'', ''3gp6'', ''3gg6'', ''3gp7'']) then Some ''3gp''
               else Some ''mp4'')
         else if k \<in> set (map tag [''moov'', ''mdat'', ''wide'', ''free'', ''skip'']) then Some ''mov''
         else None)"

definition EBML_MAGIC :: bytes where
  "EBML_MAGIC = [0x1A, 0x45, 0xDF, 0xA3]"

definition video_ext :: "bytes \<Rightarrow> string option" where
  "video_ext data =
     (case (if 12 \<le> length data then iso_ext data else None) of
        Some ext \<Rightarrow> if iso_bmff_is_self_contained data then Some ext else None
      | None \<Rightarrow>
          if prefix EBML_MAGIC data
          then (if windows_any (tag ''webm'') (take 64 data) then Some ''webm'' else Some ''mkv'')
          else if 12 \<le> length data \<and> take 4 data = tag ''RIFF'' \<and> take 4 (drop 8 data) = tag ''AVI ''
          then Some ''avi'' else None)"

section \<open>JPEG headers\<close>

text \<open>Markers: those that stand alone, those that end the search, frame headers and other codings.\<close>

definition standalone_marker :: "byte \<Rightarrow> bool" where
  "standalone_marker m = (m = 0x01 \<or> 0xD0 \<le> m \<and> m \<le> 0xD7)"

definition stop_marker :: "byte \<Rightarrow> bool" where
  "stop_marker m = (0xD8 \<le> m \<and> m \<le> 0xDA)"

definition frame_marker :: "byte \<Rightarrow> bool" where
  "frame_marker m = (0xC0 \<le> m \<and> m \<le> 0xC2)"

definition other_frame_marker :: "byte \<Rightarrow> bool" where
  "other_frame_marker m =
     (m = 0xC3 \<or> 0xC5 \<le> m \<and> m \<le> 0xC7 \<or> 0xC9 \<le> m \<and> m \<le> 0xCB \<or> 0xCD \<le> m \<and> m \<le> 0xCF)"

text \<open>Past the 0xFF bytes from \<open>p\<close> on: where the marker is, and the marker.\<close>

function skip_fill :: "bytes \<Rightarrow> nat \<Rightarrow> (nat \<times> byte) option" where
  "skip_fill data p =
     (case get_at data p of
        None \<Rightarrow> None
      | Some b \<Rightarrow> if b = 0xFF then skip_fill data (p + 1) else Some (p, b))"
  by pat_completeness auto
termination
  by (relation "measure (\<lambda>(data, p). length data - p)") (auto dest: get_at_SomeD)

declare skip_fill.simps [simp del]

lemma drop_get_at: "get_at data p = Some b \<Longrightarrow> drop p data = b # drop (p + 1) data"
  using get_at_SomeD [of data p b] Cons_nth_drop_Suc [of p data] by simp

lemma skip_fill_SomeD:
  "skip_fill data p = Some (q, m) \<Longrightarrow>
   p \<le> q \<and> q < length data \<and> m \<noteq> 0xFF \<and> drop p data = replicate (q - p) 0xFF @ m # drop (q + 1) data"
proof (induction data p rule: skip_fill.induct)
  case (1 data p)
  from "1.prems" obtain b where b: "get_at data p = Some b"
    by (auto simp: skip_fill.simps [of data p] split: option.splits)
  show ?case
  proof (cases "b = 0xFF")
    case True
    with "1.prems" b have "skip_fill data (p + 1) = Some (q, m)" by (simp add: skip_fill.simps [of data p])
    with "1.IH" [OF b True] have ih: "p + 1 \<le> q" "q < length data" "m \<noteq> 0xFF"
      "drop (p + 1) data = replicate (q - (p + 1)) 0xFF @ m # drop (q + 1) data" by auto
    moreover have "replicate (q - p) 0xFF = 0xFF # replicate (q - (p + 1)) (0xFF :: byte)"
      using ih(1) by (simp add: Suc_diff_le Suc_diff_Suc flip: replicate_Suc)
    ultimately show ?thesis using drop_get_at [OF b] True by simp
  next
    case False
    with "1.prems" b have "q = p" "m = b" by (simp_all add: skip_fill.simps [of data p])
    with b False drop_get_at [OF b] get_at_SomeD [OF b] show ?thesis by simp
  qed
qed

lemma get_at_drop: "drop p data = b # s \<Longrightarrow> get_at data p = Some b \<and> drop (p + 1) data = s"
  by (metis add.commute drop_eq_Nil get_at_def hd_drop_conv_nth list.sel(1,3) list.simps(3) not_le plus_1_eq_Suc tl_drop drop_Suc)

lemma skip_fill_run:
  "drop p data = replicate n 0xFF @ m # s \<Longrightarrow> m \<noteq> 0xFF \<Longrightarrow> skip_fill data p = Some (p + n, m) \<and> drop (p + n + 1) data = s"
proof (induction n arbitrary: p)
  case 0
  then show ?case using get_at_drop [of p data m s] by (simp add: skip_fill.simps [of data p])
next
  case (Suc n)
  from Suc.prems(1) have "get_at data p = Some 0xFF" "drop (p + 1) data = replicate n 0xFF @ m # s"
    using get_at_drop [of p data "0xFF" "replicate n 0xFF @ m # s"] by simp_all
  with Suc.IH [of "p + 1"] Suc.prems(2) show ?case by (simp add: skip_fill.simps [of data p])
qed

text \<open>The segment at \<open>p\<close>: its announced length, at least 2, and what follows the two length bytes.\<close>

definition segment_at :: "bytes \<Rightarrow> nat \<Rightarrow> (nat \<times> bytes) option" where
  "segment_at data p =
     Option.bind (get_range data p (p + 2)) (\<lambda>l.
       let len = be_nat l
       in if len < 2 then None else map_option (Pair len) (get_range data (p + 2) (p + len)))"

function jpeg_walk :: "bytes \<Rightarrow> nat \<Rightarrow> (nat \<times> nat \<times> byte) option" where
  "jpeg_walk data p =
     (if get_at data p \<noteq> Some 0xFF then None
      else (case skip_fill data p of
              None \<Rightarrow> None
            | Some (q, marker) \<Rightarrow>
                if standalone_marker marker then jpeg_walk data (q + 1)
                else if stop_marker marker then None
                else (case segment_at data (q + 1) of
                        None \<Rightarrow> None
                      | Some (len, seg) \<Rightarrow>
                          if frame_marker marker
                          then (if length seg < 6 then None
                                else Some (be_nat [seg ! 3, seg ! 4], be_nat [seg ! 1, seg ! 2], seg ! 5))
                          else if other_frame_marker marker then None
                          else jpeg_walk data (q + 1 + len))))"
  by pat_completeness auto
termination
  by (relation "measure (\<lambda>(data, p). length data - p)") (auto dest: skip_fill_SomeD)

declare jpeg_walk.simps [simp del]

definition jpeg_frame :: "bytes \<Rightarrow> (nat \<times> nat \<times> byte) option" where
  "jpeg_frame data = (if get_range data 0 2 \<noteq> Some [0xFF, 0xD8] then None else jpeg_walk data 2)"

definition MAX_IMAGE_SIDE :: nat where
  "MAX_IMAGE_SIDE = 8192"

definition MAX_IMAGE_PIXELS :: nat where
  "MAX_IMAGE_PIXELS = 40000000"

definition displayable_image :: "bytes \<Rightarrow> bool" where
  "displayable_image data =
     (case jpeg_frame data of
        None \<Rightarrow> False
      | Some (w, h, comps) \<Rightarrow>
          1 \<le> w \<and> w \<le> MAX_IMAGE_SIDE \<and> 1 \<le> h \<and> h \<le> MAX_IMAGE_SIDE \<and> w * h \<le> MAX_IMAGE_PIXELS
          \<and> (comps = 1 \<or> comps = 3))"

section \<open>What is accepted: videos\<close>

lemma windows_any_sublist: "t \<noteq> [] \<Longrightarrow> windows_any t bs \<longleftrightarrow> sublist t bs"
  by (induction bs) (auto simp: sublist_Cons_right)

text \<open>A box inside a body, reached through boxes of the container types.\<close>

inductive inside :: "bytes \<Rightarrow> bytes \<times> bytes \<Rightarrow> bool" where
  child: "boxes d = Some cs \<Longrightarrow> c \<in> set cs \<Longrightarrow> inside d c"
| deeper: "boxes d = Some cs \<Longrightarrow> (k, b) \<in> set cs \<Longrightarrow> k \<in> set ISO_CONTAINERS \<Longrightarrow> inside b c \<Longrightarrow> inside d c"

text \<open>Every container on the way splits into boxes, and every data reference points into the file.\<close>

definition only_self_references :: "bytes \<Rightarrow> bool" where
  "only_self_references d \<longleftrightarrow>
     boxes d \<noteq> None
     \<and> (\<forall>k b. inside d (k, b) \<longrightarrow> k \<in> set ISO_CONTAINERS \<longrightarrow> boxes b \<noteq> None)
     \<and> (\<forall>b. inside d (tag ''dref'', b) \<longrightarrow>
          8 \<le> length b \<and> (\<exists>es. boxes (drop 8 b) = Some es
            \<and> (\<forall>(k, e) \<in> set es. 4 \<le> length e \<and> odd (unat (e ! 3)))))"

definition plays_alone :: "bytes \<Rightarrow> bool" where
  "plays_alone data \<longleftrightarrow>
     (\<exists>tops. boxes data = Some tops \<and> tag ''moov'' \<in> fst ` set tops
        \<and> (\<forall>b. (tag ''moov'', b) \<in> set tops \<longrightarrow>
             only_self_references b
             \<and> \<not> sublist (tag ''rmra'') b \<and> \<not> sublist (tag ''rmda'') b \<and> \<not> sublist (tag ''rdrf'') b))"

lemma tag_nonempty: "tag s = [] \<longleftrightarrow> s = []"
  by (simp add: tag_def text_bytes_def)

lemma tag_inj: "tag s = tag t \<longleftrightarrow> s = t"
  unfolding tag_def text_bytes_def by (rule inj_map_eq_map [OF injI]) (rule of_char_byte_inj)

lemma dref_not_container: "tag ''dref'' \<notin> set ISO_CONTAINERS"
  by (simp add: ISO_CONTAINERS_def tag_inj)

lemma dref_self_contained_iff:
  "dref_self_contained b \<longleftrightarrow> 8 \<le> length b \<and> (\<exists>es. boxes (drop 8 b) = Some es
     \<and> (\<forall>(k, e) \<in> set es. 4 \<le> length e \<and> odd (unat (e ! 3))))"
  by (auto simp: dref_self_contained_def list_all_iff get_at_def not_less split: option.splits if_splits)

lemma inside_iff:
  assumes "boxes d = Some cs"
  shows "inside d c \<longleftrightarrow> c \<in> set cs \<or> (\<exists>(k, b) \<in> set cs. k \<in> set ISO_CONTAINERS \<and> inside b c)"
  using assms by (subst inside.simps) auto

lemma drefs_self_contained_iff: "drefs_self_contained d \<longleftrightarrow> only_self_references d"
proof (induction d rule: drefs_self_contained.induct)
  case (1 d)
  show ?case
  proof (cases "boxes d")
    case None
    then show ?thesis by (simp add: drefs_self_contained.simps [of d] only_self_references_def)
  next
    case (Some cs)
    let ?ok = "\<lambda>k b. (k = tag ''dref'' \<longrightarrow> dref_self_contained b) \<and> (k \<in> set ISO_CONTAINERS \<longrightarrow> only_self_references b)"
    have ih: "drefs_self_contained b = only_self_references b" if "(k, b) \<in> set cs" "k \<in> set ISO_CONTAINERS" for k b
      using "1.IH" [OF Some that(1)] that(2) dref_not_container by auto
    have "drefs_self_contained d \<longleftrightarrow> (\<forall>(k, b) \<in> set cs. ?ok k b)"
      using ih dref_not_container by (auto simp: drefs_self_contained.simps [of d] Some list_all_iff)
    also have "\<dots> \<longleftrightarrow> only_self_references d"
    proof
      assume a: "\<forall>(k, b) \<in> set cs. ?ok k b"
      have "boxes b \<noteq> None" if "inside d (k, b)" "k \<in> set ISO_CONTAINERS" for k b
        using that(1) a that(2) unfolding inside_iff [OF Some] only_self_references_def by fastforce
      moreover have "dref_self_contained b" if "inside d (tag ''dref'', b)" for b
        using that a unfolding inside_iff [OF Some] only_self_references_def dref_self_contained_iff by fastforce
      ultimately show "only_self_references d"
        using Some unfolding only_self_references_def dref_self_contained_iff by blast
    next
      assume a: "only_self_references d"
      have "only_self_references b" if b: "(k, b) \<in> set cs" "k \<in> set ISO_CONTAINERS" for k b
      proof -
        have "inside d (k, b)" "\<And>c. inside b c \<Longrightarrow> inside d c"
          using b inside_iff [OF Some] by blast+
        with a b(2) show ?thesis unfolding only_self_references_def by blast
      qed
      moreover have "dref_self_contained b" if "(tag ''dref'', b) \<in> set cs" for b
        using a that inside_iff [OF Some] unfolding only_self_references_def dref_self_contained_iff by blast
      ultimately show "\<forall>(k, b) \<in> set cs. ?ok k b" by blast
    qed
    finally show ?thesis .
  qed
qed

lemma self_contained_iff: "iso_bmff_is_self_contained data \<longleftrightarrow> plays_alone data"
  by (auto simp: iso_bmff_is_self_contained_def plays_alone_def list_all_iff list_ex_iff windows_any_sublist
      tag_nonempty drefs_self_contained_iff split: option.splits) force+

text \<open>
  A video is opened as MP4, MOV or 3GP exactly when it starts like one and plays alone: its
  boxes add up, it has a movie header, no movie header holds a reference movie, and every data
  reference in it, however deep, points into the file itself. Any other file gets an extension only
  as Matroska, WebM or AVI, by its own leading bytes.
\<close>

theorem video_opened_plays_alone:
  "(video_ext data \<in> {Some ''mov'', Some ''mp4'', Some ''3gp''})
     = (12 \<le> length data \<and> take 4 (drop 4 data) \<in> set (map tag [''ftyp'', ''moov'', ''mdat'', ''wide'', ''free'', ''skip''])
        \<and> plays_alone data)
   \<and> (video_ext data \<in> {None, Some ''mov'', Some ''mp4'', Some ''3gp'', Some ''avi''} \<or> prefix EBML_MAGIC data)"
proof -
  let ?first = "take 4 (drop 4 data) \<in> set (map tag [''ftyp'', ''moov'', ''mdat'', ''wide'', ''free'', ''skip''])"
  have ext: "iso_ext data \<in> {None, Some ''mov'', Some ''mp4'', Some ''3gp''}"
    by (auto simp: iso_ext_def Let_def split: if_splits)
  have first: "(iso_ext data \<noteq> None) = ?first"
    by (auto simp: iso_ext_def Let_def)
  show ?thesis
  proof (cases "12 \<le> length data \<and> iso_ext data \<noteq> None")
    case True
    then have "video_ext data = (if plays_alone data then iso_ext data else None)"
      by (auto simp: video_ext_def self_contained_iff)
    then have "video_ext data \<in> {Some ''mov'', Some ''mp4'', Some ''3gp''} \<and> plays_alone data \<or> video_ext data = None \<and> \<not> plays_alone data"
      using True ext by auto
    moreover have "12 \<le> length data \<and> ?first" using True unfolding first .
    ultimately show ?thesis by (auto simp del: set_map list.map)
  next
    case False
    then have "video_ext data \<notin> {Some ''mov'', Some ''mp4'', Some ''3gp''}" "video_ext data \<in> {None, Some ''avi''} \<or> prefix EBML_MAGIC data"
      by (simp_all add: video_ext_def)
    moreover have "\<not> (12 \<le> length data \<and> ?first)" using False unfolding first .
    ultimately show ?thesis by blast
  qed
qed

section \<open>What is accepted: images\<close>

text \<open>
  The marker segments of a JPEG up to its frame header: fill bytes, then a marker that stands alone,
  a segment to pass over, or the frame header with height, width and the number of components.
\<close>

inductive frame_header :: "bytes \<Rightarrow> nat \<Rightarrow> nat \<Rightarrow> byte \<Rightarrow> bool" where
  alone: "standalone_marker m \<Longrightarrow> frame_header s w h c \<Longrightarrow> frame_header (replicate (Suc n) 0xFF @ m # s) w h c"
| passed: "m \<noteq> 0xFF \<Longrightarrow> \<not> standalone_marker m \<Longrightarrow> \<not> stop_marker m \<Longrightarrow> \<not> frame_marker m \<Longrightarrow> \<not> other_frame_marker m \<Longrightarrow>
     length seg + 2 < 65536 \<Longrightarrow> frame_header s w h c \<Longrightarrow>
     frame_header (replicate (Suc n) 0xFF @ m # be_bytes 2 (length seg + 2) @ seg @ s) w h c"
| found: "frame_marker m \<Longrightarrow> length tables + 8 < 65536 \<Longrightarrow> w < 65536 \<Longrightarrow> h < 65536 \<Longrightarrow>
     frame_header (replicate (Suc n) 0xFF @ m # be_bytes 2 (length tables + 8)
       @ (precision # be_bytes 2 h @ be_bytes 2 w @ c # tables) @ s) w h c"

lemma frame_marker_excl: "frame_marker m \<Longrightarrow> m \<noteq> 0xFF \<and> \<not> standalone_marker m \<and> \<not> stop_marker m \<and> \<not> other_frame_marker m"
  by (auto simp: frame_marker_def standalone_marker_def stop_marker_def other_frame_marker_def word_le_nat_alt)

lemma standalone_marker_excl: "standalone_marker m \<Longrightarrow> m \<noteq> 0xFF"
  by (auto simp: standalone_marker_def word_le_nat_alt)

lemma segment_at_SomeD:
  assumes "segment_at data p = Some (len, seg)"
  shows "len = length seg + 2 \<and> len < 65536 \<and> drop p data = be_bytes 2 len @ seg @ drop (p + len) data"
proof -
  let ?l = "take 2 (drop p data)"
  have l: "p + 2 \<le> length data" "be_nat ?l = len" "2 \<le> len" "p + len \<le> length data" "seg = take (len - 2) (drop (p + 2) data)"
    using assms by (auto simp: segment_at_def bind_eq_Some_conv Let_def not_less dest!: get_range_SomeD split: if_splits)
  have "length ?l = 2" using l(1) by simp
  with be_bytes_be_nat [of ?l] be_nat_bound [of ?l] l(2) have "be_bytes 2 len = ?l" "len < 65536" by simp_all
  moreover have "drop p data = ?l @ take (len - 2) (drop (p + 2) data) @ drop (p + len) data"
  proof -
    have "drop (p + len) data = drop (len - 2) (drop (p + 2) data)" "drop (p + 2) data = drop 2 (drop p data)"
    proof -
      have "len - 2 + (p + 2) = p + len" using l(3) by simp
      then show "drop (p + len) data = drop (len - 2) (drop (p + 2) data)" by (simp only: drop_drop)
      show "drop (p + 2) data = drop 2 (drop p data)" by (simp add: add.commute)
    qed
    then show ?thesis by (metis append_take_drop_id)
  qed
  moreover have "length seg = len - 2" using l(4,5) by simp
  ultimately show ?thesis using l(3,5) by simp
qed

lemma segment_at_run:
  assumes "drop p data = be_bytes 2 (length seg + 2) @ seg @ s" and "length seg + 2 < 65536"
  shows "segment_at data p = Some (length seg + 2, seg) \<and> drop (p + (length seg + 2)) data = s"
proof -
  have len: "length (drop p data) = length seg + 2 + length s" using assms(1) by simp
  then have p: "p + 2 \<le> length data" "p + (length seg + 2) \<le> length data" by auto
  have "drop (p + 2) data = seg @ s" using assms(1) by (metis add.commute append_eq_conv_conj drop_drop length_be_bytes)
  moreover have "take 2 (drop p data) = be_bytes 2 (length seg + 2)" using assms(1) by (metis append_eq_conv_conj length_be_bytes)
  moreover have "drop (p + (length seg + 2)) data = drop (length seg) (drop (p + 2) data)" by (simp add: add.commute add.left_commute)
  ultimately show ?thesis
    using p assms(2) be_nat_be_bytes [of "length seg + 2" 2] by (simp add: segment_at_def get_range_def Let_def)
qed

lemma frame_segment:
  assumes "frame_marker m" and "6 \<le> length seg" and "length seg + 2 < 65536"
  shows "frame_header (replicate (Suc n) 0xFF @ m # be_bytes 2 (length seg + 2) @ seg @ s)
           (be_nat [seg ! 3, seg ! 4]) (be_nat [seg ! 1, seg ! 2]) (seg ! 5)"
proof -
  have "seg = seg ! 0 # [seg ! 1, seg ! 2] @ [seg ! 3, seg ! 4] @ seg ! 5 # drop 6 seg"
    using assms(2) by (auto simp: numeral_eq_Suc Suc_le_length_iff)
  moreover have "be_bytes 2 (be_nat [x, y]) = [x, y]" "be_nat [x, y] < 65536" for x y
    using be_bytes_be_nat [of "[x, y]"] be_nat_bound [of "[x, y]"] by (simp_all add: numeral_2_eq_2)
  ultimately have "seg = seg ! 0 # be_bytes 2 (be_nat [seg ! 1, seg ! 2]) @ be_bytes 2 (be_nat [seg ! 3, seg ! 4]) @ seg ! 5 # drop 6 seg"
      "be_nat [seg ! 1, seg ! 2] < 65536" "be_nat [seg ! 3, seg ! 4] < 65536"
    by simp_all
  moreover have "length (drop 6 seg) + 8 = length seg + 2" using assms(2) by simp
  ultimately show ?thesis
    using frame_header.found [OF assms(1), of "drop 6 seg" "be_nat [seg ! 3, seg ! 4]" "be_nat [seg ! 1, seg ! 2]" n "seg ! 0" "seg ! 5" s] assms(3)
    by simp
qed

lemma jpeg_walk_sound: "jpeg_walk data p = Some (w, h, c) \<Longrightarrow> frame_header (drop p data) w h c"
proof (induction data p rule: jpeg_walk.induct)
  case (1 data p)
  from "1.prems" obtain q m where start: "get_at data p = Some 0xFF" "skip_fill data p = Some (q, m)"
    by (auto simp: jpeg_walk.simps [of data p] split: if_splits option.splits)
  note sk = skip_fill_SomeD [OF start(2)]
  have "q \<noteq> p" using sk start(1) get_at_SomeD by (metis (no_types, lifting) get_at_drop list.inject replicate_0 self_append_conv2 diff_self_eq_0 option.inject)
  then obtain n where n: "q - p = Suc n" using sk by (metis Suc_diff_Suc le_neq_implies_less)
  have d: "drop p data = replicate (Suc n) 0xFF @ m # drop (q + 1) data" using sk n by metis
  note step = "1.prems" [unfolded jpeg_walk.simps [of data p], simplified start, simplified]
  show ?case
  proof (cases "standalone_marker m")
    case True
    with step "1.IH"(1) [OF _ start(2) refl True] start(1) have "frame_header (drop (q + 1) data) w h c" by simp
    then show ?thesis unfolding d by (rule frame_header.alone [OF True])
  next
    case alone: False
    with step obtain len seg where seg: "\<not> stop_marker m" "segment_at data (q + 1) = Some (len, seg)"
      by (auto split: if_splits option.splits)
    note sg = segment_at_SomeD [OF seg(2)]
    show ?thesis
    proof (cases "frame_marker m")
      case True
      with step alone seg have l: "6 \<le> length seg" and whc: "w = be_nat [seg ! 3, seg ! 4]" "h = be_nat [seg ! 1, seg ! 2]" "c = seg ! 5"
        by (auto split: if_splits)
      from frame_segment [OF True l, of n "drop (q + 1 + len) data"] sg whc show ?thesis unfolding d by simp
    next
      case False
      with step alone seg have o: "\<not> other_frame_marker m" "jpeg_walk data (q + 1 + len) = Some (w, h, c)"
        by (auto split: if_splits)
      from "1.IH"(2) [OF _ start(2) refl alone seg refl False o] start(1) have "frame_header (drop (q + 1 + len) data) w h c" by simp
      moreover have "m \<noteq> 0xFF" using sk by simp
      ultimately show ?thesis
        using frame_header.passed [OF _ alone seg(1) False o(1), of seg "drop (q + 1 + len) data" w h c n] sg unfolding d by simp
    qed
  qed
qed

lemma jpeg_walk_complete: "frame_header s w h c \<Longrightarrow> drop p data = s \<Longrightarrow> jpeg_walk data p = Some (w, h, c)"
proof (induction arbitrary: p rule: frame_header.induct)
  case (alone m s w h c n)
  from alone(4) have "get_at data p = Some 0xFF" using get_at_drop [of p data "0xFF"] by simp
  moreover note skip_fill_run [OF alone(4) standalone_marker_excl [OF alone(1)]]
  ultimately show ?case using alone(1) alone(3) [of "p + Suc n + 1"] by (simp add: jpeg_walk.simps [of data p])
next
  case (passed m seg s w h c n)
  from passed(9) have "get_at data p = Some 0xFF" using get_at_drop [of p data "0xFF"] by simp
  moreover note sk = skip_fill_run [OF passed(9) passed(1)]
  moreover note segment_at_run [OF conjunct2 [OF sk] passed(6)]
  ultimately show ?case
    using passed(2-5) passed(8) [of "p + Suc n + 1 + (length seg + 2)"] by (simp add: jpeg_walk.simps [of data p])
next
  case (found m tables w h n precision c s)
  let ?seg = "precision # be_bytes 2 h @ be_bytes 2 w @ c # tables"
  have l: "length ?seg + 2 = length tables + 8" by simp
  from found(5) have "get_at data p = Some 0xFF" using get_at_drop [of p data "0xFF"] by simp
  moreover note ex = frame_marker_excl [OF found(1)]
  moreover note sk = skip_fill_run [OF found(5) conjunct1 [OF ex]]
  moreover have "segment_at data (p + Suc n + 1) = Some (length ?seg + 2, ?seg)"
    using segment_at_run [of "p + Suc n + 1" data ?seg s] sk found(2) unfolding l by blast
  moreover have "be_nat [?seg ! 1, ?seg ! 2] = h" "be_nat [?seg ! 3, ?seg ! 4] = w" "?seg ! 5 = c"
  proof -
    have two: "\<exists>a b. be_bytes 2 v = [a, b]" for v using length_be_bytes [of 2 v] by (metis (no_types) length_0_conv length_Suc_conv numeral_2_eq_2)
    obtain h1 h2 w1 w2 where "be_bytes 2 h = [h1, h2]" "be_bytes 2 w = [w1, w2]" using two by blast
    moreover have "be_nat (be_bytes 2 h) = h" "be_nat (be_bytes 2 w) = w" using found(3,4) by (simp_all add: be_nat_be_bytes)
    ultimately show "be_nat [?seg ! 1, ?seg ! 2] = h" "be_nat [?seg ! 3, ?seg ! 4] = w" "?seg ! 5 = c" by simp_all
  qed
  ultimately show ?case using found(1) by (simp add: jpeg_walk.simps [of data p])
qed

lemma jpeg_walk_iff: "jpeg_walk data p = Some (w, h, c) \<longleftrightarrow> frame_header (drop p data) w h c"
  using jpeg_walk_sound jpeg_walk_complete by blast

lemma jpeg_frame_iff:
  "jpeg_frame data = Some (w, h, c) \<longleftrightarrow> (\<exists>s. data = [0xFF, 0xD8] @ s \<and> frame_header s w h c)"
proof -
  have "get_range data 0 2 = Some [0xFF, 0xD8] \<longleftrightarrow> (\<exists>s. data = [0xFF, 0xD8] @ s)"
    by (auto simp: get_range_def numeral_2_eq_2) (metis append_Cons append_Nil append_take_drop_id)
  then show ?thesis by (auto simp: jpeg_frame_def jpeg_walk_iff)
qed

text \<open>
  C12. An image is drawn exactly when it is a JPEG by the grammar, with a Huffman-coded frame
  header before any scan, one or three components, sides from 1 to 8192 and at most 40 million pixels
  (so its decoded form takes at most 160 MB). The walk ends on every input, and no other file is
  handed to a decoder.
\<close>

theorem displayable_image_grammar:
  "displayable_image data =
     (\<exists>s w h c. data = [0xFF, 0xD8] @ s \<and> frame_header s w h c \<and> c \<in> {1, 3}
        \<and> w \<in> {1..8192} \<and> h \<in> {1..8192} \<and> 4 * (w * h) \<le> 160000000)"
proof
  assume "displayable_image data"
  then obtain w h c where "jpeg_frame data = Some (w, h, c)" "c \<in> {1, 3}" "w \<in> {1..8192}" "h \<in> {1..8192}" "4 * (w * h) \<le> 160000000"
    by (auto simp: displayable_image_def MAX_IMAGE_SIDE_def MAX_IMAGE_PIXELS_def split: option.splits)
  then show "\<exists>s w h c. data = [0xFF, 0xD8] @ s \<and> frame_header s w h c \<and> c \<in> {1, 3}
        \<and> w \<in> {1..8192} \<and> h \<in> {1..8192} \<and> 4 * (w * h) \<le> 160000000"
    unfolding jpeg_frame_iff by blast
next
  assume "\<exists>s w h c. data = [0xFF, 0xD8] @ s \<and> frame_header s w h c \<and> c \<in> {1, 3}
        \<and> w \<in> {1..8192} \<and> h \<in> {1..8192} \<and> 4 * (w * h) \<le> 160000000"
  then obtain w h c where "jpeg_frame data = Some (w, h, c)" "c \<in> {1, 3}" "w \<in> {1..8192}" "h \<in> {1..8192}" "4 * (w * h) \<le> 160000000"
    unfolding jpeg_frame_iff by blast
  then show "displayable_image data"
    by (auto simp: displayable_image_def MAX_IMAGE_SIDE_def MAX_IMAGE_PIXELS_def mult.commute)
qed

end
