(* ===== verification/PhotoScrub.thy ===== *)
theory PhotoScrub
  imports MediaKind
begin

text \<open>
  \<open>scrub_jpeg\<close> of \<open>core/src/node/media_scrub.rs\<close>: a photo about to be sent, without its metadata
  segments and without what follows its end-of-image marker. The rewriting loop is compared with a
  description of a JPEG as marker items before its first scan (\<open>jpeg_items\<close>).
\<close>

section \<open>The rewriting\<close>

definition metadata_marker :: "byte \<Rightarrow> bool" where
  "metadata_marker m = (0xE1 \<le> m \<and> m \<le> 0xED \<or> m = 0xEF \<or> m = 0xFE)"

text \<open>\<open>windows(2).position(|w| w == [0xFF, 0xD9])\<close>, and the scan data up to there.\<close>

fun find_eoi :: "bytes \<Rightarrow> nat option" where
  "find_eoi [] = None"
| "find_eoi (b # bs) = (if prefix [0xFF, 0xD9] (b # bs) then Some 0 else map_option Suc (find_eoi bs))"

definition up_to_eoi :: "bytes \<Rightarrow> bytes" where
  "up_to_eoi rest = take (case find_eoi rest of None \<Rightarrow> length rest | Some i \<Rightarrow> i + 2) rest"

text \<open>The loop of \<open>scrub_jpeg\<close>: what it appends to the output from position \<open>p\<close> on.\<close>

function scrub_segments :: "bytes \<Rightarrow> nat \<Rightarrow> bytes option" where
  "scrub_segments data p =
     (if get_at data p \<noteq> Some 0xFF then None
      else (case skip_fill data p of
              None \<Rightarrow> None
            | Some (q, marker) \<Rightarrow>
                if standalone_marker marker
                then map_option (\<lambda>out. [0xFF, marker] @ out) (scrub_segments data (q + 1))
                else if marker = 0xDA then Some ([0xFF, marker] @ up_to_eoi (drop (q + 1) data))
                else (case get_range data (q + 1) (q + 3) of
                        None \<Rightarrow> None
                      | Some l \<Rightarrow>
                          (case get_range data (q + 1) (q + 1 + be_nat l) of
                             None \<Rightarrow> None
                           | Some seg \<Rightarrow>
                               map_option (\<lambda>out. (if metadata_marker marker then [] else [0xFF, marker] @ seg) @ out)
                                 (scrub_segments data (q + 1 + be_nat l))))))"
  by pat_completeness auto
termination
  by (relation "measure (\<lambda>(data, p). length data - p)") (auto dest: skip_fill_SomeD)

declare scrub_segments.simps [simp del]

definition scrub_jpeg :: "bytes \<Rightarrow> bytes option" where
  "scrub_jpeg data =
     (if displayable_image data then map_option (\<lambda>out. [0xFF, 0xD8] @ out) (scrub_segments data 2) else None)"

section \<open>A JPEG as items\<close>

text \<open>What stands before the first scan: markers that stand alone and segments, with fill bytes anywhere.\<close>

inductive jpeg_items :: "bytes \<Rightarrow> (byte \<times> bytes) list \<Rightarrow> bytes \<Rightarrow> bool" where
  scan: "jpeg_items (replicate (Suc n) 0xFF @ 0xDA # rest) [] rest"
| alone: "standalone_marker m \<Longrightarrow> jpeg_items s xs t \<Longrightarrow> jpeg_items (replicate (Suc n) 0xFF @ m # s) ((m, []) # xs) t"
| segment: "m \<noteq> 0xFF \<Longrightarrow> m \<noteq> 0xDA \<Longrightarrow> \<not> standalone_marker m \<Longrightarrow> length seg + 2 < 65536 \<Longrightarrow> jpeg_items s xs t \<Longrightarrow>
     jpeg_items (replicate (Suc n) 0xFF @ m # (be_bytes 2 (length seg + 2) @ seg) @ s)
       ((m, be_bytes 2 (length seg + 2) @ seg) # xs) t"

definition kept_items :: "(byte \<times> bytes) list \<Rightarrow> (byte \<times> bytes) list" where
  "kept_items xs = filter (\<lambda>x. \<not> metadata_marker (fst x)) xs"

definition write_items :: "(byte \<times> bytes) list \<Rightarrow> bytes" where
  "write_items xs = concat (map (\<lambda>x. [0xFF, fst x] @ snd x) xs)"

definition written :: "(byte \<times> bytes) list \<Rightarrow> bytes \<Rightarrow> bytes" where
  "written xs t = write_items xs @ [0xFF, 0xDA] @ t"

lemma written_Cons: "written (x # xs) t = [0xFF, fst x] @ snd x @ written xs t"
  by (simp add: written_def write_items_def)

lemma written_Nil: "written [] t = [0xFF, 0xDA] @ t"
  by (simp add: written_def write_items_def)

text \<open>A loop position that starts with 0xFF: the run of fill bytes and the marker after it.\<close>

lemma marker_at:
  assumes "get_at data p = Some 0xFF" and "skip_fill data p = Some (q, m)"
  obtains n where "drop p data = replicate (Suc n) 0xFF @ m # drop (q + 1) data" and "m \<noteq> 0xFF"
proof -
  note sk = skip_fill_SomeD [OF assms(2)]
  have "q \<noteq> p" using sk get_at_SomeD [OF assms(1)] by (auto simp: drop_get_at [OF assms(1)])
  then obtain n where "q - p = Suc n" using sk by (metis Suc_diff_Suc le_neq_implies_less)
  with sk that show ?thesis by metis
qed

lemma standalone_not_scan: "standalone_marker m \<Longrightarrow> m \<noteq> 0xDA"
  by (auto simp: standalone_marker_def word_le_nat_alt)

lemma standalone_not_metadata: "standalone_marker m \<Longrightarrow> \<not> metadata_marker m"
  by (auto simp: standalone_marker_def metadata_marker_def word_le_nat_alt)

lemma scrub_segments_sound:
  "scrub_segments data p = Some out \<Longrightarrow> \<exists>xs t. jpeg_items (drop p data) xs t \<and> out = written (kept_items xs) (up_to_eoi t)"
proof (induction data p arbitrary: out rule: scrub_segments.induct)
  case (1 data p)
  from "1.prems" obtain q m where start: "get_at data p = Some 0xFF" "skip_fill data p = Some (q, m)"
    by (auto simp: scrub_segments.simps [of data p] split: if_splits option.splits)
  obtain n where d: "drop p data = replicate (Suc n) 0xFF @ m # drop (q + 1) data" "m \<noteq> 0xFF"
    using marker_at [OF start] .
  note step = "1.prems" [unfolded scrub_segments.simps [of data p], simplified start, simplified]
  show ?case
  proof (cases "standalone_marker m")
    case True
    with step obtain r where r: "scrub_segments data (q + 1) = Some r" "out = [0xFF, m] @ r" by auto
    from "1.IH"(1) [OF _ start(2) refl True r(1)] start(1) obtain xs t
      where "jpeg_items (drop (q + 1) data) xs t" "r = written (kept_items xs) (up_to_eoi t)" by auto
    with jpeg_items.alone [OF True, of "drop (q + 1) data" xs t n] r(2) standalone_not_metadata [OF True] show ?thesis
      unfolding d(1) by (intro exI [of _ "(m, []) # xs"] exI [of _ t]) (simp add: kept_items_def written_Cons)
  next
    case alone: False
    show ?thesis
    proof (cases "m = 0xDA")
      case True
      with step alone have "out = written (kept_items []) (up_to_eoi (drop (q + 1) data))"
        by (simp add: written_Nil kept_items_def)
      with jpeg_items.scan [of n "drop (q + 1) data"] True d(1) show ?thesis by metis
    next
      case scan: False
      with step alone obtain l seg r where l: "get_range data (q + 1) (q + 3) = Some l"
        and seg: "get_range data (q + 1) (q + 1 + be_nat l) = Some seg"
        and r: "scrub_segments data (q + 1 + be_nat l) = Some r" "out = (if metadata_marker m then [] else [0xFF, m] @ seg) @ r"
        by (auto split: option.splits)
      have l': "l = take 2 (drop (q + 1) data)" "length l = 2" using get_range_SomeD [OF l] by (auto simp: min_def)
      have seg': "seg = take (be_nat l) (drop (q + 1) data)" "length seg = be_nat l" using get_range_SomeD [OF seg] by (auto simp: min_def)
      have lb: "be_bytes 2 (be_nat l) = l" "be_nat l < 65536" using be_bytes_be_nat [of l] be_nat_bound [of l] l'(2) by simp_all
      have long: "2 \<le> be_nat l"
      proof (rule ccontr)
        assume "\<not> 2 \<le> be_nat l"
        then have small: "be_nat l < 2" by simp
        from l'(2) obtain a b where ab: "l = [a, b]" by (auto simp: numeral_2_eq_2 length_Suc_conv)
        from small have "a = 0" "unat b = be_nat l" by (auto simp: ab be_nat_def unat_eq_0 [symmetric])
        moreover have "get_at data (q + 1 + be_nat l) = Some 0xFF" using r(1) by (auto simp: scrub_segments.simps split: if_splits)
        moreover have "get_at data (q + 1) = Some a" "get_at data (q + 2) = Some b"
          using get_range_SomeD [OF l] ab by (auto simp: get_at_def take_Suc_conv_app_nth numeral_2_eq_2 nth_append)
        moreover have "be_nat l = 0 \<or> be_nat l = 1" using small by auto
        ultimately show False by (elim disjE) (simp_all add: add.assoc)
      qed
      have segl: "seg = be_bytes 2 (length (drop 2 seg) + 2) @ drop 2 seg"
        using long seg' l' lb by (metis (no_types, lifting) append_take_drop_id le_add_diff_inverse2 length_drop min.absorb1 take_take)
      from "1.IH"(2) [OF _ start(2) refl alone scan l seg r(1)] start(1) obtain xs t
        where x: "jpeg_items (drop (q + 1 + be_nat l) data) xs t" "r = written (kept_items xs) (up_to_eoi t)" by auto
      have "drop (q + 1) data = seg @ drop (q + 1 + be_nat l) data"
        using seg'(1) by (metis add.commute append_take_drop_id drop_drop)
      moreover have "length (drop 2 seg) + 2 < 65536" using long seg'(2) lb(2) by simp
      note jpeg_items.segment [OF d(2) scan alone this x(1), of n, folded segl]
      ultimately have "jpeg_items (drop p data) ((m, seg) # xs) t" unfolding d(1) by simp
      moreover have "out = written (kept_items ((m, seg) # xs)) (up_to_eoi t)"
        using r(2) x(2) by (simp add: kept_items_def written_Cons)
      ultimately show ?thesis by blast
    qed
  qed
qed


lemma scrub_segments_complete:
  "jpeg_items s xs t \<Longrightarrow> drop p data = s \<Longrightarrow> scrub_segments data p = Some (written (kept_items xs) (up_to_eoi t))"
proof (induction arbitrary: p rule: jpeg_items.induct)
  case (scan n rest)
  from scan have "get_at data p = Some 0xFF" using get_at_drop [of p data "0xFF"] by simp
  moreover have "skip_fill data p = Some (p + Suc n, 0xDA) \<and> drop (p + Suc n + 1) data = rest"
    using skip_fill_run [OF scan] by simp
  ultimately show ?case
    by (simp add: scrub_segments.simps [of data p] standalone_marker_def word_le_nat_alt kept_items_def written_Nil)
next
  case (alone m s xs t n)
  from alone(4) have "get_at data p = Some 0xFF" using get_at_drop [of p data "0xFF"] by simp
  moreover note skip_fill_run [OF alone(4) standalone_marker_excl [OF alone(1)]]
  ultimately show ?case using alone(1) alone(3) [of "p + Suc n + 1"] standalone_not_metadata [OF alone(1)]
    by (simp add: scrub_segments.simps [of data p] kept_items_def written_Cons)
next
  case (segment m seg s xs t n)
  let ?l = "be_bytes 2 (length seg + 2)"
  from segment(7) have "get_at data p = Some 0xFF" using get_at_drop [of p data "0xFF"] by simp
  moreover have sk: "skip_fill data p = Some (p + Suc n, m) \<and> drop (p + Suc n + 1) data = (?l @ seg) @ s"
    using skip_fill_run [OF segment(7) segment(1)] by simp
  moreover have "be_nat ?l = length seg + 2" using segment(4) be_nat_be_bytes [of "length seg + 2" 2] by simp
  moreover have "get_range data (p + Suc n + 1) (p + Suc n + 3) = Some ?l"
    and "get_range data (p + Suc n + 1) (p + Suc n + 1 + (length seg + 2)) = Some (?l @ seg)"
    and "drop (p + Suc n + 1 + (length seg + 2)) data = s"
  proof -
    have d: "drop (p + Suc n + 1) data = (?l @ seg) @ s" using sk by blast
    then have len: "p + Suc n + 1 + (length seg + 2) \<le> length data"
    proof -
      have "length (drop (p + Suc n + 1) data) = length seg + 2 + length s" unfolding d by simp
      then show ?thesis by simp
    qed
    show "get_range data (p + Suc n + 1) (p + Suc n + 3) = Some ?l"
      using len d by (simp add: get_range_def)
    show "get_range data (p + Suc n + 1) (p + Suc n + 1 + (length seg + 2)) = Some (?l @ seg)"
      using len d by (simp add: get_range_def)
    have "drop (p + Suc n + 1 + (length seg + 2)) data = drop (length seg + 2) (drop (p + Suc n + 1) data)"
      by (simp add: add.commute add.left_commute)
    then show "drop (p + Suc n + 1 + (length seg + 2)) data = s" unfolding d by simp
  qed
  ultimately show ?case
    using segment(2,3) segment(6) [of "p + Suc n + 1 + (length seg + 2)"]
    by (simp add: scrub_segments.simps [of data p] kept_items_def written_Cons)
qed

lemma scrub_jpeg_iff:
  "scrub_jpeg data = Some out \<longleftrightarrow>
     displayable_image data \<and>
     (\<exists>xs t. jpeg_items (drop 2 data) xs t \<and> out = [0xFF, 0xD8] @ written (kept_items xs) (up_to_eoi t))"
  using scrub_segments_sound [of data 2] scrub_segments_complete [OF _ refl, of 2 data]
  by (auto simp: scrub_jpeg_def)

section \<open>What is sent\<close>

lemma kept_items_idem: "kept_items (kept_items xs) = kept_items xs"
  by (simp add: kept_items_def)

lemma items_written: "jpeg_items s xs t \<Longrightarrow> jpeg_items (written (kept_items xs) t') (kept_items xs) t'"
proof (induction rule: jpeg_items.induct)
  case (scan n rest)
  then show ?case using jpeg_items.scan [of 0 t'] by (simp add: kept_items_def written_Nil)
next
  case (alone m s xs t n)
  with jpeg_items.alone [OF alone(1) alone(3), of 0] standalone_not_metadata [OF alone(1)] show ?case
    by (simp add: kept_items_def written_Cons)
next
  case (segment m seg s xs t n)
  with jpeg_items.segment [OF segment(1-4) segment(6), of 0] show ?case
    by (simp add: kept_items_def written_Cons)
qed

text \<open>The end-of-image marker is found again where the copy was cut.\<close>

lemma find_eoi_bound: "find_eoi bs = Some i \<Longrightarrow> i + 2 \<le> length bs"
proof (induction bs arbitrary: i)
  case Nil
  then show ?case by simp
next
  case (Cons b bs)
  then show ?case by (auto simp: prefix_def split: if_splits)
qed

lemma find_eoi_take: "find_eoi bs = Some i \<Longrightarrow> find_eoi (take (i + 2) bs) = Some i"
proof (induction bs arbitrary: i)
  case Nil
  then show ?case by simp
next
  case (Cons b bs)
  show ?case
  proof (cases "prefix [0xFF, 0xD9] (b # bs)")
    case True
    with Cons.prems show ?thesis by (auto simp: prefix_def numeral_2_eq_2)
  next
    case False
    with Cons.prems obtain j where j: "find_eoi bs = Some j" "i = Suc j" by auto
    have "\<not> prefix [0xFF, 0xD9] (take (i + 2) (b # bs))"
      using False by (auto simp: prefix_def take_Suc_conv_app_nth) (metis append_Cons append_assoc append_take_drop_id)
    with Cons.IH [OF j(1)] j(2) show ?thesis by simp
  qed
qed

lemma up_to_eoi_idem: "up_to_eoi (up_to_eoi t) = up_to_eoi t"
  using find_eoi_take [of t] find_eoi_bound [of t] by (auto simp: up_to_eoi_def split: option.splits)

text \<open>The frame header is among the items, and survives.\<close>

lemma frame_marker_kept: "frame_marker m \<Longrightarrow> \<not> metadata_marker m \<and> m \<noteq> 0xDA"
  by (auto simp: frame_marker_def metadata_marker_def word_le_nat_alt)


lemma segment_whole:
  assumes "segment_at data p = Some (len, seg)"
  shows "\<exists>l. get_range data p (p + 2) = Some l \<and> be_nat l = len \<and> get_range data p (p + len) = Some (be_bytes 2 len @ seg)"
proof -
  obtain l where l: "get_range data p (p + 2) = Some l" "be_nat l = len" "get_range data (p + 2) (p + len) = Some seg"
    using assms by (auto simp: segment_at_def bind_eq_Some_conv Let_def split: if_splits)
  note sg = segment_at_SomeD [OF assms]
  then have "length (be_bytes 2 len @ seg) = len" by simp
  with sg have "take len (drop p data) = be_bytes 2 len @ seg" by (metis append.assoc append_eq_conv_conj)
  with l show ?thesis using get_range_SomeD [OF l(3)] by (auto simp: get_range_def)
qed

lemma frame_survives:
  "jpeg_walk data p = Some (w, h, c) \<Longrightarrow> scrub_segments data p = Some out \<Longrightarrow> frame_header out w h c"
proof (induction data p arbitrary: out rule: jpeg_walk.induct)
  case (1 data p)
  from "1.prems"(1) obtain q m where start: "get_at data p = Some 0xFF" "skip_fill data p = Some (q, m)"
    by (auto simp: jpeg_walk.simps [of data p] split: if_splits option.splits)
  have mff: "m \<noteq> 0xFF" using skip_fill_SomeD [OF start(2)] by simp
  note walk = "1.prems"(1) [unfolded jpeg_walk.simps [of data p], simplified start, simplified]
  note scrub = "1.prems"(2) [unfolded scrub_segments.simps [of data p], simplified start, simplified]
  show ?case
  proof (cases "standalone_marker m")
    case True
    with scrub obtain r where r: "scrub_segments data (q + 1) = Some r" "out = [0xFF, m] @ r" by auto
    with walk True "1.IH"(1) [OF _ start(2) refl True _ r(1)] start(1) have "frame_header r w h c" by simp
    with frame_header.alone [OF True, of r w h c 0] r(2) show ?thesis by simp
  next
    case alone: False
    with walk obtain len seg where seg: "\<not> stop_marker m" "segment_at data (q + 1) = Some (len, seg)"
      by (auto split: if_splits option.splits)
    have da: "m \<noteq> 0xDA" using seg(1) by (auto simp: stop_marker_def word_le_nat_alt)
    note sg = segment_at_SomeD [OF seg(2)]
    from segment_whole [OF seg(2)] scrub alone da obtain r where r: "scrub_segments data (q + 1 + len) = Some r"
      "out = (if metadata_marker m then [] else [0xFF, m] @ be_bytes 2 len @ seg) @ r"
      by (auto simp: numeral_3_eq_3)
    show ?thesis
    proof (cases "frame_marker m")
      case True
      with walk alone seg have l: "6 \<le> length seg" and whc: "w = be_nat [seg ! 3, seg ! 4]" "h = be_nat [seg ! 1, seg ! 2]" "c = seg ! 5"
        by (auto split: if_splits)
      from frame_segment [OF True l, of 0 r] sg whc frame_marker_kept [OF True] r(2) show ?thesis by simp
    next
      case False
      with walk alone seg have o: "\<not> other_frame_marker m" "jpeg_walk data (q + 1 + len) = Some (w, h, c)"
        by (auto split: if_splits)
      from "1.IH"(2) [OF _ start(2) refl alone seg refl False o r(1)] start(1) have "frame_header r w h c" by simp
      with frame_header.passed [OF mff alone seg(1) False o(1), of seg r w h c 0] sg r(2) show ?thesis by simp
    qed
  qed
qed

text \<open>
  C13. A sent photo carries no metadata segment before its scan and still is the same picture:
  the output is what stood in the photo before its first scan, item by item, less APP1 to APP13, APP15 and comments,
  followed by all that came from that scan on, as it was, up to the end-of-image marker (a metadata segment in there
  is kept, see \<open>later_metadata_kept\<close>); the recipient will draw it, with the frame
  (sides, components) of the original; and scrubbing it again changes nothing.
\<close>

theorem scrubbed_photo_clean:
  assumes "scrub_jpeg data = Some out"
  shows "(\<exists>xs t. jpeg_items (drop 2 data) xs t \<and> out = [0xFF, 0xD8] @ written (kept_items xs) (up_to_eoi t)
                 \<and> jpeg_items (drop 2 out) (kept_items xs) (up_to_eoi t))
       \<and> displayable_image out \<and> jpeg_frame out = jpeg_frame data \<and> scrub_jpeg out = Some out"
proof -
  obtain xs t where x: "displayable_image data" "jpeg_items (drop 2 data) xs t"
      "out = [0xFF, 0xD8] @ written (kept_items xs) (up_to_eoi t)"
    using assms by (auto simp: scrub_jpeg_iff)
  have y: "jpeg_items (drop 2 out) (kept_items xs) (up_to_eoi t)" using items_written [OF x(2)] x(3) by simp
  obtain w h c where f: "jpeg_frame data = Some (w, h, c)" using x(1) by (auto simp: displayable_image_def split: option.splits)
  then have "jpeg_walk data 2 = Some (w, h, c)" by (auto simp: jpeg_frame_def split: if_splits)
  from frame_survives [OF this scrub_segments_complete [OF x(2) refl]] x(3)
  have g: "jpeg_frame out = Some (w, h, c)" by (simp add: jpeg_frame_iff)
  with f x(1) have "displayable_image out" by (simp add: displayable_image_def)
  moreover from this y x(3) have "scrub_jpeg out = Some out"
    unfolding scrub_jpeg_iff using kept_items_idem up_to_eoi_idem by metis
  ultimately show ?thesis using x y f g by auto
qed


definition sample_photo :: bytes where
  "sample_photo = [0xFF, 0xD8, 0xFF, 0xE1, 0, 4, 65, 66, 0xFF, 0xC2, 0, 8, 8, 0, 1, 0, 2, 1, 0xFF, 0xDA, 7, 0xFF, 0xD9, 9]"

text \<open>The same photo with a comment between its first scan and its end, as a progressive JPEG may have it.\<close>

definition commented_photo :: bytes where
  "commented_photo = [0xFF, 0xD8, 0xFF, 0xC2, 0, 8, 8, 0, 1, 0, 2, 1, 0xFF, 0xDA, 7, 0xFF, 0xFE, 0, 4, 65, 66, 0xFF, 0xDA, 8, 0xFF, 0xD9]"

lemma be_bytes_samples: "be_bytes 2 v = [of_nat (v div 256 mod 256), of_nat (v mod 256)]"
  by (simp add: numeral_2_eq_2)

lemma sample_markers: "standalone_marker 0xE1 = False" "standalone_marker 0xC2 = False" "frame_marker 0xC2"
  "metadata_marker 0xE1" "metadata_marker 0xFE" "metadata_marker 0xC2 = False" "frame_marker 0xE1 = False"
  "stop_marker 0xE1 = False" "other_frame_marker 0xE1 = False"
  by (simp_all add: standalone_marker_def frame_marker_def metadata_marker_def stop_marker_def other_frame_marker_def word_le_nat_alt)

lemma sample_frame: "frame_header ([0xFF, 0xC2, 0, 8, 8, 0, 1, 0, 2, 1] @ s) 2 1 1"
  using frame_header.found [of "0xC2" "[]" 2 1 0 8 1 s] by (simp add: sample_markers be_bytes_samples)

lemma sample_items: "jpeg_items ([0xFF, 0xC2, 0, 8, 8, 0, 1, 0, 2, 1, 0xFF, 0xDA] @ t) [(0xC2, [0, 8, 8, 0, 1, 0, 2, 1])] t"
  using jpeg_items.segment [OF _ _ _ _ jpeg_items.scan [of 0 t], of "0xC2" "[8, 0, 1, 0, 2, 1]" 0]
  by (simp add: sample_markers be_bytes_samples)

lemma sample_scrubbed:
  "scrub_jpeg sample_photo = Some [0xFF, 0xD8, 0xFF, 0xC2, 0, 8, 8, 0, 1, 0, 2, 1, 0xFF, 0xDA, 7, 0xFF, 0xD9]"
proof -
  let ?t = "[7, 0xFF, 0xD9, 9] :: bytes"
  have "jpeg_items (drop 2 sample_photo) [(0xE1, [0, 4, 65, 66]), (0xC2, [0, 8, 8, 0, 1, 0, 2, 1])] ?t"
    using jpeg_items.segment [OF _ _ _ _ sample_items [of ?t], of "0xE1" "[65, 66]" 0]
    by (simp add: sample_photo_def sample_markers be_bytes_samples)
  moreover have "frame_header (drop 2 sample_photo) 2 1 1"
    using frame_header.passed [OF _ _ _ _ _ _ sample_frame [of "[0xFF, 0xDA] @ ?t"], of "0xE1" "[65, 66]" 0]
    by (simp add: sample_photo_def sample_markers be_bytes_samples)
  then have "displayable_image sample_photo"
    unfolding displayable_image_grammar by (intro exI [of _ "drop 2 sample_photo"] exI [of _ 2] exI [of _ 1]) (simp add: sample_photo_def)
  moreover have "[0xFF, 0xD8, 0xFF, 0xC2, 0, 8, 8, 0, 1, 0, 2, 1, 0xFF, 0xDA, 7, 0xFF, 0xD9] =
      [0xFF, 0xD8] @ written (kept_items [(0xE1, [0, 4, 65, 66]), (0xC2, [0, 8, 8, 0, 1, 0, 2, 1])]) (up_to_eoi ?t)"
    by (simp add: written_def write_items_def kept_items_def sample_markers up_to_eoi_def)
  ultimately show ?thesis unfolding scrub_jpeg_iff by blast
qed

text \<open>
  Only what stands before the first scan is looked at: a comment after it is sent as it is.
\<close>

lemma later_metadata_kept:
  "scrub_jpeg commented_photo = Some commented_photo
   \<and> sublist [0xFF, 0xFE, 0, 4, 65, 66] commented_photo \<and> metadata_marker 0xFE"
proof -
  let ?t = "[7, 0xFF, 0xFE, 0, 4, 65, 66, 0xFF, 0xDA, 8, 0xFF, 0xD9] :: bytes"
  have "jpeg_items (drop 2 commented_photo) [(0xC2, [0, 8, 8, 0, 1, 0, 2, 1])] ?t"
    using sample_items [of ?t] by (simp add: commented_photo_def)
  moreover have "frame_header (drop 2 commented_photo) 2 1 1"
    using sample_frame [of "[0xFF, 0xDA] @ ?t"] by (simp add: commented_photo_def)
  then have "displayable_image commented_photo"
    unfolding displayable_image_grammar by (intro exI [of _ "drop 2 commented_photo"] exI [of _ 2] exI [of _ 1]) (simp add: commented_photo_def)
  moreover have "commented_photo = [0xFF, 0xD8] @ written (kept_items [(0xC2, [0, 8, 8, 0, 1, 0, 2, 1])]) (up_to_eoi ?t)"
    by (simp add: commented_photo_def written_def write_items_def kept_items_def sample_markers up_to_eoi_def)
  ultimately have "scrub_jpeg commented_photo = Some commented_photo" unfolding scrub_jpeg_iff by blast
  moreover have "sublist [0xFF, 0xFE, 0, 4, 65, 66] commented_photo"
    by (simp add: commented_photo_def sublist_Cons_right)
  ultimately show ?thesis by (simp add: sample_markers)
qed

theorem scrubbed_photo_clean_witness:
  "displayable_image [0xFF, 0xD8, 0xFF, 0xC2, 0, 8, 8, 0, 1, 0, 2, 1, 0xFF, 0xDA, 7, 0xFF, 0xD9]"
  using scrubbed_photo_clean [OF sample_scrubbed] by simp

end
