(* ===== verification/VideoScrub.thy ===== *)
theory VideoScrub
  imports MediaKind
begin

text \<open>
  \<open>scrub_video\<close> of \<open>core/src/node/media_scrub.rs\<close>: a video about to be sent, with its metadata boxes
  turned into padding and its timestamps zeroed, in place. The file and the counts of what was done
  are threaded through as a pair. Each level of the walk (a file's boxes, a movie's, a track's, RIFF
  chunks, Matroska elements) is a list of disjoint spans edited one after the other; the locales
  \<open>span_edits\<close> and \<open>box_edits\<close> say what that gives, and are interpreted at every level.
\<close>

unbundle bit_operations_syntax

section \<open>Editing in place\<close>

record scrubbed =
  blanked :: nat
  times_zeroed :: nat

type_synonym scrub_state = "bytes \<times> scrubbed"

datatype video_error = NotCleanable | HeaderUnreadable

text \<open>\<open>data[a..b].fill(0)\<close>.\<close>

definition zero_range :: "bytes \<Rightarrow> nat \<Rightarrow> nat \<Rightarrow> bytes" where
  "zero_range data a b = put_range data a (replicate (b - a) 0)"

definition count_blanked :: "scrubbed \<Rightarrow> scrubbed" where
  "count_blanked n = n\<lparr>blanked := blanked n + 1\<rparr>"

text \<open>A loop over what a walk found, each step editing the file, until one fails.\<close>

fun run_all :: "('i \<Rightarrow> 's \<Rightarrow> 'e + 's) \<Rightarrow> 'i list \<Rightarrow> 's \<Rightarrow> 'e + 's" where
  "run_all edit [] s = Inr s"
| "run_all edit (i # is) s = (case edit i s of Inl e \<Rightarrow> Inl e | Inr s' \<Rightarrow> run_all edit is s')"

section \<open>ISO base media\<close>

record iso_box =
  kind :: bytes
  box_start :: nat
  box_body :: nat
  box_end :: nat

definition iso_box_size :: "bytes \<Rightarrow> nat \<Rightarrow> nat \<Rightarrow> nat \<Rightarrow> (nat \<times> nat) option" where
  "iso_box_size data p stop size32 =
     (if size32 = 0 then Some (8, stop - p)
      else if size32 = 1 then map_option (\<lambda>b. (16, be_nat b)) (get_range data (p + 8) (p + 16))
      else Some (8, size32))"

definition iso_box_at :: "bytes \<Rightarrow> nat \<Rightarrow> nat \<Rightarrow> iso_box option" where
  "iso_box_at data p stop =
     Option.bind (get_range data p (p + 8)) (\<lambda>head.
     Option.bind (iso_box_size data p stop (be_nat (take 4 head))) (\<lambda>(header, size).
       if size < header \<or> stop - p < size then None
       else Some \<lparr>kind = drop 4 head, box_start = p, box_body = p + header, box_end = p + size\<rparr>))"

lemma iso_box_at_SomeD:
  assumes "iso_box_at data p n = Some b"
  shows "box_start b = p \<and> p + 8 \<le> box_body b \<and> box_body b \<le> box_end b \<and> box_end b \<le> max p n
    \<and> box_body b \<in> {p + 8, p + 16} \<and> p + 8 \<le> length data \<and> kind b = take 4 (drop (p + 4) data)"
  using assms
  by (auto simp: iso_box_at_def iso_box_size_def bind_eq_Some_conv drop_take add.commute dest!: get_range_SomeD split: if_splits)

function iso_boxes :: "bytes \<Rightarrow> nat \<Rightarrow> nat \<Rightarrow> iso_box list \<times> bool" where
  "iso_boxes data p n =
     (if p < n
      then (case iso_box_at data p n of
              None \<Rightarrow> ([], False)
            | Some b \<Rightarrow> (let (bs, whole) = iso_boxes data (box_end b) n in (b # bs, whole)))
      else ([], True))"
  by pat_completeness auto
termination
  by (relation "measure (\<lambda>(data, p, n). n - p)") (auto dest!: iso_box_at_SomeD)

declare iso_boxes.simps [simp del]

definition ISO_METADATA :: "bytes list" where
  "ISO_METADATA = map tag [''udta'', ''meta'', ''uuid'', ''XMP_'']"

definition blank_iso :: "iso_box \<Rightarrow> scrub_state \<Rightarrow> scrub_state" where
  "blank_iso b s =
     (zero_range (put_range (fst s) (box_start b + 4) (tag ''free'')) (box_body b) (box_end b), count_blanked (snd s))"

definition zero_iso_times :: "iso_box \<Rightarrow> scrub_state \<Rightarrow> scrub_state" where
  "zero_iso_times b s =
     (case get_at (fst s) (box_body b) of
        None \<Rightarrow> s
      | Some version \<Rightarrow>
          (let width = if version = 1 then 8 else 4; from = box_body b + 4; stop = box_body b + 4 + 2 * width
           in if stop \<le> box_end b
              then (zero_range (fst s) from stop, (snd s)\<lparr>times_zeroed := times_zeroed (snd s) + 2\<rparr>)
              else s))"

text \<open>Walking into a box that must split into boxes to its end.\<close>

definition walk_into ::
  "(iso_box \<Rightarrow> scrub_state \<Rightarrow> video_error + scrub_state) \<Rightarrow> iso_box \<Rightarrow> scrub_state \<Rightarrow> video_error + scrub_state" where
  "walk_into edit b s =
     (let (cs, whole) = iso_boxes (fst s) (box_body b) (box_end b)
      in if whole then run_all edit cs s else Inl HeaderUnreadable)"

definition scrub_mdia_item :: "iso_box \<Rightarrow> scrub_state \<Rightarrow> video_error + scrub_state" where
  "scrub_mdia_item x s = (if kind x = tag ''mdhd'' then Inr (zero_iso_times x s) else Inr s)"

definition scrub_trak_item :: "iso_box \<Rightarrow> scrub_state \<Rightarrow> video_error + scrub_state" where
  "scrub_trak_item t s =
     (if kind t = tag ''tkhd'' then Inr (zero_iso_times t s)
      else if kind t = tag ''mdia'' then walk_into scrub_mdia_item t s
      else if kind t \<in> set ISO_METADATA then Inr (blank_iso t s)
      else Inr s)"

definition scrub_moov_item :: "iso_box \<Rightarrow> scrub_state \<Rightarrow> video_error + scrub_state" where
  "scrub_moov_item b s =
     (if kind b = tag ''mvhd'' then Inr (zero_iso_times b s)
      else if kind b = tag ''trak'' then walk_into scrub_trak_item b s
      else if kind b \<in> set ISO_METADATA then Inr (blank_iso b s)
      else Inr s)"

definition scrub_moov :: "iso_box \<Rightarrow> scrub_state \<Rightarrow> video_error + scrub_state" where
  "scrub_moov = walk_into scrub_moov_item"

definition scrub_iso_item :: "iso_box \<Rightarrow> scrub_state \<Rightarrow> video_error + scrub_state" where
  "scrub_iso_item b s =
     (if kind b = tag ''moov'' then scrub_moov b s
      else if kind b \<in> set ISO_METADATA then Inr (blank_iso b s)
      else Inr s)"

text \<open>What follows the last box is zeroed, unless it starts like a box of the movie cut short.\<close>

definition truncated_box :: "bytes \<Rightarrow> nat \<Rightarrow> bool" where
  "truncated_box data from =
     (case get_range data (from + 4) (from + 8) of
        None \<Rightarrow> False
      | Some k \<Rightarrow> k \<in> set (map tag [''mdat'', ''moof'', ''mfra'', ''moov'']))"

definition scrub_trailer :: "nat \<Rightarrow> scrub_state \<Rightarrow> scrub_state" where
  "scrub_trailer from s =
     (if from < length (fst s) \<and> \<not> truncated_box (fst s) from
      then (zero_range (fst s) from (length (fst s)), count_blanked (snd s)) else s)"

definition last_end :: "iso_box list \<Rightarrow> nat" where
  "last_end bs = (if bs = [] then 0 else box_end (last bs))"

definition scrub_iso :: "scrub_state \<Rightarrow> video_error + scrub_state" where
  "scrub_iso s =
     (let tops = fst (iso_boxes (fst s) 0 (length (fst s)))
      in if tops = [] \<or> kind (hd tops) \<notin> set (map tag [''ftyp'', ''moov'', ''mdat'', ''wide'', ''free'', ''skip''])
         then Inl NotCleanable
         else (case run_all scrub_iso_item tops s of
                 Inl e \<Rightarrow> Inl e
               | Inr s' \<Rightarrow>
                   if \<not> list_ex (\<lambda>b. kind b = tag ''moov'') tops then Inl HeaderUnreadable
                   else Inr (scrub_trailer (last_end tops) s')))"

section \<open>Matroska\<close>

definition EBML_HEADER :: nat where "EBML_HEADER = 0x1A45DFA3"
definition SEGMENT :: nat where "SEGMENT = 0x18538067"
definition SEG_INFO :: nat where "SEG_INFO = 0x1549A966"
definition SEG_TAGS :: nat where "SEG_TAGS = 0x1254C367"
definition SEG_ATTACHMENTS :: nat where "SEG_ATTACHMENTS = 0x1941A469"
definition INFO_DATE_UTC :: nat where "INFO_DATE_UTC = 0x4461"
definition INFO_TITLE :: nat where "INFO_TITLE = 0x7BA9"

text \<open>\<open>u8::leading_zeros\<close>.\<close>

definition leading_zeros :: "byte \<Rightarrow> nat" where
  "leading_zeros b = length (takeWhile (\<lambda>i. \<not> bit b i) (rev [0..<8]))"

definition ebml_id :: "bytes \<Rightarrow> nat \<Rightarrow> (nat \<times> nat) option" where
  "ebml_id data p =
     Option.bind (get_at data p) (\<lambda>first.
       let len = leading_zeros first + 1
       in if 4 < len then None else map_option (\<lambda>bs. (be_nat bs, len)) (get_range data p (p + len)))"

text \<open>A size: the bits of the first byte after its marker, then the others; all ones mean unknown.\<close>

definition vint_value :: "byte \<Rightarrow> bytes \<Rightarrow> nat option" where
  "vint_value first bs =
     (let v = foldl (\<lambda>v b. v * 256 + unat b) (unat first mod 2 ^ (8 - length bs)) (drop 1 bs)
      in if v = 2 ^ (7 * length bs) - 1 then None else Some v)"

definition ebml_size :: "bytes \<Rightarrow> nat \<Rightarrow> (nat option \<times> nat) option" where
  "ebml_size data p =
     Option.bind (get_at data p) (\<lambda>first.
       let len = leading_zeros first + 1
       in if 8 < len then None else map_option (\<lambda>bs. (vint_value first bs, len)) (get_range data p (p + len)))"

record ebml =
  el_id :: nat
  el_start :: nat
  el_body :: nat
  el_end :: "nat option"

definition ebml_at :: "bytes \<Rightarrow> nat \<Rightarrow> nat \<Rightarrow> ebml option" where
  "ebml_at data p limit =
     Option.bind (ebml_id data p) (\<lambda>(i, il).
     Option.bind (ebml_size data (p + il)) (\<lambda>(size, sl).
       let bd = p + il + sl
       in case size of
            None \<Rightarrow> Some \<lparr>el_id = i, el_start = p, el_body = bd, el_end = None\<rparr>
          | Some s \<Rightarrow>
              if bd + s \<le> limit then Some \<lparr>el_id = i, el_start = p, el_body = bd, el_end = Some (bd + s)\<rparr> else None))"

definition ebml_void :: "nat \<Rightarrow> nat \<Rightarrow> scrub_state \<Rightarrow> scrub_state" where
  "ebml_void start fin s =
     (let len = fin - start;
          d = put_range (zero_range (fst s) start fin) start [0xEC];
          d = (if 9 \<le> len then put_range d (start + 1) (0x01 # be_bytes 7 (len - 9))
               else if 2 \<le> len then put_range d (start + 1) [0x80 OR of_nat (len - 2)]
               else d)
      in (d, count_blanked (snd s)))"

lemma ebml_id_SomeD: "ebml_id data p = Some (i, il) \<Longrightarrow> 1 \<le> il \<and> p + il \<le> length data"
  by (auto simp: ebml_id_def bind_eq_Some_conv Let_def dest: get_range_SomeD split: if_splits)

lemma ebml_size_SomeD: "ebml_size data p = Some (v, sl) \<Longrightarrow> 1 \<le> sl \<and> p + sl \<le> length data"
  by (auto simp: ebml_size_def bind_eq_Some_conv Let_def dest: get_range_SomeD split: if_splits)

lemma ebml_at_SomeD:
  assumes "ebml_at data p stop = Some el"
  shows "el_start el = p \<and> p + 2 \<le> el_body el \<and> el_body el \<le> length data
    \<and> (el_end el = None \<or> (\<exists>e. el_end el = Some e \<and> p < e \<and> el_body el \<le> e \<and> e \<le> stop))"
proof -
  obtain i il v sl where "ebml_id data p = Some (i, il)" "ebml_size data (p + il) = Some (v, sl)"
    and el: "(case v of None \<Rightarrow> Some \<lparr>el_id = i, el_start = p, el_body = p + il + sl, el_end = None\<rparr>
       | Some s \<Rightarrow> if p + il + sl + s \<le> stop
                   then Some \<lparr>el_id = i, el_start = p, el_body = p + il + sl, el_end = Some (p + il + sl + s)\<rparr> else None) = Some el"
    using assms by (auto simp: ebml_at_def bind_eq_Some_conv Let_def)
  note ebml_id_SomeD [OF this(1)] ebml_size_SomeD [OF this(2)]
  with el show ?thesis by (auto split: option.splits if_splits)
qed

definition info_item :: "ebml \<Rightarrow> nat \<Rightarrow> scrub_state \<Rightarrow> scrub_state" where
  "info_item c c_end s =
     (if el_id c = INFO_DATE_UTC
      then (zero_range (fst s) (el_body c) c_end, (snd s)\<lparr>times_zeroed := times_zeroed (snd s) + 1\<rparr>)
      else if el_id c = INFO_TITLE then ebml_void (el_start c) c_end s
      else s)"

function scrub_info :: "nat \<Rightarrow> nat \<Rightarrow> scrub_state \<Rightarrow> scrub_state" where
  "scrub_info q fin s =
     (if q < fin
      then (case ebml_at (fst s) q fin of
              None \<Rightarrow> s
            | Some c \<Rightarrow> (case el_end c of None \<Rightarrow> s | Some c_end \<Rightarrow> scrub_info c_end fin (info_item c c_end s)))
      else s)"
  by pat_completeness auto
termination
  by (relation "measure (\<lambda>(q, fin, s). fin - q)") (auto dest!: ebml_at_SomeD)

declare scrub_info.simps [simp del]

definition segment_item :: "ebml \<Rightarrow> nat \<Rightarrow> scrub_state \<Rightarrow> scrub_state" where
  "segment_item el fin s =
     (if el_id el = SEG_TAGS \<or> el_id el = SEG_ATTACHMENTS then ebml_void (el_start el) fin s
      else if el_id el = SEG_INFO then scrub_info (el_body el) fin s
      else s)"

function scrub_segment :: "nat \<Rightarrow> nat \<Rightarrow> scrub_state \<Rightarrow> scrub_state" where
  "scrub_segment p seg_end s =
     (if p < seg_end
      then (case ebml_at (fst s) p seg_end of
              None \<Rightarrow> s
            | Some el \<Rightarrow> (case el_end el of None \<Rightarrow> s | Some e \<Rightarrow> scrub_segment e seg_end (segment_item el e s)))
      else s)"
  by pat_completeness auto
termination
  by (relation "measure (\<lambda>(p, seg_end, s). seg_end - p)") (auto dest!: ebml_at_SomeD)

declare scrub_segment.simps [simp del]

definition scrub_matroska :: "scrub_state \<Rightarrow> video_error + scrub_state" where
  "scrub_matroska s =
     (case ebml_at (fst s) 0 (length (fst s)) of
        None \<Rightarrow> Inl NotCleanable
      | Some header \<Rightarrow>
          if el_id header \<noteq> EBML_HEADER then Inl NotCleanable
          else (case el_end header of
                  None \<Rightarrow> Inl NotCleanable
                | Some seg_at \<Rightarrow>
                    (case ebml_at (fst s) seg_at (length (fst s)) of
                       None \<Rightarrow> Inl NotCleanable
                     | Some seg \<Rightarrow>
                         if el_id seg \<noteq> SEGMENT then Inl NotCleanable
                         else Inr (scrub_segment (el_body seg)
                                (case el_end seg of None \<Rightarrow> length (fst s) | Some e \<Rightarrow> e) s))))"

section \<open>AVI\<close>

definition le_nat :: "bytes \<Rightarrow> nat" where
  "le_nat bs = be_nat (rev bs)"

record riff_chunk =
  fourcc :: bytes
  ck_start :: nat
  ck_body :: nat
  ck_end :: nat

function riff_chunks :: "bytes \<Rightarrow> nat \<Rightarrow> nat \<Rightarrow> riff_chunk list" where
  "riff_chunks data p n =
     (case get_range data p (p + 8) of
        None \<Rightarrow> []
      | Some head \<Rightarrow>
          if n < p + 8 then []
          else (let size = le_nat (drop 4 head); e = p + 8 + size
            in if n < e then []
               else \<lparr>fourcc = take 4 head, ck_start = p, ck_body = p + 8, ck_end = e\<rparr>
                    # riff_chunks data (e + size mod 2) n))"
  by pat_completeness auto
termination
  by (relation "measure (\<lambda>(data, p, n). length data - p)") (auto dest: get_range_SomeD)

declare riff_chunks.simps [simp del]

definition junk :: "riff_chunk \<Rightarrow> scrub_state \<Rightarrow> scrub_state" where
  "junk c s = (zero_range (put_range (fst s) (ck_start c) (tag ''JUNK'')) (ck_body c) (ck_end c), count_blanked (snd s))"

definition scrub_hdrl_item :: "riff_chunk \<Rightarrow> scrub_state \<Rightarrow> video_error + scrub_state" where
  "scrub_hdrl_item c s = Inr (if fourcc c = tag ''IDIT'' then junk c s else s)"

definition scrub_avi_item :: "riff_chunk \<Rightarrow> scrub_state \<Rightarrow> video_error + scrub_state" where
  "scrub_avi_item c s =
     (if fourcc c \<noteq> tag ''LIST'' \<or> ck_end c < ck_body c + 4 then Inr s
      else (let form = take 4 (drop (ck_body c) (fst s))
        in if form = tag ''INFO'' then Inr (junk c s)
           else if form = tag ''hdrl''
           then run_all scrub_hdrl_item (riff_chunks (fst s) (ck_body c + 4) (ck_end c)) s
           else Inr s))"

definition riff_end :: "bytes \<Rightarrow> nat" where
  "riff_end data = min (8 + le_nat (take 4 (drop 4 data))) (length data)"

definition scrub_avi :: "scrub_state \<Rightarrow> video_error + scrub_state" where
  "scrub_avi s = run_all scrub_avi_item (riff_chunks (fst s) 12 (riff_end (fst s))) s"

definition scrub_video :: "bytes \<Rightarrow> video_error + scrub_state" where
  "scrub_video data =
     (let s = (data, \<lparr>blanked = 0, times_zeroed = 0\<rparr>)
      in if prefix EBML_MAGIC data then scrub_matroska s
         else if 12 \<le> length data \<and> take 4 data = tag ''RIFF'' \<and> take 4 (drop 8 data) = tag ''AVI '' then scrub_avi s
         else scrub_iso s)"

end
