(* ===== verification/SpanEdits.thy ===== *)
theory SpanEdits
  imports VideoScrub
begin

text \<open>
  What editing disjoint spans of a file one after the other gives: only the spans change, each ends
  up as its own edit leaves it, and nothing depends on bytes outside. The locale \<open>span_edits\<close> states
  the contract of one edit; \<open>box_edits\<close> extends it to ISO boxes, whose sizes an edit keeps and of
  which it establishes a property that a second walk finds again.
\<close>

section \<open>Files that agree\<close>

definition agree :: "nat \<Rightarrow> nat \<Rightarrow> bytes \<Rightarrow> bytes \<Rightarrow> bool" where
  "agree a b d d' \<longleftrightarrow> length d = length d' \<and> (\<forall>k. a \<le> k \<longrightarrow> k < b \<longrightarrow> k < length d \<longrightarrow> d ! k = d' ! k)"

definition only_in :: "nat \<Rightarrow> nat \<Rightarrow> bytes \<Rightarrow> bytes \<Rightarrow> bool" where
  "only_in a b d d' \<longleftrightarrow> length d' = length d \<and> (\<forall>k<length d. (k < a \<or> b \<le> k) \<longrightarrow> d' ! k = d ! k)"

lemma agree_refl [simp]: "agree a b d d"
  by (simp add: agree_def)

lemma agree_sym: "agree a b d d' \<Longrightarrow> agree a b d' d"
  by (simp add: agree_def)

lemma agree_trans: "agree a b d d' \<Longrightarrow> agree a b d' d'' \<Longrightarrow> agree a b d d''"
  by (simp add: agree_def)

lemma agree_sub: "agree a b d d' \<Longrightarrow> a \<le> a' \<Longrightarrow> b' \<le> b \<Longrightarrow> agree a' b' d d'"
  by (simp add: agree_def)

lemma only_in_refl [simp]: "only_in a b d d"
  by (simp add: only_in_def)

lemma only_in_sub: "only_in a b d d' \<Longrightarrow> a' \<le> a \<Longrightarrow> b \<le> b' \<Longrightarrow> only_in a' b' d d'"
  by (simp add: only_in_def)

lemma only_in_trans: "only_in a b d d' \<Longrightarrow> only_in a b d' d'' \<Longrightarrow> only_in a b d d''"
  by (simp add: only_in_def)

lemma only_in_agree: "only_in a b d d' \<Longrightarrow> hi \<le> a \<or> b \<le> lo \<Longrightarrow> agree lo hi d d'"
  by (auto simp: only_in_def agree_def)

lemma agree_extend: "only_in lo hi d d' \<Longrightarrow> only_in lo hi e e' \<Longrightarrow> agree a b d e \<Longrightarrow> agree lo hi d' e' \<Longrightarrow> agree a b d' e'"
  by (simp add: only_in_def agree_def) (metis not_le)

lemma get_range_agree: "agree a b d d' \<Longrightarrow> a \<le> p \<Longrightarrow> q \<le> b \<Longrightarrow> get_range d p q = get_range d' p q"
  by (auto simp: agree_def get_range_def intro!: nth_equalityI)

lemma get_at_agree: "agree a b d d' \<Longrightarrow> a \<le> p \<Longrightarrow> p < b \<Longrightarrow> get_at d p = get_at d' p"
  by (auto simp: agree_def get_at_def)

lemma slice_agree: "agree a b d d' \<Longrightarrow> a \<le> p \<Longrightarrow> p + n \<le> b \<Longrightarrow> take n (drop p d) = take n (drop p d')"
  by (auto simp: agree_def intro!: nth_equalityI)

lemma put_range_only_in: "a + length ys \<le> length d \<Longrightarrow> only_in a (a + length ys) d (put_range d a ys)"
  by (auto simp: only_in_def same_length nth_put_range)

lemma length_zero_range [same_length]: "b \<le> length d \<Longrightarrow> a \<le> b \<Longrightarrow> length (zero_range d a b) = length d"
  by (simp add: zero_range_def same_length)

lemma zero_range_only_in: "a \<le> b \<Longrightarrow> b \<le> length d \<Longrightarrow> only_in a b d (zero_range d a b)"
  using put_range_only_in [of a "replicate (b - a) 0" d] by (simp add: zero_range_def)

lemma nth_zero_range: "a \<le> b \<Longrightarrow> b \<le> length d \<Longrightarrow> k < length d \<Longrightarrow>
    zero_range d a b ! k = (if a \<le> k \<and> k < b then 0 else d ! k)"
  by (auto simp: zero_range_def nth_put_range)

lemma put_range_agree:
  "agree a b d d' \<Longrightarrow> p + length ys \<le> length d \<Longrightarrow> agree a b (put_range d p ys) (put_range d' p ys)"
  by (auto simp: agree_def same_length nth_put_range)

lemma zero_range_agree:
  "agree a b d d' \<Longrightarrow> p \<le> q \<Longrightarrow> q \<le> length d \<Longrightarrow> agree a b (zero_range d p q) (zero_range d' p q)"
  by (auto simp: zero_range_def intro: put_range_agree)

section \<open>Edits of disjoint spans\<close>

definition laid_out :: "('i \<Rightarrow> nat) \<Rightarrow> ('i \<Rightarrow> nat) \<Rightarrow> ('i \<Rightarrow> bool) \<Rightarrow> 'i list \<Rightarrow> nat \<Rightarrow> bool" where
  "laid_out lo hi valid is n \<longleftrightarrow> sorted_wrt (\<lambda>i j. hi i \<le> lo j) is \<and> (\<forall>i \<in> set is. valid i \<and> hi i \<le> n)"

lemma laid_out_Cons:
  "laid_out lo hi valid (i # is) n \<longleftrightarrow>
     valid i \<and> hi i \<le> n \<and> (\<forall>j \<in> set is. hi i \<le> lo j) \<and> laid_out lo hi valid is n"
  by (auto simp: laid_out_def)

locale span_edits =
  fixes lo hi :: "'i \<Rightarrow> nat" and valid :: "'i \<Rightarrow> bool" and edit :: "'i \<Rightarrow> scrub_state \<Rightarrow> video_error + scrub_state"
  assumes edit_span: "valid i \<Longrightarrow> hi i \<le> length (fst s) \<Longrightarrow> edit i s = Inr s' \<Longrightarrow> only_in (lo i) (hi i) (fst s) (fst s')"
    and edit_local: "valid i \<Longrightarrow> hi i \<le> length (fst s) \<Longrightarrow> agree (lo i) (hi i) (fst s) (fst t) \<Longrightarrow> edit i s = Inr s' \<Longrightarrow>
      \<exists>t'. edit i t = Inr t' \<and> agree (lo i) (hi i) (fst s') (fst t')"
begin

lemma run_span:
  "run_all edit is s = Inr s' \<Longrightarrow> laid_out lo hi valid is (length (fst s)) \<Longrightarrow>
   length (fst s') = length (fst s) \<and> (\<forall>k < length (fst s). (\<forall>i \<in> set is. k < lo i \<or> hi i \<le> k) \<longrightarrow> fst s' ! k = fst s ! k)"
proof (induction "is" arbitrary: s)
  case Nil
  then show ?case by simp
next
  case (Cons i "is")
  then obtain s1 where s1: "edit i s = Inr s1" "run_all edit is s1 = Inr s'" by (auto split: sum.splits)
  have o: "only_in (lo i) (hi i) (fst s) (fst s1)"
    using edit_span [OF _ _ s1(1)] Cons.prems(2) by (simp add: laid_out_Cons)
  with Cons.IH [OF s1(2)] Cons.prems(2) show ?case by (auto simp: laid_out_Cons only_in_def)
qed

lemma run_within:
  assumes "run_all edit is s = Inr s'" "laid_out lo hi valid is (length (fst s))" "\<forall>i \<in> set is. a \<le> lo i \<and> hi i \<le> b"
  shows "only_in a b (fst s) (fst s')"
  using run_span [OF assms(1,2)] assms(3) unfolding only_in_def by (meson le_trans order_less_le_trans)

lemma run_each:
  "run_all edit is s = Inr s' \<Longrightarrow> laid_out lo hi valid is (length (fst s)) \<Longrightarrow> i \<in> set is \<Longrightarrow>
   \<exists>t. edit i s = Inr t \<and> agree (lo i) (hi i) (fst s') (fst t)"
proof (induction "is" arbitrary: s)
  case Nil
  then show ?case by simp
next
  case (Cons j "is")
  then obtain s1 where s1: "edit j s = Inr s1" "run_all edit is s1 = Inr s'" by (auto split: sum.splits)
  have o: "only_in (lo j) (hi j) (fst s) (fst s1)"
    using edit_span [OF _ _ s1(1)] Cons.prems(2) by (simp add: laid_out_Cons)
  then have len: "length (fst s1) = length (fst s)" by (simp add: only_in_def)
  have l1: "laid_out lo hi valid is (length (fst s1))" using Cons.prems(2) len by (simp add: laid_out_Cons)
  show ?case
  proof (cases "i \<in> set is")
    case True
    with Cons.IH [OF s1(2) l1] obtain t1 where t1: "edit i s1 = Inr t1" "agree (lo i) (hi i) (fst s') (fst t1)" by blast
    have "agree (lo i) (hi i) (fst s1) (fst s)"
      using only_in_agree [OF o, of "hi i" "lo i"] Cons.prems(2) True by (auto simp: laid_out_Cons intro: agree_sym)
    from edit_local [OF _ _ this t1(1)] Cons.prems(2) True len obtain t
      where "edit i s = Inr t" "agree (lo i) (hi i) (fst t1) (fst t)" by (auto simp: laid_out_def)
    with t1(2) show ?thesis by (blast intro: agree_trans)
  next
    case False
    with Cons.prems(3) have i: "i = j" by simp
    have "only_in (hi j) (length (fst s)) (fst s1) (fst s')"
      using run_within [OF s1(2) l1, of "hi j" "length (fst s)"] Cons.prems(2) by (auto simp: laid_out_def)
    then have "agree (lo j) (hi j) (fst s') (fst s1)" by (blast intro: agree_sym only_in_agree)
    with s1(1) i show ?thesis by blast
  qed
qed

lemma run_local:
  "run_all edit is s = Inr s' \<Longrightarrow> laid_out lo hi valid is (length (fst s)) \<Longrightarrow> \<forall>i \<in> set is. a \<le> lo i \<and> hi i \<le> b \<Longrightarrow>
   agree a b (fst s) (fst t) \<Longrightarrow> \<exists>t'. run_all edit is t = Inr t' \<and> agree a b (fst s') (fst t')"
proof (induction "is" arbitrary: s t)
  case Nil
  then show ?case by simp
next
  case (Cons i "is")
  then obtain s1 where s1: "edit i s = Inr s1" "run_all edit is s1 = Inr s'" by (auto split: sum.splits)
  have ag: "agree (lo i) (hi i) (fst s) (fst t)" using Cons.prems(3,4) by (auto intro: agree_sub)
  have len: "length (fst t) = length (fst s)" using Cons.prems(4) by (simp add: agree_def)
  have v: "valid i" "hi i \<le> length (fst s)" using Cons.prems(2) by (auto simp: laid_out_Cons)
  from edit_local [OF v ag s1(1)] obtain t1 where t1: "edit i t = Inr t1" "agree (lo i) (hi i) (fst s1) (fst t1)" by blast
  have o: "only_in (lo i) (hi i) (fst s) (fst s1)" "only_in (lo i) (hi i) (fst t) (fst t1)"
    using edit_span [OF v s1(1)] edit_span [OF v(1) _ t1(1)] v(2) len by auto
  have "agree a b (fst s1) (fst t1)" using agree_extend [OF o Cons.prems(4) t1(2)] .
  with Cons.IH [OF s1(2) _ _ this] Cons.prems(2,3) o(1) t1(1) show ?case by (simp add: laid_out_Cons only_in_def)
qed

end

end
