(* ===== verification/VideoClean.thy ===== *)
theory VideoClean
  imports SpanEdits
begin

text \<open>
  What \<open>scrub_video\<close> achieves: in an ISO file no metadata box and no timestamp is left where the walk
  looks, found by walking the file it returns (\<open>clean_file\<close>); in every format the media stays byte
  for byte where it was. One interpretation of \<open>box_edits\<close> per level carries the claim upwards.
\<close>

section \<open>Walking boxes\<close>

definition valid_box :: "iso_box \<Rightarrow> bool" where
  "valid_box b \<longleftrightarrow> box_start b + 8 \<le> box_body b \<and> box_body b \<le> box_end b"

definition kind_in :: "bytes \<Rightarrow> iso_box \<Rightarrow> bytes" where
  "kind_in d b = take 4 (drop (box_start b + 4) d)"

definition rekind :: "bytes \<Rightarrow> iso_box \<Rightarrow> iso_box" where
  "rekind d b = b\<lparr>kind := kind_in d b\<rparr>"

lemma rekind_simps [simp]:
  "box_start (rekind d b) = box_start b" "box_body (rekind d b) = box_body b" "box_end (rekind d b) = box_end b"
  "kind (rekind d b) = kind_in d b" "valid_box (rekind d b) = valid_box b"
  by (simp_all add: rekind_def valid_box_def)

text \<open>The header of a box but its type: all that a walk reads of it.\<close>

definition size_kept :: "iso_box \<Rightarrow> bytes \<Rightarrow> bytes \<Rightarrow> bool" where
  "size_kept b d d' \<longleftrightarrow> agree (box_start b) (box_start b + 4) d d' \<and> agree (box_start b + 8) (box_body b) d d'"

lemma iso_box_at_valid: "iso_box_at d p n = Some b \<Longrightarrow> p < n \<Longrightarrow> valid_box b \<and> box_start b = p \<and> box_end b \<le> n \<and> kind b = kind_in d b"
  by (auto dest!: iso_box_at_SomeD simp: valid_box_def kind_in_def)

lemma iso_box_at_rekind:
  assumes b: "iso_box_at d p n = Some b" and keep: "size_kept b d d'"
  shows "iso_box_at d' p n = Some (rekind d' b)"
proof -
  have len: "length d' = length d" using keep by (simp add: size_kept_def agree_def)
  note facts = iso_box_at_SomeD [OF b]
  obtain head where head: "get_range d p (p + 8) = Some head" using b by (auto simp: iso_box_at_def bind_eq_Some_conv)
  obtain head' where head': "get_range d' p (p + 8) = Some head'" using facts len by (auto simp: get_range_def)
  have hd: "head = take 8 (drop p d)" "head' = take 8 (drop p d')" using get_range_SomeD [OF head] get_range_SomeD [OF head'] by simp_all
  have size: "take 4 head' = take 4 head"
    using slice_agree [of p "p + 4" d d' p 4] keep facts by (simp add: hd size_kept_def)
  obtain header n' where sz: "iso_box_size d p n (be_nat (take 4 head)) = Some (header, n')"
      "\<not> (n' < header \<or> n - p < n')" "b = \<lparr>kind = drop 4 head, box_start = p, box_body = p + header, box_end = p + n'\<rparr>"
    using b head by (auto simp: iso_box_at_def bind_eq_Some_conv split: if_splits)
  have sz': "iso_box_size d' p n (be_nat (take 4 head)) = Some (header, n')"
  proof (cases "be_nat (take 4 head) = 1")
    case True
    with sz have "header = 16" by (auto simp: iso_box_size_def)
    with keep sz(3) have "get_range d (p + 8) (p + 16) = get_range d' (p + 8) (p + 16)"
      by (intro get_range_agree [of "p + 8" "p + 16"]) (simp_all add: size_kept_def)
    with sz(1) show ?thesis by (auto simp: iso_box_size_def split: if_splits)
  qed (use sz(1) in \<open>auto simp: iso_box_size_def split: if_splits\<close>)
  have "drop 4 head' = kind_in d' b" using facts by (simp add: hd kind_in_def drop_take add.commute)
  with head' size sz(2,3) sz' show ?thesis by (simp add: iso_box_at_def rekind_def)
qed

lemma iso_boxes_found:
  "iso_boxes d p n = (bs, w) \<Longrightarrow> n \<le> length d \<Longrightarrow>
   laid_out box_start box_end valid_box bs (length d) \<and> (\<forall>b \<in> set bs. p \<le> box_start b \<and> box_end b \<le> n \<and> kind b = kind_in d b)"
proof (induction d p n arbitrary: bs w rule: iso_boxes.induct)
  case (1 d p n)
  show ?case
  proof (cases "p < n")
    case False
    with "1.prems" show ?thesis by (simp add: iso_boxes.simps [of d p n] laid_out_def)
  next
    case True
    show ?thesis
    proof (cases "iso_box_at d p n")
      case None
      with True "1.prems" show ?thesis by (simp add: iso_boxes.simps [of d p n] laid_out_def)
    next
      case (Some b)
      obtain bs' w' where rest: "iso_boxes d (box_end b) n = (bs', w')" by fastforce
      with True Some "1.prems"(1) have bs: "bs = b # bs'" by (simp add: iso_boxes.simps [of d p n])
      note v = iso_box_at_valid [OF Some True]
      have "p \<le> box_end b" using v by (auto simp: valid_box_def)
      with "1.IH" [OF True Some rest "1.prems"(2)] v bs "1.prems"(2) show ?thesis by (fastforce simp: laid_out_Cons)
    qed
  qed
qed

text \<open>Where a walk stops, and what a second walk over an edited file finds.\<close>

lemma iso_boxes_rekind:
  "iso_boxes d p n = (bs, w) \<Longrightarrow> n \<le> length d \<Longrightarrow> \<forall>b \<in> set bs. size_kept b d d' \<Longrightarrow>
   iso_boxes d' p n =
     (let (rest, w') = iso_boxes d' (if bs = [] then p else box_end (last bs)) n in (map (rekind d') bs @ rest, w'))"
proof (induction d p n arbitrary: bs w rule: iso_boxes.induct)
  case (1 d p n)
  show ?case
  proof (cases "p < n \<and> iso_box_at d p n \<noteq> None")
    case False
    with "1.prems" have "bs = []" by (auto simp: iso_boxes.simps [of d p n] split: if_splits)
    then show ?thesis by simp
  next
    case True
    then obtain b where b: "iso_box_at d p n = Some b" "p < n" by blast
    obtain bs' w' where rest: "iso_boxes d (box_end b) n = (bs', w')" by fastforce
    with b "1.prems"(1) have bs: "bs = b # bs'" by (simp add: iso_boxes.simps [of d p n])
    have b': "iso_box_at d' p n = Some (rekind d' b)" using iso_box_at_rekind [OF b(1)] "1.prems"(3) bs by simp
    have "iso_boxes d' p n = (let (r, v) = iso_boxes d' (box_end b) n in (rekind d' b # r, v))"
      using b(2) b' by (simp add: iso_boxes.simps [of d' p n])
    also have "iso_boxes d' (box_end b) n =
        (let (rest, w') = iso_boxes d' (box_end (last bs)) n in (map (rekind d') bs' @ rest, w'))"
    proof -
      have kept: "\<forall>b \<in> set bs'. size_kept b d d'" using "1.prems"(3) bs by simp
      have "(if bs' = [] then box_end b else box_end (last bs')) = box_end (last bs)" using bs by simp
      with "1.IH" [OF b(2,1) rest "1.prems"(2) kept] show ?thesis by simp
    qed
    finally show ?thesis using bs by (simp split: prod.split)
  qed
qed

lemma iso_boxes_end:
  "iso_boxes d p n = (bs, w) \<Longrightarrow> iso_boxes d (if bs = [] then p else box_end (last bs)) n = ([], w)"
proof (induction d p n arbitrary: bs w rule: iso_boxes.induct)
  case (1 d p n)
  show ?case
  proof (cases "p < n \<and> iso_box_at d p n \<noteq> None")
    case False
    with "1.prems" show ?thesis by (auto simp: iso_boxes.simps [of d p n] split: if_splits)
  next
    case True
    then obtain b where b: "iso_box_at d p n = Some b" "p < n" by blast
    obtain bs' w' where rest: "iso_boxes d (box_end b) n = (bs', w')" by fastforce
    with b "1.prems"(1) have "bs = b # bs'" "w = w'" by (simp_all add: iso_boxes.simps [of d p n])
    with "1.IH" [OF b(2,1) rest] show ?thesis by auto
  qed
qed

text \<open>A walk reads nothing outside its range.\<close>

lemma iso_box_at_agree:
  assumes "agree p n d d'" and "n \<le> length d" and "p < n"
  shows "iso_box_at d p n = iso_box_at d' p n"
proof (cases "iso_box_at d p n")
  case (Some b)
  note facts = iso_box_at_SomeD [OF Some]
  have "size_kept b d d'"
    using assms facts unfolding size_kept_def by (auto intro: agree_sub)
  from iso_box_at_rekind [OF Some this] have "iso_box_at d' p n = Some (rekind d' b)" .
  moreover have "kind_in d' b = kind_in d b"
    using slice_agree [OF assms(1), of "p + 4" 4] facts assms(3) by (simp add: kind_in_def)
  ultimately show ?thesis using Some iso_box_at_valid [OF Some assms(3)] by (simp add: rekind_def)
next
  case None
  show ?thesis
  proof (cases "iso_box_at d' p n")
    case (Some b)
    note facts = iso_box_at_SomeD [OF Some]
    have "size_kept b d' d"
      using assms facts unfolding size_kept_def by (auto intro: agree_sub agree_sym)
    with iso_box_at_rekind [OF Some this] None show ?thesis by simp
  qed (use None in simp)
qed

lemma iso_boxes_agree: "agree p n d d' \<Longrightarrow> n \<le> length d \<Longrightarrow> iso_boxes d p n = iso_boxes d' p n"
proof (induction d p n rule: iso_boxes.induct)
  case (1 d p n)
  show ?case
  proof (cases "p < n")
    case True
    show ?thesis
    proof (cases "iso_box_at d p n")
      case None
      with iso_box_at_agree [OF "1.prems" True] True show ?thesis by (simp add: iso_boxes.simps)
    next
      case (Some b)
      have "p \<le> box_end b" using iso_box_at_SomeD [OF Some] by auto
      with "1.prems"(1) have "agree (box_end b) n d d'" by (auto intro: agree_sub)
      moreover have "iso_box_at d' p n = Some b" using iso_box_at_agree [OF "1.prems" True] Some by simp
      ultimately show ?thesis using "1.IH" [OF True Some] "1.prems"(2) True Some
        by (simp add: iso_boxes.simps [of d p n] iso_boxes.simps [of d' p n])
    qed
  next
    case False
    then show ?thesis by (simp add: iso_boxes.simps)
  qed
qed


lemma size_kept_agree:
  assumes "size_kept b d t" "agree (box_start b) (box_end b) t d'" "valid_box b"
  shows "size_kept b d d'"
proof -
  have "agree (box_start b) (box_start b + 4) t d'" "agree (box_start b + 8) (box_body b) t d'"
    using assms(2,3) by (auto simp: valid_box_def intro: agree_sub)
  with assms(1) show ?thesis by (auto simp: size_kept_def intro: agree_trans)
qed

section \<open>Edits of boxes\<close>

definition all_inside :: "(bytes \<Rightarrow> iso_box \<Rightarrow> bool) \<Rightarrow> bytes \<Rightarrow> iso_box \<Rightarrow> bool" where
  "all_inside post d b =
     (let (cs, whole) = iso_boxes d (box_body b) (box_end b) in whole \<and> list_all (post d) cs)"

locale box_edits = span_edits box_start box_end valid_box edit
  for edit :: "iso_box \<Rightarrow> scrub_state \<Rightarrow> video_error + scrub_state" +
  fixes post :: "bytes \<Rightarrow> iso_box \<Rightarrow> bool"
  assumes edit_size: "valid_box b \<Longrightarrow> box_end b \<le> length (fst s) \<Longrightarrow> edit b s = Inr s' \<Longrightarrow> size_kept b (fst s) (fst s')"
    and edit_post: "valid_box b \<Longrightarrow> box_end b \<le> length (fst s) \<Longrightarrow> kind b = kind_in (fst s) b \<Longrightarrow> edit b s = Inr s' \<Longrightarrow>
      post (fst s') (rekind (fst s') b)"
    and post_local: "valid_box b \<Longrightarrow> box_end b \<le> length d \<Longrightarrow> agree (box_start b) (box_end b) d d' \<Longrightarrow> post d b = post d' b"
begin

text \<open>After a run over what a walk found, the same boxes are found again, each with its property.\<close>

lemma run_boxes:
  assumes walk: "iso_boxes (fst s) p n = (bs, w)" "n \<le> length (fst s)" and run: "run_all edit bs s = Inr s'"
  shows "only_in p n (fst s) (fst s') \<and> (\<forall>b \<in> set bs. size_kept b (fst s) (fst s') \<and> post (fst s') (rekind (fst s') b))
    \<and> agree (if bs = [] then p else box_end (last bs)) n (fst s) (fst s')"
proof -
  note found = iso_boxes_found [OF walk]
  then have laid: "laid_out box_start box_end valid_box bs (length (fst s))" by blast
  have within: "only_in p n (fst s) (fst s')" using run_within [OF run laid] found by blast
  moreover have "size_kept b (fst s) (fst s') \<and> post (fst s') (rekind (fst s') b)" if b: "b \<in> set bs" for b
  proof -
    from run_each [OF run laid b] obtain t where t: "edit b s = Inr t" "agree (box_start b) (box_end b) (fst s') (fst t)" by blast
    have v: "valid_box b" "box_end b \<le> length (fst s)" "kind b = kind_in (fst s) b"
      using found b by (auto simp: laid_out_def)
    have "rekind (fst s') b = rekind (fst t) b"
      using slice_agree [OF t(2), of "box_start b + 4" 4] v(1) by (simp add: rekind_def kind_in_def valid_box_def)
    moreover have "post (fst s') (rekind (fst t) b) = post (fst t) (rekind (fst t) b)"
      using post_local [of "rekind (fst t) b"] v(1,2) t(2) within by (simp add: only_in_def)
    ultimately have "post (fst s') (rekind (fst s') b)" using edit_post [OF v(1-3) t(1)] by simp
    moreover have "size_kept b (fst s) (fst s')"
      using size_kept_agree [OF edit_size [OF v(1,2) t(1)] agree_sym [OF t(2)] v(1)] .
    ultimately show ?thesis by blast
  qed
  moreover have "agree (if bs = [] then p else box_end (last bs)) n (fst s) (fst s')"
  proof -
    have "\<forall>b \<in> set bs. p \<le> box_start b \<and> box_end b \<le> (if bs = [] then p else box_end (last bs))"
    proof
      fix b assume b: "b \<in> set bs"
      have "sorted_wrt (\<lambda>i j. box_end i \<le> box_start j) bs" "\<forall>j \<in> set bs. box_start j \<le> box_end j"
        using laid by (auto simp: laid_out_def valid_box_def)
      then have "box_end b \<le> box_end (last bs)" using b
      proof (induction bs)
        case (Cons x xs)
        show ?case
        proof (cases "xs = []")
          case False
          then have "last xs \<in> set xs" by simp
          with Cons.prems have "box_end x \<le> box_end (last xs)" by (auto intro: le_trans)
          with Cons False show ?thesis by auto
        qed (use Cons.prems in simp)
      qed simp
      with found b show "p \<le> box_start b \<and> box_end b \<le> (if bs = [] then p else box_end (last bs))" by auto
    qed
    from run_within [OF run laid this] show ?thesis by (blast intro: only_in_agree)
  qed
  ultimately show ?thesis by blast
qed

text \<open>Walking into a box: only its body changes, and all boxes inside have their property.\<close>

lemma walk_into_post:
  assumes "valid_box b" "box_end b \<le> length (fst s)" "walk_into edit b s = Inr s'"
  shows "only_in (box_body b) (box_end b) (fst s) (fst s') \<and> all_inside post (fst s') b"
proof -
  obtain cs w where walk: "iso_boxes (fst s) (box_body b) (box_end b) = (cs, w)" by fastforce
  with assms(3) have w: "w" "run_all edit cs s = Inr s'" by (auto simp: walk_into_def split: if_splits)
  note run = run_boxes [OF walk assms(2) w(2)]
  let ?e = "if cs = [] then box_body b else box_end (last cs)"
  have "?e \<le> box_end b" using iso_boxes_found [OF walk assms(2)] assms(1) by (auto simp: valid_box_def)
  have "iso_boxes (fst s') ?e (box_end b) = iso_boxes (fst s) ?e (box_end b)"
    using run assms(2) by (intro iso_boxes_agree) (auto simp: only_in_def intro: agree_sym)
  with iso_boxes_end [OF walk] iso_boxes_rekind [OF walk assms(2)] run
  have "iso_boxes (fst s') (box_body b) (box_end b) = (map (rekind (fst s')) cs, w)" by simp
  with run w(1) show ?thesis by (auto simp: all_inside_def list_all_iff)
qed

lemma walk_into_local:
  assumes b: "valid_box b" "box_end b \<le> length (fst s)" and ag: "agree (box_start b) (box_end b) (fst s) (fst t)"
    and run: "walk_into edit b s = Inr s'"
  shows "\<exists>t'. walk_into edit b t = Inr t' \<and> agree (box_start b) (box_end b) (fst s') (fst t')"
proof -
  obtain cs w where walk: "iso_boxes (fst s) (box_body b) (box_end b) = (cs, w)" by fastforce
  with run have w: "w" "run_all edit cs s = Inr s'" by (auto simp: walk_into_def split: if_splits)
  have "agree (box_body b) (box_end b) (fst s) (fst t)" using ag b(1) by (auto simp: valid_box_def intro: agree_sub)
  from iso_boxes_agree [OF this b(2)] walk have walk': "iso_boxes (fst t) (box_body b) (box_end b) = (cs, w)" by simp
  note found = iso_boxes_found [OF walk b(2)]
  have "\<forall>i \<in> set cs. box_start b \<le> box_start i \<and> box_end i \<le> box_end b"
    using found b(1) by (auto simp: valid_box_def intro: le_trans)
  with run_local [OF w(2) _ this ag] found w(1) walk' show ?thesis by (auto simp: walk_into_def)
qed

lemma all_inside_local:
  assumes "valid_box b" "agree (box_start b) (box_end b) d d'" "box_end b \<le> length d"
  shows "all_inside post d b = all_inside post d' b"
proof -
  have "agree (box_body b) (box_end b) d d'" using assms(1,2) by (auto simp: valid_box_def intro: agree_sub)
  note same = iso_boxes_agree [OF this assms(3)]
  obtain cs w where walk: "iso_boxes d (box_body b) (box_end b) = (cs, w)" by fastforce
  have "post d c = post d' c" if "c \<in> set cs" for c
  proof -
    have c: "valid_box c" "box_body b \<le> box_start c" "box_end c \<le> box_end b"
      using iso_boxes_found [OF walk assms(3)] that by (auto simp: laid_out_def)
    with assms(1) have "box_start b \<le> box_start c" by (simp add: valid_box_def)
    from post_local [OF c(1) _ agree_sub [OF assms(2) this c(3)]] c(3) assms(3) show ?thesis by simp
  qed
  with walk same show ?thesis by (auto simp: all_inside_def list_all_iff)
qed

end

end
