(* ===== verification/IsoClean.thy ===== *)
theory IsoClean
  imports VideoClean
begin

text \<open>
  The levels of an ISO file, innermost first: the boxes of a media box, of a track, of a movie and of
  the file. Each interprets \<open>box_edits\<close> with its step of the scrubbing and with what must hold of its
  boxes afterwards.
\<close>

section \<open>What may be left\<close>

definition times_zero :: "bytes \<Rightarrow> iso_box \<Rightarrow> bool" where
  "times_zero d x =
     (let stop = box_body x + 4 + 2 * (if d ! box_body x = 1 then 8 else 4)
      in box_body x < box_end x \<and> stop \<le> box_end x \<longrightarrow> (\<forall>k \<in> {box_body x + 4..<stop}. d ! k = 0))"

definition mdia_post :: "bytes \<Rightarrow> iso_box \<Rightarrow> bool" where
  "mdia_post d x = (kind x = tag ''mdhd'' \<longrightarrow> times_zero d x)"

definition trak_post :: "bytes \<Rightarrow> iso_box \<Rightarrow> bool" where
  "trak_post d t = (kind t \<notin> set ISO_METADATA \<and> (kind t = tag ''tkhd'' \<longrightarrow> times_zero d t)
     \<and> (kind t = tag ''mdia'' \<longrightarrow> all_inside mdia_post d t))"

definition moov_post :: "bytes \<Rightarrow> iso_box \<Rightarrow> bool" where
  "moov_post d b = (kind b \<notin> set ISO_METADATA \<and> (kind b = tag ''mvhd'' \<longrightarrow> times_zero d b)
     \<and> (kind b = tag ''trak'' \<longrightarrow> all_inside trak_post d b))"

definition file_post :: "bytes \<Rightarrow> iso_box \<Rightarrow> bool" where
  "file_post d b = (kind b \<notin> set ISO_METADATA \<and> (kind b = tag ''moov'' \<longrightarrow> all_inside moov_post d b))"

section \<open>The two elementary edits\<close>

lemma body_edit:
  assumes "only_in (box_body b) (box_end b) d d'" and "valid_box b"
  shows "only_in (box_start b) (box_end b) d d' \<and> size_kept b d d' \<and> kind_in d' b = kind_in d b"
proof -
  have "agree (box_start b) (box_body b) d d'" using assms(1) by (rule only_in_agree) simp
  then show ?thesis
    using assms unfolding size_kept_def kind_in_def valid_box_def
    by (auto intro: agree_sub only_in_sub slice_agree [symmetric])
qed

lemma zero_times_edit:
  assumes "valid_box b" and "box_end b \<le> length (fst s)"
  shows "only_in (box_body b) (box_end b) (fst s) (fst (zero_iso_times b s)) \<and> times_zero (fst (zero_iso_times b s)) b"
proof (cases "box_body b < box_end b")
  case True
  let ?stop = "box_body b + 4 + 2 * (if fst s ! box_body b = 1 then 8 else 4)"
  have g: "get_at (fst s) (box_body b) = Some (fst s ! box_body b)" using True assms by (simp add: get_at_def)
  show ?thesis
  proof (cases "?stop \<le> box_end b")
    case fits: True
    then have e: "fst (zero_iso_times b s) = zero_range (fst s) (box_body b + 4) ?stop" by (simp add: zero_iso_times_def g Let_def)
    have o: "only_in (box_body b + 4) ?stop (fst s) (zero_range (fst s) (box_body b + 4) ?stop)"
      using fits assms(2) by (intro zero_range_only_in) auto
    have "zero_range (fst s) (box_body b + 4) ?stop ! box_body b = fst s ! box_body b"
      using fits assms(2) by (simp add: nth_zero_range)
    moreover have "\<forall>k \<in> {box_body b + 4..<?stop}. zero_range (fst s) (box_body b + 4) ?stop ! k = 0"
      using fits assms(2) by (simp add: nth_zero_range)
    ultimately show ?thesis
      using only_in_sub [OF o _ fits] unfolding e times_zero_def by (simp add: Let_def)
  next
    case False
    then have "zero_iso_times b s = s" by (simp add: zero_iso_times_def g Let_def)
    with False show ?thesis by (simp add: times_zero_def Let_def)
  qed
next
  case False
  then have "zero_iso_times b s = s" using assms(1)
    by (auto simp: zero_iso_times_def Let_def valid_box_def split: option.splits)
  with False show ?thesis by (simp add: times_zero_def Let_def)
qed

lemma zero_times_local:
  assumes "valid_box b" "box_end b \<le> length (fst s)" "agree (box_start b) (box_end b) (fst s) (fst t)"
  shows "agree (box_start b) (box_end b) (fst (zero_iso_times b s)) (fst (zero_iso_times b t))"
proof (cases "box_body b < box_end b")
  case True
  have "get_at (fst s) (box_body b) = get_at (fst t) (box_body b)"
    using get_at_agree [OF assms(3), of "box_body b"] assms(1) True by (simp add: valid_box_def)
  moreover have "length (fst s) = length (fst t)" using assms(3) by (simp add: agree_def)
  ultimately show ?thesis
    using assms(2,3) by (auto simp: zero_iso_times_def Let_def intro: zero_range_agree split: option.splits)
next
  case False
  then have "zero_iso_times b s = s" "zero_iso_times b t = t" using assms(1)
    by (auto simp: zero_iso_times_def Let_def valid_box_def split: option.splits)
  with assms(3) show ?thesis by simp
qed

lemma times_zero_local:
  assumes "valid_box b" "box_end b \<le> length d" "agree (box_start b) (box_end b) d d'"
  shows "times_zero d b = times_zero d' b"
  using assms by (auto simp: times_zero_def Let_def valid_box_def agree_def)

lemma tag_free: "length (tag ''free'') = 4"
  by (simp add: tag_def)

lemma blank_edit:
  assumes "valid_box b" and "box_end b \<le> length (fst s)"
  shows "only_in (box_start b) (box_end b) (fst s) (fst (blank_iso b s)) \<and> size_kept b (fst s) (fst (blank_iso b s))
    \<and> kind_in (fst (blank_iso b s)) b = tag ''free''"
proof -
  let ?d = "put_range (fst s) (box_start b + 4) (tag ''free'')"
  have v: "box_start b + 8 \<le> box_body b" "box_body b \<le> box_end b" using assms(1) by (simp_all add: valid_box_def)
  have len: "length ?d = length (fst s)" using v assms(2) by (simp add: same_length tag_free)
  have o1: "only_in (box_start b + 4) (box_start b + 8) (fst s) ?d"
    using put_range_only_in [of "box_start b + 4" "tag ''free''" "fst s"] v assms(2) by (simp add: tag_free add.commute)
  have o2: "only_in (box_body b) (box_end b) ?d (fst (blank_iso b s))"
    using zero_range_only_in [of "box_body b" "box_end b" ?d] v assms(2) len by (simp add: blank_iso_def)
  have "only_in (box_start b) (box_end b) (fst s) (fst (blank_iso b s))"
    using only_in_trans [OF only_in_sub [OF o1, of "box_start b" "box_end b"] only_in_sub [OF o2, of "box_start b" "box_end b"]] v by simp
  moreover have "size_kept b (fst s) (fst (blank_iso b s))"
    unfolding size_kept_def
    using agree_trans [OF only_in_agree [OF o1] only_in_agree [OF o2], of "box_start b + 4" "box_start b"]
      agree_trans [OF only_in_agree [OF o1] only_in_agree [OF o2], of "box_body b" "box_start b + 8"] v by simp
  moreover have "kind_in (fst (blank_iso b s)) b = kind_in ?d b"
    using slice_agree [OF only_in_agree [OF o2], of "box_body b" "box_start b" "box_start b + 4" 4] v by (simp add: kind_in_def)
  moreover have "kind_in ?d b = tag ''free''"
    using v assms(2) by (simp add: kind_in_def put_range_def tag_free)
  ultimately show ?thesis by simp
qed

lemma blank_local:
  assumes "valid_box b" "box_end b \<le> length (fst s)" "agree (box_start b) (box_end b) (fst s) (fst t)"
  shows "agree (box_start b) (box_end b) (fst (blank_iso b s)) (fst (blank_iso b t))"
  using assms by (auto simp: blank_iso_def valid_box_def same_length tag_free intro!: zero_range_agree put_range_agree)


section \<open>The levels\<close>

lemma free_kind: "tag ''free'' \<notin> set ISO_METADATA" "tag ''free'' \<noteq> tag ''mdhd''" "tag ''free'' \<noteq> tag ''tkhd''"
  "tag ''free'' \<noteq> tag ''mdia''" "tag ''free'' \<noteq> tag ''mvhd''" "tag ''free'' \<noteq> tag ''trak''" "tag ''free'' \<noteq> tag ''moov''"
  by (simp_all add: ISO_METADATA_def tag_inj)

lemma named_kind: "tag ''tkhd'' \<notin> set ISO_METADATA" "tag ''mdia'' \<notin> set ISO_METADATA" "tag ''mvhd'' \<notin> set ISO_METADATA"
  "tag ''trak'' \<notin> set ISO_METADATA" "tag ''moov'' \<notin> set ISO_METADATA"
  by (simp_all add: ISO_METADATA_def tag_inj)

lemmas kinds_apart = free_kind named_kind tag_inj

text \<open>What the contract asks of one edit, for an edit of the body, of a blanked box and of none.\<close>

definition edits_box :: "(bytes \<Rightarrow> iso_box \<Rightarrow> bool) \<Rightarrow> iso_box \<Rightarrow> scrub_state \<Rightarrow> scrub_state \<Rightarrow> bool" where
  "edits_box post b s s' \<longleftrightarrow> only_in (box_start b) (box_end b) (fst s) (fst s') \<and> size_kept b (fst s) (fst s')
     \<and> post (fst s') (rekind (fst s') b)"

lemma edits_boxI:
  assumes "valid_box b" "box_end b \<le> length (fst s)" "only_in (box_body b) (box_end b) (fst s) (fst s')"
    and "kind b = kind_in (fst s) b" "post (fst s') b"
  shows "edits_box post b s s'"
proof -
  note e = body_edit [OF assms(3,1)]
  then have "rekind (fst s') b = b" using assms(4) by (simp add: rekind_def)
  with e assms(5) show ?thesis by (simp add: edits_box_def)
qed

lemma times_rekind: "times_zero d (rekind d' b) = times_zero d b"
  by (simp add: times_zero_def)

interpretation mdia: box_edits scrub_mdia_item mdia_post
proof unfold_locales
  fix i s s' assume a: "valid_box i" "box_end i \<le> length (fst s)" "scrub_mdia_item i s = Inr s'"
  have body: "only_in (box_body i) (box_end i) (fst s) (fst s')"
    using a zero_times_edit [OF a(1,2)] by (auto simp: scrub_mdia_item_def split: if_splits)
  show "only_in (box_start i) (box_end i) (fst s) (fst s')" "size_kept i (fst s) (fst s')"
    using body_edit [OF body a(1)] by auto
  show "mdia_post (fst s') (rekind (fst s') i)" if "kind i = kind_in (fst s) i"
  proof -
    have "edits_box mdia_post i s s'"
      using a zero_times_edit [OF a(1,2)] body that
      by (intro edits_boxI) (auto simp: scrub_mdia_item_def mdia_post_def split: if_splits)
    then show ?thesis by (simp add: edits_box_def)
  qed
next
  fix i s and t :: scrub_state and s' assume "valid_box i" "box_end i \<le> length (fst s)" "agree (box_start i) (box_end i) (fst s) (fst t)" "scrub_mdia_item i s = Inr s'"
  then show "\<exists>t'. scrub_mdia_item i t = Inr t' \<and> agree (box_start i) (box_end i) (fst s') (fst t')"
    by (auto simp: scrub_mdia_item_def zero_times_local simp del: split_paired_Ex split: if_splits)
next
  fix b d d' assume "valid_box b" "box_end b \<le> length d" "agree (box_start b) (box_end b) d d'"
  then show "mdia_post d b = mdia_post d' b" by (simp add: mdia_post_def times_zero_local)
qed

interpretation trak: box_edits scrub_trak_item trak_post
proof unfold_locales
  fix i s s' assume a: "valid_box i" "box_end i \<le> length (fst s)" "scrub_trak_item i s = Inr s'"
  have e: "edits_box trak_post i s s'" if "kind i = kind_in (fst s) i"
  proof (cases "kind i \<in> set ISO_METADATA")
    case True
    then have "kind i \<noteq> tag ''tkhd''" "kind i \<noteq> tag ''mdia''" using named_kind by auto
    with True a(3) have "s' = blank_iso i s" by (simp add: scrub_trak_item_def)
    with blank_edit [OF a(1,2)] show ?thesis by (simp add: edits_box_def trak_post_def kinds_apart)
  next
    case False
    show ?thesis
    proof (rule edits_boxI [OF a(1,2) _ that])
      show "only_in (box_body i) (box_end i) (fst s) (fst s')" "trak_post (fst s') i"
        using a(3) False zero_times_edit [OF a(1,2)] mdia.walk_into_post [OF a(1,2)]
        by (auto simp: scrub_trak_item_def trak_post_def kinds_apart split: if_splits)
    qed
  qed
  show "only_in (box_start i) (box_end i) (fst s) (fst s')" "size_kept i (fst s) (fst s')"
    using a(3) blank_edit [OF a(1,2)] body_edit [OF conjunct1 [OF zero_times_edit [OF a(1,2)]] a(1)]
      body_edit [OF conjunct1 [OF mdia.walk_into_post [OF a(1,2)]] a(1)]
    by (auto simp: scrub_trak_item_def size_kept_def split: if_splits)
  show "trak_post (fst s') (rekind (fst s') i)" if "kind i = kind_in (fst s) i"
    using e [OF that] by (simp add: edits_box_def)
next
  fix i s and t :: scrub_state and s' assume a: "valid_box i" "box_end i \<le> length (fst s)" "agree (box_start i) (box_end i) (fst s) (fst t)" "scrub_trak_item i s = Inr s'"
  then show "\<exists>t'. scrub_trak_item i t = Inr t' \<and> agree (box_start i) (box_end i) (fst s') (fst t')"
    using mdia.walk_into_local [OF a(1-3)] by (auto simp: scrub_trak_item_def zero_times_local blank_local simp del: split_paired_Ex split: if_splits)
next
  fix b d d' assume a: "valid_box b" "box_end b \<le> length d" "agree (box_start b) (box_end b) d d'"
  then show "trak_post d b = trak_post d' b"
    using mdia.all_inside_local [OF a(1,3,2)] by (simp add: trak_post_def times_zero_local)
qed


interpretation moov: box_edits scrub_moov_item moov_post
proof unfold_locales
  fix i s s' assume a: "valid_box i" "box_end i \<le> length (fst s)" "scrub_moov_item i s = Inr s'"
  have e: "edits_box moov_post i s s'" if "kind i = kind_in (fst s) i"
  proof (cases "kind i \<in> set ISO_METADATA")
    case True
    then have "kind i \<noteq> tag ''mvhd''" "kind i \<noteq> tag ''trak''" using named_kind by auto
    with True a(3) have "s' = blank_iso i s" by (simp add: scrub_moov_item_def)
    with blank_edit [OF a(1,2)] show ?thesis by (simp add: edits_box_def moov_post_def kinds_apart)
  next
    case False
    show ?thesis
    proof (rule edits_boxI [OF a(1,2) _ that])
      show "only_in (box_body i) (box_end i) (fst s) (fst s')" "moov_post (fst s') i"
        using a(3) False zero_times_edit [OF a(1,2)] trak.walk_into_post [OF a(1,2)]
        by (auto simp: scrub_moov_item_def moov_post_def kinds_apart split: if_splits)
    qed
  qed
  show "only_in (box_start i) (box_end i) (fst s) (fst s')" "size_kept i (fst s) (fst s')"
    using a(3) blank_edit [OF a(1,2)] body_edit [OF conjunct1 [OF zero_times_edit [OF a(1,2)]] a(1)]
      body_edit [OF conjunct1 [OF trak.walk_into_post [OF a(1,2)]] a(1)]
    by (auto simp: scrub_moov_item_def size_kept_def split: if_splits)
  show "moov_post (fst s') (rekind (fst s') i)" if "kind i = kind_in (fst s) i"
    using e [OF that] by (simp add: edits_box_def)
next
  fix i s and t :: scrub_state and s' assume a: "valid_box i" "box_end i \<le> length (fst s)" "agree (box_start i) (box_end i) (fst s) (fst t)" "scrub_moov_item i s = Inr s'"
  then show "\<exists>t'. scrub_moov_item i t = Inr t' \<and> agree (box_start i) (box_end i) (fst s') (fst t')"
    using trak.walk_into_local [OF a(1-3)] by (auto simp: scrub_moov_item_def zero_times_local blank_local simp del: split_paired_Ex split: if_splits)
next
  fix b d d' assume a: "valid_box b" "box_end b \<le> length d" "agree (box_start b) (box_end b) d d'"
  then show "moov_post d b = moov_post d' b"
    using trak.all_inside_local [OF a(1,3,2)] by (simp add: moov_post_def times_zero_local)
qed

interpretation top: box_edits scrub_iso_item file_post
proof unfold_locales
  fix i s s' assume a: "valid_box i" "box_end i \<le> length (fst s)" "scrub_iso_item i s = Inr s'"
  have e: "edits_box file_post i s s'" if "kind i = kind_in (fst s) i"
  proof (cases "kind i \<in> set ISO_METADATA")
    case True
    then have "kind i \<noteq> tag ''moov''" using named_kind by auto
    with True a(3) have "s' = blank_iso i s" by (simp add: scrub_iso_item_def)
    with blank_edit [OF a(1,2)] show ?thesis by (simp add: edits_box_def file_post_def kinds_apart)
  next
    case False
    show ?thesis
    proof (rule edits_boxI [OF a(1,2) _ that])
      show "only_in (box_body i) (box_end i) (fst s) (fst s')" "file_post (fst s') i"
        using a(3) False moov.walk_into_post [OF a(1,2)]
        by (auto simp: scrub_iso_item_def scrub_moov_def file_post_def split: if_splits)
    qed
  qed
  show "only_in (box_start i) (box_end i) (fst s) (fst s')" "size_kept i (fst s) (fst s')"
    using a(3) blank_edit [OF a(1,2)] body_edit [OF conjunct1 [OF moov.walk_into_post [OF a(1,2)]] a(1)]
    by (auto simp: scrub_iso_item_def scrub_moov_def size_kept_def split: if_splits)
  show "file_post (fst s') (rekind (fst s') i)" if "kind i = kind_in (fst s) i"
    using e [OF that] by (simp add: edits_box_def)
next
  fix i s and t :: scrub_state and s' assume a: "valid_box i" "box_end i \<le> length (fst s)" "agree (box_start i) (box_end i) (fst s) (fst t)" "scrub_iso_item i s = Inr s'"
  then show "\<exists>t'. scrub_iso_item i t = Inr t' \<and> agree (box_start i) (box_end i) (fst s') (fst t')"
    using moov.walk_into_local [OF a(1-3)] by (auto simp: scrub_iso_item_def scrub_moov_def blank_local simp del: split_paired_Ex split: if_splits)
next
  fix b d d' assume a: "valid_box b" "box_end b \<le> length d" "agree (box_start b) (box_end b) d d'"
  then show "file_post d b = file_post d' b"
    using moov.all_inside_local [OF a(1,3,2)] by (simp add: file_post_def)
qed

section \<open>Properties\<close>

text \<open>
  An ISO file with nothing left to remove: no metadata box at the top, in a movie or in a track, and
  the times of every movie, track and media header are zero.
\<close>

definition clean_file :: "bytes \<Rightarrow> bool" where
  "clean_file d = list_all (file_post d) (fst (iso_boxes d 0 (length d)))"

lemma iso_boxes_zeros:
  assumes "\<forall>k. p \<le> k \<longrightarrow> k < length d \<longrightarrow> d ! k = 0" and "b \<in> set (fst (iso_boxes d p (length d)))"
  shows "kind b = [0, 0, 0, 0]"
proof -
  obtain bs w where walk: "iso_boxes d p (length d) = (bs, w)" by fastforce
  from iso_boxes_found [OF walk] assms(2) walk have b: "valid_box b" "p \<le> box_start b" "box_end b \<le> length d" "kind b = kind_in d b"
    by (auto simp: laid_out_def)
  have "take 4 (drop (box_start b + 4) d) = replicate 4 0"
    using b assms(1) by (intro nth_equalityI) (auto simp: valid_box_def)
  with b(4) show ?thesis by (simp add: kind_in_def numeral_eq_Suc)
qed

lemma scrub_trailer_cases:
  "from \<le> length (fst s) \<Longrightarrow> only_in from (length (fst s)) (fst s) (fst (scrub_trailer from s))
   \<and> (fst (scrub_trailer from s) = fst s \<or> (\<forall>k. from \<le> k \<longrightarrow> k < length (fst s) \<longrightarrow> fst (scrub_trailer from s) ! k = 0))"
  using zero_range_only_in [of "from" "length (fst s)" "fst s"]
  by (auto simp: scrub_trailer_def nth_zero_range)


lemma zeros_kind: "kind b = [0, 0, 0, 0] \<Longrightarrow> file_post d b"
  by (auto simp: file_post_def ISO_METADATA_def tag_def text_bytes_def)

lemma scrub_iso_run:
  assumes "scrub_iso s = Inr s'"
  obtains bs w s1 where "iso_boxes (fst s) 0 (length (fst s)) = (bs, w)" "run_all scrub_iso_item bs s = Inr s1"
    "s' = scrub_trailer (last_end bs) s1" "list_ex (\<lambda>b. kind b = tag ''moov'') bs"
proof -
  obtain bs w where "iso_boxes (fst s) 0 (length (fst s)) = (bs, w)" by fastforce
  with assms that show ?thesis by (auto simp: scrub_iso_def Let_def split: if_splits sum.splits)
qed

lemma last_end_bound: "iso_boxes d 0 (length d) = (bs, w) \<Longrightarrow> last_end bs \<le> length d"
  using iso_boxes_found [of d 0 "length d" bs w] by (auto simp: last_end_def)

text \<open>A box of the walk after the whole of \<open>scrub_iso\<close>: as the run over the boxes left it.\<close>

lemma scrub_iso_boxes:
  assumes walk: "iso_boxes (fst s) 0 (length (fst s)) = (bs, w)" and run: "run_all scrub_iso_item bs s = Inr s1"
    and "d' = fst (scrub_trailer (last_end bs) s1)"
  shows "length d' = length (fst s)" "b \<in> set bs \<Longrightarrow> agree (box_start b) (box_end b) (fst s1) d'"
    "agree (last_end bs) (length (fst s)) (fst s) (fst s1)"
proof -
  note rb = top.run_boxes [OF walk order_refl run]
  have len: "length (fst s1) = length (fst s)" using rb by (simp add: only_in_def)
  note tr = scrub_trailer_cases [of "last_end bs" s1] last_end_bound [OF walk]
  then show "length d' = length (fst s)" using len assms(3) by (simp add: only_in_def)
  show "agree (last_end bs) (length (fst s)) (fst s) (fst s1)" using rb by (auto simp: last_end_def split: if_splits)
  show "agree (box_start b) (box_end b) (fst s1) d'" if b: "b \<in> set bs"
  proof -
    have "sorted_wrt (\<lambda>i j. box_end i \<le> box_start j) bs" "\<forall>j \<in> set bs. box_start j \<le> box_end j"
      using iso_boxes_found [OF walk order_refl] by (auto simp: laid_out_def valid_box_def)
    then have "box_end b \<le> last_end bs"
      using b unfolding last_end_def
    proof (induction bs)
      case (Cons x xs)
      show ?case
      proof (cases "xs = []")
        case False
        then have "last xs \<in> set xs" by simp
        with Cons.prems have "box_end x \<le> box_end (last xs)" by (auto intro: le_trans)
        with Cons False show ?thesis by auto
      qed (use Cons.prems in simp)
    qed simp
    with tr len assms(3) show ?thesis by (auto intro: only_in_agree)
  qed
qed

text \<open>Other top-level boxes keep their bytes.\<close>

lemma scrub_iso_frame:
  assumes "scrub_iso s = Inr s'"
  shows "length (fst s') = length (fst s)
       \<and> (\<forall>b \<in> set (fst (iso_boxes (fst s) 0 (length (fst s)))).
            kind b \<noteq> tag ''moov'' \<and> kind b \<notin> set ISO_METADATA \<longrightarrow> agree (box_start b) (box_end b) (fst s) (fst s'))"
proof -
  obtain bs w s1 where walk: "iso_boxes (fst s) 0 (length (fst s)) = (bs, w)" and run: "run_all scrub_iso_item bs s = Inr s1"
    and s': "s' = scrub_trailer (last_end bs) s1" using scrub_iso_run [OF assms] .
  note found = iso_boxes_found [OF walk order_refl] and after = scrub_iso_boxes [OF walk run, of "fst s'"] s'
  have "agree (box_start b) (box_end b) (fst s) (fst s')"
    if b: "b \<in> set bs" and other: "kind b \<noteq> tag ''moov'' \<and> kind b \<notin> set ISO_METADATA" for b
  proof -
    from top.run_each [OF run _ b] found obtain t where "scrub_iso_item b s = Inr t" "agree (box_start b) (box_end b) (fst s1) (fst t)" by blast
    with other have "agree (box_start b) (box_end b) (fst s) (fst s1)" by (auto simp: scrub_iso_item_def intro: agree_sym)
    with after b show ?thesis by (auto intro: agree_trans)
  qed
  with walk after show ?thesis by simp
qed

text \<open>
  C14. A video of the ISO family (MP4, MOV, 3GP) that is sent carries no metadata where the
  app looks: walking the returned file finds no user-data, meta, uuid or XMP box at the top level, in
  any movie or in any track, and every movie, track and media header has its creation and modification times
  zeroed; the file has its length.
\<close>

theorem scrubbed_iso_clean:
  assumes "scrub_iso s = Inr s'"
  shows "clean_file (fst s') \<and> length (fst s') = length (fst s)"
proof -
  obtain bs w s1 where walk: "iso_boxes (fst s) 0 (length (fst s)) = (bs, w)" and run: "run_all scrub_iso_item bs s = Inr s1"
    and s': "s' = scrub_trailer (last_end bs) s1" using scrub_iso_run [OF assms] .
  let ?n = "length (fst s)"
  note rb = top.run_boxes [OF walk order_refl run] and found = iso_boxes_found [OF walk order_refl]
  note after = scrub_iso_boxes [OF walk run, of "fst s'"] s'
  have len: "length (fst s') = ?n" "length (fst s1) = ?n" using after rb by (auto simp: only_in_def)
  have sized: "\<forall>b \<in> set bs. size_kept b (fst s) (fst s')"
  proof
    fix b assume b: "b \<in> set bs"
    have "size_kept b (fst s) (fst s1)" "valid_box b" using rb found b by (auto simp: laid_out_def)
    moreover have "agree (box_start b) (box_end b) (fst s1) (fst s')" using after b by simp
    ultimately show "size_kept b (fst s) (fst s')" by (blast intro: size_kept_agree)
  qed
  obtain rest v where rest: "iso_boxes (fst s') (last_end bs) ?n = (rest, v)" by fastforce
  with iso_boxes_rekind [OF walk order_refl sized]
  have walk': "iso_boxes (fst s') 0 ?n = (map (rekind (fst s')) bs @ rest, v)" by (simp add: last_end_def split: if_splits)
  have "file_post (fst s') (rekind (fst s') b)" if b: "b \<in> set bs" for b
  proof -
    have ag: "agree (box_start b) (box_end b) (fst s1) (fst s')" and v: "valid_box b" "box_end b \<le> ?n"
      using after b found by (auto simp: laid_out_def)
    then have "rekind (fst s') b = rekind (fst s1) b"
      using slice_agree [OF ag, of "box_start b + 4" 4] by (simp add: rekind_def kind_in_def valid_box_def)
    then show ?thesis
      using rb b top.post_local [of "rekind (fst s1) b" "fst s1" "fst s'"] v ag len by simp
  qed
  moreover have "file_post (fst s') b" if b: "b \<in> set rest" for b
  proof -
    have "fst s' = fst s1 \<or> (\<forall>k. last_end bs \<le> k \<longrightarrow> k < length (fst s') \<longrightarrow> fst s' ! k = 0)"
      using scrub_trailer_cases [of "last_end bs" s1] last_end_bound [OF walk] len s' by auto
    then show ?thesis
    proof
      assume same: "fst s' = fst s1"
      have "iso_boxes (fst s1) (last_end bs) ?n = iso_boxes (fst s) (last_end bs) ?n"
        using after len by (intro iso_boxes_agree) (auto intro: agree_sym)
      then have "rest = []" using rest iso_boxes_end [OF walk] same by (simp add: last_end_def split: if_splits)
      with b show ?thesis by simp
    next
      assume z: "\<forall>k. last_end bs \<le> k \<longrightarrow> k < length (fst s') \<longrightarrow> fst s' ! k = 0"
      with iso_boxes_zeros [OF z, of b] rest b len show ?thesis by (simp add: zeros_kind)
    qed
  qed
  ultimately have "clean_file (fst s')" by (auto simp: clean_file_def list_all_iff len walk')
  then show ?thesis using scrub_iso_frame [OF assms] by simp
qed

section \<open>A sample\<close>

definition sample_video :: bytes where
  "sample_video = [0, 0, 0, 20, 109, 111, 111, 118, 0, 0, 0, 12, 117, 100, 116, 97, 71, 80, 83, 0, 0, 0, 0, 9, 109, 100, 97, 116, 7]"

lemma tags: "tag ''moov'' = [109, 111, 111, 118]" "tag ''udta'' = [117, 100, 116, 97]" "tag ''mdat'' = [109, 100, 97, 116]"
  "tag ''free'' = [102, 114, 101, 101]"
  by (simp_all add: tag_def text_bytes_def)

lemma sv_top: "iso_boxes sample_video 0 29 = ([\<lparr>kind = tag ''moov'', box_start = 0, box_body = 8, box_end = 20\<rparr>,
    \<lparr>kind = tag ''mdat'', box_start = 20, box_body = 28, box_end = 29\<rparr>], True)"
  by (simp add: sample_video_def iso_boxes.simps iso_box_at_def iso_box_size_def get_range_def be_nat_def tags)

lemma sv_moov: "iso_boxes sample_video 8 20 = ([\<lparr>kind = tag ''udta'', box_start = 8, box_body = 16, box_end = 20\<rparr>], True)"
  by (simp add: sample_video_def iso_boxes.simps iso_box_at_def iso_box_size_def get_range_def be_nat_def tags)

definition cleaned_video :: bytes where
  "cleaned_video = [0, 0, 0, 20, 109, 111, 111, 118, 0, 0, 0, 12, 102, 114, 101, 101, 0, 0, 0, 0, 0, 0, 0, 9, 109, 100, 97, 116, 7]"

lemma blank_sample: "fst (blank_iso \<lparr>kind = tag ''udta'', box_start = 8, box_body = 16, box_end = 20\<rparr> (sample_video, n)) = cleaned_video"
  by (simp add: blank_iso_def zero_range_def put_range_def tags sample_video_def cleaned_video_def numeral_eq_Suc)

lemma sample_scrub: "\<exists>n'. scrub_iso (sample_video, n) = Inr (cleaned_video, n')"
proof -
  let ?u = "\<lparr>kind = tag ''udta'', box_start = 8, box_body = 16, box_end = 20\<rparr>"
  have b: "blank_iso ?u (sample_video, n) = (cleaned_video, count_blanked n)"
    using blank_sample [of n] by (simp add: blank_iso_def)
  have len: "length sample_video = 29" "length cleaned_video = 29" by (simp_all add: sample_video_def cleaned_video_def)
  have "scrub_moov \<lparr>kind = tag ''moov'', box_start = 0, box_body = 8, box_end = 20\<rparr> (sample_video, n) = Inr (cleaned_video, count_blanked n)"
    by (simp add: scrub_moov_def walk_into_def sv_moov scrub_moov_item_def b ISO_METADATA_def tag_inj)
  then show ?thesis
    by (simp add: scrub_iso_def len sv_top scrub_iso_item_def ISO_METADATA_def tag_inj scrub_trailer_def last_end_def)
qed

theorem scrubbed_iso_clean_witness: "clean_file cleaned_video"
proof -
  obtain n' where "scrub_iso (sample_video, \<lparr>blanked = 0, times_zeroed = 0\<rparr>) = Inr (cleaned_video, n')" using sample_scrub by blast
  from scrubbed_iso_clean [OF this] show ?thesis by simp
qed

end
