(* ===== verification/StreamClean.thy ===== *)
theory StreamClean
  imports IsoClean
begin

text \<open>
  AVI and Matroska: the chunks and elements the scrubbing walks, as disjoint spans edited in place
  (\<open>span_edits\<close>), and the property common to the three families: the media stays byte for byte where it
  was. The Matroska loops, which walk the file while editing it, are shown to visit the elements of the original.
\<close>

section \<open>AVI\<close>

definition valid_chunk :: "riff_chunk \<Rightarrow> bool" where
  "valid_chunk c \<longleftrightarrow> ck_body c = ck_start c + 8 \<and> ck_body c \<le> ck_end c"

lemma riff_chunks_found:
  "n \<le> length d \<Longrightarrow> laid_out ck_start ck_end valid_chunk (riff_chunks d p n) (length d)
     \<and> (\<forall>c \<in> set (riff_chunks d p n). p \<le> ck_start c \<and> ck_end c \<le> n)"
proof (induction d p n rule: riff_chunks.induct)
  case (1 d p n)
  show ?case
  proof (cases "get_range d p (p + 8)")
    case None
    then show ?thesis by (simp add: riff_chunks.simps [of d p n] laid_out_def)
  next
    case (Some head)
    let ?size = "le_nat (drop 4 head)"
    show ?thesis
    proof (cases "p + 8 \<le> n \<and> p + 8 + ?size \<le> n")
      case False
      with Some show ?thesis by (auto simp: riff_chunks.simps [of d p n] laid_out_def Let_def)
    next
      case True
      let ?rest = "riff_chunks d (p + 8 + ?size + ?size mod 2) n"
      have rest: "laid_out ck_start ck_end valid_chunk ?rest (length d)"
          "\<forall>c \<in> set ?rest. p + 8 + ?size + ?size mod 2 \<le> ck_start c \<and> ck_end c \<le> n"
        using "1.IH" [OF Some _ refl refl] True "1.prems" by simp_all
      have "riff_chunks d p n = \<lparr>fourcc = take 4 head, ck_start = p, ck_body = p + 8, ck_end = p + 8 + ?size\<rparr> # ?rest"
        using True Some by (simp add: riff_chunks.simps [of d p n] Let_def)
      moreover have "\<forall>c \<in> set ?rest. p + 8 + ?size \<le> ck_start c \<and> p \<le> ck_start c" using rest(2) by auto
      moreover have "valid_chunk \<lparr>fourcc = take 4 head, ck_start = p, ck_body = p + 8, ck_end = p + 8 + ?size\<rparr>"
        by (simp add: valid_chunk_def)
      ultimately show ?thesis using rest True "1.prems" by (simp add: laid_out_Cons)
    qed
  qed
qed

lemma riff_chunks_agree:
  "agree p n d d' \<Longrightarrow> n \<le> length d \<Longrightarrow> riff_chunks d p n = riff_chunks d' p n"
proof (induction d p n rule: riff_chunks.induct)
  case (1 d p n)
  show ?case
  proof (cases "p + 8 \<le> n")
    case False
    then show ?thesis by (auto simp: riff_chunks.simps [of d p n] riff_chunks.simps [of d' p n] split: option.splits)
  next
    case True
    have same: "get_range d p (p + 8) = get_range d' p (p + 8)" using "1.prems"(1) True by (intro get_range_agree) auto
    obtain head where head: "get_range d p (p + 8) = Some head" using True "1.prems"(2) by (auto simp: get_range_def)
    let ?e = "p + 8 + le_nat (drop 4 head)"
    show ?thesis
    proof (cases "n < ?e")
      case False
      have "agree (?e + le_nat (drop 4 head) mod 2) n d d'" using "1.prems"(1) by (rule agree_sub) auto
      with "1.IH" [OF head _ refl refl _ this "1.prems"(2)] True False head same show ?thesis
        by (simp add: riff_chunks.simps [of d p n] riff_chunks.simps [of d' p n] Let_def)
    qed (use True head same in \<open>simp add: riff_chunks.simps [of d p n] riff_chunks.simps [of d' p n] Let_def\<close>)
  qed
qed

lemma length_junk_tag: "length (tag ''JUNK'') = 4"
  by (simp add: tag_def)

lemma junk_span: "valid_chunk c \<Longrightarrow> ck_end c \<le> length (fst s) \<Longrightarrow> only_in (ck_start c) (ck_end c) (fst s) (fst (junk c s))"
proof -
  assume a: "valid_chunk c" "ck_end c \<le> length (fst s)"
  let ?d = "put_range (fst s) (ck_start c) (tag ''JUNK'')"
  have "only_in (ck_start c) (ck_end c) (fst s) ?d"
    using put_range_only_in [of "ck_start c" "tag ''JUNK''" "fst s"] a
    by (auto simp: valid_chunk_def length_junk_tag intro: only_in_sub)
  moreover have "only_in (ck_start c) (ck_end c) ?d (fst (junk c s))"
    using zero_range_only_in [of "ck_body c" "ck_end c" ?d] a
    by (auto simp: valid_chunk_def length_junk_tag same_length junk_def intro: only_in_sub)
  ultimately show ?thesis by (rule only_in_trans)
qed

lemma junk_local: "valid_chunk c \<Longrightarrow> ck_end c \<le> length (fst s) \<Longrightarrow> agree a b (fst s) (fst t) \<Longrightarrow>
    agree a b (fst (junk c s)) (fst (junk c t))"
  by (auto simp: junk_def valid_chunk_def same_length length_junk_tag intro!: zero_range_agree put_range_agree)

interpretation hdrl: span_edits ck_start ck_end valid_chunk scrub_hdrl_item
proof unfold_locales
  fix i s and t :: scrub_state and s' assume a: "valid_chunk i" "ck_end i \<le> length (fst s)" "scrub_hdrl_item i s = Inr s'"
  then show "only_in (ck_start i) (ck_end i) (fst s) (fst s')"
    using junk_span [OF a(1,2)] by (auto simp: scrub_hdrl_item_def split: if_splits)
next
  fix i s and t :: scrub_state and s'
  assume a: "valid_chunk i" "ck_end i \<le> length (fst s)" "agree (ck_start i) (ck_end i) (fst s) (fst t)" "scrub_hdrl_item i s = Inr s'"
  then show "\<exists>t'. scrub_hdrl_item i t = Inr t' \<and> agree (ck_start i) (ck_end i) (fst s') (fst t')"
    using junk_local [OF a(1-3)] by (auto simp: scrub_hdrl_item_def simp del: split_paired_Ex)
qed

interpretation avi: span_edits ck_start ck_end valid_chunk scrub_avi_item
proof unfold_locales
  fix i s s' assume a: "valid_chunk i" "ck_end i \<le> length (fst s)" "scrub_avi_item i s = Inr s'"
  note found = riff_chunks_found [OF a(2), of "ck_body i + 4"]
  have "only_in (ck_start i) (ck_end i) (fst s) (fst s')" if "run_all scrub_hdrl_item (riff_chunks (fst s) (ck_body i + 4) (ck_end i)) s = Inr s'"
  proof -
    have "\<forall>c \<in> set (riff_chunks (fst s) (ck_body i + 4) (ck_end i)). ck_start i \<le> ck_start c \<and> ck_end c \<le> ck_end i"
      using found a(1) by (auto simp: valid_chunk_def)
    with hdrl.run_within [OF that _ this] found show ?thesis by blast
  qed
  with a junk_span [OF a(1,2)] show "only_in (ck_start i) (ck_end i) (fst s) (fst s')"
    by (auto simp: scrub_avi_item_def Let_def split: if_splits)
next
  fix i s and t :: scrub_state and s'
  assume a: "valid_chunk i" "ck_end i \<le> length (fst s)" "agree (ck_start i) (ck_end i) (fst s) (fst t)" "scrub_avi_item i s = Inr s'"
  let ?cs = "\<lambda>d. riff_chunks d (ck_body i + 4) (ck_end i)"
  have same: "?cs (fst t) = ?cs (fst s)"
    using agree_sub [OF a(3), of "ck_body i + 4" "ck_end i"] a(1,2) riff_chunks_agree by (fastforce simp: valid_chunk_def)
  have form: "take 4 (drop (ck_body i) (fst t)) = take 4 (drop (ck_body i) (fst s))" if "ck_body i + 4 \<le> ck_end i"
    using slice_agree [OF a(3), of "ck_body i" 4] a(1) that by (simp add: valid_chunk_def)
  note found = riff_chunks_found [OF a(2), of "ck_body i + 4"]
  have "\<forall>c \<in> set (?cs (fst s)). ck_start i \<le> ck_start c \<and> ck_end c \<le> ck_end i"
    using found a(1) by (auto simp: valid_chunk_def)
  note inner = hdrl.run_local [OF _ _ this a(3)]
  show "\<exists>t'. scrub_avi_item i t = Inr t' \<and> agree (ck_start i) (ck_end i) (fst s') (fst t')"
  proof (cases "fourcc i = tag ''LIST'' \<and> ck_body i + 4 \<le> ck_end i")
    case False
    with a(3,4) show ?thesis by (auto simp: scrub_avi_item_def simp del: split_paired_Ex)
  next
    case True
    with a(3,4) inner found junk_local [OF a(1-3)] show ?thesis
      unfolding scrub_avi_item_def form [OF conjunct2 [OF True]] same
      by (simp add: Let_def del: split_paired_Ex split: if_splits)
  qed
qed


section \<open>Matroska\<close>

text \<open>The elements, all of known size, that a loop visits between two positions.\<close>

definition span_end :: "ebml \<Rightarrow> nat" where
  "span_end el = the (el_end el)"

definition valid_element :: "ebml \<Rightarrow> bool" where
  "valid_element el \<longleftrightarrow> el_start el + 2 \<le> el_body el \<and> (\<exists>e. el_end el = Some e \<and> el_body el \<le> e)"

definition next_element :: "bytes \<Rightarrow> nat \<Rightarrow> nat \<Rightarrow> ebml option" where
  "next_element d p stop =
     (case ebml_at d p stop of None \<Rightarrow> None | Some el \<Rightarrow> if el_end el = None then None else Some el)"

lemma next_element_SomeD:
  assumes "next_element d p stop = Some el"
  shows "valid_element el \<and> el_start el = p \<and> p < span_end el \<and> span_end el \<le> stop \<and> el_end el = Some (span_end el)
    \<and> el_body el \<le> length d \<and> ebml_at d p stop = Some el"
  using assms ebml_at_SomeD [of d p stop el]
  by (auto simp: next_element_def valid_element_def span_end_def split: option.splits if_splits)

function elements :: "bytes \<Rightarrow> nat \<Rightarrow> nat \<Rightarrow> ebml list" where
  "elements d p stop =
     (if p < stop
      then (case next_element d p stop of None \<Rightarrow> [] | Some el \<Rightarrow> el # elements d (span_end el) stop)
      else [])"
  by pat_completeness auto
termination
  by (relation "measure (\<lambda>(d, p, stop). stop - p)") (auto dest!: next_element_SomeD)

declare elements.simps [simp del]

lemma elements_found:
  "stop \<le> length d \<Longrightarrow> laid_out el_start span_end valid_element (elements d p stop) (length d)
     \<and> (\<forall>el \<in> set (elements d p stop). p \<le> el_start el \<and> span_end el \<le> stop)"
proof (induction d p stop rule: elements.induct)
  case (1 d p stop)
  show ?case
  proof (cases "p < stop \<and> next_element d p stop \<noteq> None")
    case False
    then have "elements d p stop = []" by (auto simp: elements.simps [of d p stop])
    then show ?thesis by (simp add: laid_out_def)
  next
    case True
    then obtain el where el: "next_element d p stop = Some el" "p < stop" by blast
    note e = next_element_SomeD [OF el(1)]
    have "elements d p stop = el # elements d (span_end el) stop" using el by (simp add: elements.simps [of d p stop])
    with "1.IH" [OF el(2,1) "1.prems"] e "1.prems" show ?thesis by (fastforce simp: laid_out_Cons)
  qed
qed

text \<open>The bytes of a header: what reading an element depends on.\<close>

lemma ebml_at_agree:
  assumes el: "ebml_at d p stop = Some el" and ag: "agree p (el_body el) d d'"
  shows "ebml_at d' p stop = Some el"
proof -
  obtain i il v sl where i: "ebml_id d p = Some (i, il)" and v: "ebml_size d (p + il) = Some (v, sl)"
    and body: "el_body el = p + il + sl"
    using el by (auto simp: ebml_at_def bind_eq_Some_conv Let_def split: option.splits if_splits)
  note il = ebml_id_SomeD [OF i] and sl = ebml_size_SomeD [OF v]
  have "ebml_id d' p = Some (i, il)"
  proof -
    have "get_at d' p = get_at d p" using get_at_agree [OF ag, of p] il sl body by simp
    moreover have "get_range d' p (p + il) = get_range d p (p + il)" using get_range_agree [OF ag, of p "p + il"] body by simp
    ultimately show ?thesis using i by (auto simp: ebml_id_def bind_eq_Some_conv Let_def split: if_splits)
  qed
  moreover have "ebml_size d' (p + il) = Some (v, sl)"
  proof -
    have "get_at d' (p + il) = get_at d (p + il)" using get_at_agree [OF ag, of "p + il"] sl body by simp
    moreover have "get_range d' (p + il) (p + il + sl) = get_range d (p + il) (p + il + sl)"
      using get_range_agree [OF ag, of "p + il" "p + il + sl"] body by simp
    ultimately show ?thesis using v by (auto simp: ebml_size_def bind_eq_Some_conv Let_def split: if_splits)
  qed
  ultimately show ?thesis using el i v by (simp add: ebml_at_def)
qed

lemma next_element_agree:
  assumes "agree p stop d d'"
  shows "next_element d p stop = next_element d' p stop"
proof -
  have one: "next_element e' p stop = Some el" if "next_element e p stop = Some el" "agree p stop e e'" for e e' el
  proof -
    note n = next_element_SomeD [OF that(1)]
    then have "agree p (el_body el) e e'" using that(2) by (auto simp: valid_element_def span_end_def intro: agree_sub)
    with n ebml_at_agree [of e p stop el e'] show ?thesis by (simp add: next_element_def)
  qed
  show ?thesis
    using one [OF _ assms] one [OF _ agree_sym [OF assms]]
    by (cases "next_element d p stop"; cases "next_element d' p stop") fastforce+
qed

lemma elements_agree: "agree p stop d d' \<Longrightarrow> elements d p stop = elements d' p stop"
proof (induction d p stop rule: elements.induct)
  case (1 d p stop)
  show ?case
  proof (cases "p < stop \<and> next_element d p stop \<noteq> None")
    case False
    with next_element_agree [OF "1.prems"] show ?thesis
      by (auto simp: elements.simps [of d p stop] elements.simps [of d' p stop])
  next
    case True
    then obtain el where el: "next_element d p stop = Some el" "p < stop" by blast
    have "agree (span_end el) stop d d'" using "1.prems" next_element_SomeD [OF el(1)] by (auto intro: agree_sub)
    with "1.IH" [OF el(2,1)] el next_element_agree [OF "1.prems"] show ?thesis
      by (simp add: elements.simps [of d p stop] elements.simps [of d' p stop])
  qed
qed


text \<open>A loop that reads an element, edits it and goes on after it, in terms of the elements of the file it starts from.\<close>

locale element_loop = span_edits el_start span_end valid_element "\<lambda>c s. Inr (item c s)"
  for item :: "ebml \<Rightarrow> scrub_state \<Rightarrow> scrub_state" +
  fixes loop :: "nat \<Rightarrow> nat \<Rightarrow> scrub_state \<Rightarrow> scrub_state"
  assumes loop_step: "loop p stop s =
    (if p < stop then (case next_element (fst s) p stop of None \<Rightarrow> s | Some el \<Rightarrow> loop (span_end el) stop (item el s)) else s)"
begin

lemma loop_run:
  "stop \<le> length (fst s) \<Longrightarrow> run_all (\<lambda>c s. Inr (item c s)) (elements (fst s) p stop) s = (Inr (loop p stop s) :: video_error + scrub_state)"
proof (induction "stop - p" arbitrary: p s rule: less_induct)
  case less
  show ?case
  proof (cases "p < stop \<and> next_element (fst s) p stop \<noteq> None")
    case False
    then show ?thesis by (subst loop_step) (auto simp: elements.simps [of "fst s" p stop])
  next
    case True
    then obtain el where el: "next_element (fst s) p stop = Some el" "p < stop" by blast
    note e = next_element_SomeD [OF el(1)]
    have o: "only_in (el_start el) (span_end el) (fst s) (fst (item el s))"
      using edit_span [of el s "item el s"] e less.prems by simp
    then have "agree (span_end el) stop (fst s) (fst (item el s))" by (rule only_in_agree) simp
    from elements_agree [OF this] have els: "elements (fst s) p stop = el # elements (fst (item el s)) (span_end el) stop"
      using el by (simp add: elements.simps [of "fst s" p stop])
    have "stop \<le> length (fst (item el s))" using o less.prems by (simp add: only_in_def)
    from less.hyps [OF _ this, of "span_end el"] e el(2) show ?thesis
      unfolding els by (subst loop_step) (simp add: el diff_less_mono2)
  qed
qed

lemma loop_span:
  assumes "stop \<le> length (fst s)"
  shows "only_in p stop (fst s) (fst (loop p stop s))"
  using run_within [OF loop_run [OF assms, of p], of p stop] elements_found [OF assms, of p] by blast

lemma loop_local:
  assumes "stop \<le> length (fst s)" and "agree a b (fst s) (fst t)" and "a \<le> p" and "stop \<le> b"
  shows "agree a b (fst (loop p stop s)) (fst (loop p stop t))"
proof -
  have same: "elements (fst t) p stop = elements (fst s) p stop"
    using elements_agree [OF agree_sub [OF assms(2-4)]] by simp
  have len: "stop \<le> length (fst t)" using assms(1,2) by (simp add: agree_def)
  have "\<forall>i \<in> set (elements (fst s) p stop). a \<le> el_start i \<and> span_end i \<le> b"
    using elements_found [OF assms(1), of p] assms(3,4) by auto
  with run_local [OF loop_run [OF assms(1), of p] _ this assms(2)] elements_found [OF assms(1), of p] loop_run [OF len, of p]
  show ?thesis by (auto simp: same)
qed

lemma loop_each:
  assumes "stop \<le> length (fst s)" and "el \<in> set (elements (fst s) p stop)"
  shows "agree (el_start el) (span_end el) (fst (loop p stop s)) (fst (item el s))"
  using run_each [OF loop_run [OF assms(1), of p] _ assms(2)] elements_found [OF assms(1), of p] by auto

end

lemma void_span:
  assumes "valid_element el" "span_end el \<le> length (fst s)"
  shows "only_in (el_start el) (span_end el) (fst s) (fst (ebml_void (el_start el) (span_end el) s))
    \<and> fst (ebml_void (el_start el) (span_end el) s) ! el_start el = 0xEC
    \<and> (\<forall>k \<in> {el_start el + 9..<span_end el}. fst (ebml_void (el_start el) (span_end el) s) ! k = 0)"
proof -
  let ?a = "el_start el" and ?b = "span_end el"
  have ab: "?a + 2 \<le> ?b" using assms(1) by (auto simp: valid_element_def span_end_def)
  let ?d = "put_range (zero_range (fst s) ?a ?b) ?a [0xEC]"
  have d: "length ?d = length (fst s)" "?d ! k = (if ?a \<le> k \<and> k < ?b then (if k = ?a then 0xEC else 0) else fst s ! k)"
    if "k < length (fst s)" for k
    using that ab assms(2) by (auto simp: same_length nth_put_range nth_zero_range)
  show ?thesis
  proof (cases "9 \<le> ?b - ?a")
    case True
    then have "fst (ebml_void ?a ?b s) = put_range ?d (?a + 1) (0x01 # be_bytes 7 (?b - ?a - 9))"
      by (simp add: ebml_void_def Let_def)
    with True ab assms(2) d show ?thesis by (auto simp: only_in_def same_length nth_put_range nth_zero_range)
  next
    case False
    moreover have "2 \<le> ?b - ?a" using ab by simp
    ultimately have "fst (ebml_void ?a ?b s) = put_range ?d (?a + 1) [0x80 OR of_nat (?b - ?a - 2)]"
      by (simp only: ebml_void_def Let_def fst_conv if_True if_False)
    with False ab assms(2) d show ?thesis by (auto simp: only_in_def same_length nth_put_range nth_zero_range)
  qed
qed

lemma void_local:
  assumes "valid_element el" "span_end el \<le> length (fst s)" "agree a b (fst s) (fst t)"
  shows "agree a b (fst (ebml_void (el_start el) (span_end el) s)) (fst (ebml_void (el_start el) (span_end el) t))"
proof -
  have ab: "el_start el + 2 \<le> span_end el" using assms(1) by (auto simp: valid_element_def span_end_def)
  show ?thesis using ab assms(2,3)
    by (auto simp: ebml_void_def Let_def same_length intro!: put_range_agree zero_range_agree)
qed

interpretation info: element_loop "\<lambda>c. info_item c (span_end c)" scrub_info
proof unfold_locales
  fix i s s' assume a: "valid_element i" "span_end i \<le> length (fst s)" "Inr (info_item i (span_end i) s) = (Inr s' :: video_error + scrub_state)"
  have "el_start i \<le> el_body i" "el_body i \<le> span_end i" using a(1) by (auto simp: valid_element_def span_end_def)
  then have "only_in (el_start i) (span_end i) (fst s) (zero_range (fst s) (el_body i) (span_end i))"
    using only_in_sub [OF zero_range_only_in [of "el_body i" "span_end i" "fst s"]] a(2) by simp
  then show "only_in (el_start i) (span_end i) (fst s) (fst s')"
    using a(3) void_span [OF a(1,2)] by (auto simp: info_item_def split: if_splits)
next
  fix i s and t :: scrub_state and s'
  assume a: "valid_element i" "span_end i \<le> length (fst s)" "agree (el_start i) (span_end i) (fst s) (fst t)"
    "Inr (info_item i (span_end i) s) = (Inr s' :: video_error + scrub_state)"
  have "el_body i \<le> span_end i" using a(1) by (auto simp: valid_element_def span_end_def)
  with a void_local [OF a(1-3)]
  show "\<exists>t'. Inr (info_item i (span_end i) t) = (Inr t' :: video_error + scrub_state) \<and> agree (el_start i) (span_end i) (fst s') (fst t')"
    by (auto simp: info_item_def zero_range_agree simp del: split_paired_Ex)
next
  fix p stop s
  show "scrub_info p stop s = (if p < stop then (case next_element (fst s) p stop of None \<Rightarrow> s
      | Some el \<Rightarrow> scrub_info (span_end el) stop (info_item el (span_end el) s)) else s)"
    by (auto simp: scrub_info.simps [of p stop s] next_element_def span_end_def split: option.splits)
qed

interpretation seg: element_loop "\<lambda>el. segment_item el (span_end el)" scrub_segment
proof unfold_locales
  fix i s s' assume a: "valid_element i" "span_end i \<le> length (fst s)" "Inr (segment_item i (span_end i) s) = (Inr s' :: video_error + scrub_state)"
  have "el_start i \<le> el_body i" using a(1) by (auto simp: valid_element_def)
  with a(3) void_span [OF a(1,2)] info.loop_span [OF a(2), of "el_body i"]
  show "only_in (el_start i) (span_end i) (fst s) (fst s')"
    by (auto simp: segment_item_def intro: only_in_sub split: if_splits)
next
  fix i s and t :: scrub_state and s'
  assume a: "valid_element i" "span_end i \<le> length (fst s)" "agree (el_start i) (span_end i) (fst s) (fst t)"
    "Inr (segment_item i (span_end i) s) = (Inr s' :: video_error + scrub_state)"
  have "el_start i \<le> el_body i" using a(1) by (auto simp: valid_element_def)
  with a void_local [OF a(1-3)] info.loop_local [OF a(2,3)]
  show "\<exists>t'. Inr (segment_item i (span_end i) t) = (Inr t' :: video_error + scrub_state) \<and> agree (el_start i) (span_end i) (fst s') (fst t')"
    by (auto simp: segment_item_def simp del: split_paired_Ex split: if_splits)
next
  fix p stop s
  show "scrub_segment p stop s = (if p < stop then (case next_element (fst s) p stop of None \<Rightarrow> s
      | Some el \<Rightarrow> scrub_segment (span_end el) stop (segment_item el (span_end el) s)) else s)"
    by (auto simp: scrub_segment.simps [of p stop s] next_element_def span_end_def split: option.splits)
qed


section \<open>Properties of all three families\<close>

definition is_avi :: "bytes \<Rightarrow> bool" where
  "is_avi data = (\<not> prefix EBML_MAGIC data \<and> 12 \<le> length data \<and> take 4 data = tag ''RIFF'' \<and> take 4 (drop 8 data) = tag ''AVI '')"

text \<open>Where the segment of a Matroska file begins and ends.\<close>

definition segment_range :: "bytes \<Rightarrow> nat \<times> nat" where
  "segment_range d =
     (case ebml_at d 0 (length d) of
        None \<Rightarrow> (0, 0)
      | Some h \<Rightarrow> (case ebml_at d (span_end h) (length d) of
          None \<Rightarrow> (0, 0)
        | Some sg \<Rightarrow> (el_body sg, case el_end sg of None \<Rightarrow> length d | Some e \<Rightarrow> e)))"

definition segment_elements :: "bytes \<Rightarrow> ebml list" where
  "segment_elements d = elements d (fst (segment_range d)) (snd (segment_range d))"

definition avi_form :: "bytes \<Rightarrow> riff_chunk \<Rightarrow> bytes" where
  "avi_form d c = take 4 (drop (ck_body c) d)"

definition avi_list :: "bytes \<Rightarrow> string \<Rightarrow> riff_chunk \<Rightarrow> bool" where
  "avi_list d form c = (fourcc c = tag ''LIST'' \<and> ck_body c + 4 \<le> ck_end c \<and> avi_form d c = tag form)"

text \<open>The top-level spans that hold neither metadata nor something that may.\<close>

definition media_spans :: "bytes \<Rightarrow> (nat \<times> nat) list" where
  "media_spans d =
     (if prefix EBML_MAGIC d
      then map (\<lambda>el. (el_start el, span_end el))
             (filter (\<lambda>el. el_id el \<notin> {SEG_TAGS, SEG_ATTACHMENTS, SEG_INFO}) (segment_elements d))
      else if is_avi d
      then map (\<lambda>c. (ck_start c, ck_end c))
             (filter (\<lambda>c. \<not> avi_list d ''INFO'' c \<and> \<not> avi_list d ''hdrl'' c) (riff_chunks d 12 (riff_end d)))
      else map (\<lambda>b. (box_start b, box_end b))
             (filter (\<lambda>b. kind b \<noteq> tag ''moov'' \<and> kind b \<notin> set ISO_METADATA) (fst (iso_boxes d 0 (length d)))))"

lemma scrub_matroska_run:
  assumes "scrub_matroska s = Inr s'"
  shows "s' = scrub_segment (fst (segment_range (fst s))) (snd (segment_range (fst s))) s
    \<and> snd (segment_range (fst s)) \<le> length (fst s)"
proof -
  obtain h sg p where h: "ebml_at (fst s) 0 (length (fst s)) = Some h" "el_end h = Some p"
    and sg: "ebml_at (fst s) p (length (fst s)) = Some sg"
    and s': "s' = scrub_segment (el_body sg) (case el_end sg of None \<Rightarrow> length (fst s) | Some e \<Rightarrow> e) s"
    using assms by (auto simp: scrub_matroska_def split: option.splits if_splits)
  then have "segment_range (fst s) = (el_body sg, case el_end sg of None \<Rightarrow> length (fst s) | Some e \<Rightarrow> e)"
    by (simp add: segment_range_def span_end_def)
  with s' ebml_at_SomeD [OF sg] show ?thesis by (auto split: option.splits)
qed

lemma avi_chunk:
  assumes "scrub_avi s = Inr s'" and "c \<in> set (riff_chunks (fst s) 12 (riff_end (fst s)))"
  shows "length (fst s') = length (fst s) \<and> valid_chunk c \<and> ck_end c \<le> length (fst s)
    \<and> (\<exists>t. scrub_avi_item c s = Inr t \<and> agree (ck_start c) (ck_end c) (fst s') (fst t))"
proof -
  have "riff_end (fst s) \<le> length (fst s)" by (simp add: riff_end_def)
  note found = riff_chunks_found [OF this, of 12]
  note run = assms(1) [unfolded scrub_avi_def]
  show ?thesis
    using avi.run_each [OF run _ assms(2)] avi.run_span [OF run] found assms(2) by (auto simp: laid_out_def)
qed

text \<open>
  Nothing moves and the media is sent bit for bit as recorded. Whatever the container, the
  scrubbed file has the original's length, and every top-level part that is neither metadata nor a header
  that may hold some (the Matroska clusters, the AVI streams, the MP4 media data) is byte for byte where it was.
\<close>

theorem scrubbed_media_kept:
  assumes "scrub_video data = Inr (data', n)"
  shows "length data' = length data \<and> (\<forall>(a, b) \<in> set (media_spans data). agree a b data data')"
proof -
  let ?s = "(data, \<lparr>blanked = 0, times_zeroed = 0\<rparr>)"
  consider (mkv) "prefix EBML_MAGIC data" "scrub_matroska ?s = Inr (data', n)"
    | (avi) "is_avi data" "\<not> prefix EBML_MAGIC data" "scrub_avi ?s = Inr (data', n)"
    | (iso) "\<not> is_avi data" "\<not> prefix EBML_MAGIC data" "scrub_iso ?s = Inr (data', n)"
    using assms by (auto simp: scrub_video_def is_avi_def Let_def split: if_splits)
  then show ?thesis
  proof cases
    case mkv
    from scrub_matroska_run [OF mkv(2)] have run: "(data', n) = scrub_segment (fst (segment_range data)) (snd (segment_range data)) ?s"
      and stop: "snd (segment_range data) \<le> length data" by simp_all
    have "length data' = length data"
      using seg.loop_span [of "snd (segment_range data)" ?s "fst (segment_range data)"] stop run
      by (metis fst_conv only_in_def)
    moreover have "agree (el_start el) (span_end el) data data'"
      if "el \<in> set (segment_elements data)" "el_id el \<notin> {SEG_TAGS, SEG_ATTACHMENTS, SEG_INFO}" for el
      using seg.loop_each [of "snd (segment_range data)" ?s el "fst (segment_range data)"] stop that
      by (auto simp: segment_elements_def segment_item_def simp flip: run intro: agree_sym)
    ultimately show ?thesis using mkv(1) by (auto simp: media_spans_def)
  next
    case avi
    have "agree (ck_start c) (ck_end c) data data'"
      if "c \<in> set (riff_chunks data 12 (riff_end data))" "\<not> avi_list data ''INFO'' c" "\<not> avi_list data ''hdrl'' c" for c
      using avi_chunk [OF avi(3), of c] that
      by (auto simp: scrub_avi_item_def avi_list_def avi_form_def Let_def intro: agree_sym split: if_splits)
    moreover have "length data' = length data"
    proof -
      have "riff_end data \<le> length data" by (simp add: riff_end_def)
      with avi.run_span [of "riff_chunks data 12 (riff_end data)" ?s "(data', n)"] avi(3) riff_chunks_found
      show ?thesis by (simp add: scrub_avi_def)
    qed
    ultimately show ?thesis using avi(1,2) by (auto simp: media_spans_def)
  next
    case iso
    from scrub_iso_frame [OF iso(3)] show ?thesis using iso(1,2) by (auto simp: media_spans_def)
  qed
qed


theorem scrubbed_media_kept_witness:
  "(20, 29) \<in> set (media_spans sample_video) \<and> agree 20 29 sample_video cleaned_video"
proof -
  let ?n = "\<lparr>blanked = 0, times_zeroed = 0\<rparr>"
  obtain n' where n': "scrub_iso (sample_video, ?n) = Inr (cleaned_video, n')" using sample_scrub by blast
  have other: "\<not> prefix EBML_MAGIC sample_video" "take 4 sample_video \<noteq> tag ''RIFF''" "length sample_video = 29"
    by (simp_all add: sample_video_def EBML_MAGIC_def tag_def text_bytes_def)
  then have "scrub_video sample_video = Inr (cleaned_video, n')" using n' by (simp add: scrub_video_def)
  moreover have "(20, 29) \<in> set (media_spans sample_video)"
    using other by (simp add: media_spans_def is_avi_def sv_top tag_inj ISO_METADATA_def)
  ultimately show ?thesis using scrubbed_media_kept [of sample_video cleaned_video n'] by blast
qed

text \<open>What becomes of the metadata of the two stream formats: padding of the format, with its contents zeroed.\<close>

lemma matroska_tags_voided:
  assumes "scrub_matroska s = Inr s'" and "el \<in> set (segment_elements (fst s))" and "el_id el \<in> {SEG_TAGS, SEG_ATTACHMENTS}"
  shows "fst s' ! el_start el = 0xEC \<and> (\<forall>k \<in> {el_start el + 9..<span_end el}. fst s' ! k = 0)"
proof -
  note run = scrub_matroska_run [OF assms(1)]
  then have stop: "snd (segment_range (fst s)) \<le> length (fst s)" by blast
  note found = elements_found [OF stop, of "fst (segment_range (fst s))", folded segment_elements_def]
  then have v: "valid_element el" "span_end el \<le> length (fst s)" using assms(2) by (auto simp: laid_out_def)
  have "agree (el_start el) (span_end el) (fst s') (fst (ebml_void (el_start el) (span_end el) s))"
    using seg.loop_each [OF stop, of el "fst (segment_range (fst s))"] assms(2,3) run
    by (auto simp: segment_elements_def segment_item_def)
  moreover have "el_start el < span_end el" using v(1) by (auto simp: valid_element_def span_end_def)
  moreover have "length (fst s') = length (fst s)"
    using seg.loop_span [OF stop, of "fst (segment_range (fst s))"] run by (simp add: only_in_def)
  ultimately show ?thesis using void_span [OF v] v(2) by (auto simp: agree_def)
qed

lemma avi_info_junked:
  assumes "scrub_avi s = Inr s'" and "c \<in> set (riff_chunks (fst s) 12 (riff_end (fst s)))" and "avi_list (fst s) ''INFO'' c"
  shows "take 4 (drop (ck_start c) (fst s')) = tag ''JUNK'' \<and> (\<forall>k \<in> {ck_body c..<ck_end c}. fst s' ! k = 0)"
proof -
  obtain t where c: "valid_chunk c" "ck_end c \<le> length (fst s)" and t: "scrub_avi_item c s = Inr t" "agree (ck_start c) (ck_end c) (fst s') (fst t)"
    using avi_chunk [OF assms(1,2)] by blast
  let ?d = "put_range (fst s) (ck_start c) (tag ''JUNK'')"
  have junked: "fst t = zero_range ?d (ck_body c) (ck_end c)"
    using t(1) assms(3) by (auto simp: scrub_avi_item_def avi_list_def avi_form_def junk_def split: if_splits)
  have v: "ck_body c = ck_start c + 8" "ck_body c \<le> ck_end c" using c(1) by (auto simp: valid_chunk_def)
  have len: "length ?d = length (fst s)" using v c(2) by (simp add: same_length length_junk_tag)
  have "take 4 (drop (ck_start c) (fst s')) = take 4 (drop (ck_start c) (fst t))"
    using slice_agree [OF t(2), of "ck_start c" 4] v by simp
  also have "\<dots> = take 4 (drop (ck_start c) ?d)"
    using slice_agree [OF only_in_agree [OF zero_range_only_in [of "ck_body c" "ck_end c" ?d]], of "ck_body c" "ck_start c" "ck_start c" 4]
      v c(2) len junked by simp
  also have "\<dots> = tag ''JUNK''" using v c(2) by (simp add: put_range_def length_junk_tag)
  finally have "take 4 (drop (ck_start c) (fst s')) = tag ''JUNK''" .
  moreover have "fst s' ! k = 0" if "k \<in> {ck_body c..<ck_end c}" for k
    using t(2) that v c(2) len unfolding junked by (auto simp: agree_def nth_zero_range same_length)
  ultimately show ?thesis by blast
qed

text \<open>
  The walk of a Matroska file stops at the first element it cannot read, and the file is sent as it
  is from there on: here one zero byte before the tags hides them.
\<close>

definition gap_video :: bytes where
  "gap_video = [0x1A, 0x45, 0xDF, 0xA3, 0x80, 0x18, 0x53, 0x80, 0x67, 0x88, 0, 0x12, 0x54, 0xC3, 0x67, 0x82, 65, 66]"

lemma matroska_gap_keeps_tags:
  "scrub_video gap_video = Inr (gap_video, \<lparr>blanked = 0, times_zeroed = 0\<rparr>)
   \<and> ebml_at gap_video 11 (length gap_video) = Some \<lparr>el_id = SEG_TAGS, el_start = 11, el_body = 16, el_end = Some 18\<rparr>"
proof -
  have lz: "leading_zeros 0x1A = 3" "leading_zeros 0x80 = 0" "leading_zeros 0x18 = 3" "leading_zeros 0x88 = 0"
      "leading_zeros 0 = 8" "leading_zeros 0x12 = 3" "leading_zeros 0x82 = 0"
    by (simp_all add: leading_zeros_def upt_conv_Cons)
  have len: "length gap_video = 18" by (simp add: gap_video_def)
  have h: "ebml_at gap_video 0 18 = Some \<lparr>el_id = EBML_HEADER, el_start = 0, el_body = 5, el_end = Some 5\<rparr>"
    by (simp add: ebml_at_def ebml_id_def ebml_size_def vint_value_def gap_video_def get_at_def get_range_def lz be_nat_def EBML_HEADER_def)
  have sg: "ebml_at gap_video 5 18 = Some \<lparr>el_id = SEGMENT, el_start = 5, el_body = 10, el_end = Some 18\<rparr>"
    by (simp add: ebml_at_def ebml_id_def ebml_size_def vint_value_def gap_video_def get_at_def get_range_def lz be_nat_def SEGMENT_def)
  have gap: "ebml_at gap_video 10 18 = None"
    by (simp add: ebml_at_def ebml_id_def gap_video_def get_at_def lz)
  have tags: "ebml_at gap_video 11 18 = Some \<lparr>el_id = SEG_TAGS, el_start = 11, el_body = 16, el_end = Some 18\<rparr>"
    by (simp add: ebml_at_def ebml_id_def ebml_size_def vint_value_def gap_video_def get_at_def get_range_def lz be_nat_def SEG_TAGS_def)
  have "prefix EBML_MAGIC gap_video" by (simp add: gap_video_def EBML_MAGIC_def)
  with len h sg gap tags show ?thesis
    by (simp add: scrub_video_def scrub_matroska_def scrub_segment.simps)
qed

end
