(* ===== verification/RelayClient.thy ===== *)
theory RelayClient
  imports RelayBounds RustStd
begin

text \<open>
  The client's side of the relay protocol, \<open>RelayClient\<close> of \<open>core/src/relay_client/mod.rs\<close>: post, peek,
  fetch, take, the batched take with its fallback, recall and directory, over relays that run \<open>process\<close>
  and a network that may lose a request or its reply. What other clients do to the relays meanwhile, what
  the network does to each of our requests, and the clocks and tokens the relays draw are the world's
  script; a theorem holds for every script.
\<close>

section \<open>Relays behind a network\<close>

record network =
  net_env :: relay_env
  net_limits :: "string \<Rightarrow> relay_limits"
  net_directory :: "string \<Rightarrow> string option"
  net_batches :: "string \<Rightarrow> bool"

text \<open>A relay from before the batched take does not know that request: its parser refuses the line.\<close>

definition relay_knows :: "network \<Rightarrow> string \<Rightarrow> relay_op \<Rightarrow> bool" where
  "relay_knows N r x = (case x of Serve _ _ _ (TakeMany _) \<Rightarrow> net_batches N r | _ \<Rightarrow> True)"

definition gives :: "network \<Rightarrow> string \<Rightarrow> relay_op \<Rightarrow> store \<Rightarrow> (string \<times> stored) list" where
  "gives N r x st = (if relay_knows N r x then handed_out x st else [])"

text \<open>
  What becomes of a request of ours: it never reaches the relay, it is served and the reply is lost, or it
  is answered.
\<close>

datatype fate = Unreached | Unheard | Answered

record exchange =
  others :: "(string \<times> relay_op) list"
  fate :: fate
  ex_now :: instant
  ex_unix :: nat
  ex_tokens :: "string \<times> string"

text \<open>
  \<open>handed\<close> records, per relay, what it has handed out to anybody, each blob with its handle; \<open>mine\<close> what it
  has handed out to our requests.
\<close>

record world =
  stores :: "string \<Rightarrow> store"
  handed :: "string \<Rightarrow> (string \<times> stored) list"
  mine :: "string \<Rightarrow> (string \<times> stored) list"
  script :: "exchange list"

definition net_op :: "network \<Rightarrow> string \<times> relay_op \<Rightarrow> world \<Rightarrow> world" where
  "net_op N rx w =
     (let (r, x) = rx
      in if relay_knows N r x
         then w\<lparr>stores := (stores w)(r := apply_op (net_env N) (net_limits N r) (net_directory N r) x (stores w r)),
                handed := (handed w)(r := handed w r @ gives N r x (stores w r))\<rparr>
         else w)"

definition serve_request :: "exchange \<Rightarrow> request \<Rightarrow> relay_op" where
  "serve_request e req = Serve (ex_now e) (ex_unix e) (ex_tokens e) req"

definition our_op :: "network \<Rightarrow> string \<Rightarrow> relay_op \<Rightarrow> world \<Rightarrow> world" where
  "our_op N r x w = (net_op N (r, x) w)\<lparr>mine := (mine w)(r := mine w r @ gives N r x (stores w r))\<rparr>"

definition relay_reply :: "network \<Rightarrow> string \<Rightarrow> exchange \<Rightarrow> request \<Rightarrow> store \<Rightarrow> response" where
  "relay_reply N r e req st =
     (if relay_knows N r (serve_request e req)
      then fst (process (net_env N) (net_limits N r) (net_directory N r) (ex_now e) (ex_unix e) (ex_tokens e) req st)
      else response_err ''bad request'')"

text \<open>One request to the relay \<open>r\<close> and its reply, \<open>None\<close> an error. A world whose script has run out is offline.\<close>

definition round_trip :: "network \<Rightarrow> string \<Rightarrow> request \<Rightarrow> world \<Rightarrow> response option \<times> world" where
  "round_trip N r req w =
     (case script w of [] \<Rightarrow> (None, w)
      | e # es \<Rightarrow>
          (let w = fold (net_op N) (others e) (w\<lparr>script := es\<rparr>)
           in case fate e of
                Unreached \<Rightarrow> (None, w)
              | Unheard \<Rightarrow> (None, our_op N r (serve_request e req) w)
              | Answered \<Rightarrow> (Some (relay_reply N r e req (stores w r)), our_op N r (serve_request e req) w)))"

section \<open>The client's calls\<close>

text \<open>\<open>RelayClient\<close>: over TCP, or through a dialer whose address the client may or may not know.\<close>

datatype relay_client = Tcp string | Dialer (dials: string) (dials_known: "string option")

fun client_addr :: "relay_client \<Rightarrow> string option" where
  "client_addr (Tcp a) = Some a"
| "client_addr (Dialer r a) = a"

fun reaches :: "relay_client \<Rightarrow> string" where
  "reaches (Tcp a) = a"
| "reaches (Dialer r a) = r"

record post_receipt =
  rec_msg_id :: string
  rec_delete_token :: string

record fetched_blob =
  fetched_id :: string
  fetched :: bytes

definition or_default :: "string option \<Rightarrow> string" where
  "or_default s = (case s of None \<Rightarrow> [] | Some t \<Rightarrow> t)"

definition client_post :: "network \<Rightarrow> relay_client \<Rightarrow> string \<Rightarrow> bytes \<Rightarrow> duration \<Rightarrow> world \<Rightarrow> post_receipt option \<times> world" where
  "client_post N c handle blob ttl w =
     (let (resp, w) = round_trip N (reaches c) (Post handle (b64_encode (net_env N) blob) (as_secs ttl)) w
      in (case resp of None \<Rightarrow> None
          | Some r \<Rightarrow> if \<not> ok r then None
                      else Some \<lparr>rec_msg_id = or_default (resp_msg_id r), rec_delete_token = or_default (resp_delete_token r)\<rparr>, w))"

definition client_peek :: "network \<Rightarrow> relay_client \<Rightarrow> string \<Rightarrow> world \<Rightarrow> nat option \<times> world" where
  "client_peek N c handle w =
     (let (resp, w) = round_trip N (reaches c) (Peek handle) w
      in (case resp of None \<Rightarrow> None | Some r \<Rightarrow> if \<not> ok r then None else Some (count r), w))"

definition decode_blobs :: "network \<Rightarrow> string list \<Rightarrow> bytes list option" where
  "decode_blobs N bs = those (map (b64_decode (net_env N)) bs)"

definition client_fetch :: "network \<Rightarrow> relay_client \<Rightarrow> string \<Rightarrow> world \<Rightarrow> fetched_blob list option \<times> world" where
  "client_fetch N c handle w =
     (let (resp, w) = round_trip N (reaches c) (Fetch handle) w
      in (case resp of None \<Rightarrow> None
          | Some r \<Rightarrow> if \<not> ok r then None
                      else those (map (\<lambda>(i, b). map_option (\<lambda>bs. \<lparr>fetched_id = i, fetched = bs\<rparr>) (b64_decode (net_env N) b)) (items r)), w))"

definition client_take :: "network \<Rightarrow> relay_client \<Rightarrow> string \<Rightarrow> world \<Rightarrow> bytes list option \<times> world" where
  "client_take N c handle w =
     (let (resp, w) = round_trip N (reaches c) (Take handle) w
      in (case resp of None \<Rightarrow> None | Some r \<Rightarrow> if \<not> ok r then None else decode_blobs N (blobs r), w))"

text \<open>
  \<open>take_each\<close>: the loop keeps what arrived, whether some take answered, and whether one failed; the call
  fails only if one failed and none answered.
\<close>

fun take_loop :: "network \<Rightarrow> relay_client \<Rightarrow> string list \<Rightarrow> bytes list \<times> bool \<times> bool \<Rightarrow> world \<Rightarrow> (bytes list \<times> bool \<times> bool) \<times> world" where
  "take_loop N c [] acc w = (acc, w)"
| "take_loop N c (h # hs) (out, answered, failed) w =
     (let (r, w) = client_take N c h w
      in take_loop N c hs (case r of Some bs \<Rightarrow> (out @ bs, True, failed) | None \<Rightarrow> (out, answered, True)) w)"

definition take_each :: "network \<Rightarrow> relay_client \<Rightarrow> string list \<Rightarrow> world \<Rightarrow> bytes list option \<times> world" where
  "take_each N c handles w =
     (let ((out, answered, failed), w) = take_loop N c handles ([], handles = [], False) w
      in (if \<not> answered \<and> failed then None else Some out, w))"

definition client_take_many :: "network \<Rightarrow> relay_client \<Rightarrow> string list \<Rightarrow> world \<Rightarrow> bytes list option \<times> world" where
  "client_take_many N c handles w =
     (if length handles \<le> 1 \<or> MAX_TAKE_MANY < length handles then take_each N c handles w
      else (let (resp, w) = round_trip N (reaches c) (TakeMany handles) w
        in case resp of None \<Rightarrow> (None, w)
           | Some r \<Rightarrow>
               if \<not> ok r
               then (if (case error r of None \<Rightarrow> False | Some e \<Rightarrow> prefix ''bad request'' e)
                     then take_each N c handles w else (None, w))
               else (decode_blobs N (blobs r), w)))"

definition client_recall :: "network \<Rightarrow> relay_client \<Rightarrow> string \<Rightarrow> post_receipt \<Rightarrow> world \<Rightarrow> bool option \<times> world" where
  "client_recall N c handle receipt w =
     (let (resp, w) = round_trip N (reaches c) (Recall handle (rec_msg_id receipt) (rec_delete_token receipt)) w
      in (map_option ok resp, w))"

definition client_get_directory :: "network \<Rightarrow> relay_client \<Rightarrow> world \<Rightarrow> string option option \<times> world" where
  "client_get_directory N c w =
     (let (resp, w) = round_trip N (reaches c) GetDirectory w
      in (case resp of None \<Rightarrow> None | Some r \<Rightarrow> if \<not> ok r then None else Some (directory r), w))"

section \<open>Polling\<close>

lemma net_op_keeps [simp]: "mine (net_op N rx w) = mine w" "script (net_op N rx w) = script w"
  by (simp_all add: net_op_def split: prod.splits)

lemma fold_net_op_keeps [simp]:
  "mine (fold (net_op N) xs w) = mine w" "script (fold (net_op N) xs w) = script w"
  by (induction xs arbitrary: w) simp_all

lemma our_op_keeps [simp]:
  "mine (our_op N r x w) = (mine w)(r := mine w r @ gives N r x (stores w r))" "script (our_op N r x w) = script w"
  by (simp_all add: our_op_def)

definition all_heard :: "world \<Rightarrow> bool" where
  "all_heard w = list_all (\<lambda>e. fate e \<noteq> Unheard) (script w)"

text \<open>What one round trip takes from the relay is in its reply, when no reply is lost.\<close>

lemma reply_carries:
  "blobs (relay_reply N r e req st) @ map snd (items (relay_reply N r e req st))
     = map (b64_encode (net_env N) \<circ> blob_bytes \<circ> snd) (gives N r (serve_request e req) st)"
  by (simp add: relay_reply_def gives_def serve_request_def response_blobs response_err_def default_response_def)

lemma round_trip_mine:
  assumes "all_heard w" and "round_trip N r req w = (resp, w')"
  obtains gone where "mine w' = (mine w)(r := mine w r @ gone)" "all_heard w'"
    "case resp of None \<Rightarrow> gone = []
     | Some a \<Rightarrow> blobs a @ map snd (items a) = map (b64_encode (net_env N) \<circ> blob_bytes \<circ> snd) gone
               \<and> (\<exists>e st. a = relay_reply N r e req st)"
proof (cases "script w")
  case Nil
  with assms that [of "[]"] show ?thesis by (simp add: round_trip_def)
next
  case (Cons e es)
  define w1 where "w1 = fold (net_op N) (others e) (w\<lparr>script := es\<rparr>)"
  have w1: "mine w1 = mine w" "all_heard w1" using assms(1) Cons by (simp_all add: w1_def all_heard_def)
  show ?thesis
  proof (cases "fate e")
    case Unreached
    with assms(2) Cons w1 that [of "[]"] show ?thesis by (simp add: round_trip_def Let_def w1_def [symmetric])
  next
    case Unheard
    with assms(1) Cons show ?thesis by (simp add: all_heard_def)
  next
    case Answered
    with assms(2) Cons have "resp = Some (relay_reply N r e req (stores w1 r))" "w' = our_op N r (serve_request e req) w1"
      by (auto simp: round_trip_def Let_def w1_def [symmetric])
    with w1 that [of "gives N r (serve_request e req) (stores w1 r)"] show ?thesis
      by (auto simp: reply_carries all_heard_def)
  qed
qed

lemma take_reply_items:
  "req = Take h \<or> req = TakeMany hs \<Longrightarrow> items (relay_reply N r e req st) = []"
  by (auto simp: relay_reply_def response_err_def default_response_def process_take_def process_take_many_def Let_def
      split: prod.splits)

lemma refused_take_empty:
  "req = Take h \<or> req = TakeMany hs \<Longrightarrow> \<not> ok (relay_reply N r e req st) \<Longrightarrow> blobs (relay_reply N r e req st) = []"
  by (auto simp: relay_reply_def response_err_def default_response_def process_take_def process_take_many_def Let_def
      split: prod.splits if_splits)

definition base64_laws :: "network \<Rightarrow> bool" where
  "base64_laws N \<longleftrightarrow> (\<forall>bs. b64_decode (net_env N) (b64_encode (net_env N) bs) = Some bs)"

lemma decode_encoded:
  "base64_laws N \<Longrightarrow> decode_blobs N (map (b64_encode (net_env N) \<circ> blob_bytes \<circ> snd) gone) = Some (map (blob_bytes \<circ> snd) gone)"
  by (induction gone) (simp_all add: decode_blobs_def base64_laws_def)

lemma decode_encoded_blobs:
  "base64_laws N \<Longrightarrow> decode_blobs N (map (b64_encode (net_env N) \<circ> blob_bytes) taken) = Some (map blob_bytes taken)"
  by (induction taken) (simp_all add: decode_blobs_def base64_laws_def)

text \<open>What a call obtained and returned: all of what the relay gave it, or nothing was given.\<close>

definition arrives :: "network \<Rightarrow> string \<Rightarrow> world \<Rightarrow> bytes list option \<times> world \<Rightarrow> bool" where
  "arrives N r w rw \<longleftrightarrow>
     (let (res, w') = rw
      in all_heard w' \<and> (\<exists>gone. mine w' = (mine w)(r := mine w r @ gone)
           \<and> (case res of None \<Rightarrow> gone = [] | Some out \<Rightarrow> out = map (blob_bytes \<circ> snd) gone)))"

lemma client_take_arrives:
  assumes "base64_laws N" and "all_heard w"
  shows "arrives N (reaches c) w (client_take N c h w)"
proof -
  obtain resp w' where rt: "round_trip N (reaches c) (Take h) w = (resp, w')" by (rule prod.exhaust)
  obtain gone where g: "mine w' = (mine w)(reaches c := mine w (reaches c) @ gone)" "all_heard w'"
    "case resp of None \<Rightarrow> gone = []
     | Some a \<Rightarrow> blobs a @ map snd (items a) = map (b64_encode (net_env N) \<circ> blob_bytes \<circ> snd) gone
               \<and> (\<exists>e st. a = relay_reply N (reaches c) e (Take h) st)"
    by (rule round_trip_mine [OF assms(2) rt])
  show ?thesis
    using g rt take_reply_items [of "Take h" h] refused_take_empty [of "Take h" h]
    by (auto simp: arrives_def client_take_def decode_encoded [OF assms(1)] split: option.splits)
qed

lemma take_loop_arrives:
  assumes "base64_laws N"
  shows "all_heard w \<Longrightarrow> take_loop N c hs (out, answered, failed) w = ((out', answered', failed'), w') \<Longrightarrow>
    all_heard w' \<and> (\<exists>gone. mine w' = (mine w)(reaches c := mine w (reaches c) @ gone)
      \<and> out' = out @ map (blob_bytes \<circ> snd) gone \<and> (\<not> answered' \<longrightarrow> gone = []) \<and> (answered \<longrightarrow> answered'))"
proof (induction hs arbitrary: out answered failed w)
  case Nil
  then show ?case by (auto intro: exI [of _ "[]"])
next
  case (Cons h hs)
  obtain res w1 where r: "client_take N c h w = (res, w1)" by (rule prod.exhaust)
  from client_take_arrives [OF assms Cons.prems(1), of c h] r obtain gone where
    g: "all_heard w1" "mine w1 = (mine w)(reaches c := mine w (reaches c) @ gone)"
    "case res of None \<Rightarrow> gone = [] | Some out \<Rightarrow> out = map (blob_bytes \<circ> snd) gone"
    by (auto simp: arrives_def)
  show ?case
  proof (cases res)
    case None
    with Cons.prems(2) r have "take_loop N c hs (out, answered, True) w1 = ((out', answered', failed'), w')" by simp
    from Cons.IH [OF g(1) this] obtain gone' where
      "all_heard w'" "mine w' = (mine w1)(reaches c := mine w1 (reaches c) @ gone')"
      "out' = out @ map (blob_bytes \<circ> snd) gone'" "\<not> answered' \<longrightarrow> gone' = []" "answered \<longrightarrow> answered'" by blast
    moreover have "mine w1 = mine w" using g None by simp
    ultimately show ?thesis by auto
  next
    case (Some bs)
    with Cons.prems(2) r have "take_loop N c hs (out @ bs, True, failed) w1 = ((out', answered', failed'), w')" by simp
    from Cons.IH [OF g(1) this] obtain gone' where
      "all_heard w'" "mine w' = (mine w1)(reaches c := mine w1 (reaches c) @ gone')"
      "out' = (out @ bs) @ map (blob_bytes \<circ> snd) gone'" "answered'" by blast
    moreover have "bs = map (blob_bytes \<circ> snd) gone" using g(3) Some by simp
    ultimately show ?thesis using g(2) by (intro conjI exI [of _ "gone @ gone'"]) auto
  qed
qed

lemma take_each_arrives:
  assumes "base64_laws N" and "all_heard w"
  shows "arrives N (reaches c) w (take_each N c hs w)"
proof -
  obtain out answered failed w' where l: "take_loop N c hs ([], hs = [], False) w = ((out, answered, failed), w')"
    by (metis prod.exhaust)
  from take_loop_arrives [OF assms l] l show ?thesis by (auto simp: arrives_def take_each_def)
qed

lemma client_take_many_arrives:
  assumes "base64_laws N" and "all_heard w"
  shows "arrives N (reaches c) w (client_take_many N c hs w)"
proof (cases "length hs \<le> 1 \<or> MAX_TAKE_MANY < length hs")
  case True
  then show ?thesis using take_each_arrives [OF assms] by (simp add: client_take_many_def)
next
  case False
  obtain resp w' where rt: "round_trip N (reaches c) (TakeMany hs) w = (resp, w')" by (rule prod.exhaust)
  obtain gone where g: "mine w' = (mine w)(reaches c := mine w (reaches c) @ gone)" "all_heard w'"
    "case resp of None \<Rightarrow> gone = []
     | Some a \<Rightarrow> blobs a @ map snd (items a) = map (b64_encode (net_env N) \<circ> blob_bytes \<circ> snd) gone
               \<and> (\<exists>e st. a = relay_reply N (reaches c) e (TakeMany hs) st)"
    by (rule round_trip_mine [OF assms(2) rt])
  show ?thesis
  proof (cases resp)
    case None
    with False rt g show ?thesis by (auto simp: client_take_many_def arrives_def)
  next
    case (Some a)
    with g(3) have a: "blobs a = map (b64_encode (net_env N) \<circ> blob_bytes \<circ> snd) gone" "\<not> ok a \<Longrightarrow> blobs a = []"
      using take_reply_items [of "TakeMany hs" _ hs] refused_take_empty [of "TakeMany hs" _ hs] by auto
    show ?thesis
    proof (cases "ok a")
      case True
      with False rt Some g a show ?thesis
        by (auto simp: client_take_many_def arrives_def decode_encoded [OF assms(1)] intro!: exI [of _ gone])
    next
      case refused: False
      with a have "gone = []" by simp
      with g have "mine w' = mine w" "all_heard w'" by simp_all
      with refused False rt Some take_each_arrives [OF assms(1) \<open>all_heard w'\<close>, of c hs] show ?thesis
        by (auto simp: client_take_many_def arrives_def)
    qed
  qed
qed

text \<open>A batch that fits one reply leaves nothing under the handles it names.\<close>

definition live_bytes :: "instant \<Rightarrow> store \<Rightarrow> string list \<Rightarrow> nat" where
  "live_bytes now st hs = sum_list (map (\<lambda>h. queue_bytes (filter (is_live now) (queued st h))) hs)"

lemma live_bytes_Cons [simp]:
  "live_bytes now st (h # hs) = queue_bytes (filter (is_live now) (queued st h)) + live_bytes now st hs"
  by (simp add: live_bytes_def)

lemma drain_handle_complete:
  assumes "store_inv lim st" and "drain_handle_bounded h b now st = (t, b', st')"
    and "queue_bytes (filter (is_live now) (queued st h)) \<le> room b"
  shows "queued st' h = []" and "t = filter (is_live now) (queued st h)"
    and "room b' = room b - queue_bytes (filter (is_live now) (queued st h))"
proof -
  have room: "room b' = room b - queue_bytes t"
    using drain_handle_budget [OF assms(2)] by (simp add: within_budget_def)
  show empty: "queued st' h = []"
  proof (cases rule: drain_handle_bounded_queued [OF assms(1,2)])
    case (1 pre)
    show ?thesis
    proof (rule ccontr)
      assume "queued st' h \<noteq> []"
      with 1(5) obtain s q where s: "queued st' h = s # q" "is_live now s" "room b' < length (blob_bytes s)"
        by (cases "queued st' h") auto
      with 1 have "queue_bytes t + length (blob_bytes s) \<le> queue_bytes (filter (is_live now) (queued st h))" by simp
      with s(3) room assms(3) show False by linarith
    qed
  qed
  show "t = filter (is_live now) (queued st h)"
    using empty by (cases rule: drain_handle_bounded_queued [OF assms(1,2)]) simp
  with room show "room b' = room b - queue_bytes (filter (is_live now) (queued st h))" by simp
qed

lemma drain_many_complete:
  "store_inv lim st \<Longrightarrow> drain_many hs b now st = (taken, b', st') \<Longrightarrow> distinct hs \<Longrightarrow> live_bytes now st hs \<le> room b \<Longrightarrow>
   (\<forall>h \<in> set hs. queued st' h = []) \<and> taken = concat (map (\<lambda>h. filter (is_live now) (queued st h)) hs)"
proof (induction hs b now st arbitrary: taken b' st' rule: drain_many.induct)
  case (2 h hs b now st)
  obtain t b1 st1 t2 where 1: "drain_handle_bounded h b now st = (t, b1, st1)"
    and rest: "drain_many hs b1 now st1 = (t2, b', st')" and taken: "taken = t @ t2"
    using "2.prems"(2) by (auto split: prod.splits)
  have inv: "store_inv lim st1" using "2.prems"(1) 1 by (rule drain_queue_inv)
  have same: "queued st1 h' = queued st h'" if "h' \<in> set hs" for h'
    using drain_frame [OF "2.prems"(1) 1] that "2.prems"(3) by fastforce
  then have live: "live_bytes now st1 hs = live_bytes now st hs"
    by (simp add: live_bytes_def cong: map_cong)
  have fits: "queue_bytes (filter (is_live now) (queued st h)) \<le> room b" using "2.prems"(4) by simp
  note full = drain_handle_complete [OF "2.prems"(1) 1 fits]
  have "(\<forall>h \<in> set hs. queued st' h = []) \<and> t2 = concat (map (\<lambda>h. filter (is_live now) (queued st1 h)) hs)"
    using "2.IH" [OF 1 [symmetric] refl refl inv rest] "2.prems"(3,4) full(3) live by simp
  moreover have "queued st' h = []"
    using drain_many_frame [OF inv rest] "2.prems"(3) full(1) by simp
  moreover have "map (\<lambda>h. filter (is_live now) (queued st1 h)) hs = map (\<lambda>h. filter (is_live now) (queued st h)) hs"
    using same by simp
  ultimately show ?case using taken full(2) by simp
qed simp

text \<open>
  C24. A poll loses nothing. Whatever other clients do and whichever requests fail to reach the relay, against relays
  old or new: as long as no reply is lost on the way back, what \<open>take_many\<close> returns is exactly, and in order, what
  the relay gave to its requests, and when it reports an error the relay gave it nothing. And in the batched case
  it leaves nothing: when from 2 to \<open>MAX_TAKE_MANY\<close> distinct handles go to a relay that takes batches, that first
  exchange is answered and the live blobs under the handles fit the budget of one reply, it returns all of them and
  the mailboxes are empty. (Handle by handle, as with an old relay, a request that is lost on its way leaves its
  mailbox for the next poll.)
\<close>

theorem polled_mail_arrives:
  assumes "base64_laws N" and "all_heard w" and "client_take_many N c hs w = (res, w')"
  shows "(\<exists>gone. mine w' = (mine w)(reaches c := mine w (reaches c) @ gone)
            \<and> (case res of None \<Rightarrow> gone = [] | Some out \<Rightarrow> out = map (blob_bytes \<circ> snd) gone))
       \<and> (\<forall>e es st. script w = e # es \<and> fate e = Answered \<and> 2 \<le> length hs \<and> length hs \<le> MAX_TAKE_MANY \<and> distinct hs
             \<and> net_batches N (reaches c) \<and> st = stores (fold (net_op N) (others e) (w\<lparr>script := es\<rparr>)) (reaches c)
             \<and> store_inv (net_limits N (reaches c)) st \<and> live_bytes (ex_now e) st hs \<le> TAKE_BUDGET_BYTES
           \<longrightarrow> res = Some (map blob_bytes (concat (map (\<lambda>h. filter (is_live (ex_now e)) (queued st h)) hs)))
             \<and> (\<forall>h \<in> set hs. queued (stores w' (reaches c)) h = []))"
proof (intro conjI allI impI; (elim conjE)?)
  show "\<exists>gone. mine w' = (mine w)(reaches c := mine w (reaches c) @ gone)
      \<and> (case res of None \<Rightarrow> gone = [] | Some out \<Rightarrow> out = map (blob_bytes \<circ> snd) gone)"
    using client_take_many_arrives [OF assms(1,2), of c hs] assms(3) by (simp add: arrives_def)
next
  fix e es st
  let ?r = "reaches c"
  assume script: "script w = e # es" and e: "fate e = Answered" and hs: "2 \<le> length hs" "length hs \<le> MAX_TAKE_MANY" "distinct hs"
    and new: "net_batches N ?r" and st: "st = stores (fold (net_op N) (others e) (w\<lparr>script := es\<rparr>)) ?r"
    and inv: "store_inv (net_limits N ?r) st" and fits: "live_bytes (ex_now e) st hs \<le> TAKE_BUDGET_BYTES"
  obtain taken b st' where d: "drain_many hs default_budget (ex_now e) st = (taken, b, st')" by (metis prod_cases3)
  have "live_bytes (ex_now e) st hs \<le> room default_budget" using fits by (simp add: default_budget_def)
  note full = drain_many_complete [OF inv d hs(3) this]
  note enc = decode_encoded_blobs [OF assms(1), of taken]
  have "relay_knows N ?r (serve_request e (TakeMany hs))" using new by (simp add: relay_knows_def serve_request_def)
  then have "res = Some (map blob_bytes taken) \<and> stores w' ?r = st'"
    using assms(3) script e hs d st enc
    by (auto simp: client_take_many_def round_trip_def relay_reply_def our_op_def net_op_def serve_request_def Let_def
        process_take_many_def default_response_def)
  then show "res = Some (map blob_bytes (concat (map (\<lambda>h. filter (is_live (ex_now e)) (queued st h)) hs)))"
    and "\<forall>h \<in> set hs. queued (stores w' ?r) h = []" using full by simp_all
qed

section \<open>Concrete runs\<close>

definition sample_network :: network where
  "sample_network =
     \<lparr>net_env = sample_env, net_limits = (\<lambda>_. sample_limits), net_directory = (\<lambda>_. None), net_batches = (\<lambda>_. True)\<rparr>"

definition sample_world :: "fate list \<Rightarrow> world" where
  "sample_world fates =
     \<lparr>stores = (\<lambda>_. sample_store), handed = (\<lambda>_. []), mine = (\<lambda>_. []),
      script = map (\<lambda>f. \<lparr>others = [], fate = f, ex_now = 1, ex_unix = 6, ex_tokens = (''b'', ''c'')\<rparr>) fates\<rparr>"

lemma sample_base64: "base64_laws sample_network"
  by (simp add: base64_laws_def sample_network_def sample_env_def o_def byte_char)

theorem polled_mail_arrives_witness:
  "fst (client_take_many sample_network (Tcp ''r'') [''g'', ''h''] (sample_world [Answered])) = Some [[104, 105]]"
proof -
  obtain res w' where p: "client_take_many sample_network (Tcp ''r'') [''g'', ''h''] (sample_world [Answered]) = (res, w')"
    by (rule prod.exhaust)
  have "all_heard (sample_world [Answered])" by (simp add: all_heard_def sample_world_def)
  note all = polled_mail_arrives [OF sample_base64 this p, THEN conjunct2, rule_format,
      of "\<lparr>others = [], fate = Answered, ex_now = 1, ex_unix = 6, ex_tokens = (''b'', ''c'')\<rparr>" "[]" sample_store]
  show ?thesis
    using all sample_store_inv p
    by (simp add: sample_world_def sample_network_def sample_store_eq queued_def is_live_def secs_def live_bytes_def
        MAX_TAKE_MANY_def TAKE_BUDGET_BYTES_def)
qed

text \<open>
  The other side of it: a take is not idempotent. When the reply is lost the call reports an error, and what
  the relay had is gone; the comments on \<open>take_many\<close> and in the drain say that a take that errors has removed
  nothing.
\<close>

lemma unheard_take_loses_mail:
  "fst (client_take sample_network (Tcp ''r'') ''h'' (sample_world [Unheard])) = None
   \<and> queued (stores (sample_world [Unheard]) ''r'') ''h'' \<noteq> []
   \<and> queued (stores (snd (client_take sample_network (Tcp ''r'') ''h'' (sample_world [Unheard]))) ''r'') ''h'' = []"
  by (simp add: client_take_def round_trip_def sample_world_def sample_network_def our_op_def net_op_def relay_knows_def
      serve_request_def sample_store_eq process_take_def drain_handle_bounded_def admit_blob_def default_budget_def
      TAKE_BUDGET_BYTES_def secs_def queued_def)

end
