(* ===== verification/ChatState.thy ===== *)
theory ChatState
  imports Wire
begin

text \<open>
  What the node remembers of one chat (\<open>Chat\<close> in \<open>core/src/node.rs\<close>), as far as the mailboxes and
  the old-version bookkeeping use it: whether it is open and approved, its ratchet session, when the
  peer was last heard, what is known of the peer's version, and the mailbox agreement. The ratchet is
  an argument: \<open>'s\<close> is its state, sealing and opening are functions on it.
\<close>

section \<open>Versions\<close>

definition MIN_PEER_VERSION :: "nat \<times> nat" where
  "MIN_PEER_VERSION = (0, 2)"

text \<open>The first two components, as numbers of 32 bits; missing or unparsable ones are 0.\<close>

definition version_pair :: "string \<Rightarrow> nat \<times> nat" where
  "version_pair v =
     (let ps = map (\<lambda>p. case parse_uint (2 ^ 32) p of None \<Rightarrow> 0 | Some n \<Rightarrow> n) (split_at_chars (\<lambda>c. c = CHR ''.'') v)
      in (if ps = [] then 0 else ps ! 0, if 1 < length ps then ps ! 1 else 0))"

definition version_outdated :: "string \<Rightarrow> bool" where
  "version_outdated v =
     (let (major, minor) = version_pair v; (a, b) = MIN_PEER_VERSION in major < a \<or> major = a \<and> minor < b)"

definition is_plausible_version :: "string \<Rightarrow> bool" where
  "is_plausible_version v =
     (let parts = split_at_chars (\<lambda>c. c = CHR ''.'') v
      in length v \<le> 16 \<and> length parts = 3 \<and> list_all (\<lambda>p. p \<noteq> [] \<and> length p \<le> 4 \<and> list_all is_digit p) parts)"

definition UPGRADE_NOTE_TEXT :: string where
  "UPGRADE_NOTE_TEXT = map char_of [0xF0, 0x9F, 0x94, 0x84 :: nat] @
     '' Their app is too old to read your messages, so Night Drop sent them a message saying you'' @ [CHR 0x27]
     @ ''ve updated and asking them to update too.''"

section \<open>The chat\<close>

record mailbox_pair =
  own :: bytes
  peer :: "bytes option"
  peer_confirmed :: bool
  confirm_sent :: bool
  announced_at :: "u64 option"

text \<open>A message as the history keeps it, sent, received or a notice. Times are Unix seconds, 0 for unknown.\<close>

record chat_message =
  from_me :: bool
  msg_text :: string
  is_system :: bool
  msg_kind :: string
  mime :: string
  media_id :: string
  media_size :: nat
  transfer_id :: string
  thumb_id :: string
  delivery :: string
  message_id :: string
  edited :: bool
  sent_at :: nat
  burn_secs :: nat
  viewed_at :: nat

definition text_message :: "nat \<Rightarrow> bool \<Rightarrow> string \<Rightarrow> string \<Rightarrow> chat_message" where
  "text_message now mine txt i =
     \<lparr>from_me = mine, msg_text = txt, is_system = False, msg_kind = ''text'', mime = [], media_id = [], media_size = 0,
      transfer_id = [], thumb_id = [], delivery = [], message_id = i, edited = False, sent_at = now, burn_secs = 0, viewed_at = 0\<rparr>"

definition system_message :: "nat \<Rightarrow> string \<Rightarrow> chat_message" where
  "system_message now txt = (text_message now False txt [])\<lparr>is_system := True\<rparr>"

definition system_tagged :: "nat \<Rightarrow> string \<Rightarrow> string \<Rightarrow> chat_message" where
  "system_tagged now txt tag = (system_message now txt)\<lparr>msg_kind := tag\<rparr>"

text \<open>A message of which only the place is kept: unsent by its author, or a burn message that expired unopened.\<close>

definition make_tombstone :: "chat_message \<Rightarrow> chat_message" where
  "make_tombstone m = m\<lparr>msg_text := [], msg_kind := ''deleted'', edited := False, delivery := []\<rparr>"

definition make_burn_tombstone :: "chat_message \<Rightarrow> chat_message" where
  "make_burn_tombstone m =
     m\<lparr>msg_text := [], msg_kind := ''burn_expired'', mime := [], media_id := [], media_size := 0, thumb_id := [],
       transfer_id := [], message_id := [], edited := False, delivery := [], burn_secs := 0, viewed_at := 0\<rparr>"

text \<open>Where one copy of a queued message lies: the relay, \<open>None\<close> the primary one, its mailbox, and what recalls it there.\<close>

record queued_receipt =
  q_relay :: "string option"
  q_handle :: string
  q_msg_id :: string
  q_delete_token :: string

record 's chat =
  peer_app_version :: "string option"
  peer_address :: string
  session :: 's
  history :: "chat_message list"
  last_seen :: "u64 option"
  authorized :: bool
  closed :: bool
  mailbox :: "mailbox_pair option"
  peer_wire_old :: bool
  told_upgrade :: bool
  alive_count :: u64

definition forget_upgrade_notice :: "('s, 'z) chat_scheme \<Rightarrow> ('s, 'z) chat_scheme" where
  "forget_upgrade_notice c =
     (if told_upgrade c
      then c\<lparr>told_upgrade := False,
             history := filter (\<lambda>m. \<not> (is_system m \<and> msg_text m = UPGRADE_NOTE_TEXT)) (history c)\<rparr>
      else c)"

definition mark_alive :: "u64 \<Rightarrow> ('s, 'z) chat_scheme \<Rightarrow> ('s, 'z) chat_scheme" where
  "mark_alive now c =
     forget_upgrade_notice
       (c\<lparr>last_seen := Some now, alive_count := alive_count c + 1, peer_wire_old := False,
          peer_app_version := (case peer_app_version c of
                                 None \<Rightarrow> None
                               | Some v \<Rightarrow> if version_outdated v then None else Some v)\<rparr>)"

definition outdated :: "('s, 'z) chat_scheme \<Rightarrow> bool" where
  "outdated c = (peer_wire_old c \<or> (case peer_app_version c of None \<Rightarrow> False | Some v \<Rightarrow> version_outdated v))"

text \<open>\<open>note_legacy_frame\<close>, on the chat of the contact: the new chat and whether the state changed.\<close>

definition note_legacy :: "('s, 'z) chat_scheme \<Rightarrow> ('s, 'z) chat_scheme \<times> bool" where
  "note_legacy c =
     (let announced_new = (case peer_app_version c of None \<Rightarrow> False | Some v \<Rightarrow> \<not> version_outdated v)
      in if \<not> peer_wire_old c \<and> \<not> announced_new then (c\<lparr>peer_wire_old := True\<rparr>, True) else (c, False))"

text \<open>A chat just opened by pairing.\<close>

definition new_paired :: "u64 \<Rightarrow> string \<Rightarrow> 's \<Rightarrow> bool \<Rightarrow> 's chat" where
  "new_paired now addr ses auth =
     \<lparr>peer_app_version = None, peer_address = addr, session = ses, history = [], last_seen = Some now,
      authorized = auth, closed = False, mailbox = None, peer_wire_old = False, told_upgrade = False,
      alive_count = 0\<rparr>"

lemma mark_alive_simps [simp]:
  "authorized (mark_alive now c) = authorized c" "closed (mark_alive now c) = closed c"
  "mailbox (mark_alive now c) = mailbox c" "session (mark_alive now c) = session c"
  "peer_address (mark_alive now c) = peer_address c" "last_seen (mark_alive now c) = Some now"
  by (simp_all add: mark_alive_def forget_upgrade_notice_def)

text \<open>Any frame of ours that can be read ends the hold on messages to the contact, whatever was heard before.\<close>

lemma alive_not_outdated: "\<not> outdated (mark_alive now c)"
  by (auto simp: outdated_def mark_alive_def forget_upgrade_notice_def split: option.splits)

lemma alive_legacy_alive: "\<not> outdated (mark_alive now' (fst (note_legacy (mark_alive now c))))"
  by (rule alive_not_outdated)

end
