(* ===== verification/Mailbox.thy ===== *)
theory Mailbox
  imports ChatState "HOL-Library.List_Lexorder"
begin

text \<open>
  The per-pair mailboxes of \<open>core/src/node/mailbox.rs\<close>: the pair secret and the daily handles, the
  agreement frames, and the node's operations on them. HKDF, SHA-256, base64 and the ratchet are
  arguments (\<open>mailbox_crypto\<close>, \<open>ratchet\<close>); random bytes are inputs. What a node sends goes to its
  \<open>outbox\<close> (\<open>deliver_with\<close>).
\<close>

section \<open>Secrets and handles\<close>

record mailbox_crypto =
  hkdf_pair :: "bytes \<Rightarrow> bytes \<Rightarrow> bytes"
  hkdf_cover :: "bytes \<Rightarrow> bytes \<Rightarrow> bytes"
  hkdf_handle :: "bytes \<Rightarrow> bytes \<Rightarrow> bytes"
  sha256 :: "bytes \<Rightarrow> bytes"
  b64_url :: "bytes \<Rightarrow> string"
  unb64_url :: "string \<Rightarrow> bytes option"

definition MARK_MAILBOX_V2 :: bytes where
  "MARK_MAILBOX_V2 = text_bytes ''nightdrop/ctl/mailbox/v2''"

definition EPOCH_SECS :: nat where
  "EPOCH_SECS = 24 * 60 * 60"

definition fresh_pair :: "bytes \<Rightarrow> mailbox_pair" where
  "fresh_pair random = \<lparr>own = random, peer = None, peer_confirmed = False, confirm_sent = False, announced_at = None\<rparr>"

definition seeded_pair :: "bytes \<Rightarrow> mailbox_pair" where
  "seeded_pair seed = \<lparr>own = seed, peer = Some seed, peer_confirmed = True, confirm_sent = True, announced_at = None\<rparr>"

text \<open>The persisted form: base64 of the contributions beside the flags.\<close>

record persisted_pair =
  p_own :: "string option"
  p_peer :: "string option"
  p_peer_confirmed :: bool
  p_confirm_sent :: bool
  p_announced_at :: "u64 option"

definition unb64_32 :: "mailbox_crypto \<Rightarrow> string \<Rightarrow> bytes option" where
  "unb64_32 C s = (case unb64_url C s of None \<Rightarrow> None | Some b \<Rightarrow> if length b = 32 then Some b else None)"

definition from_persisted :: "mailbox_crypto \<Rightarrow> persisted_pair \<Rightarrow> mailbox_pair option" where
  "from_persisted C c =
     Option.bind (Option.bind (p_own c) (unb64_32 C)) (\<lambda>mine.
       let p = Option.bind (p_peer c) (unb64_32 C)
       in Some \<lparr>own = mine, peer = p, peer_confirmed = (p \<noteq> None \<and> p_peer_confirmed c),
                confirm_sent = (p \<noteq> None \<and> p_confirm_sent c), announced_at = p_announced_at c\<rparr>)"

definition to_persisted :: "mailbox_crypto \<Rightarrow> mailbox_pair option \<Rightarrow> persisted_pair" where
  "to_persisted C pair =
     (case pair of
        None \<Rightarrow> \<lparr>p_own = None, p_peer = None, p_peer_confirmed = False, p_confirm_sent = False, p_announced_at = None\<rparr>
      | Some p \<Rightarrow> \<lparr>p_own = Some (b64_url C (own p)), p_peer = map_option (b64_url C) (peer p),
                   p_peer_confirmed = peer_confirmed p, p_confirm_sent = confirm_sent p,
                   p_announced_at = announced_at p\<rparr>)"

text \<open>Both contributions and both identity keys, each in byte order.\<close>

definition pair_secret :: "mailbox_crypto \<Rightarrow> string \<Rightarrow> string \<Rightarrow> bytes \<Rightarrow> bytes \<Rightarrow> bytes" where
  "pair_secret C a_ik b_ik mine theirs =
     (let (lo, hi) = (if mine \<le> theirs then (mine, theirs) else (theirs, mine));
          (k1, k2) = (if text_bytes a_ik \<le> text_bytes b_ik then (a_ik, b_ik) else (b_ik, a_ik))
      in hkdf_pair C (lo @ hi) (text_bytes k1 @ [0] @ text_bytes k2))"

definition confirm_hash :: "mailbox_crypto \<Rightarrow> bytes \<Rightarrow> bytes" where
  "confirm_hash C secret = sha256 C (text_bytes ''nightdrop/mailbox/v2/confirm'' @ secret)"

definition v2_handle :: "mailbox_crypto \<Rightarrow> bytes \<Rightarrow> string \<Rightarrow> nat \<Rightarrow> string" where
  "v2_handle C secret recipient_ik epoch =
     ''mbx:'' @ b64_url C (hkdf_handle C secret (text_bytes ''nightdrop/mailbox/v2'' @ text_bytes recipient_ik @ be_bytes 8 epoch))"

section \<open>The agreement frames\<close>

definition encode_payload :: "bytes \<Rightarrow> bytes option \<Rightarrow> bytes" where
  "encode_payload mine confirm = MARK_MAILBOX_V2 @ mine @ (case confirm of None \<Rightarrow> [] | Some c \<Rightarrow> c)"

definition decode_payload :: "bytes \<Rightarrow> (bytes \<times> bytes option) option" where
  "decode_payload p =
     (if \<not> prefix MARK_MAILBOX_V2 p then None
      else (let rest = drop (length MARK_MAILBOX_V2) p
        in if length rest = 32 then Some (rest, None)
           else if length rest = 64 then Some (take 32 rest, Some (drop 32 rest))
           else None))"

text \<open>
  The contribution a side sends: its own, and the hash of the secret once it can be computed; sending
  that hash is remembered.
\<close>

definition contribution :: "mailbox_crypto \<Rightarrow> string \<Rightarrow> string \<Rightarrow> mailbox_pair \<Rightarrow> bytes \<times> bytes option" where
  "contribution C me contact pair =
     (own pair, map_option (\<lambda>p. confirm_hash C (pair_secret C me contact (own pair) p)) (peer pair))"

definition mark_sent :: "mailbox_pair \<Rightarrow> mailbox_pair" where
  "mark_sent pair = (if peer pair \<noteq> None then pair\<lparr>confirm_sent := True\<rparr> else pair)"

text \<open>What a received contribution makes of the pair, and whether it is answered.\<close>

definition receive_contribution ::
  "mailbox_crypto \<Rightarrow> string \<Rightarrow> string \<Rightarrow> bytes \<times> bytes option \<Rightarrow> mailbox_pair \<Rightarrow> mailbox_pair \<times> bool" where
  "receive_contribution C me sender msg pair =
     (let (theirs, their_confirm) = msg;
          pair = (if peer pair \<noteq> Some theirs
                  then pair\<lparr>peer := Some theirs, peer_confirmed := False, confirm_sent := False\<rparr> else pair);
          secret = pair_secret C me sender (own pair) theirs;
          pair = (if their_confirm = Some (confirm_hash C secret) then pair\<lparr>peer_confirmed := True\<rparr> else pair)
      in (pair, their_confirm = None \<or> \<not> confirm_sent pair))"

section \<open>The node\<close>

text \<open>The ratchet: sealing and opening may fail; each changes the session.\<close>

record 's ratchet =
  seal_olm :: "'s \<Rightarrow> bytes \<Rightarrow> (wire_olm \<times> 's) option"
  open_olm :: "'s \<Rightarrow> wire_olm \<Rightarrow> (bytes \<times> 's) option"

record sent_frame =
  to_addr :: string
  to_contact :: string
  sent :: frame

record 's node =
  me :: string
  chats :: "(string \<times> 's chat) list"
  poll_seed :: bytes
  mailbox_announced :: "string list"
  prev_epoch_drained :: "nat option"
  dirty :: bool
  outbox :: "sent_frame list"

definition put_chat :: "string \<Rightarrow> 's chat \<Rightarrow> 's node \<Rightarrow> 's node" where
  "put_chat i c n = n\<lparr>chats := AList.update i c (chats n)\<rparr>"

text \<open>
  \<open>send_mailbox_key\<close>: whether the relays of the two meet and 32 random bytes (used if the chat has no
  pair yet) are inputs.
\<close>

definition send_mailbox_key ::
  "mailbox_crypto \<Rightarrow> 's ratchet \<Rightarrow> (string \<Rightarrow> bool) \<Rightarrow> bytes \<Rightarrow> string \<Rightarrow> 's node \<Rightarrow> bool \<times> 's node" where
  "send_mailbox_key C R relays_meet random contact n =
     (if \<not> relays_meet contact then (False, n)
      else (case map_of (chats n) contact of
              None \<Rightarrow> (False, n)
            | Some c \<Rightarrow>
                if \<not> authorized c \<or> closed c then (False, n)
                else (let (pair, made) = (case mailbox c of None \<Rightarrow> (fresh_pair random, True) | Some p \<Rightarrow> (p, False));
                          c = c\<lparr>mailbox := Some pair\<rparr>;
                          n = (if made then n\<lparr>dirty := True\<rparr> else n);
                          (mine, confirm) = contribution C (me n) contact pair
                      in case seal_olm R (session c) (encode_payload mine confirm) of
                           None \<Rightarrow> (False, put_chat contact c n)
                         | Some (m, ses) \<Rightarrow>
                             (True,
                              (put_chat contact (c\<lparr>session := ses, mailbox := Some (mark_sent pair)\<rparr>) n)
                                \<lparr>dirty := True,
                                 outbox := outbox n @ [\<lparr>to_addr = peer_address c, to_contact = contact,
                                                       sent = MailboxKey (me n) m\<rparr>]\<rparr>))))"

text \<open>\<open>on_mailbox_key\<close>: a frame that cannot be opened or parsed changes nothing but, if it was opened, the ratchet.\<close>

definition on_mailbox_key ::
  "mailbox_crypto \<Rightarrow> 's ratchet \<Rightarrow> (string \<Rightarrow> bool) \<Rightarrow> u64 \<Rightarrow> bytes \<Rightarrow> string \<Rightarrow> wire_olm \<Rightarrow> 's node \<Rightarrow> 's node" where
  "on_mailbox_key C R relays_meet now random sender m n =
     (case map_of (chats n) sender of
        None \<Rightarrow> n
      | Some c \<Rightarrow>
          if \<not> authorized c then n
          else (case open_olm R (session c) m of
                  None \<Rightarrow> n
                | Some (pt, ses) \<Rightarrow>
                    (let c = c\<lparr>session := ses\<rparr>
                     in case decode_payload pt of
                          None \<Rightarrow> put_chat sender c n
                        | Some msg \<Rightarrow>
                            (let c = mark_alive now c;
                                 pair = (case mailbox c of None \<Rightarrow> fresh_pair random | Some p \<Rightarrow> p);
                                 (pair, reply) = receive_contribution C (me n) sender msg pair;
                                 n = (put_chat sender (c\<lparr>mailbox := Some pair\<rparr>) n)\<lparr>dirty := True\<rparr>
                             in if reply then snd (send_mailbox_key C R relays_meet random sender n) else n))))"

text \<open>\<open>announce_mailbox\<close>: to every open, approved chat not yet confirmed, once until a failure clears the flag.\<close>

definition to_announce :: "(string \<Rightarrow> bool) \<Rightarrow> 's node \<Rightarrow> string list" where
  "to_announce relays_meet n =
     map fst (filter (\<lambda>(i, c). authorized c \<and> \<not> closed c
                \<and> \<not> (case mailbox c of None \<Rightarrow> False | Some p \<Rightarrow> peer_confirmed p)
                \<and> i \<notin> set (mailbox_announced n) \<and> relays_meet i) (chats n))"

definition announce_one ::
  "mailbox_crypto \<Rightarrow> 's ratchet \<Rightarrow> (string \<Rightarrow> bool) \<Rightarrow> (string \<Rightarrow> bytes) \<Rightarrow> string \<Rightarrow> 's node \<Rightarrow> 's node" where
  "announce_one C R relays_meet random i n =
     (let n = n\<lparr>mailbox_announced := List.insert i (mailbox_announced n)\<rparr>;
          (ok, n) = send_mailbox_key C R relays_meet (random i) i n
      in if ok then n else n\<lparr>mailbox_announced := removeAll i (mailbox_announced n)\<rparr>)"

definition announce_mailbox ::
  "mailbox_crypto \<Rightarrow> 's ratchet \<Rightarrow> (string \<Rightarrow> bool) \<Rightarrow> bool \<Rightarrow> (string \<Rightarrow> bytes) \<Rightarrow> 's node \<Rightarrow> 's node" where
  "announce_mailbox C R relays_meet ready random n =
     (if \<not> ready then n else fold (announce_one C R relays_meet random) (to_announce relays_meet n) n)"

section \<open>Posting\<close>

definition post_handle :: "mailbox_crypto \<Rightarrow> nat \<Rightarrow> string \<Rightarrow> 's node \<Rightarrow> string option" where
  "post_handle C epoch contact n =
     Option.bind (map_of (chats n) contact) (\<lambda>c.
     Option.bind (mailbox c) (\<lambda>pair.
       case (peer_confirmed pair, peer pair) of
         (True, Some p) \<Rightarrow> Some (v2_handle C (pair_secret C (me n) contact (own pair) p) contact epoch)
       | _ \<Rightarrow> None))"

definition mailbox_agreed :: "mailbox_crypto \<Rightarrow> nat \<Rightarrow> string \<Rightarrow> 's node \<Rightarrow> bool" where
  "mailbox_agreed C epoch contact n = (post_handle C epoch contact n \<noteq> None)"

definition OLD_VERSION_GRACE_SECS :: u64 where
  "OLD_VERSION_GRACE_SECS = 10 * 60"

definition peer_on_old_version :: "'s chat \<Rightarrow> bool" where
  "peer_on_old_version c =
     (case mailbox c of
        None \<Rightarrow> False
      | Some pair \<Rightarrow>
          (case (announced_at pair, last_seen c) of
             (Some announced, Some seen) \<Rightarrow>
               authorized c \<and> \<not> closed c \<and> peer pair = None \<and> sat_add64 announced OLD_VERSION_GRACE_SECS < seen
           | _ \<Rightarrow> False))"

definition MAX_CONTACTS :: nat where
  "MAX_CONTACTS = 50"

definition open_contacts :: "'s node \<Rightarrow> nat" where
  "open_contacts n = length (filter (\<lambda>(i, c). authorized c \<and> \<not> closed c) (chats n))"

definition check_contact_cap :: "string \<Rightarrow> 's node \<Rightarrow> bool" where
  "check_contact_cap contact n =
     (let existing = (case map_of (chats n) contact of None \<Rightarrow> False | Some c \<Rightarrow> authorized c \<and> \<not> closed c)
      in \<not> (\<not> existing \<and> MAX_CONTACTS \<le> open_contacts n))"

end
