(* ===== verification/MailboxAgreement.thy ===== *)
theory MailboxAgreement
  imports Mailbox
begin

text \<open>
  The agreement of a pair on its mailbox secret: both sides derive the same secret and handles, the
  frames round trip, and the exchange of contributions, over a network that may reorder what is under
  way, ends with both sides confirmed. A side is its \<open>mailbox_pair\<close>; a network is two sides and the
  contributions under way to each.
\<close>

section \<open>Symmetry and round trips\<close>

lemma pair_secret_sym: "pair_secret C a b x y = pair_secret C b a y x"
proof (cases "x = y")
  case True
  then show ?thesis
    by (cases "text_bytes a = text_bytes b") (auto simp: pair_secret_def Let_def)
next
  case False
  then have "(x \<le> y) = (\<not> y \<le> x)" by force
  then show ?thesis
    by (cases "text_bytes a = text_bytes b") (auto simp: pair_secret_def Let_def)
qed

lemma decode_encode_payload:
  "length x = 32 \<Longrightarrow> (\<forall>c. confirm = Some c \<longrightarrow> length c = 32) \<Longrightarrow>
   decode_payload (encode_payload x confirm) = Some (x, confirm)"
  by (cases confirm) (auto simp: decode_payload_def encode_payload_def Let_def)

lemma decode_payload_lengths:
  "decode_payload p = Some (x, confirm) \<Longrightarrow>
   length x = 32 \<and> (\<forall>c. confirm = Some c \<longrightarrow> length c = 32) \<and> p = encode_payload x confirm"
  by (auto simp: decode_payload_def encode_payload_def Let_def prefix_def split: if_splits)

lemma persisted_round_trip:
  assumes "\<And>b. unb64_url C (b64_url C b) = Some b" and "length (own p) = 32" and "\<forall>t. peer p = Some t \<longrightarrow> length t = 32"
    and "peer_confirmed p \<or> confirm_sent p \<longrightarrow> peer p \<noteq> None"
  shows "from_persisted C (to_persisted C (Some p)) = Some p"
  using assms by (cases "peer p") (auto simp: from_persisted_def to_persisted_def unb64_32_def)

section \<open>One exchange\<close>

lemma receive_simps:
  "receive_contribution C us them (t, c) p =
     (let same = (peer p = Some t); hit = (c = Some (confirm_hash C (pair_secret C us them (own p) t)))
      in (p\<lparr>peer := Some t, peer_confirmed := (hit \<or> same \<and> peer_confirmed p), confirm_sent := (same \<and> confirm_sent p)\<rparr>,
          c = None \<or> \<not> (same \<and> confirm_sent p)))"
  by (cases p) (auto simp: receive_contribution_def Let_def)

text \<open>
  C3. A side posts to a relay only under handles its peer can compute. Whatever state the two sides
  are in (one may have restored an old backup), if receiving the other's contribution leaves a side
  confirmed when it was not, or with a contribution it did not know, then, unless the confirmation hash
  collided, the other held the very same secret when it sent that frame: every handle the first posts to,
  on any day, is the one the other derives for its own mail.
\<close>

theorem confirmed_handles_meet:
  assumes "receive_contribution C a b (contribution C b a q) p = (p', reply)" and "peer_confirmed p'"
    and "\<not> (peer_confirmed p \<and> peer p = Some (own q))"
    and "\<forall>t. peer q = Some t \<longrightarrow>
           confirm_hash C (pair_secret C a b (own p) (own q)) = confirm_hash C (pair_secret C b a (own q) t) \<longrightarrow>
           pair_secret C a b (own p) (own q) = pair_secret C b a (own q) t"
  shows "\<exists>t. peer q = Some t \<and> peer p' = Some (own q)
       \<and> pair_secret C a b (own p') (own q) = pair_secret C b a (own q) t
       \<and> (\<forall>n c epoch. me n = a \<longrightarrow> map_of (chats n) b = Some (c\<lparr>mailbox := Some p'\<rparr>) \<longrightarrow>
            post_handle C epoch b n = Some (v2_handle C (pair_secret C b a (own q) t) b epoch))"
proof -
  obtain t where t: "peer q = Some t"
    "confirm_hash C (pair_secret C a b (own p) (own q)) = confirm_hash C (pair_secret C b a (own q) t)"
    using assms(1-3) by (auto simp: contribution_def receive_simps Let_def)
  then have same: "pair_secret C a b (own p) (own q) = pair_secret C b a (own q) t" using assms(4) by blast
  have p': "peer p' = Some (own q)" "own p' = own p"
    using assms(1) by (auto simp: contribution_def receive_simps Let_def)
  have "post_handle C epoch b n = Some (v2_handle C (pair_secret C b a (own q) t) b epoch)"
    if "me n = a" "map_of (chats n) b = Some (c\<lparr>mailbox := Some p'\<rparr>)" for n :: "'s node" and c epoch
    using that p' same assms(2) by (simp add: post_handle_def)
  with t p' same show ?thesis by auto
qed

text \<open>A toy instance of the primitives, on which the properties are applied.\<close>

definition plain_crypto :: mailbox_crypto where
  "plain_crypto = \<lparr>hkdf_pair = (@), hkdf_cover = (@), hkdf_handle = (@), sha256 = id, b64_url = bytes_text,
     unb64_url = \<lambda>s. Some (text_bytes s)\<rparr>"

theorem confirmed_handles_meet_witness:
  "\<exists>t. peer (seeded_pair [1]) = Some t
     \<and> pair_secret plain_crypto ''a'' ''b'' [1] [1] = pair_secret plain_crypto ''b'' ''a'' [1] t"
  using confirmed_handles_meet [of plain_crypto "''a''" "''b''" "seeded_pair [1]" "fresh_pair [1]"
      "seeded_pair [1]" False]
  by (simp add: receive_simps contribution_def seeded_pair_def fresh_pair_def pair_secret_def plain_crypto_def
      confirm_hash_def text_bytes_def Let_def)

section \<open>Two sides and a network\<close>

type_synonym contribution_msg = "bytes \<times> bytes option"

record net =
  side_a :: mailbox_pair
  side_b :: mailbox_pair
  to_a :: "contribution_msg list"
  to_b :: "contribution_msg list"

definition swap_net :: "net \<Rightarrow> net" where
  "swap_net N = \<lparr>side_a = side_b N, side_b = side_a N, to_a = to_b N, to_b = to_a N\<rparr>"

lemma swap_simps [simp]:
  "side_a (swap_net N) = side_b N" "side_b (swap_net N) = side_a N" "to_a (swap_net N) = to_b N"
  "to_b (swap_net N) = to_a N" "swap_net (swap_net N) = N"
  by (simp_all add: swap_net_def)

definition send_a :: "mailbox_crypto \<Rightarrow> string \<Rightarrow> string \<Rightarrow> net \<Rightarrow> net" where
  "send_a C a b N = N\<lparr>side_a := mark_sent (side_a N), to_b := to_b N @ [contribution C a b (side_a N)]\<rparr>"

inductive deliver_a :: "mailbox_crypto \<Rightarrow> string \<Rightarrow> string \<Rightarrow> net \<Rightarrow> net \<Rightarrow> bool" for C a b where
  deliver: "to_a N = xs @ m # ys \<Longrightarrow> receive_contribution C a b m (side_a N) = (p, reply) \<Longrightarrow>
     N1 = N\<lparr>side_a := p, to_a := xs @ ys\<rparr> \<Longrightarrow>
     deliver_a C a b N (if reply then send_a C a b N1 else N1)"

definition deliver_any :: "mailbox_crypto \<Rightarrow> string \<Rightarrow> string \<Rightarrow> net \<Rightarrow> net \<Rightarrow> bool" where
  "deliver_any C a b N N' \<longleftrightarrow> deliver_a C a b N N' \<or> deliver_a C b a (swap_net N) (swap_net N')"

text \<open>Runs in which at least one side has announced, and any side may announce again at any time.\<close>

inductive agreeing :: "mailbox_crypto \<Rightarrow> string \<Rightarrow> string \<Rightarrow> bytes \<Rightarrow> bytes \<Rightarrow> net \<Rightarrow> bool" for C a b x y where
  first: "agreeing C a b x y
     (send_a C a b \<lparr>side_a = fresh_pair x, side_b = fresh_pair y, to_a = [], to_b = []\<rparr>)"
| again_a: "agreeing C a b x y N \<Longrightarrow> agreeing C a b x y (send_a C a b N)"
| again_b: "agreeing C a b x y N \<Longrightarrow> agreeing C a b x y (swap_net (send_a C b a (swap_net N)))"
| arrives: "agreeing C a b x y N \<Longrightarrow> deliver_any C a b N N' \<Longrightarrow> agreeing C a b x y N'"

text \<open>What holds of one side, seen as side a, with its contribution \<open>x\<close> and the other's \<open>y\<close>.\<close>

definition side_inv :: "mailbox_crypto \<Rightarrow> string \<Rightarrow> string \<Rightarrow> bytes \<Rightarrow> bytes \<Rightarrow> net \<Rightarrow> bool" where
  "side_inv C a b x y N \<longleftrightarrow>
     own (side_a N) = x \<and> peer (side_a N) \<in> {None, Some y}
     \<and> (peer_confirmed (side_a N) \<longrightarrow> peer (side_a N) = Some y)
     \<and> (confirm_sent (side_a N) \<longrightarrow> peer (side_a N) = Some y)
     \<and> set (to_a N) \<subseteq> {(y, None), (y, Some (confirm_hash C (pair_secret C a b x y)))}"

text \<open>A side that is not confirmed has its confirmation under way, or something that will bring it.\<close>

definition progress :: "mailbox_crypto \<Rightarrow> string \<Rightarrow> string \<Rightarrow> bytes \<Rightarrow> bytes \<Rightarrow> net \<Rightarrow> bool" where
  "progress C a b x y N \<longleftrightarrow>
     peer_confirmed (side_a N) \<or> (y, Some (confirm_hash C (pair_secret C a b x y))) \<in> set (to_a N)
     \<or> \<not> confirm_sent (side_b N) \<and> (to_b N \<noteq> [] \<or> (y, None) \<in> set (to_a N))"

definition net_inv :: "mailbox_crypto \<Rightarrow> string \<Rightarrow> string \<Rightarrow> bytes \<Rightarrow> bytes \<Rightarrow> net \<Rightarrow> bool" where
  "net_inv C a b x y N \<longleftrightarrow> side_inv C a b x y N \<and> side_inv C b a y x (swap_net N)
     \<and> progress C a b x y N \<and> progress C b a y x (swap_net N)"

lemma net_inv_swap: "net_inv C b a y x (swap_net N) = net_inv C a b x y N"
  by (auto simp: net_inv_def)

lemma send_contribution:
  "own p = x \<Longrightarrow> peer p \<in> {None, Some y} \<Longrightarrow>
   contribution C a b p = (x, if peer p = None then None else Some (confirm_hash C (pair_secret C a b x y)))"
  by (auto simp: contribution_def)

lemma swap_update [simp]:
  "swap_net (N\<lparr>side_a := p\<rparr>) = swap_net N\<lparr>side_b := p\<rparr>" "swap_net (N\<lparr>to_a := xs\<rparr>) = swap_net N\<lparr>to_b := xs\<rparr>"
  "swap_net (N\<lparr>side_b := p\<rparr>) = swap_net N\<lparr>side_a := p\<rparr>" "swap_net (N\<lparr>to_b := xs\<rparr>) = swap_net N\<lparr>to_a := xs\<rparr>"
  by (simp_all add: swap_net_def)

lemma send_a_simps:
  assumes "own (side_a N) = x" and "peer (side_a N) \<in> {None, Some y}"
  shows "send_a C a b N =
     (if peer (side_a N) = None then N\<lparr>to_b := to_b N @ [(x, None)]\<rparr>
      else N\<lparr>side_a := (side_a N)\<lparr>confirm_sent := True\<rparr>,
             to_b := to_b N @ [(x, Some (confirm_hash C (pair_secret C b a y x)))]\<rparr>)"
  using assms pair_secret_sym [of C a b x y]
  by (auto simp: send_a_def contribution_def mark_sent_def)

lemma send_a_inv:
  assumes "net_inv C a b x y N"
  shows "net_inv C a b x y (send_a C a b N)"
proof -
  have s: "own (side_a N) = x" "peer (side_a N) \<in> {None, Some y}"
    using assms by (auto simp: net_inv_def side_inv_def)
  show ?thesis
  proof (cases "peer (side_a N)")
    case None
    then show ?thesis
      using assms unfolding send_a_simps [OF s]
      by (simp add: net_inv_def side_inv_def progress_def) blast
  next
    case (Some t)
    then show ?thesis
      using assms s unfolding send_a_simps [OF s]
      by (simp add: net_inv_def side_inv_def progress_def) blast
  qed
qed

text \<open>What a delivery makes of the receiving side, under the invariant.\<close>

lemma receive_inv:
  assumes "net_inv C a b x y N" and "to_a N = xs @ m # ys" and "receive_contribution C a b m (side_a N) = (p, reply)"
  shows "p = (side_a N)\<lparr>peer := Some y, peer_confirmed := (snd m \<noteq> None \<or> peer_confirmed (side_a N))\<rparr>
       \<and> reply = (snd m = None \<or> \<not> confirm_sent (side_a N))
       \<and> m \<in> {(y, None), (y, Some (confirm_hash C (pair_secret C a b x y)))}"
  using assms
  by (cases m; cases "side_a N") (auto simp: net_inv_def side_inv_def receive_simps Let_def)

definition msg_work :: "contribution_msg \<Rightarrow> nat" where
  "msg_work m = (if snd m = None then 2 else 1)"

definition work :: "net \<Rightarrow> nat" where
  "work N = sum_list (map msg_work (to_a N @ to_b N))
     + (if confirm_sent (side_a N) then 0 else 1) + (if confirm_sent (side_b N) then 0 else 1)"

lemma work_swap [simp]: "work (swap_net N) = work N"
  by (simp add: work_def)

text \<open>A delivery as one equation: the receiving side, and its answer if there is one.\<close>

lemma deliver_a_eq:
  assumes "deliver_a C a b N N'" and "net_inv C a b x y N"
  obtains xs m ys p where "to_a N = xs @ m # ys"
    and "m \<in> {(y, None), (y, Some (confirm_hash C (pair_secret C a b x y)))}"
    and "p = (side_a N)\<lparr>peer := Some y, peer_confirmed := (snd m \<noteq> None \<or> peer_confirmed (side_a N))\<rparr>"
    and "N' = (if snd m = None \<or> \<not> confirm_sent (side_a N)
               then N\<lparr>side_a := p\<lparr>confirm_sent := True\<rparr>, to_a := xs @ ys,
                      to_b := to_b N @ [(x, Some (confirm_hash C (pair_secret C b a y x)))]\<rparr>
               else N\<lparr>side_a := p, to_a := xs @ ys\<rparr>)"
  using assms(1)
proof cases
  case (deliver xs m ys p reply N1)
  note r = receive_inv [OF assms(2) deliver(2,3)]
  have "own (side_a N1) = x" "peer (side_a N1) = Some y"
    using assms(2) r deliver(4) by (simp_all add: net_inv_def side_inv_def)
  then have "send_a C a b N1 = N\<lparr>side_a := p\<lparr>confirm_sent := True\<rparr>, to_a := xs @ ys,
      to_b := to_b N @ [(x, Some (confirm_hash C (pair_secret C b a y x)))]\<rparr>"
    using send_a_simps [of N1 x y C a b] deliver(4) by simp
  then show thesis using that [of xs m ys p] r deliver by simp
qed

lemma deliver_a_inv:
  assumes "deliver_a C a b N N'" and "net_inv C a b x y N"
  shows "net_inv C a b x y N'"
proof -
  obtain xs m ys p where d: "to_a N = xs @ m # ys"
    "m \<in> {(y, None), (y, Some (confirm_hash C (pair_secret C a b x y)))}"
    "p = (side_a N)\<lparr>peer := Some y, peer_confirmed := (snd m \<noteq> None \<or> peer_confirmed (side_a N))\<rparr>"
    "N' = (if snd m = None \<or> \<not> confirm_sent (side_a N)
           then N\<lparr>side_a := p\<lparr>confirm_sent := True\<rparr>, to_a := xs @ ys,
                  to_b := to_b N @ [(x, Some (confirm_hash C (pair_secret C b a y x)))]\<rparr>
           else N\<lparr>side_a := p, to_a := xs @ ys\<rparr>)"
    using deliver_a_eq [OF assms] by metis
  have "side_inv C a b x y N'"
    using assms(2) d by (auto simp: net_inv_def side_inv_def)
  moreover have "side_inv C b a y x (swap_net N')"
    using assms(2) d(4) by (auto simp: net_inv_def side_inv_def)
  moreover have "progress C a b x y N'"
    using assms(2) d by (auto simp: net_inv_def progress_def)
  moreover have "progress C b a y x (swap_net N')"
    using assms(2) d by (auto simp: net_inv_def progress_def)
  ultimately show ?thesis by (simp add: net_inv_def)
qed

lemma deliver_a_work:
  assumes "deliver_a C a b N N'" and "net_inv C a b x y N"
  shows "work N' < work N"
  using deliver_a_eq [OF assms] by (fastforce simp: work_def msg_work_def)

lemma deliver_any_inv: "deliver_any C a b N N' \<Longrightarrow> net_inv C a b x y N \<Longrightarrow> net_inv C a b x y N' \<and> work N' < work N"
  using deliver_a_inv [of C a b N N' x y] deliver_a_work [of C a b N N' x y]
    deliver_a_inv [of C b a "swap_net N" "swap_net N'" y x] deliver_a_work [of C b a "swap_net N" "swap_net N'" y x]
  by (auto simp: deliver_any_def net_inv_swap)

lemma agreeing_inv: "agreeing C a b x y N \<Longrightarrow> net_inv C a b x y N"
proof (induction rule: agreeing.induct)
  case first
  show ?case
    by (simp add: net_inv_def side_inv_def progress_def send_a_def contribution_def mark_sent_def fresh_pair_def
        swap_net_def)
next
  case (again_a N)
  then show ?case using send_a_inv by blast
next
  case (again_b N)
  then show ?case using send_a_inv [of C b a y x "swap_net N"] by (simp add: net_inv_swap)
next
  case (arrives N N')
  then show ?case using deliver_any_inv by blast
qed

definition quiet :: "net \<Rightarrow> bool" where
  "quiet N \<longleftrightarrow> to_a N = [] \<and> to_b N = []"

lemma quiet_agreed:
  "net_inv C a b x y N \<Longrightarrow> quiet N \<Longrightarrow>
   peer_confirmed (side_a N) \<and> peer_confirmed (side_b N) \<and> peer (side_a N) = Some y \<and> peer (side_b N) = Some x
   \<and> own (side_a N) = x \<and> own (side_b N) = y"
  by (auto simp: net_inv_def side_inv_def progress_def quiet_def)

lemma deliver_possible: "\<not> quiet N \<Longrightarrow> \<exists>N'. deliver_any C a b N N'"
proof -
  have possible: "\<exists>N'. deliver_a C a b N N'" if "to_a N \<noteq> []" for a b N
    using that deliver_a.deliver [of N "[]" "hd (to_a N)" "List.tl (to_a N)" C a b] by (auto simp: neq_Nil_conv) (metis surj_pair)
  assume "\<not> quiet N"
  then consider "to_a N \<noteq> []" | "to_a (swap_net N) \<noteq> []" by (auto simp: quiet_def)
  then show ?thesis
  proof cases
    case 1
    then show ?thesis using possible [OF 1] unfolding deliver_any_def by blast
  next
    case 2
    then obtain N' where "deliver_a C b a (swap_net N) N'" using possible by blast
    then have "deliver_any C a b N (swap_net N')" by (simp add: deliver_any_def)
    then show ?thesis by blast
  qed
qed

lemma quiet_reached: "net_inv C a b x y N \<Longrightarrow> \<exists>N'. (deliver_any C a b)\<^sup>*\<^sup>* N N' \<and> quiet N'"
proof (induction "work N" arbitrary: N rule: less_induct)
  case less
  show ?case
  proof (cases "quiet N")
    case False
    then obtain N1 where "deliver_any C a b N N1" using deliver_possible by blast
    then show ?thesis using less deliver_any_inv by (meson converse_rtranclp_into_rtranclp)
  qed auto
qed

lemma deliveries_bounded:
  "(deliver_any C a b ^^ k) N N' \<Longrightarrow> net_inv C a b x y N \<Longrightarrow> net_inv C a b x y N' \<and> k + work N' \<le> work N"
proof (induction k arbitrary: N')
  case (Suc k)
  then obtain N1 where "(deliver_any C a b ^^ k) N N1" "deliver_any C a b N1 N'" by auto
  then show ?case using Suc deliver_any_inv [of C a b N1 N' x y] by fastforce
qed simp

text \<open>
  C15. The agreement completes and cannot ping-pong. Start from two fresh sides of which one
  announces; let the two exchange contributions over a network that delivers what is under way in any
  order, and let either side announce again at any time. From every such state, deliveries alone reach a
  state with nothing under way; every run of deliveries is at most \<open>work N\<close> long (two per bare contribution
  under way, one per confirmation, one per side that has not sent its confirmation); and when nothing is
  under way both sides are confirmed, each holds the other's contribution, and both compute the same
  secret, so the handles meet.
\<close>

theorem mailbox_agreement_completes:
  assumes "agreeing C a b x y N"
  shows "(\<exists>N'. (deliver_any C a b)\<^sup>*\<^sup>* N N' \<and> quiet N')
       \<and> (\<forall>N' k. (deliver_any C a b ^^ k) N N' \<longrightarrow> k \<le> work N
            \<and> (quiet N' \<longrightarrow> peer_confirmed (side_a N') \<and> peer_confirmed (side_b N')
                 \<and> peer (side_a N') = Some (own (side_b N')) \<and> peer (side_b N') = Some (own (side_a N'))
                 \<and> pair_secret C a b (own (side_a N')) (own (side_b N'))
                   = pair_secret C b a (own (side_b N')) (own (side_a N'))))"
proof (intro conjI allI impI)
  note inv = agreeing_inv [OF assms]
  show "\<exists>N'. (deliver_any C a b)\<^sup>*\<^sup>* N N' \<and> quiet N'" by (rule quiet_reached [OF inv])
  fix N' k
  assume "(deliver_any C a b ^^ k) N N'"
  note b = deliveries_bounded [OF this inv]
  from b show "k \<le> work N" by simp
  assume "quiet N'"
  note q = quiet_agreed [OF conjunct1 [OF b] this]
  from q show "peer_confirmed (side_a N')" "peer_confirmed (side_b N')" "peer (side_a N') = Some (own (side_b N'))"
    "peer (side_b N') = Some (own (side_a N'))" by simp_all
  show "pair_secret C a b (own (side_a N')) (own (side_b N')) = pair_secret C b a (own (side_b N')) (own (side_a N'))"
    by (rule pair_secret_sym)
qed

theorem mailbox_agreement_completes_witness:
  "agreeing plain_crypto ''a'' ''b'' [1] [2]
     (send_a plain_crypto ''a'' ''b'' \<lparr>side_a = fresh_pair [1], side_b = fresh_pair [2], to_a = [], to_b = []\<rparr>)
   \<and> (\<exists>N'. (deliver_any plain_crypto ''a'' ''b'')\<^sup>*\<^sup>*
        (send_a plain_crypto ''a'' ''b'' \<lparr>side_a = fresh_pair [1], side_b = fresh_pair [2], to_a = [], to_b = []\<rparr>) N'
      \<and> quiet N')"
  using mailbox_agreement_completes [OF agreeing.first [of plain_crypto "''a''" "''b''" "[1]" "[2]"]]
    agreeing.first by blast

section \<open>The node\<close>

text \<open>Every pair a node holds is one that its persisted fields describe completely.\<close>

definition pair_ok :: "mailbox_pair \<Rightarrow> bool" where
  "pair_ok p = (length (own p) = 32 \<and> (case peer p of None \<Rightarrow> \<not> peer_confirmed p \<and> \<not> confirm_sent p | Some t \<Rightarrow> length t = 32))"

definition pairs_ok :: "'s node \<Rightarrow> bool" where
  "pairs_ok n \<longleftrightarrow> (\<forall>i c p. map_of (chats n) i = Some c \<longrightarrow> mailbox c = Some p \<longrightarrow> pair_ok p)"

lemma pairs_okD: "pairs_ok n \<Longrightarrow> map_of (chats n) i = Some c \<Longrightarrow> mailbox c = Some p \<Longrightarrow> pair_ok p"
  by (auto simp: pairs_ok_def)

lemma put_chat_ok: "pairs_ok n \<Longrightarrow> (\<And>p. mailbox c = Some p \<Longrightarrow> pair_ok p) \<Longrightarrow> pairs_ok (put_chat i c n)"
  by (auto simp: pairs_ok_def put_chat_def update_conv')

lemma pairs_ok_frame [simp]:
  "pairs_ok (n\<lparr>dirty := d\<rparr>) = pairs_ok n" "pairs_ok (n\<lparr>outbox := out\<rparr>) = pairs_ok n"
  "pairs_ok (n\<lparr>mailbox_announced := ids\<rparr>) = pairs_ok n"
  by (simp_all add: pairs_ok_def)

lemma chats_put [simp]: "map_of (chats (put_chat i c n)) = (map_of (chats n))(i \<mapsto> c)"
  by (simp add: put_chat_def update_conv')

lemma put_chat_frame [simp]: "outbox (put_chat i c n) = outbox n" "me (put_chat i c n) = me n"
  by (simp_all add: put_chat_def)

lemma fresh_pair_ok: "length random = 32 \<Longrightarrow> pair_ok (fresh_pair random)"
  by (simp add: pair_ok_def fresh_pair_def)

lemma mark_sent_ok: "pair_ok p \<Longrightarrow> pair_ok (mark_sent p)"
  by (auto simp: pair_ok_def mark_sent_def split: option.splits)

lemma receive_ok:
  "pair_ok p \<Longrightarrow> decode_payload pt = Some msg \<Longrightarrow> pair_ok (fst (receive_contribution C us them msg p))"
  by (cases msg) (auto simp: receive_simps pair_ok_def Let_def dest: decode_payload_lengths)

lemma send_mailbox_key_ok:
  assumes "pairs_ok n" and "length random = 32"
  shows "pairs_ok (snd (send_mailbox_key C R relays_meet random i n))"
proof (cases "map_of (chats n) i")
  case (Some c)
  define pair where "pair = (case mailbox c of None \<Rightarrow> fresh_pair random | Some p \<Rightarrow> p)"
  have "pair_ok pair"
    using assms Some by (auto simp: pair_def fresh_pair_ok dest: pairs_okD split: option.splits)
  with assms Some show ?thesis
    by (cases "mailbox c")
      (auto simp: send_mailbox_key_def Let_def pair_def mark_sent_ok split: option.splits prod.splits intro!: put_chat_ok)
qed (use assms in \<open>simp add: send_mailbox_key_def\<close>)

text \<open>A contribution that is read: it is stored, and answered if it asks for it.\<close>

lemma on_mailbox_key_read:
  assumes "map_of (chats n) i = Some c" and "authorized c" and "open_olm R (session c) m = Some (pt, ses)"
    and "decode_payload pt = Some msg"
    and "receive_contribution C (me n) i msg (case mailbox c of None \<Rightarrow> fresh_pair random | Some p \<Rightarrow> p) = (p, reply)"
    and "n1 = (put_chat i ((mark_alive now (c\<lparr>session := ses\<rparr>))\<lparr>mailbox := Some p\<rparr>) n)\<lparr>dirty := True\<rparr>"
  shows "on_mailbox_key C R relays_meet now random i m n
       = (if reply then snd (send_mailbox_key C R relays_meet random i n1) else n1)"
  using assms by (simp add: on_mailbox_key_def Let_def)

lemma on_mailbox_key_ok:
  assumes "pairs_ok n" and "length random = 32"
  shows "pairs_ok (on_mailbox_key C R relays_meet now random i m n)"
proof -
  consider (unknown) "map_of (chats n) i = None"
    | (refused) c where "map_of (chats n) i = Some c" "\<not> authorized c \<or> open_olm R (session c) m = None"
    | (opened) c pt ses where "map_of (chats n) i = Some c" "authorized c" "open_olm R (session c) m = Some (pt, ses)"
    by (metis not_None_eq surj_pair)
  then show ?thesis
  proof cases
    case opened
    show ?thesis
    proof (cases "decode_payload pt")
      case None
      with opened have "on_mailbox_key C R relays_meet now random i m n = put_chat i (c\<lparr>session := ses\<rparr>) n"
        by (simp add: on_mailbox_key_def)
      then show ?thesis using assms(1) opened(1) by (auto intro!: put_chat_ok dest: pairs_okD)
    next
      case (Some msg)
      obtain p reply where r: "receive_contribution C (me n) i msg
          (case mailbox c of None \<Rightarrow> fresh_pair random | Some p \<Rightarrow> p) = (p, reply)"
        by (rule prod.exhaust)
      have "pair_ok (case mailbox c of None \<Rightarrow> fresh_pair random | Some p \<Rightarrow> p)"
        using assms opened(1) by (auto simp: fresh_pair_ok dest: pairs_okD split: option.splits)
      from receive_ok [OF this Some, of C "me n" i] r have "pair_ok p" by simp
      then show ?thesis
        using assms unfolding on_mailbox_key_read [OF opened Some r refl]
        by (auto intro!: send_mailbox_key_ok put_chat_ok)
    qed
  qed (use assms in \<open>auto simp: on_mailbox_key_def\<close>)
qed

lemma announce_ok:
  assumes "pairs_ok n" and "\<And>i. length (random i) = 32"
  shows "pairs_ok (announce_mailbox C R relays_meet ready random n)"
proof -
  have one: "pairs_ok (announce_one C R relays_meet random i n)" if "pairs_ok n" for i and n :: "'a node"
    using that send_mailbox_key_ok [OF _ assms(2), of "n\<lparr>mailbox_announced := List.insert i (mailbox_announced n)\<rparr>" C R relays_meet i i]
    by (auto simp: announce_one_def Let_def split: prod.splits)
  have "pairs_ok (fold (announce_one C R relays_meet random) xs n)" if "pairs_ok n" for xs and n :: "'a node"
    using that by (induction xs arbitrary: n) (simp_all add: one)
  then show ?thesis using assms(1) by (simp add: announce_mailbox_def)
qed

text \<open>
  C16. Nothing about an agreement is lost by a restart. Every operation on the mailbox pairs
  keeps them well formed (contributions of 32 bytes, no confirmation without the contribution it
  confirms), and a well-formed pair is read back from its persisted fields as it was, given only that
  base64 decodes what it encoded.
\<close>

theorem mailbox_state_restorable:
  assumes "pairs_ok n" and "\<And>j. length (random j) = 32" and "\<And>b. unb64_url C (b64_url C b) = Some b"
    and "n' \<in> {snd (send_mailbox_key C R relays_meet (random i) i n),
               on_mailbox_key C R relays_meet now (random i) i m n,
               announce_mailbox C R relays_meet ready random n}"
  shows "pairs_ok n'
       \<and> (\<forall>j c. map_of (chats n') j = Some c \<longrightarrow> from_persisted C (to_persisted C (mailbox c)) = mailbox c)"
proof (intro conjI allI impI)
  show ok: "pairs_ok n'"
    using assms by (auto intro: send_mailbox_key_ok on_mailbox_key_ok announce_ok)
  fix j c
  assume c: "map_of (chats n') j = Some c"
  show "from_persisted C (to_persisted C (mailbox c)) = mailbox c"
  proof (cases "mailbox c")
    case (Some p)
    then show ?thesis
      using persisted_round_trip [OF assms(3), of p] pairs_okD [OF ok c Some]
      by (auto simp: pair_ok_def split: option.splits)
  qed (simp add: from_persisted_def to_persisted_def)
qed

text \<open>A node with one chat, over a ratchet that passes payloads through as their text.\<close>

definition plain_ratchet :: "unit ratchet" where
  "plain_ratchet = \<lparr>seal_olm = \<lambda>s b. Some (\<lparr>message_type = 1, body = bytes_text b\<rparr>, s), open_olm = \<lambda>s w. Some (text_bytes (body w), s)\<rparr>"

definition one_chat :: "unit node" where
  "one_chat = \<lparr>me = ''a'', chats = [(''b'', (new_paired 7 ''addr'' () True)\<lparr>mailbox := Some (fresh_pair (replicate 32 1))\<rparr>)],
     poll_seed = [], mailbox_announced = [], prev_epoch_drained = None, dirty = False, outbox = []\<rparr>"

theorem mailbox_state_restorable_witness:
  "pairs_ok (announce_mailbox plain_crypto plain_ratchet (\<lambda>i. True) True (\<lambda>i. replicate 32 2) one_chat)"
proof -
  have "pairs_ok one_chat" by (auto simp: one_chat_def pairs_ok_def pair_ok_def fresh_pair_def split: if_splits)
  moreover have "\<And>b. unb64_url plain_crypto (b64_url plain_crypto b) = Some b" by (simp add: plain_crypto_def)
  ultimately show ?thesis
    using mailbox_state_restorable [of one_chat "\<lambda>i. replicate 32 2" plain_crypto, OF _ _ _ insertI2 [OF insertI2 [OF insertI1]]]
    by simp
qed

text \<open>
  C17. The node runs the exchange: on a chat that is open, over a ratchet that opens the frame to
  a contribution and can seal, \<open>on_mailbox_key\<close> makes one delivery step of the network of the previous
  section. The chat's pair becomes the receiving side, and what the node puts in its outbox are exactly
  the contributions that step sends, each sealed by the ratchet and addressed to the peer.
\<close>

theorem node_runs_agreement:
  assumes "map_of (chats n) i = Some c" and "authorized c" and "\<not> closed c" and "relays_meet i" and "mailbox c = Some p"
    and "open_olm R (session c) m = Some (encode_payload t confirm, ses)"
    and "length t = 32" and "\<And>h. confirm = Some h \<Longrightarrow> length h = 32"
    and "\<And>s pt. \<exists>w s'. seal_olm R s pt = Some (w, s')"
  shows "\<exists>N' c' ms. deliver_a C (me n) i \<lparr>side_a = p, side_b = q, to_a = [(t, confirm)], to_b = []\<rparr> N'
       \<and> map_of (chats (on_mailbox_key C R relays_meet now random i m n)) i = Some c' \<and> mailbox c' = Some (side_a N')
       \<and> outbox (on_mailbox_key C R relays_meet now random i m n) = outbox n @ ms
       \<and> list_all2 (\<lambda>f (x, h). \<exists>s w s'. seal_olm R s (encode_payload x h) = Some (w, s')
            \<and> f = \<lparr>to_addr = peer_address c, to_contact = i, sent = MailboxKey (me n) w\<rparr>) ms (to_b N')"
proof -
  obtain p1 reply where r: "receive_contribution C (me n) i (t, confirm) p = (p1, reply)" by (rule prod.exhaust)
  let ?N1 = "\<lparr>side_a = p1, side_b = q, to_a = [], to_b = []\<rparr>"
  let ?n1 = "(put_chat i ((mark_alive now (c\<lparr>session := ses\<rparr>))\<lparr>mailbox := Some p1\<rparr>) n)\<lparr>dirty := True\<rparr>"
  have step: "deliver_a C (me n) i \<lparr>side_a = p, side_b = q, to_a = [(t, confirm)], to_b = []\<rparr>
      (if reply then send_a C (me n) i ?N1 else ?N1)"
    by (rule deliver_a.deliver [of _ "[]" "(t, confirm)" "[]"]) (simp_all add: r)
  have node: "on_mailbox_key C R relays_meet now random i m n
      = (if reply then snd (send_mailbox_key C R relays_meet random i ?n1) else ?n1)"
    using decode_encode_payload [of t confirm] assms r by (intro on_mailbox_key_read [where p = p1]) simp_all
  show ?thesis
  proof (cases reply)
    case False
    with step node show ?thesis by (intro exI [of _ ?N1] exI [of _ "_::'a chat"] exI [of _ "[]"]) auto
  next
    case True
    obtain x h where con: "contribution C (me n) i p1 = (x, h)" by (rule prod.exhaust)
    obtain w s' where w: "seal_olm R ses (encode_payload x h) = Some (w, s')" using assms(9) by blast
    have "send_mailbox_key C R relays_meet random i ?n1 =
        (True, (put_chat i ((mark_alive now (c\<lparr>session := ses\<rparr>))\<lparr>session := s', mailbox := Some (mark_sent p1)\<rparr>) ?n1)
           \<lparr>dirty := True, outbox := outbox n @ [\<lparr>to_addr = peer_address c, to_contact = i, sent = MailboxKey (me n) w\<rparr>]\<rparr>)"
      using assms con w by (simp add: send_mailbox_key_def put_chat_def update_conv')
    with True step node con w show ?thesis
      by (intro exI [of _ "send_a C (me n) i ?N1"] exI [of _ "_::'a chat"]
          exI [of _ "[\<lparr>to_addr = peer_address c, to_contact = i, sent = MailboxKey (me n) w\<rparr>]"]) (auto simp: send_a_def)
  qed
qed

text \<open>The frame of b's first contribution, as the plain ratchet seals it.\<close>

definition b_contribution :: wire_olm where
  "b_contribution = \<lparr>message_type = 1, body = bytes_text (encode_payload (replicate 32 2) None)\<rparr>"

theorem node_runs_agreement_witness:
  "\<exists>N' c' ms. deliver_a plain_crypto (me one_chat) ''b''
         \<lparr>side_a = fresh_pair (replicate 32 1), side_b = fresh_pair [], to_a = [(replicate 32 2, None)], to_b = []\<rparr> N'
     \<and> map_of (chats (on_mailbox_key plain_crypto plain_ratchet (\<lambda>i. True) 9 [] ''b'' b_contribution one_chat)) ''b'' = Some c'
     \<and> mailbox c' = Some (side_a N')
     \<and> outbox (on_mailbox_key plain_crypto plain_ratchet (\<lambda>i. True) 9 [] ''b'' b_contribution one_chat) = outbox one_chat @ ms
     \<and> list_all2 (\<lambda>f (x, h). \<exists>s w s'. seal_olm plain_ratchet s (encode_payload x h) = Some (w, s')
          \<and> f = \<lparr>to_addr = ''addr'', to_contact = ''b'', sent = MailboxKey (me one_chat) w\<rparr>) ms (to_b N')"
  using node_runs_agreement [of one_chat "''b''" "(new_paired 7 ''addr'' () True)\<lparr>mailbox := Some (fresh_pair (replicate 32 1))\<rparr>"
      "\<lambda>i. True" "fresh_pair (replicate 32 1)" plain_ratchet b_contribution "replicate 32 2" None "()" plain_crypto "fresh_pair []" 9 "[]"]
  by (simp add: one_chat_def new_paired_def plain_ratchet_def b_contribution_def)

end
