(* ===== verification/PollPlan.thy ===== *)
theory PollPlan
  imports MailboxAgreement "HOL-Library.Multiset"
begin

text \<open>
  What a node polls (\<open>core/src/node/mailbox.rs\<close>): the UTC days whose handles it asks for, when a day is
  retired, and the fragments the handles are asked for in. Times are Unix seconds.
\<close>

section \<open>The days polled\<close>

definition SKEW_MARGIN_SECS :: nat where
  "SKEW_MARGIN_SECS = 3 * 60 * 60"

definition polled_epochs :: "nat \<Rightarrow> 's node \<Rightarrow> nat list" where
  "polled_epochs now n =
     (let today = now div EPOCH_SECS; into_day = now mod EPOCH_SECS
      in (if 0 < today \<and> prev_epoch_drained n \<noteq> Some (today - 1) then [today - 1] else [])
         @ [today]
         @ (if EPOCH_SECS - SKEW_MARGIN_SECS \<le> into_day then [today + 1] else []))"

definition settling_epoch :: "nat \<Rightarrow> 's node \<Rightarrow> nat option" where
  "settling_epoch now n =
     (if now div EPOCH_SECS = 0 then None
      else (let yesterday = now div EPOCH_SECS - 1
        in if SKEW_MARGIN_SECS \<le> now mod EPOCH_SECS \<and> yesterday \<in> set (polled_epochs now n)
           then Some yesterday else None))"

section \<open>Fragments\<close>

definition POLL_FRAGMENTS :: nat where
  "POLL_FRAGMENTS = 7"

definition POLL_PAD :: nat where
  "POLL_PAD = 8"

record fragment =
  group :: nat
  frag_epoch :: "nat option"
  handles :: "string list"

definition group_id :: "mailbox_crypto \<Rightarrow> bytes list \<Rightarrow> nat" where
  "group_id C parts = be_nat (take 8 (sha256 C (concat (map (\<lambda>p. be_bytes 8 (length p) @ p) parts))))"

definition post_group :: "mailbox_crypto \<Rightarrow> string \<Rightarrow> nat" where
  "post_group C recipient_ik = group_id C [text_bytes ''nightdrop/isolation/post'', text_bytes recipient_ik]"

definition dummy_bytes :: "mailbox_crypto \<Rightarrow> nat \<Rightarrow> bytes \<Rightarrow> bytes" where
  "dummy_bytes C i seed = take 15 (sha256 C (text_bytes ''nightdrop/poll/dummy-handle'' @ seed @ be_bytes 8 i))"

definition cover_secret :: "mailbox_crypto \<Rightarrow> bytes \<Rightarrow> bytes" where
  "cover_secret C seed = hkdf_cover C seed (text_bytes ''self'')"

text \<open>The agreed secrets a cover post may use: one of them, picked at random, or the node's own.\<close>

definition cover_secrets :: "mailbox_crypto \<Rightarrow> 's node \<Rightarrow> bytes list" where
  "cover_secrets C n =
     List.map_filter (\<lambda>(i, c).
       if authorized c \<and> \<not> closed c
       then Option.bind (mailbox c) (\<lambda>pair. map_option (pair_secret C (me n) i (own pair)) (peer pair))
       else None) (chats n)"

definition cover_handle :: "mailbox_crypto \<Rightarrow> (nat \<Rightarrow> nat) \<Rightarrow> nat \<Rightarrow> 's node \<Rightarrow> string" where
  "cover_handle C chosen epoch n =
     (let picks = cover_secrets C n;
          secret = (if picks = [] then cover_secret C (poll_seed n) else picks ! (chosen (length picks)))
      in v2_handle C secret (me n) epoch)"

definition bucket_of :: "mailbox_crypto \<Rightarrow> bytes \<Rightarrow> nat \<Rightarrow> bytes \<Rightarrow> nat" where
  "bucket_of C seed epoch label =
     group_id C [text_bytes ''nightdrop/poll/bucket'', seed, be_bytes 8 epoch, label] mod POLL_FRAGMENTS"

text \<open>The handles that are real, each with the label its bucket is drawn by.\<close>

definition real_handles :: "mailbox_crypto \<Rightarrow> nat \<Rightarrow> 's node \<Rightarrow> (bytes \<times> string) list" where
  "real_handles C epoch n =
     List.map_filter (\<lambda>(i, c).
       if closed c then None
       else Option.bind (mailbox c) (\<lambda>pair. Option.bind (peer pair) (\<lambda>p.
         Some (text_bytes i, v2_handle C (pair_secret C (me n) i (own pair) p) (me n) epoch)))) (chats n)
     @ [(text_bytes ''cover'', v2_handle C (cover_secret C (poll_seed n)) (me n) epoch)]"

definition dummy_label :: "nat \<Rightarrow> bytes" where
  "dummy_label i = text_bytes ''dummy'' @ be_bytes 8 i"

definition dummy_handle :: "mailbox_crypto \<Rightarrow> bytes \<Rightarrow> nat \<Rightarrow> nat \<Rightarrow> string" where
  "dummy_handle C seed epoch i =
     (let ident = group_id C [text_bytes ''nightdrop/poll/dummy'', seed, be_bytes 8 epoch, dummy_label i]
      in ''mbx:'' @ b64_url C (dummy_bytes C ident seed))"

definition padded_count :: "nat \<Rightarrow> nat" where
  "padded_count real = (max real 1 + (POLL_PAD - 1)) div POLL_PAD * POLL_PAD"

definition all_handles :: "mailbox_crypto \<Rightarrow> nat \<Rightarrow> 's node \<Rightarrow> (bytes \<times> string) list" where
  "all_handles C epoch n =
     (let real = real_handles C epoch n
      in real @ map (\<lambda>i. (dummy_label i, dummy_handle C (poll_seed n) epoch i)) [0..<padded_count (length real) - length real])"

definition push_bucket :: "mailbox_crypto \<Rightarrow> bytes \<Rightarrow> nat \<Rightarrow> string list list \<Rightarrow> bytes \<times> string \<Rightarrow> string list list" where
  "push_bucket C seed epoch buckets h =
     (let b = bucket_of C seed epoch (fst h) in buckets[b := buckets ! b @ [snd h]])"

definition fragments_of_epoch :: "mailbox_crypto \<Rightarrow> 's node \<Rightarrow> nat \<Rightarrow> fragment list" where
  "fragments_of_epoch C n epoch =
     (let buckets = foldl (push_bucket C (poll_seed n) epoch) (replicate POLL_FRAGMENTS []) (all_handles C epoch n)
      in map (\<lambda>(b, hs). \<lparr>group = group_id C [text_bytes ''nightdrop/isolation/poll'', poll_seed n, be_bytes 8 epoch, be_bytes 8 b],
                          frag_epoch = Some epoch, handles = hs\<rparr>)
           (filter (\<lambda>(b, hs). hs \<noteq> []) (enumerate 0 buckets)))"

definition poll_fragments_at :: "mailbox_crypto \<Rightarrow> nat \<Rightarrow> 's node \<Rightarrow> fragment list" where
  "poll_fragments_at C now n = concat (map (fragments_of_epoch C n) (polled_epochs now n))"

section \<open>The schedule covers every sender with a clock within the margin\<close>

text \<open>A round of polling started at a time; when it answered everywhere, what it settles is retired.\<close>

definition retire :: "nat \<times> bool \<Rightarrow> 's node \<Rightarrow> 's node" where
  "retire r n = (case (settling_epoch (fst r) n, snd r) of
      (Some e, True) \<Rightarrow> n\<lparr>prev_epoch_drained := Some e\<rparr> | _ \<Rightarrow> n)"

lemmas schedule_defs = polled_epochs_def settling_epoch_def EPOCH_SECS_def SKEW_MARGIN_SECS_def Let_def

lemma set_polled_epochs:
  "set (polled_epochs now n) =
     {e. e = now div EPOCH_SECS
       \<or> e + 1 = now div EPOCH_SECS \<and> prev_epoch_drained n \<noteq> Some e
       \<or> e = now div EPOCH_SECS + 1 \<and> EPOCH_SECS - SKEW_MARGIN_SECS \<le> now mod EPOCH_SECS}"
  by (auto simp: polled_epochs_def Let_def)

lemma settling_epoch_late:
  "settling_epoch now n = Some e \<Longrightarrow> (e + 1) * EPOCH_SECS + SKEW_MARGIN_SECS \<le> now"
  unfolding settling_epoch_def Let_def EPOCH_SECS_def SKEW_MARGIN_SECS_def
  by (simp split: if_splits) (use div_mult_mod_eq [of now 86400] in linarith)

lemma retire_drained:
  "prev_epoch_drained (retire r n) = Some e \<Longrightarrow> prev_epoch_drained n = Some e \<or> settling_epoch (fst r) n = Some e \<and> snd r"
  by (auto simp: retire_def split: option.splits bool.splits)

lemma retired_by:
  assumes "prev_epoch_drained n0 = None" and "prev_epoch_drained (fold retire rounds n0) = Some e"
  shows "\<exists>i < length rounds. settling_epoch (fst (rounds ! i)) (fold retire (take i rounds) n0) = Some e \<and> snd (rounds ! i)"
  using assms(2)
proof (induction rounds rule: rev_induct)
  case (snoc r rounds)
  show ?case
  proof (cases "prev_epoch_drained (fold retire rounds n0) = Some e")
    case True
    with snoc.IH obtain i where "i < length rounds" "settling_epoch (fst (rounds ! i)) (fold retire (take i rounds) n0) = Some e" "snd (rounds ! i)"
      by blast
    then show ?thesis by (intro exI [of _ i]) (simp add: nth_append)
  next
    case False
    with snoc.prems have "settling_epoch (fst r) (fold retire rounds n0) = Some e \<and> snd r"
      using retire_drained [of r "fold retire rounds n0" e] by simp
    then show ?thesis by (intro exI [of _ "length rounds"]) (simp add: nth_append)
  qed
qed (use assms(1) in simp)

lemma settling_polled: "settling_epoch now n = Some e \<Longrightarrow> e \<in> set (polled_epochs now n)"
  by (auto simp: settling_epoch_def Let_def split: if_splits)

lemma late_in_day:
  "(q + 1) * EPOCH_SECS \<le> clock \<Longrightarrow> q * EPOCH_SECS + r = now \<Longrightarrow> clock \<le> posted + SKEW_MARGIN_SECS \<Longrightarrow>
   posted \<le> now \<Longrightarrow> EPOCH_SECS - SKEW_MARGIN_SECS \<le> r"
  by (simp add: EPOCH_SECS_def SKEW_MARGIN_SECS_def)

text \<open>
  C18. No mail goes unpolled because of a clock that is off by up to the margin. A sender whose
  clock reads \<open>clock\<close> at time \<open>t\<close>, at most three hours off either way, posts under the day of its own clock.
  Whatever rounds the reader has run, answered or not, a round it starts within 21 hours of the post asks for that
  day's handles, unless a round begun since the post has: one that was answered throughout and asked for them.
\<close>

theorem posted_day_is_polled:
  assumes "prev_epoch_drained n0 = None" and "\<forall>r \<in> set rounds. fst r \<le> now"
    and "posted \<le> clock + SKEW_MARGIN_SECS" and "clock \<le> posted + SKEW_MARGIN_SECS"
    and "posted \<le> now" and "now + SKEW_MARGIN_SECS < posted + EPOCH_SECS"
  shows "clock div EPOCH_SECS \<in> set (polled_epochs now (fold retire rounds n0))
    \<or> (\<exists>i < length rounds. posted < fst (rounds ! i) \<and> fst (rounds ! i) \<le> now \<and> snd (rounds ! i)
          \<and> clock div EPOCH_SECS \<in> set (polled_epochs (fst (rounds ! i)) (fold retire (take i rounds) n0)))"
proof -
  let ?e = "clock div EPOCH_SECS"
  have e: "?e * EPOCH_SECS \<le> clock" "clock < (?e + 1) * EPOCH_SECS"
    using div_mult_mod_eq [of clock EPOCH_SECS] mod_less_divisor [of EPOCH_SECS clock] by (simp_all add: EPOCH_SECS_def)
  have t: "now div EPOCH_SECS * EPOCH_SECS + now mod EPOCH_SECS = now" "now mod EPOCH_SECS < EPOCH_SECS"
    by (simp_all add: EPOCH_SECS_def)
  show ?thesis
  proof (cases "prev_epoch_drained (fold retire rounds n0) = Some ?e")
    case True
    from retired_by [OF assms(1) True] obtain i where
      i: "i < length rounds" "settling_epoch (fst (rounds ! i)) (fold retire (take i rounds) n0) = Some ?e" "snd (rounds ! i)" by blast
    have "(?e + 1) * EPOCH_SECS + SKEW_MARGIN_SECS \<le> fst (rounds ! i)" by (rule settling_epoch_late [OF i(2)])
    with e(2) assms(3) have "posted < fst (rounds ! i)" by linarith
    moreover have "fst (rounds ! i) \<le> now" using assms(2) i(1) by simp
    ultimately show ?thesis using i settling_polled by blast
  next
    case not_retired: False
    consider "now div EPOCH_SECS \<ge> ?e + 2" | "now div EPOCH_SECS = ?e + 1" | "now div EPOCH_SECS = ?e" | "now div EPOCH_SECS + 1 \<le> ?e"
      by linarith
    then have "?e \<in> set (polled_epochs now (fold retire rounds n0))"
  proof cases
    case 1
    then have "(?e + 2) * EPOCH_SECS \<le> now" using t(1) mult_le_mono1 [of "?e + 2" "now div EPOCH_SECS" EPOCH_SECS] by linarith
    then show ?thesis using e assms(3,6) by (simp add: EPOCH_SECS_def SKEW_MARGIN_SECS_def)
  next
    case 4
    then have "(now div EPOCH_SECS + 1) * EPOCH_SECS \<le> clock" using e(1) mult_le_mono1 [OF 4, of EPOCH_SECS] by linarith
    moreover have "?e = now div EPOCH_SECS + 1"
    proof (rule ccontr)
      assume "?e \<noteq> now div EPOCH_SECS + 1"
      with 4 have "(now div EPOCH_SECS + 2) * EPOCH_SECS \<le> clock"
        using e(1) mult_le_mono1 [of "now div EPOCH_SECS + 2" ?e EPOCH_SECS] by linarith
      then show False using t assms(4,5) by (simp add: EPOCH_SECS_def SKEW_MARGIN_SECS_def)
    qed
    moreover from calculation have "EPOCH_SECS - SKEW_MARGIN_SECS \<le> now mod EPOCH_SECS"
      using late_in_day [OF _ t(1) assms(4,5)] by blast
    ultimately show ?thesis by (simp add: set_polled_epochs)
    qed (use not_retired in \<open>simp_all add: set_polled_epochs\<close>)
    then show ?thesis ..
  qed
qed

theorem posted_day_is_polled_witness:
  "(86400 * 5 + 100 - 9000) div EPOCH_SECS \<in>
     set (polled_epochs (86400 * 5 + 50000) (fold retire [(86400 * 5 + 60, True)] one_chat))"
  using posted_day_is_polled [where posted = "86400 * 5 + 100" and clock = "86400 * 5 + 100 - 9000" and now = "86400 * 5 + 50000"
      and rounds = "[(86400 * 5 + 60, True)]" and ?n0.0 = one_chat]
  by (simp add: one_chat_def SKEW_MARGIN_SECS_def EPOCH_SECS_def)

text \<open>
  The 21 hours cannot be a relay's 24: a post just after midnight by a clock a little slow is under the day
  before, which a reader that was away all day does not ask for once the next midnight has passed, though
  the relay still holds the post.
\<close>

lemma slow_sender_outlives_polling:
  "(86400 * 5 - 100) div EPOCH_SECS \<notin> set (polled_epochs (86400 * 6 + 50) n)
   \<and> 86400 * 6 + 50 < (86400 * 5 + 100) + 24 * 60 * (60::nat)"
  by (simp add: set_polled_epochs EPOCH_SECS_def SKEW_MARGIN_SECS_def)

section \<open>What the fragments hold\<close>

lemma bucket_below: "bucket_of C seed epoch label < POLL_FRAGMENTS"
  by (simp add: bucket_of_def POLL_FRAGMENTS_def)

text \<open>Pushing the handles one by one is the same as selecting, for each bucket, the handles whose label falls in it.\<close>

lemma push_map:
  "push_bucket C seed epoch (map f [0..<POLL_FRAGMENTS]) h
     = map (\<lambda>b. f b @ (if bucket_of C seed epoch (fst h) = b then [snd h] else [])) [0..<POLL_FRAGMENTS]"
  using bucket_below [of C seed epoch "fst h"]
  by (intro nth_equalityI) (auto simp: push_bucket_def Let_def nth_list_update)

lemma buckets_eq:
  "foldl (push_bucket C seed epoch) (replicate POLL_FRAGMENTS []) hs
     = map (\<lambda>b. map snd (filter (\<lambda>h. bucket_of C seed epoch (fst h) = b) hs)) [0..<POLL_FRAGMENTS]"
proof (induction hs rule: rev_induct)
  case (snoc h hs)
  then show ?case by (auto simp: push_map intro!: map_cong)
qed (simp add: map_replicate_const)

text \<open>The fragments of a day, given the buckets that hold something.\<close>

definition fragment_at :: "mailbox_crypto \<Rightarrow> 's node \<Rightarrow> nat \<Rightarrow> nat \<Rightarrow> fragment" where
  "fragment_at C n epoch b =
     \<lparr>group = group_id C [text_bytes ''nightdrop/isolation/poll'', poll_seed n, be_bytes 8 epoch, be_bytes 8 b],
      frag_epoch = Some epoch,
      handles = map snd (filter (\<lambda>h. bucket_of C (poll_seed n) epoch (fst h) = b) (all_handles C epoch n))\<rparr>"

lemma enumerate_map_upt: "enumerate 0 (map f [0..<k]) = map (\<lambda>b. (b, f b)) [0..<k]"
  by (rule nth_equalityI) (simp_all add: nth_enumerate_eq)

lemma fragments_eq:
  "fragments_of_epoch C n epoch = map (fragment_at C n epoch) (filter (\<lambda>b. handles (fragment_at C n epoch b) \<noteq> []) [0..<POLL_FRAGMENTS])"
  by (simp add: fragments_of_epoch_def buckets_eq Let_def enumerate_map_upt filter_map o_def fragment_at_def)

lemma mset_buckets:
  "(\<Sum>b \<leftarrow> [0..<k]. mset (map snd (filter (\<lambda>h. f h = b) hs))) = mset (map snd (filter (\<lambda>h. f h < k) hs))"
proof (induction k)
  case (Suc k)
  have "filter_mset (\<lambda>h. f h < k) (mset hs) + filter_mset (\<lambda>h. f h = k) (mset hs) = filter_mset (\<lambda>h. f h < Suc k) (mset hs)"
    by (induction hs) (auto simp: less_Suc_eq)
  with Suc show ?case by (simp flip: image_mset_union)
qed simp

lemma fragments_mset:
  "mset (concat (map handles (fragments_of_epoch C n epoch))) = mset (map snd (all_handles C epoch n))"
proof -
  have skip: "concat (map handles (map g (filter (\<lambda>b. handles (g b) \<noteq> []) bs))) = concat (map (\<lambda>b. handles (g b)) bs)" for g bs
    by (induction bs) auto
  have "mset (concat (map handles (fragments_of_epoch C n epoch)))
      = (\<Sum>b \<leftarrow> [0..<POLL_FRAGMENTS]. mset (handles (fragment_at C n epoch b)))"
    unfolding fragments_eq skip by (simp add: mset_concat o_def)
  also have "\<dots> = mset (map snd (filter (\<lambda>h. bucket_of C (poll_seed n) epoch (fst h) < POLL_FRAGMENTS) (all_handles C epoch n)))"
    unfolding fragment_at_def fragment.simps by (rule mset_buckets)
  finally show ?thesis by (simp add: bucket_below)
qed

lemma padded_count_props:
  "POLL_PAD dvd padded_count real" "real \<le> padded_count real" "padded_count real < real + POLL_PAD \<or> real = 0"
  by (auto simp: padded_count_def POLL_PAD_def max_def)

lemma real_handles_nonempty: "real_handles C epoch n \<noteq> []"
  by (simp add: real_handles_def)

text \<open>
  What a relay can count. The fragments of a day partition exactly the handles to be polled, real and
  dummy, with nothing dropped or asked for twice; there are at most seven, none empty; and their total
  is the number of real handles (the contacts' and the cover handle) rounded up to the next multiple of
  eight, so a round never tells fewer than eight handles.
\<close>

theorem poll_fragments_shape:
  "mset (concat (map handles (fragments_of_epoch C n epoch))) = mset (map snd (all_handles C epoch n))
   \<and> length (fragments_of_epoch C n epoch) \<le> POLL_FRAGMENTS
   \<and> [] \<notin> set (map handles (fragments_of_epoch C n epoch))
   \<and> POLL_PAD dvd length (all_handles C epoch n) \<and> POLL_PAD \<le> length (all_handles C epoch n)
   \<and> length (real_handles C epoch n) \<le> length (all_handles C epoch n)
   \<and> length (all_handles C epoch n) < length (real_handles C epoch n) + POLL_PAD"
proof -
  let ?r = "length (real_handles C epoch n)"
  have all: "length (all_handles C epoch n) = padded_count ?r"
    using padded_count_props(2) [of ?r] by (simp add: all_handles_def Let_def)
  have "?r \<noteq> 0" using real_handles_nonempty by simp
  moreover have "length (fragments_of_epoch C n epoch) \<le> POLL_FRAGMENTS"
    using length_filter_le [of "\<lambda>b. handles (fragment_at C n epoch b) \<noteq> []" "[0..<POLL_FRAGMENTS]"] by (simp add: fragments_eq)
  moreover have "[] \<notin> set (map handles (fragments_of_epoch C n epoch))" by (auto simp: fragments_eq)
  moreover have "POLL_PAD \<le> padded_count ?r"
    using padded_count_props [of ?r] calculation(1) by (intro dvd_imp_le) linarith+
  ultimately show ?thesis using padded_count_props [of ?r] by (auto simp: all fragments_mset)
qed

lemma polled_handle:
  assumes "(label, h) \<in> set (all_handles C epoch n)"
  shows "fragment_at C n epoch (bucket_of C (poll_seed n) epoch label) \<in> set (fragments_of_epoch C n epoch)
       \<and> h \<in> set (handles (fragment_at C n epoch (bucket_of C (poll_seed n) epoch label)))"
proof -
  have "h \<in> set (handles (fragment_at C n epoch (bucket_of C (poll_seed n) epoch label)))"
    using assms by (force simp: fragment_at_def)
  then show ?thesis using bucket_below [of C "poll_seed n" epoch label] by (force simp: fragments_eq)
qed

lemma inbound_handle_real:
  "(i, c) \<in> set (chats n) \<Longrightarrow> \<not> closed c \<Longrightarrow> mailbox c = Some p \<Longrightarrow> peer p = Some t \<Longrightarrow>
   (text_bytes i, v2_handle C (pair_secret C (me n) i (own p) t) (me n) epoch) \<in> set (real_handles C epoch n)"
  by (force simp: real_handles_def List.map_filter_def)

text \<open>
  Mail a confirmed sender posts is asked for. Whatever handle a sender posts to for a reader, under
  any day the reader polls, the reader's round asks for that handle in a fragment of that day, whose
  circuits are chosen by the reader's seed, the day and the sender alone, if the chat is open and each side
  holds the other's contribution.
\<close>

theorem posted_handle_is_polled:
  assumes "post_handle C epoch (me n) w = Some h"
    and "map_of (chats w) (me n) = Some d" and "mailbox d = Some q" and "peer q = Some (own p)"
    and "map_of (chats n) (me w) = Some c" and "\<not> closed c" and "mailbox c = Some p" and "peer p = Some (own q)"
    and "epoch \<in> set (polled_epochs now n)"
  shows "\<exists>f \<in> set (poll_fragments_at C now n). frag_epoch f = Some epoch \<and> h \<in> set (handles f)
       \<and> group f = group_id C [text_bytes ''nightdrop/isolation/poll'', poll_seed n, be_bytes 8 epoch,
                     be_bytes 8 (bucket_of C (poll_seed n) epoch (text_bytes (me w)))]"
proof -
  have h: "h = v2_handle C (pair_secret C (me n) (me w) (own p) (own q)) (me n) epoch"
    using assms(1-4) pair_secret_sym [of C "me n" "me w" "own p" "own q"]
    by (auto simp: post_handle_def split: bool.splits)
  have "(text_bytes (me w), h) \<in> set (all_handles C epoch n)"
    using inbound_handle_real [OF map_of_SomeD [OF assms(5)] assms(6-8), of C epoch] h by (simp add: all_handles_def Let_def)
  from polled_handle [OF this] assms(9) show ?thesis
    unfolding poll_fragments_at_def by (force simp: fragment_at_def)
qed

text \<open>Two nodes that hold each other's contribution.\<close>

definition agreed_node :: "string \<Rightarrow> string \<Rightarrow> bytes \<Rightarrow> bytes \<Rightarrow> unit node" where
  "agreed_node us them x y =
     one_chat\<lparr>me := us, chats := [(them, (new_paired 7 ''addr'' () True)\<lparr>mailbox :=
        Some \<lparr>own = x, peer = Some y, peer_confirmed = True, confirm_sent = True, announced_at = None\<rparr>\<rparr>)]\<rparr>"

theorem posted_handle_is_polled_witness:
  "\<exists>f \<in> set (poll_fragments_at plain_crypto 86500 (agreed_node ''a'' ''b'' [1] [2])). frag_epoch f = Some 1
     \<and> v2_handle plain_crypto (pair_secret plain_crypto ''b'' ''a'' [2] [1]) ''a'' 1 \<in> set (handles f)"
  using posted_handle_is_polled [of plain_crypto 1 "agreed_node ''a'' ''b'' [1] [2]" "agreed_node ''b'' ''a'' [2] [1]"
      "v2_handle plain_crypto (pair_secret plain_crypto ''b'' ''a'' [2] [1]) ''a'' 1"
      "snd (hd (chats (agreed_node ''b'' ''a'' [2] [1])))"
      "\<lparr>own = [2], peer = Some [1], peer_confirmed = True, confirm_sent = True, announced_at = None\<rparr>"
      "\<lparr>own = [1], peer = Some [2], peer_confirmed = True, confirm_sent = True, announced_at = None\<rparr>"
      "snd (hd (chats (agreed_node ''a'' ''b'' [1] [2])))" 86500]
  by (simp add: agreed_node_def post_handle_def new_paired_def polled_epochs_def EPOCH_SECS_def Let_def) blast

end
