(* ===== verification/DrainRound.thy ===== *)
theory DrainRound
  imports PollPlan
begin

text \<open>
  One round of polling (\<open>relay_drain_plan_at\<close> in \<open>core/src/node/messaging.rs\<close>, \<open>drain_relay_mailboxes\<close> in
  \<open>core/src/node.rs\<close>): the jobs, one per relay and fragment, in any order, and what comes of them when
  some relays do not answer. What the relays answer is an argument: \<open>answer i\<close> is what the job at
  position \<open>i\<close> gets if it is asked, \<open>None\<close> an error.
\<close>

section \<open>The plan\<close>

record job =
  addr :: "string option"
  job_epoch :: "nat option"
  job_handles :: "string list"

record drain_plan =
  jobs :: "job list"
  settles :: "nat option"

text \<open>The relays to ask: the primary, then each listed relay once, the primary's own address not again.\<close>

fun listed_once :: "string list \<Rightarrow> string list \<Rightarrow> string list" where
  "listed_once seen [] = []"
| "listed_once seen (a # as) = (if a \<in> set seen then listed_once seen as else a # listed_once (seen @ [a]) as)"

definition drain_relays :: "string option option \<Rightarrow> string list \<Rightarrow> string option list" where
  "drain_relays primary onions =
     (case primary of None \<Rightarrow> [] | Some _ \<Rightarrow> [None])
     @ map Some (listed_once (case primary of Some (Some a) \<Rightarrow> [a] | _ \<Rightarrow> []) onions)"

definition fragment_jobs :: "string option list \<Rightarrow> fragment list \<Rightarrow> job list" where
  "fragment_jobs relays fragments =
     concat (map (\<lambda>a. map (\<lambda>f. \<lparr>addr = a, job_epoch = frag_epoch f, job_handles = handles f\<rparr>) fragments) relays)"

text \<open>The order of the jobs is drawn afresh every round: \<open>shuffle\<close> is any function that permutes.\<close>

definition relay_drain_plan_at ::
  "mailbox_crypto \<Rightarrow> (job list \<Rightarrow> job list) \<Rightarrow> string option option \<Rightarrow> string list \<Rightarrow> nat \<Rightarrow> 's node \<Rightarrow> drain_plan option" where
  "relay_drain_plan_at C shuffle primary onions now n =
     (let relays = drain_relays primary onions
      in if relays = [] then None
         else Some \<lparr>jobs = shuffle (fragment_jobs relays (poll_fragments_at C now n)), settles = settling_epoch now n\<rparr>)"

section \<open>The round\<close>

definition DEAD_AFTER :: nat where
  "DEAD_AFTER = 2"

record drain =
  blobs :: "bytes list"
  answered :: "(string \<times> bool) list"
  tally :: "(string option \<times> nat \<times> nat) list"
  settle_ok :: bool
  ok_jobs :: nat
  failed_jobs :: nat
  skipped_jobs :: nat

definition tally_of :: "string option \<Rightarrow> drain \<Rightarrow> nat \<times> nat" where
  "tally_of a d = (case map_of (tally d) a of None \<Rightarrow> (0, 0) | Some t \<Rightarrow> t)"

definition note_answered :: "string option \<Rightarrow> bool \<Rightarrow> (string \<times> bool) list \<Rightarrow> (string \<times> bool) list" where
  "note_answered a ok xs =
     (case a of None \<Rightarrow> xs
      | Some s \<Rightarrow> AList.update s ((case map_of xs s of None \<Rightarrow> False | Some seen \<Rightarrow> seen) \<or> ok) xs)"

definition drain_job :: "nat option \<Rightarrow> (nat \<Rightarrow> bytes list option) \<Rightarrow> drain \<Rightarrow> nat \<times> job \<Rightarrow> drain" where
  "drain_job settling answer d ij =
     (let (i, j) = ij; (oks, fails) = tally_of (addr j) d;
          d = d\<lparr>tally := AList.update (addr j) (oks, fails) (tally d)\<rparr>
      in if oks = 0 \<and> DEAD_AFTER \<le> fails
         then d\<lparr>skipped_jobs := skipped_jobs d + 1, settle_ok := (settle_ok d \<and> job_epoch j \<noteq> settling)\<rparr>
         else (case answer i of
                 Some taken \<Rightarrow>
                   d\<lparr>blobs := blobs d @ taken, tally := AList.update (addr j) (oks + 1, fails) (tally d),
                     ok_jobs := ok_jobs d + 1, answered := note_answered (addr j) True (answered d)\<rparr>
               | None \<Rightarrow>
                   d\<lparr>tally := AList.update (addr j) (oks, fails + 1) (tally d), failed_jobs := failed_jobs d + 1,
                     settle_ok := (settle_ok d \<and> job_epoch j \<noteq> settling),
                     answered := note_answered (addr j) False (answered d)\<rparr>))"

definition drain_start :: "nat option \<Rightarrow> drain" where
  "drain_start settling =
     \<lparr>blobs = [], answered = [], tally = [], settle_ok = (settling \<noteq> None), ok_jobs = 0, failed_jobs = 0, skipped_jobs = 0\<rparr>"

record harvest =
  h_blobs :: "bytes list"
  reachability :: "(string \<times> bool) list"
  settled :: "nat option"

definition drain_all :: "nat option \<Rightarrow> (nat \<Rightarrow> bytes list option) \<Rightarrow> job list \<Rightarrow> drain" where
  "drain_all settling answer js = foldl (drain_job settling answer) (drain_start settling) (enumerate 0 js)"

definition drain_relay_mailboxes :: "(nat \<Rightarrow> bytes list option) \<Rightarrow> drain_plan \<Rightarrow> harvest" where
  "drain_relay_mailboxes answer plan =
     (let d = drain_all (settles plan) answer (jobs plan)
      in \<lparr>h_blobs = blobs d, reachability = answered d, settled = (if settle_ok d then settles plan else None)\<rparr>)"

text \<open>The part of \<open>apply_relay_harvest\<close> that the schedule reads.\<close>

definition apply_settled :: "harvest \<Rightarrow> 's node \<Rightarrow> 's node" where
  "apply_settled h n = (case settled h of None \<Rightarrow> n | Some e \<Rightarrow> n\<lparr>prev_epoch_drained := Some e\<rparr>)"

section \<open>What holds of a round\<close>

lemma drain_all_Nil [simp]: "drain_all settling answer [] = drain_start settling"
  by (simp add: drain_all_def)

lemma drain_all_snoc [simp]:
  "drain_all settling answer (js @ [j]) = drain_job settling answer (drain_all settling answer js) (length js, j)"
  by (simp add: drain_all_def enumerate_append_eq)

text \<open>The jobs asked among the first ones: those whose relay was not given up on.\<close>

definition asked :: "nat option \<Rightarrow> (nat \<Rightarrow> bytes list option) \<Rightarrow> job list \<Rightarrow> nat \<Rightarrow> bool" where
  "asked settling answer js i \<longleftrightarrow>
     (let (oks, fails) = tally_of (addr (js ! i)) (drain_all settling answer (take i js)) in \<not> (oks = 0 \<and> DEAD_AFTER \<le> fails))"

lemma asked_snoc [simp]: "i < length js \<Longrightarrow> asked settling answer (js @ [j]) i = asked settling answer js i"
  by (simp add: asked_def nth_append)

lemma asked_last:
  "asked settling answer (js @ [j]) (length js) \<longleftrightarrow>
     \<not> (fst (tally_of (addr j) (drain_all settling answer js)) = 0
        \<and> DEAD_AFTER \<le> snd (tally_of (addr j) (drain_all settling answer js)))"
  by (simp add: asked_def split: prod.splits)

definition got :: "nat option \<Rightarrow> (nat \<Rightarrow> bytes list option) \<Rightarrow> job list \<Rightarrow> nat \<Rightarrow> bool" where
  "got settling answer js i \<longleftrightarrow> asked settling answer js i \<and> answer i \<noteq> None"

lemma got_snoc [simp]: "i < length js \<Longrightarrow> got settling answer (js @ [j]) i = got settling answer js i"
  by (simp add: got_def)

text \<open>The last job, by what becomes of it.\<close>

lemma drain_job_cases:
  assumes "d = drain_all settling answer js" and "d' = drain_all settling answer (js @ [j])"
  obtains (skipped) "\<not> asked settling answer (js @ [j]) (length js)" "blobs d' = blobs d" "answered d' = answered d"
      "settle_ok d' = (settle_ok d \<and> job_epoch j \<noteq> settling)"
      "\<And>a. tally_of a d' = tally_of a d"
    | (taken) bs where "asked settling answer (js @ [j]) (length js)" "answer (length js) = Some bs" "blobs d' = blobs d @ bs"
      "answered d' = note_answered (addr j) True (answered d)" "settle_ok d' = settle_ok d"
      "\<And>a. tally_of a d' = (if a = addr j then (fst (tally_of a d) + 1, snd (tally_of a d)) else tally_of a d)"
    | (failed) "asked settling answer (js @ [j]) (length js)" "answer (length js) = None" "blobs d' = blobs d"
      "answered d' = note_answered (addr j) False (answered d)" "settle_ok d' = (settle_ok d \<and> job_epoch j \<noteq> settling)"
      "\<And>a. tally_of a d' = (if a = addr j then (fst (tally_of a d), snd (tally_of a d) + 1) else tally_of a d)"
proof -
  obtain oks fails where t: "tally_of (addr j) d = (oks, fails)" by (rule prod.exhaust)
  have d': "d' = drain_job settling answer d (length js, j)" using assms by simp
  note defs = d' drain_job_def Let_def t
  have asked: "asked settling answer (js @ [j]) (length js) \<longleftrightarrow> \<not> (oks = 0 \<and> DEAD_AFTER \<le> fails)"
    using t assms(1) by (simp add: asked_last)
  have upd: "tally_of a (d\<lparr>tally := AList.update (addr j) x xs\<rparr>) = (if a = addr j then x else tally_of a (d\<lparr>tally := xs\<rparr>))" for a x xs
    by (simp add: tally_of_def update_conv')
  show thesis
  proof (cases "asked settling answer (js @ [j]) (length js)")
    case False
    then show thesis
      using asked t by (intro skipped) (auto simp: defs tally_of_def update_conv')
  next
    case True
    then show thesis
    proof (cases "answer (length js)")
      case None
      with True show thesis using asked t by (intro failed) (auto simp: defs tally_of_def update_conv')
    next
      case (Some bs)
      with True show thesis using asked t by (intro taken) (auto simp: defs tally_of_def update_conv')
    qed
  qed
qed

lemma settle_ok_iff:
  "settle_ok (drain_all settling answer js) \<longleftrightarrow>
     settling \<noteq> None \<and> (\<forall>i < length js. job_epoch (js ! i) = settling \<longrightarrow> got settling answer js i)"
proof (induction js rule: rev_induct)
  case (snoc j js)
  show ?case
    by (rule drain_job_cases [OF refl refl, of settling answer js j])
      (auto simp: snoc less_Suc_eq nth_append got_def simp del: drain_all_snoc)
qed (simp add: drain_start_def)

lemma blobs_eq:
  "blobs (drain_all settling answer js)
     = concat (map (\<lambda>i. the (answer i)) (filter (got settling answer js) [0..<length js]))"
proof (induction js rule: rev_induct)
  case (snoc j js)
  have same: "filter (got settling answer (js @ [j])) [0..<length js] = filter (got settling answer js) [0..<length js]"
    by (rule filter_cong) simp_all
  show ?case
    by (rule drain_job_cases [OF refl refl, of settling answer js j])
      (auto simp: snoc same got_def [of _ _ "js @ [j]" "length js"] simp del: drain_all_snoc)
qed (simp add: drain_start_def)

lemma tally_eq:
  "tally_of a (drain_all settling answer js) =
     (length (filter (\<lambda>i. addr (js ! i) = a \<and> got settling answer js i) [0..<length js]),
      length (filter (\<lambda>i. addr (js ! i) = a \<and> asked settling answer js i \<and> answer i = None) [0..<length js]))"
proof (induction js rule: rev_induct)
  case (snoc j js)
  have same: "filter (\<lambda>i. addr ((js @ [j]) ! i) = a \<and> got settling answer (js @ [j]) i) [0..<length js]
      = filter (\<lambda>i. addr (js ! i) = a \<and> got settling answer js i) [0..<length js]"
    "filter (\<lambda>i. addr ((js @ [j]) ! i) = a \<and> asked settling answer (js @ [j]) i \<and> answer i = None) [0..<length js]
      = filter (\<lambda>i. addr (js ! i) = a \<and> asked settling answer js i \<and> answer i = None) [0..<length js]"
    by (rule filter_cong; auto simp: nth_append)+
  show ?case
    by (rule drain_job_cases [OF refl refl, of settling answer js j])
      (use snoc in \<open>auto simp: same got_def [of _ _ "js @ [j]" "length js"] simp del: drain_all_snoc\<close>)
qed (simp add: drain_start_def tally_of_def)

lemma map_of_note_answered:
  "map_of (note_answered a ok xs) s =
     (if a = Some s then Some ((case map_of xs s of None \<Rightarrow> False | Some seen \<Rightarrow> seen) \<or> ok) else map_of xs s)"
  by (simp add: note_answered_def update_conv' split: option.splits)

lemma answered_eq:
  "map_of (answered (drain_all settling answer js)) s =
     (if \<exists>i < length js. addr (js ! i) = Some s \<and> asked settling answer js i
      then Some (\<exists>i < length js. addr (js ! i) = Some s \<and> got settling answer js i) else None)"
proof (induction js rule: rev_induct)
  case (snoc j js)
  have ex: "(\<exists>i < length (js @ [j]). addr ((js @ [j]) ! i) = Some s \<and> P (js @ [j]) i)
      \<longleftrightarrow> (\<exists>i < length js. addr (js ! i) = Some s \<and> P js i) \<or> addr j = Some s \<and> P (js @ [j]) (length js)"
    if "\<And>i. i < length js \<Longrightarrow> P (js @ [j]) i = P js i" for P
    using that by (auto simp: less_Suc_eq nth_append)
  note exs = ex [of "asked settling answer", OF asked_snoc] ex [of "got settling answer", OF got_snoc]
  define A where "A = (\<exists>i < length js. addr (js ! i) = Some s \<and> asked settling answer js i)"
  define G where "G = (\<exists>i < length js. addr (js ! i) = Some s \<and> got settling answer js i)"
  have "G \<Longrightarrow> A" unfolding A_def G_def got_def by blast
  moreover have "map_of (answered (drain_all settling answer js)) s = (if A then Some G else None)"
    using snoc unfolding A_def G_def .
  ultimately have "map_of (answered (drain_all settling answer (js @ [j]))) s =
      (if A \<or> addr j = Some s \<and> asked settling answer (js @ [j]) (length js)
       then Some (G \<or> addr j = Some s \<and> got settling answer (js @ [j]) (length js)) else None)"
    by (cases A; cases G; cases rule: drain_job_cases [OF refl refl, of settling answer js j])
      (simp_all add: map_of_note_answered got_def [of _ _ "js @ [j]" "length js"] del: drain_all_snoc)
  then show ?case unfolding A_def G_def by (simp only: exs)
qed (simp add: drain_start_def)

lemma dead_relay_bounded:
  "0 < fst (tally_of a (drain_all settling answer js)) \<or> snd (tally_of a (drain_all settling answer js)) \<le> DEAD_AFTER"
proof (induction js rule: rev_induct)
  case (snoc j js)
  show ?case
    by (rule drain_job_cases [OF refl refl, of settling answer js j])
      (use snoc asked_last [of settling answer js j] in \<open>auto simp del: drain_all_snoc\<close>)
qed (simp add: drain_start_def tally_of_def)

lemma answering_relay_asked:
  assumes "\<And>k. k < length js \<Longrightarrow> addr (js ! k) = a \<Longrightarrow> answer k \<noteq> None" and "i < length js" and "addr (js ! i) = a"
  shows "got settling answer js i"
proof -
  have "snd (tally_of a (drain_all settling answer (take i js))) = 0"
    using assms(1,2) by (auto simp: tally_eq)
  then show ?thesis
    using assms by (auto simp: got_def asked_def DEAD_AFTER_def split: prod.splits)
qed

text \<open>
  C20. One relay's faults do not cost another's mail, nor the round its time. A relay whose jobs all answer
  is drained completely whatever the others do, in any order of the jobs; a relay that answers nothing is
  asked at most twice in a round; and the reachability reported is exact: a relay asked at all is reported,
  as reachable just when one of its jobs was answered.
\<close>

theorem faulty_relay_isolated:
  "((\<forall>k < length (jobs plan). addr (jobs plan ! k) = a \<longrightarrow> answer k \<noteq> None) \<longrightarrow>
      (\<forall>i < length (jobs plan). addr (jobs plan ! i) = a \<longrightarrow> set (the (answer i)) \<subseteq> set (h_blobs (drain_relay_mailboxes answer plan))))
   \<and> (0 < length (filter (\<lambda>i. addr (jobs plan ! i) = a \<and> got (settles plan) answer (jobs plan) i) [0..<length (jobs plan)])
      \<or> length (filter (\<lambda>i. addr (jobs plan ! i) = a \<and> asked (settles plan) answer (jobs plan) i) [0..<length (jobs plan)]) \<le> 2)
   \<and> map_of (reachability (drain_relay_mailboxes answer plan)) s =
      (if \<exists>i < length (jobs plan). addr (jobs plan ! i) = Some s \<and> asked (settles plan) answer (jobs plan) i
       then Some (\<exists>i < length (jobs plan). addr (jobs plan ! i) = Some s \<and> got (settles plan) answer (jobs plan) i) else None)"
proof (intro conjI impI allI)
  fix i
  assume "\<forall>k < length (jobs plan). addr (jobs plan ! k) = a \<longrightarrow> answer k \<noteq> None" "i < length (jobs plan)" "addr (jobs plan ! i) = a"
  then have "got (settles plan) answer (jobs plan) i" by (intro answering_relay_asked [where a = a]) auto
  with \<open>i < length (jobs plan)\<close> show "set (the (answer i)) \<subseteq> set (h_blobs (drain_relay_mailboxes answer plan))"
    by (auto simp: drain_relay_mailboxes_def blobs_eq Let_def)
next
  let ?js = "jobs plan" let ?gots = "filter (\<lambda>i. addr (?js ! i) = a \<and> got (settles plan) answer ?js i) [0..<length ?js]"
  let ?fails = "filter (\<lambda>i. addr (?js ! i) = a \<and> asked (settles plan) answer ?js i \<and> answer i = None) [0..<length ?js]"
  have "0 < length ?gots \<or> length ?fails \<le> 2"
    using dead_relay_bounded [of a "settles plan" answer ?js] by (simp add: tally_eq DEAD_AFTER_def)
  moreover have "filter (\<lambda>i. addr (?js ! i) = a \<and> asked (settles plan) answer ?js i) [0..<length ?js] = ?fails"
    if "?gots = []"
    using that by (intro filter_cong) (auto simp: filter_empty_conv got_def)
  ultimately show "0 < length ?gots \<or> length (filter (\<lambda>i. addr (?js ! i) = a \<and> asked (settles plan) answer ?js i) [0..<length ?js]) \<le> 2"
    by fastforce
qed (simp add: drain_relay_mailboxes_def answered_eq Let_def)

theorem faulty_relay_isolated_witness:
  "[1] \<in> set (h_blobs (drain_relay_mailboxes (\<lambda>i. if i = 2 then Some [[1]] else None)
     \<lparr>jobs = [\<lparr>addr = None, job_epoch = None, job_handles = []\<rparr>, \<lparr>addr = None, job_epoch = None, job_handles = []\<rparr>,
              \<lparr>addr = Some ''r'', job_epoch = None, job_handles = []\<rparr>], settles = None\<rparr>))"
  using faulty_relay_isolated [of
      "\<lparr>jobs = [\<lparr>addr = None, job_epoch = None, job_handles = []\<rparr>, \<lparr>addr = None, job_epoch = None, job_handles = []\<rparr>,
              \<lparr>addr = Some ''r'', job_epoch = None, job_handles = []\<rparr>], settles = None\<rparr>"
      "Some ''r''" "\<lambda>i. if i = 2 then Some [[1]] else None" "''r''", THEN conjunct1]
  by (auto simp: less_Suc_eq numeral_2_eq_2)

lemma fragment_jobs_mem:
  "a \<in> set relays \<Longrightarrow> f \<in> set fs \<Longrightarrow> \<lparr>addr = a, job_epoch = frag_epoch f, job_handles = handles f\<rparr> \<in> set (fragment_jobs relays fs)"
  by (auto simp: fragment_jobs_def)

lemma round_retires:
  "relay_drain_plan_at C shuffle primary onions now n = Some plan \<Longrightarrow>
   apply_settled (drain_relay_mailboxes answer plan) n
     = retire (now, settle_ok (drain_all (settles plan) answer (jobs plan))) n"
  by (auto simp: relay_drain_plan_at_def apply_settled_def drain_relay_mailboxes_def retire_def Let_def
      split: if_splits option.splits bool.splits)

text \<open>Before the calendar leaves it out, a day drops out of the polled ones by retirement only.\<close>

lemma dropped_by_retirement:
  assumes "e \<in> set (polled_epochs now n)" and "e \<notin> set (polled_epochs later n')" and "now \<le> later" and "later < (e + 2) * EPOCH_SECS"
  shows "prev_epoch_drained n' = Some e"
proof -
  have t: "now div EPOCH_SECS * EPOCH_SECS + now mod EPOCH_SECS = now" "later div EPOCH_SECS * EPOCH_SECS + later mod EPOCH_SECS = later"
    by simp_all
  have mono: "now div EPOCH_SECS \<le> later div EPOCH_SECS" using assms(3) by (rule div_le_mono)
  have "later div EPOCH_SECS < e + 2" using assms(4) by (simp add: less_mult_imp_div_less)
  then consider "later div EPOCH_SECS = e + 1" | "later div EPOCH_SECS = e" | "later div EPOCH_SECS < e" by linarith
  then show ?thesis
  proof cases
    case 3
    with mono assms(1) have day: "e = now div EPOCH_SECS + 1" "later div EPOCH_SECS = now div EPOCH_SECS"
      "EPOCH_SECS - SKEW_MARGIN_SECS \<le> now mod EPOCH_SECS" by (auto simp: set_polled_epochs)
    have "now div EPOCH_SECS * EPOCH_SECS + later mod EPOCH_SECS = later" using t(2) day(2) by simp
    with t(1) assms(3) have "now mod EPOCH_SECS \<le> later mod EPOCH_SECS" by linarith
    with day assms(2) show ?thesis by (simp add: set_polled_epochs)
  qed (use assms(2) in \<open>simp_all add: set_polled_epochs\<close>)
qed

text \<open>
  C19. A day is retired only when all of it was asked for and answered. Until the day after it has ended, from when the
  calendar leaves it out, a day that was polled and is no longer was retired by a round, of which every one of
  that day's handles, real or dummy, was in a job that was answered, on every relay it polls, with what
  was taken in the round's harvest; no job of that day was skipped or failed, and the round began past the margin
  after that day's end.
\<close>

theorem retired_day_was_taken:
  assumes "relay_drain_plan_at C shuffle primary onions now n = Some plan" and "\<And>xs. set (shuffle xs) = set xs"
    and "prev_epoch_drained n \<noteq> Some e" and "e \<in> set (polled_epochs now n)"
    and "e \<notin> set (polled_epochs later (apply_settled (drain_relay_mailboxes answer plan) n))" and "now \<le> later" and "later < (e + 2) * EPOCH_SECS"
    and "a \<in> set (drain_relays primary onions)" and "h \<in> snd ` set (all_handles C e n)"
  shows "(e + 1) * EPOCH_SECS + SKEW_MARGIN_SECS \<le> now
       \<and> (\<exists>i < length (jobs plan). addr (jobs plan ! i) = a \<and> h \<in> set (job_handles (jobs plan ! i))
            \<and> (\<exists>bs. answer i = Some bs \<and> set bs \<subseteq> set (h_blobs (drain_relay_mailboxes answer plan))))"
proof
  have drained: "prev_epoch_drained (apply_settled (drain_relay_mailboxes answer plan) n) = Some e"
    by (rule dropped_by_retirement [OF assms(4-7)])
  have plan: "settles plan = settling_epoch now n"
    "jobs plan = shuffle (fragment_jobs (drain_relays primary onions) (poll_fragments_at C now n))"
    using assms(1) by (auto simp: relay_drain_plan_at_def Let_def split: if_splits)
  have settle: "settles plan = Some e" "settle_ok (drain_all (settles plan) answer (jobs plan))"
    using drained assms(3) by (auto simp: apply_settled_def drain_relay_mailboxes_def Let_def split: if_splits option.splits)
  show "(e + 1) * EPOCH_SECS + SKEW_MARGIN_SECS \<le> now" using settling_epoch_late settle(1) plan(1) by simp
  obtain label where label: "(label, h) \<in> set (all_handles C e n)" using assms(9) by auto
  let ?f = "fragment_at C n e (bucket_of C (poll_seed n) e label)"
  have "?f \<in> set (poll_fragments_at C now n)" "h \<in> set (handles ?f)" "frag_epoch ?f = Some e"
    using polled_handle [OF label] assms(4) by (auto simp: poll_fragments_at_def fragment_at_def)
  then have "\<lparr>addr = a, job_epoch = Some e, job_handles = handles ?f\<rparr> \<in> set (jobs plan)"
    using fragment_jobs_mem [OF assms(8)] assms(2) plan(2) by metis
  then obtain i where i: "i < length (jobs plan)" "jobs plan ! i = \<lparr>addr = a, job_epoch = Some e, job_handles = handles ?f\<rparr>"
    by (auto simp: in_set_conv_nth)
  then have "got (settles plan) answer (jobs plan) i" using settle by (simp add: settle_ok_iff)
  then have "\<exists>bs. answer i = Some bs \<and> set bs \<subseteq> set (h_blobs (drain_relay_mailboxes answer plan))"
    using i(1) by (force simp: drain_relay_mailboxes_def blobs_eq Let_def got_def)
  with i \<open>h \<in> set (handles ?f)\<close>
  show "\<exists>i < length (jobs plan). addr (jobs plan ! i) = a \<and> h \<in> set (job_handles (jobs plan ! i))
            \<and> (\<exists>bs. answer i = Some bs \<and> set bs \<subseteq> set (h_blobs (drain_relay_mailboxes answer plan)))"
    by (intro exI [of _ i]) auto
qed

definition sample_plan :: drain_plan where
  "sample_plan = the (relay_drain_plan_at plain_crypto id None [''r''] 200000 one_chat)"

theorem retired_day_was_taken_witness:
  "\<exists>i < length (jobs sample_plan). addr (jobs sample_plan ! i) = Some ''r''
     \<and> v2_handle plain_crypto (cover_secret plain_crypto []) ''a'' 1 \<in> set (job_handles (jobs sample_plan ! i))"
proof -
  have plan: "relay_drain_plan_at plain_crypto id None [''r''] 200000 one_chat = Some sample_plan"
    by (simp add: sample_plan_def relay_drain_plan_at_def drain_relays_def Let_def)
  have "settles sample_plan = Some 1"
    by (simp add: sample_plan_def relay_drain_plan_at_def drain_relays_def Let_def settling_epoch_def polled_epochs_def EPOCH_SECS_def
        SKEW_MARGIN_SECS_def one_chat_def)
  then have "prev_epoch_drained (apply_settled (drain_relay_mailboxes (\<lambda>i. Some []) sample_plan) one_chat) = Some 1"
    using answering_relay_asked [of "jobs sample_plan" _ "\<lambda>i. Some []"]
    by (simp add: apply_settled_def drain_relay_mailboxes_def settle_ok_iff Let_def)
  moreover have "v2_handle plain_crypto (cover_secret plain_crypto []) ''a'' 1 \<in> snd ` set (all_handles plain_crypto 1 one_chat)"
    by (force simp: all_handles_def real_handles_def Let_def one_chat_def)
  moreover have "1 \<in> set (polled_epochs 200000 one_chat)" "prev_epoch_drained one_chat \<noteq> Some 1"
    by (simp_all add: polled_epochs_def EPOCH_SECS_def one_chat_def)
  moreover from calculation(1) have "1 \<notin> set (polled_epochs 200000 (apply_settled (drain_relay_mailboxes (\<lambda>i. Some []) sample_plan) one_chat))"
    by (simp add: set_polled_epochs EPOCH_SECS_def SKEW_MARGIN_SECS_def)
  ultimately show ?thesis
    using retired_day_was_taken [OF plan, of 1 200000 "\<lambda>i. Some []" "Some ''r''"] by (simp add: drain_relays_def EPOCH_SECS_def)
qed

end
