(* ===== verification/ClientDrain.thy ===== *)
theory ClientDrain
  imports RelayClient DrainRound
begin

text \<open>
  The drain round of \<open>DrainRound\<close> with real relays behind it: a job's answer is what \<open>take_many\<close> returns. A reply
  carries a bounded number of bytes, so an answered job need not have emptied its mailboxes.
\<close>

text \<open>Ask the jobs of a plan in order, one exchange of the script after another.\<close>

fun ask_jobs :: "network \<Rightarrow> (string option \<Rightarrow> relay_client) \<Rightarrow> job list \<Rightarrow> world \<Rightarrow> bytes list option list \<times> world" where
  "ask_jobs N cl [] w = ([], w)"
| "ask_jobs N cl (j # js) w =
     (let (a, w) = client_take_many N (cl (addr j)) (job_handles j) w;
          (as, w) = ask_jobs N cl js w
      in (a # as, w))"

definition big_blob :: "string \<Rightarrow> stored" where
  "big_blob i = \<lparr>msg_id = i, delete_token = [], posted = 0, expiry = secs 100, expiry_unix = 100,
                blob_bytes = replicate (20 * 1024 * 1024) 0, cost = 20 * 1024 * 1024 + 600\<rparr>"

definition big_world :: world where
  "big_world =
     \<lparr>stores = (\<lambda>_. \<lparr>mailboxes = [(''a'', [big_blob ''1'']), (''b'', [big_blob ''2''])],
                    total_bytes = 2 * (20 * 1024 * 1024 + 600), dirty = False, last_flush = None\<rparr>),
      handed = (\<lambda>_. []), mine = (\<lambda>_. []),
      script = [\<lparr>others = [], fate = Answered, ex_now = 1, ex_unix = 1, ex_tokens = ([], [])\<rparr>]\<rparr>"

definition one_job :: "nat \<Rightarrow> drain_plan" where
  "one_job day = \<lparr>jobs = [\<lparr>addr = Some ''r'', job_epoch = Some day, job_handles = [''a'', ''b'']\<rparr>], settles = Some day\<rparr>"

text \<open>
  Two 20 MB attachments wait under yesterday's handles of one fragment. The job is answered with the first;
  the second stays, live, on the relay. The round counts yesterday as emptied and retires it, so the second
  is not asked for again.
\<close>

lemma retired_day_may_hold_mail:
  "settled (drain_relay_mailboxes (\<lambda>i. fst (ask_jobs sample_network (\<lambda>_. Tcp ''r'') (jobs (one_job day)) big_world) ! i) (one_job day)) = Some day
   \<and> filter (is_live 1) (queued (stores (snd (ask_jobs sample_network (\<lambda>_. Tcp ''r'') (jobs (one_job day)) big_world)) ''r'') ''b'') = [big_blob ''2'']"
proof -
  have 1: "snd (ask_jobs sample_network (\<lambda>_. Tcp ''r'') (jobs (one_job day)) big_world) =
      our_op sample_network ''r'' (Serve 1 1 ([], []) (TakeMany [''a'', ''b''])) (big_world\<lparr>script := []\<rparr>)"
    by (simp add: one_job_def client_take_many_def big_world_def round_trip_def serve_request_def relay_reply_def
        relay_knows_def sample_network_def MAX_TAKE_MANY_def process_take_many_def default_response_def Let_def split: prod.splits)
  have drain: "drain_many [''a'', ''b''] default_budget 1 (stores big_world ''r'') =
      ([big_blob ''1''], \<lparr>room = 12 * 1024 * 1024, is_first = False\<rparr>,
       \<lparr>mailboxes = [(''b'', [big_blob ''2''])], total_bytes = 20 * 1024 * 1024 + 600, dirty = True, last_flush = None\<rparr>)"
    by (simp add: big_world_def drain_handle_bounded_def big_blob_def secs_def admit_blob_def default_budget_def TAKE_BUDGET_BYTES_def)
  have "queued (stores (snd (ask_jobs sample_network (\<lambda>_. Tcp ''r'') (jobs (one_job day)) big_world)) ''r'') ''b'' = [big_blob ''2'']"
    unfolding 1 using drain
    by (simp add: our_op_def net_op_def relay_knows_def sample_network_def process_take_many_def MAX_TAKE_MANY_def queued_def Let_def)
  moreover have "is_live 1 (big_blob ''2'')" by (simp add: is_live_def big_blob_def secs_def)
  moreover have "fst (ask_jobs sample_network (\<lambda>_. Tcp ''r'') (jobs (one_job day)) big_world) ! 0 = Some [blob_bytes (big_blob ''1'')]"
    using drain decode_encoded_blobs [OF sample_base64, of "[big_blob ''1'']"]
    by (simp add: one_job_def client_take_many_def big_world_def round_trip_def serve_request_def relay_reply_def
        relay_knows_def sample_network_def MAX_TAKE_MANY_def process_take_many_def default_response_def Let_def)
  ultimately show ?thesis
    by (simp add: drain_relay_mailboxes_def settle_ok_iff one_job_def Let_def got_def asked_def tally_of_def drain_start_def DEAD_AFTER_def)
qed

end
