(* ===== verification/Lock.thy ===== *)
theory Lock
  imports RustStd
begin

text \<open>
  The passphrase lock of the store key (\<open>core/src/storage/lock.rs\<close>): the lock file with its normal and its
  duress slot, the file of failed attempts, and every operation on them. Argon2, ChaCha20-Poly1305 with
  its nonce, base64 and JSON are arguments (\<open>lock_env\<close>); random bytes are inputs; the two files of the
  directory are the state, the Unix clock an input. Whether a write reaches the disk is an input as well.
\<close>

section \<open>Files and primitives\<close>

record slot =
  salt :: string
  wrapped :: string

record lock_v2 =
  v :: byte
  m_cost_kib :: u32
  t_cost :: u32
  p_cost :: u32
  normal :: slot
  duress :: slot
  armed :: string

record lock_v1 =
  old_salt :: string
  old_m_cost_kib :: u32
  old_t_cost :: u32
  old_p_cost :: u32
  old_wrapped :: string

record attempts =
  failures :: u32
  last_unix :: u64

text \<open>
  What parsing makes of a lock file: of version 1 or 2 (the \<open>armed\<close> field may be missing), of those
  versions but with fields that do not fit, or of another version.
\<close>

datatype lock_doc = Doc1 lock_v1 | Doc2 lock_v2 | Doc_bad | Doc_other

record lock_env =
  argon2id :: "bytes \<Rightarrow> bytes \<Rightarrow> u32 \<Rightarrow> u32 \<Rightarrow> u32 \<Rightarrow> bytes option"
  aead_seal :: "bytes \<Rightarrow> bytes \<Rightarrow> bytes \<Rightarrow> bytes option"
  aead_open :: "bytes \<Rightarrow> bytes \<Rightarrow> bytes option"
  b64_enc :: "bytes \<Rightarrow> string"
  b64_dec :: "string \<Rightarrow> bytes option"
  lock_json :: "lock_v2 \<Rightarrow> bytes"
  lock_parse :: "bytes \<Rightarrow> lock_doc option"
  attempts_json :: "attempts \<Rightarrow> bytes"
  attempts_parse :: "bytes \<Rightarrow> attempts option"

record lock_dir =
  lock_file :: "bytes option"
  attempts_file :: "bytes option"

datatype lock_error =
  Empty_secret | Not_locked | Unreadable | Newer_version | Wait u64 | Wrong_passphrase | Same_secret
  | Cannot_arm | Crypto | Disk

datatype opened = Normal bytes | Duress

text \<open>The random bytes a decoy and a wrapped slot draw, the seal's nonce included.\<close>

record decoy_random =
  d_salt :: bytes
  d_kek :: bytes
  d_filler :: bytes
  d_nonce :: bytes

record wrap_random =
  w_salt :: bytes
  w_nonce :: bytes

section \<open>Slots\<close>

definition M_COST_KIB :: u32 where "M_COST_KIB = 64 * 1024"
definition T_COST :: u32 where "T_COST = 3"
definition P_COST :: u32 where "P_COST = 1"
definition FORMAT_V :: byte where "FORMAT_V = 2"
definition MAX_M_COST_KIB :: u32 where "MAX_M_COST_KIB = 1024 * 1024"
definition MAX_T_COST :: u32 where "MAX_T_COST = 16"
definition MAX_P_COST :: u32 where "MAX_P_COST = 8"

definition derive :: "lock_env \<Rightarrow> string \<Rightarrow> bytes \<Rightarrow> u32 \<Rightarrow> u32 \<Rightarrow> u32 \<Rightarrow> bytes option" where
  "derive E passphrase s m t p =
     (if m \<le> MAX_M_COST_KIB \<and> t \<le> MAX_T_COST \<and> p \<le> MAX_P_COST then argon2id E (text_bytes passphrase) s m t p
      else None)"

definition decoy_slot :: "lock_env \<Rightarrow> decoy_random \<Rightarrow> slot option" where
  "decoy_slot E r =
     map_option (\<lambda>w. \<lparr>salt = b64_enc E (d_salt r), wrapped = b64_enc E w\<rparr>) (aead_seal E (d_kek r) (d_nonce r) (d_filler r))"

definition seal_armed :: "lock_env \<Rightarrow> bytes \<Rightarrow> bytes \<Rightarrow> bool \<Rightarrow> string option" where
  "seal_armed E nonce key on = map_option (b64_enc E) (aead_seal E key nonce [if on then 1 else 0])"

definition wrap_slot :: "lock_env \<Rightarrow> wrap_random \<Rightarrow> bytes \<Rightarrow> string \<Rightarrow> slot option" where
  "wrap_slot E r key secret =
     Option.bind (derive E secret (w_salt r) M_COST_KIB T_COST P_COST) (\<lambda>kek.
     map_option (\<lambda>w. \<lparr>salt = b64_enc E (w_salt r), wrapped = b64_enc E w\<rparr>) (aead_seal E kek (w_nonce r) key))"

definition try_slot :: "lock_env \<Rightarrow> slot \<Rightarrow> string \<Rightarrow> u32 \<Rightarrow> u32 \<Rightarrow> u32 \<Rightarrow> bytes option" where
  "try_slot E s secret m t p =
     Option.bind (b64_dec E (salt s)) (\<lambda>sa.
     Option.bind (derive E secret sa m t p) (\<lambda>kek.
     Option.bind (b64_dec E (wrapped s)) (\<lambda>w.
     Option.bind (aead_open E kek w) (\<lambda>key. if length key = 32 then Some key else None))))"

section \<open>The files\<close>

definition read_lock :: "lock_env \<Rightarrow> decoy_random \<Rightarrow> lock_dir \<Rightarrow> lock_error + lock_v2" where
  "read_lock E r dir =
     (case lock_file dir of
        None \<Rightarrow> Inl Not_locked
      | Some raw \<Rightarrow>
          (case lock_parse E raw of
             None \<Rightarrow> Inl Unreadable
           | Some (Doc1 l) \<Rightarrow>
               (case decoy_slot E r of
                  None \<Rightarrow> Inl Crypto
                | Some d \<Rightarrow> Inr \<lparr>v = 1, m_cost_kib = old_m_cost_kib l, t_cost = old_t_cost l, p_cost = old_p_cost l,
                                normal = \<lparr>salt = old_salt l, wrapped = old_wrapped l\<rparr>, duress = d, armed = []\<rparr>)
           | Some (Doc2 l) \<Rightarrow> Inr l
           | Some Doc_bad \<Rightarrow> Inl Unreadable
           | Some Doc_other \<Rightarrow> Inl Newer_version))"

text \<open>An atomic replacement: it happens whole or not at all.\<close>

definition write_bytes :: "bool \<Rightarrow> bytes \<Rightarrow> lock_dir \<Rightarrow> bool \<times> lock_dir" where
  "write_bytes disk b dir = (if disk then (True, dir\<lparr>lock_file := Some b\<rparr>) else (False, dir))"

definition read_attempts :: "lock_env \<Rightarrow> lock_dir \<Rightarrow> attempts" where
  "read_attempts E dir =
     (case Option.bind (attempts_file dir) (attempts_parse E) of None \<Rightarrow> \<lparr>failures = 0, last_unix = 0\<rparr> | Some a \<Rightarrow> a)"

text \<open>
  \<open>note_failure\<close>. The write of the small attempts file is taken as all or nothing; a crash in the middle of it could
  leave a file that does not parse, which \<open>read_attempts\<close> reads as no attempts.
\<close>

definition note_failure :: "lock_env \<Rightarrow> bool \<Rightarrow> u64 \<Rightarrow> lock_dir \<Rightarrow> lock_dir" where
  "note_failure E disk now dir =
     (let f = failures (read_attempts E dir);
          a = \<lparr>failures = (if f = - 1 then f else f + 1), last_unix = now\<rparr>
      in if disk then dir\<lparr>attempts_file := Some (attempts_json E a)\<rparr> else dir)"

definition wait_after :: "u32 \<Rightarrow> u64" where
  "wait_after n =
     (if n \<le> 4 then 0 else if n \<le> 9 then 30 else if n \<le> 14 then 5 * 60 else if n \<le> 19 then 30 * 60 else 60 * 60)"

definition wait_secs :: "lock_env \<Rightarrow> u64 \<Rightarrow> lock_dir \<Rightarrow> u64" where
  "wait_secs E now dir =
     (let a = read_attempts E dir; w = wait_after (failures a)
      in if w = 0 then 0
         else (let since = (if now < last_unix a then 0 else sat_sub64 now (last_unix a)) in sat_sub64 w since))"

text \<open>Removing the file of attempts; that it fails is ignored.\<close>

definition forget_failures :: "bool \<Rightarrow> lock_dir \<Rightarrow> lock_dir" where
  "forget_failures disk dir = (if disk then dir\<lparr>attempts_file := None\<rparr> else dir)"

section \<open>Operations\<close>

definition is_locked :: "lock_dir \<Rightarrow> bool" where
  "is_locked dir = (lock_file dir \<noteq> None)"

text \<open>\<open>disk\<close> here is whether the attempts file can be written and removed.\<close>

definition unlock :: "lock_env \<Rightarrow> decoy_random \<Rightarrow> bool \<Rightarrow> u64 \<Rightarrow> string \<Rightarrow> lock_dir \<Rightarrow> (lock_error + opened) \<times> lock_dir" where
  "unlock E r disk now secret dir =
     (let w = wait_secs E now dir
      in if 0 < w then (Inl (Wait w), dir)
         else (case read_lock E r dir of
                 Inl e \<Rightarrow> (Inl e, dir)
               | Inr l \<Rightarrow>
                   (let m = m_cost_kib l; t = t_cost l; p = p_cost l;
                        n = try_slot E (normal l) secret m t p; d = try_slot E (duress l) secret m t p
                    in case (n, d) of
                         (Some key, _) \<Rightarrow> (Inr (Normal key), forget_failures disk dir)
                       | (None, Some _) \<Rightarrow> (Inr Duress, forget_failures disk dir)
                       | (None, None) \<Rightarrow> (Inl Wrong_passphrase, note_failure E disk now dir))))"

definition unlock_normal :: "lock_env \<Rightarrow> decoy_random \<Rightarrow> bool \<Rightarrow> u64 \<Rightarrow> string \<Rightarrow> lock_dir \<Rightarrow> (lock_error + bytes) \<times> lock_dir" where
  "unlock_normal E r disk now secret dir =
     (case unlock E r disk now secret dir of
        (Inl e, dir) \<Rightarrow> (Inl e, dir)
      | (Inr (Normal key), dir) \<Rightarrow> (Inr key, dir)
      | (Inr Duress, dir) \<Rightarrow> (Inl Wrong_passphrase, dir))"

definition is_normal_secret :: "lock_env \<Rightarrow> decoy_random \<Rightarrow> bool \<Rightarrow> u64 \<Rightarrow> string \<Rightarrow> lock_dir \<Rightarrow> bool \<times> lock_dir" where
  "is_normal_secret E r disk now secret dir =
     (let (res, dir) = unlock_normal E r disk now secret dir in (case res of Inl _ \<Rightarrow> False | Inr _ \<Rightarrow> True, dir))"

text \<open>Whether the removal of the file succeeds is an input.\<close>

definition clear :: "lock_env \<Rightarrow> decoy_random \<Rightarrow> bool \<Rightarrow> bool \<Rightarrow> u64 \<Rightarrow> string \<Rightarrow> lock_dir \<Rightarrow> (lock_error + bytes) \<times> lock_dir" where
  "clear E r disk removes now secret dir =
     (case unlock_normal E r disk now secret dir of
        (Inl e, dir) \<Rightarrow> (Inl e, dir)
      | (Inr key, dir) \<Rightarrow> if removes then (Inr key, dir\<lparr>lock_file := None\<rparr>) else (Inl Disk, dir))"

definition destroy :: "bool \<Rightarrow> lock_dir \<Rightarrow> (lock_error + unit) \<times> lock_dir" where
  "destroy removes dir =
     (if lock_file dir = None then (Inr (), dir)
      else if removes then (Inr (), dir\<lparr>lock_file := None\<rparr>) else (Inl Disk, dir))"

definition set_passphrase ::
  "lock_env \<Rightarrow> wrap_random \<Rightarrow> decoy_random \<Rightarrow> bytes \<Rightarrow> bool \<Rightarrow> bytes \<Rightarrow> string \<Rightarrow> lock_dir \<Rightarrow> (lock_error + unit) \<times> lock_dir" where
  "set_passphrase E wr dr nonce disk key passphrase dir =
     (if passphrase = [] then (Inl Empty_secret, dir)
      else (case (wrap_slot E wr key passphrase, decoy_slot E dr, seal_armed E nonce key False) of
              (Some n, Some d, Some a) \<Rightarrow>
                (let (ok, dir) = write_bytes disk (lock_json E \<lparr>v = FORMAT_V, m_cost_kib = M_COST_KIB, t_cost = T_COST,
                        p_cost = P_COST, normal = n, duress = d, armed = a\<rparr>) dir
                 in (if ok then Inr () else Inl Disk, dir))
            | _ \<Rightarrow> (Inl Crypto, dir)))"

definition duress_armed :: "lock_env \<Rightarrow> decoy_random \<Rightarrow> bytes \<Rightarrow> lock_dir \<Rightarrow> bool" where
  "duress_armed E r key dir =
     (case read_lock E r dir of
        Inl _ \<Rightarrow> False
      | Inr l \<Rightarrow> Option.bind (b64_dec E (armed l)) (aead_open E key) = Some [1])"

text \<open>
  The random inputs of \<open>set_duress\<close>: the decoys a version 1 file is read with (now and in the self-check),
  the filler that is wrapped, its slot's salt and nonce, and the nonce of the armed flag. \<open>disk\<close> says of
  each of the writes whether it succeeds: the new lock, the restored one, and the attempts.
\<close>

record duress_random =
  read_r :: decoy_random
  check_r :: decoy_random
  filler :: bytes
  wrap_r :: wrap_random
  armed_nonce :: bytes

record disk =
  writes :: bool
  restores :: bool
  counts :: bool

definition self_check ::
  "lock_env \<Rightarrow> duress_random \<Rightarrow> disk \<Rightarrow> u64 \<Rightarrow> string \<Rightarrow> bytes option \<Rightarrow> lock_dir \<Rightarrow> (lock_error + unit) \<times> lock_dir" where
  "self_check E r disk now secret previous dir =
     (case unlock E (check_r r) (counts disk) now secret dir of
        (Inr Duress, dir) \<Rightarrow> (Inr (), dir)
      | (_, dir) \<Rightarrow>
          (case previous of
             None \<Rightarrow> (Inl Cannot_arm, dir)
           | Some b \<Rightarrow> (let (ok, dir) = write_bytes (restores disk) b dir in (if ok then Inl Cannot_arm else Inl Disk, dir))))"

definition set_duress ::
  "lock_env \<Rightarrow> duress_random \<Rightarrow> disk \<Rightarrow> u64 \<Rightarrow> string \<Rightarrow> string \<Rightarrow> lock_dir \<Rightarrow> (lock_error + unit) \<times> lock_dir" where
  "set_duress E r disk now passphrase secret dir =
     (if secret = [] then (Inl Empty_secret, dir)
      else (case read_lock E (read_r r) dir of
              Inl e \<Rightarrow> (Inl e, dir)
            | Inr l \<Rightarrow>
                (let m = m_cost_kib l; t = t_cost l; p = p_cost l
                 in case try_slot E (normal l) passphrase m t p of
                      None \<Rightarrow> (Inl Wrong_passphrase, dir)
                    | Some key \<Rightarrow>
                        if try_slot E (normal l) secret m t p \<noteq> None then (Inl Same_secret, dir)
                        else (case (wrap_slot E (wrap_r r) (filler r) secret, seal_armed E (armed_nonce r) key True) of
                                (Some d, Some a) \<Rightarrow>
                                  (let previous = lock_file dir;
                                       (ok, dir) = write_bytes (writes disk)
                                          (lock_json E (l\<lparr>duress := d, armed := a, v := FORMAT_V\<rparr>)) dir
                                   in if ok then self_check E r disk now secret previous dir else (Inl Disk, dir))
                              | _ \<Rightarrow> (Inl Crypto, dir)))))"

definition clear_duress ::
  "lock_env \<Rightarrow> decoy_random \<Rightarrow> decoy_random \<Rightarrow> bytes \<Rightarrow> bool \<Rightarrow> string \<Rightarrow> lock_dir \<Rightarrow> (lock_error + unit) \<times> lock_dir" where
  "clear_duress E r dr nonce disk passphrase dir =
     (case read_lock E r dir of
        Inl e \<Rightarrow> (Inl e, dir)
      | Inr l \<Rightarrow>
          (case try_slot E (normal l) passphrase (m_cost_kib l) (t_cost l) (p_cost l) of
             None \<Rightarrow> (Inl Wrong_passphrase, dir)
           | Some key \<Rightarrow>
               (case (decoy_slot E dr, seal_armed E nonce key False) of
                  (Some d, Some a) \<Rightarrow>
                    (let (ok, dir) = write_bytes disk (lock_json E (l\<lparr>duress := d, armed := a, v := FORMAT_V\<rparr>)) dir
                     in (if ok then Inr () else Inl Disk, dir))
                | _ \<Rightarrow> (Inl Crypto, dir))))"

end
