(* ===== verification/LockSafe.thy ===== *)
theory LockSafe
  imports Lock
begin

text \<open>
  What the lock promises: the passphrase gives back the key and nothing else does, arming the duress
  secret happens whole or not at all, the file's shape does not tell whether it is armed, and guessing at
  the screen is slow. The laws of the primitives are stated once, as \<open>env_laws\<close> and \<open>opens_only\<close>.
\<close>

section \<open>What the primitives do\<close>

text \<open>Decoding inverts encoding, parsing inverts printing, opening inverts sealing under the same key.\<close>

definition env_laws :: "lock_env \<Rightarrow> bool" where
  "env_laws E \<longleftrightarrow>
     (\<forall>b. b64_dec E (b64_enc E b) = Some b)
     \<and> (\<forall>l. v l = FORMAT_V \<longrightarrow> lock_parse E (lock_json E l) = Some (Doc2 l))
     \<and> (\<forall>a. attempts_parse E (attempts_json E a) = Some a)
     \<and> (\<forall>k n p c. aead_seal E k n p = Some c \<longrightarrow> aead_open E k c = Some p)"

text \<open>Authenticated encryption: what was sealed under one key does not open under another.\<close>

definition opens_only :: "lock_env \<Rightarrow> bool" where
  "opens_only E \<longleftrightarrow> (\<forall>k k' n p c q. aead_seal E k n p = Some c \<longrightarrow> aead_open E k' c = Some q \<longrightarrow> k' = k)"

lemma lawsD:
  assumes "env_laws E"
  shows "b64_dec E (b64_enc E b) = Some b" "v l = FORMAT_V \<Longrightarrow> lock_parse E (lock_json E l) = Some (Doc2 l)"
    "attempts_parse E (attempts_json E a) = Some a" "aead_seal E k n p = Some c \<Longrightarrow> aead_open E k c = Some p"
  using assms by (auto simp: env_laws_def)

lemma try_wrap:
  assumes "env_laws E" and "wrap_slot E r key s = Some sl" and "length key = 32"
  shows "try_slot E sl s M_COST_KIB T_COST P_COST = Some key"
  using assms lawsD [OF assms(1)] by (auto simp: wrap_slot_def try_slot_def bind_eq_Some_conv)

lemma try_wrap_other:
  assumes "env_laws E" and "opens_only E" and "wrap_slot E r key s = Some sl"
    and "derive E s' (w_salt r) m t p \<noteq> derive E s (w_salt r) M_COST_KIB T_COST P_COST"
  shows "try_slot E sl s' m t p = None"
proof -
  obtain kek w where w: "derive E s (w_salt r) M_COST_KIB T_COST P_COST = Some kek" "aead_seal E kek (w_nonce r) key = Some w"
    "sl = \<lparr>salt = b64_enc E (w_salt r), wrapped = b64_enc E w\<rparr>"
    using assms(3) by (auto simp: wrap_slot_def bind_eq_Some_conv)
  have "aead_open E kek' w = None" if "derive E s' (w_salt r) m t p = Some kek'" for kek'
    using that assms(2,4) w by (cases "aead_open E kek' w") (auto simp: opens_only_def)
  then show ?thesis
    using w lawsD [OF assms(1)] by (cases "derive E s' (w_salt r) m t p") (simp_all add: try_slot_def)
qed

lemma try_decoy:
  assumes "env_laws E" and "opens_only E" and "decoy_slot E r = Some sl" and "derive E s (d_salt r) m t p \<noteq> Some (d_kek r)"
  shows "try_slot E sl s m t p = None"
proof -
  obtain w where w: "aead_seal E (d_kek r) (d_nonce r) (d_filler r) = Some w"
    "sl = \<lparr>salt = b64_enc E (d_salt r), wrapped = b64_enc E w\<rparr>"
    using assms(3) by (auto simp: decoy_slot_def)
  have "aead_open E kek w = None" if "derive E s (d_salt r) m t p = Some kek" for kek
    using that assms(2,4) w by (cases "aead_open E kek w") (auto simp: opens_only_def)
  then show ?thesis
    using w lawsD [OF assms(1)] by (cases "derive E s (d_salt r) m t p") (simp_all add: try_slot_def)
qed

lemma read_written:
  "env_laws E \<Longrightarrow> lock_file dir = Some (lock_json E l) \<Longrightarrow> v l = FORMAT_V \<Longrightarrow> read_lock E r dir = Inr l"
  by (simp add: read_lock_def lawsD)

lemma unlock_read:
  "wait_secs E now dir = 0 \<Longrightarrow> read_lock E r dir = Inr l \<Longrightarrow>
   unlock E r disk now s dir =
     (case try_slot E (normal l) s (m_cost_kib l) (t_cost l) (p_cost l) of
        Some key \<Rightarrow> (Inr (Normal key), forget_failures disk dir)
      | None \<Rightarrow> if try_slot E (duress l) s (m_cost_kib l) (t_cost l) (p_cost l) \<noteq> None then (Inr Duress, forget_failures disk dir)
                else (Inl Wrong_passphrase, note_failure E disk now dir))"
  by (auto simp: unlock_def Let_def split: option.splits)

lemma wait_secs_file: "lock_file dir' = lock_file dir \<Longrightarrow> attempts_file dir' = attempts_file dir \<Longrightarrow> wait_secs E now dir' = wait_secs E now dir"
  by (simp add: wait_secs_def read_attempts_def)

section \<open>The passphrase\<close>

lemma set_passphraseE:
  assumes "set_passphrase E wr dr nonce disk key pass dir = (Inr (), dir')"
  obtains n d a where "wrap_slot E wr key pass = Some n" "decoy_slot E dr = Some d" "seal_armed E nonce key False = Some a"
    "dir' = dir\<lparr>lock_file := Some (lock_json E \<lparr>v = FORMAT_V, m_cost_kib = M_COST_KIB, t_cost = T_COST,
        p_cost = P_COST, normal = n, duress = d, armed = a\<rparr>)\<rparr>"
  using assms by (auto simp: set_passphrase_def write_bytes_def split: if_splits option.splits)

text \<open>
  C21. The lock gives the key back to the passphrase and to nothing else. After a passphrase is set, when no wait
  is running, unlocking with it yields exactly the key that was wrapped, and clears the count of
  failures; unlocking with a secret that derives to another key (on the slot's salt, and not to the
  decoy's random key) is refused as wrong, yields no key and no duress, and is counted.
\<close>

theorem lock_opens_for_passphrase_only:
  assumes "env_laws E" and "opens_only E" and "set_passphrase E wr dr nonce disk key pass dir = (Inr (), dir')"
    and "length key = 32" and "wait_secs E now dir = 0"
    and "derive E other (w_salt wr) M_COST_KIB T_COST P_COST \<noteq> derive E pass (w_salt wr) M_COST_KIB T_COST P_COST"
    and "derive E other (d_salt dr) M_COST_KIB T_COST P_COST \<noteq> Some (d_kek dr)"
  shows "unlock E r dk now pass dir' = (Inr (Normal key), forget_failures dk dir')
       \<and> unlock E r dk now other dir' = (Inl Wrong_passphrase, note_failure E dk now dir')"
proof -
  obtain n d a where f: "wrap_slot E wr key pass = Some n" "decoy_slot E dr = Some d"
    "dir' = dir\<lparr>lock_file := Some (lock_json E \<lparr>v = FORMAT_V, m_cost_kib = M_COST_KIB, t_cost = T_COST,
        p_cost = P_COST, normal = n, duress = d, armed = a\<rparr>)\<rparr>"
    using set_passphraseE [OF assms(3)] by metis
  have "wait_secs E now dir' = 0" using assms(5) f(3) by (simp add: wait_secs_def read_attempts_def)
  moreover have "read_lock E r dir' = Inr \<lparr>v = FORMAT_V, m_cost_kib = M_COST_KIB, t_cost = T_COST,
        p_cost = P_COST, normal = n, duress = d, armed = a\<rparr>"
    using f(3) by (intro read_written [OF assms(1)]) simp_all
  ultimately show ?thesis
    using try_wrap [OF assms(1) f(1) assms(4)] try_wrap_other [OF assms(1,2) f(1) assms(6)] try_decoy [OF assms(1,2) f(2) assms(7)]
    by (simp add: unlock_read)
qed

section \<open>The duress secret\<close>

lemma self_check_cases:
  assumes "self_check E r disk now secret (Some b) dir = (res, dir')"
  obtains (armed) "res = Inr ()" "unlock E (check_r r) (counts disk) now secret dir = (Inr Duress, dir')"
    | (restored) "restores disk" "res = Inl Cannot_arm" "lock_file dir' = Some b"
    | (stuck) "\<not> restores disk" "res = Inl Disk"
  using assms by (auto simp: self_check_def write_bytes_def split: prod.splits sum.splits opened.splits if_splits)

text \<open>A run of \<open>set_duress\<close>: either nothing of the lock file changed, or the new one is there.\<close>

lemma set_duress_cases:
  assumes "set_duress E r disk now pass secret dir = (res, dir')"
  obtains (refused) e where "res = Inl e" "dir' = dir"
    | (written) l key d a b where "read_lock E (read_r r) dir = Inr l" "lock_file dir = Some b"
      "try_slot E (normal l) pass (m_cost_kib l) (t_cost l) (p_cost l) = Some key"
      "try_slot E (normal l) secret (m_cost_kib l) (t_cost l) (p_cost l) = None"
      "wrap_slot E (wrap_r r) (filler r) secret = Some d" "seal_armed E (armed_nonce r) key True = Some a"
      "self_check E r disk now secret (Some b) (dir\<lparr>lock_file := Some (lock_json E (l\<lparr>duress := d, armed := a, v := FORMAT_V\<rparr>))\<rparr>) = (res, dir')"
proof (cases "read_lock E (read_r r) dir")
  case (Inl e)
  then show thesis using assms refused by (auto simp: set_duress_def split: if_splits)
next
  case (Inr l)
  then obtain b where b: "lock_file dir = Some b" by (auto simp: read_lock_def split: option.splits)
  show thesis
    using assms Inr b refused written
    by (auto simp: set_duress_def write_bytes_def Let_def split: if_splits option.splits)
qed

lemma seal_armed_reads:
  "env_laws E \<Longrightarrow> seal_armed E nonce key on = Some a \<Longrightarrow> Option.bind (b64_dec E a) (aead_open E key) = Some [if on then 1 else 0]"
  by (auto simp: seal_armed_def lawsD)

lemma unlock_lock_file [simp]: "lock_file (snd (unlock E r disk now s dir)) = lock_file dir"
  by (auto simp: unlock_def Let_def forget_failures_def note_failure_def split: option.splits sum.splits)

text \<open>
  C22. Arming the wipe code happens whole or not at all. If \<open>set_duress\<close> succeeds, then from then on its secret
  unlocks to the wipe signal, which carries no key, the passphrase still unlocks to the key it unlocked
  before, and the app sees the code as armed; if it fails, for whatever reason (its own check of the
  written file included), the lock file is byte for byte the old one, unless restoring it failed too.
\<close>

theorem duress_all_or_nothing:
  assumes "env_laws E" and "set_duress E r disk now pass secret dir = (res, dir')" and "counts disk"
    and "read_lock E (read_r r) dir = Inr l" and "try_slot E (normal l) pass (m_cost_kib l) (t_cost l) (p_cost l) = Some key"
  shows "(res = Inr () \<and> fst (unlock E r2 d2 now2 secret dir') = Inr Duress \<and> fst (unlock E r2 d2 now2 pass dir') = Inr (Normal key)
            \<and> duress_armed E r2 key dir')
       \<or> ((\<exists>e. res = Inl e) \<and> lock_file dir' = lock_file dir)
       \<or> (res = Inl Disk \<and> restores disk = False)"
  using assms(2)
proof (cases rule: set_duress_cases)
  case (written l' key' d a b)
  let ?l = "l\<lparr>duress := d, armed := a, v := FORMAT_V\<rparr>"
  have l: "l' = l" "key' = key" using written assms(4,5) by auto
  from written(7) show ?thesis
  proof (cases rule: self_check_cases)
    case armed
    have stored: "lock_file dir' = Some (lock_json E ?l)"
      using unlock_lock_file [of E "check_r r" "counts disk" now secret] armed(2) l by (metis lock_dir.select_convs(1) lock_dir.surjective lock_dir.update_convs(1) snd_conv)
    have "attempts_file dir' = None"
      using armed(2) assms(3) by (auto simp: unlock_def Let_def forget_failures_def split: if_splits sum.splits option.splits)
    then have wait: "wait_secs E t dir' = 0" for t
      by (simp add: wait_secs_def read_attempts_def wait_after_def)
    have reads: "read_lock E q dir' = Inr ?l" for q using stored by (rule read_written [OF assms(1)]) simp
    have "try_slot E d secret (m_cost_kib l) (t_cost l) (p_cost l) \<noteq> None"
    proof -
      have "read_lock E (check_r r) (dir\<lparr>lock_file := Some (lock_json E ?l)\<rparr>) = Inr ?l"
        by (rule read_written [OF assms(1)]) simp_all
      then show ?thesis
        using armed(2) written(4) l by (auto simp: unlock_def Let_def split: if_splits option.splits)
    qed
    then show ?thesis
      using armed(1) written(4) l assms(5) wait reads seal_armed_reads [OF assms(1) written(6)]
      by (simp add: unlock_read duress_armed_def)
  qed (use written(2) in auto)
qed auto

text \<open>
  The file does not tell whether a wipe code is armed. If sealing adds a length of its own and base64's length
  depends on the length alone, then a lock just made and the same lock after any arming of a duress
  secret have the same version, the same costs, the same normal slot, and a duress slot and a flag of the
  same lengths.
\<close>

theorem duress_invisible_in_shape:
  assumes "env_laws E" and "\<And>k n q c. aead_seal E k n q = Some c \<Longrightarrow> length c = length q + overhead"
    and "\<And>x y. length x = length y \<Longrightarrow> length (b64_enc E x) = length (b64_enc E y)"
    and "length (d_filler dr) = 32" and "length (filler r) = 32" and "length (d_salt dr) = length (w_salt (wrap_r r))"
    and "set_passphrase E wr dr nonce True key pass dir = (Inr (), dir1)"
    and "set_duress E r disk now pass secret dir1 = (Inr (), dir2)"
    and "read_lock E q dir1 = Inr l1" and "read_lock E q dir2 = Inr l2"
  shows "v l2 = v l1 \<and> m_cost_kib l2 = m_cost_kib l1 \<and> t_cost l2 = t_cost l1 \<and> p_cost l2 = p_cost l1 \<and> normal l2 = normal l1
       \<and> length (salt (duress l2)) = length (salt (duress l1)) \<and> length (wrapped (duress l2)) = length (wrapped (duress l1))
       \<and> length (armed l2) = length (armed l1)"
proof -
  obtain n d a where one: "decoy_slot E dr = Some d" "seal_armed E nonce key False = Some a"
    "dir1 = dir\<lparr>lock_file := Some (lock_json E \<lparr>v = FORMAT_V, m_cost_kib = M_COST_KIB, t_cost = T_COST,
        p_cost = P_COST, normal = n, duress = d, armed = a\<rparr>)\<rparr>"
    using set_passphraseE [OF assms(7)] by metis
  then have l1: "read_lock E q' dir1 = Inr \<lparr>v = FORMAT_V, m_cost_kib = M_COST_KIB, t_cost = T_COST,
        p_cost = P_COST, normal = n, duress = d, armed = a\<rparr>" for q'
    by (intro read_written [OF assms(1)]) simp_all
  from assms(8) obtain key2 d2 a2 where two: "wrap_slot E (wrap_r r) (filler r) secret = Some d2" "seal_armed E (armed_nonce r) key2 True = Some a2"
    "lock_file dir2 = Some (lock_json E \<lparr>v = FORMAT_V, m_cost_kib = M_COST_KIB, t_cost = T_COST,
        p_cost = P_COST, normal = n, duress = d2, armed = a2\<rparr>)"
  proof (cases rule: set_duress_cases)
    case (written l key' d' a' b)
    from written(7) show thesis
    proof (cases rule: self_check_cases)
      case armed
      then have "lock_file dir2 = Some (lock_json E (l\<lparr>duress := d', armed := a', v := FORMAT_V\<rparr>))"
        using unlock_lock_file [of E "check_r r" "counts disk" now secret] by (metis lock_dir.select_convs(1) lock_dir.surjective lock_dir.update_convs(1) snd_conv)
      then show thesis using that [OF written(5,6)] written(1) l1 [of "read_r r"] by auto
    qed auto
  qed auto
  have l2: "l2 = \<lparr>v = FORMAT_V, m_cost_kib = M_COST_KIB, t_cost = T_COST, p_cost = P_COST, normal = n, duress = d2, armed = a2\<rparr>"
    using read_written [OF assms(1) two(3), of q] assms(10) by simp
  have "length (wrapped d2) = length (wrapped d)" "length (salt d2) = length (salt d)"
    using one(1) two(1) assms(4-6) by (auto simp: decoy_slot_def wrap_slot_def bind_eq_Some_conv dest!: assms(2) intro!: assms(3))
  moreover have "length a2 = length a"
    using one(2) two(2) by (auto simp: seal_armed_def dest!: assms(2) intro!: assms(3))
  ultimately show ?thesis using l1 [of q] l2 assms(9) by simp
qed

section \<open>The pace of guessing\<close>

text \<open>
  Someone at the screen, from a lock with no count: unlock attempts at times that do not go back, of which
  \<open>k\<close> tried a wrong secret so far, the others being refused (a wait, an unreadable file). The last attempt
  was at \<open>t\<close>.
\<close>

inductive guessing :: "lock_env \<Rightarrow> u64 \<Rightarrow> nat \<Rightarrow> u64 \<Rightarrow> lock_dir \<Rightarrow> bool" for E t0 where
  none: "attempts_file dir = None \<Longrightarrow> guessing E t0 0 t0 dir"
| wrong: "guessing E t0 k t dir \<Longrightarrow> t \<le> now \<Longrightarrow> unlock E r True now s dir = (Inl Wrong_passphrase, dir') \<Longrightarrow>
    guessing E t0 (Suc k) now dir'"
| refused: "guessing E t0 k t dir \<Longrightarrow> t \<le> now \<Longrightarrow> unlock E r True now s dir = (Inl e, dir') \<Longrightarrow> e \<noteq> Wrong_passphrase \<Longrightarrow>
    guessing E t0 k now dir'"

text \<open>The waits of the first \<open>k\<close> failures but the last.\<close>

definition waits :: "nat \<Rightarrow> nat" where
  "waits k = (\<Sum>i < k. unat (wait_after (of_nat i)))"

lemma unlock_wrong:
  "unlock E r True now s dir = (Inl Wrong_passphrase, dir') \<Longrightarrow> wait_secs E now dir = 0 \<and> dir' = note_failure E True now dir"
  by (auto simp: unlock_def Let_def read_lock_def word_gt_0 split: if_splits sum.splits option.splits lock_doc.splits)

lemma unlock_refused:
  "unlock E r True now s dir = (Inl e, dir') \<Longrightarrow> e \<noteq> Wrong_passphrase \<Longrightarrow> dir' = dir"
  by (auto simp: unlock_def Let_def split: if_splits sum.splits option.splits)

lemma wait_secs_0:
  "wait_secs E now dir = 0 \<Longrightarrow> last_unix (read_attempts E dir) \<le> now \<Longrightarrow>
   unat (last_unix (read_attempts E dir)) + unat (wait_after (failures (read_attempts E dir))) \<le> unat now"
  by (auto simp: wait_secs_def Let_def unat_eq_0 [symmetric] unat_sat_sub64 word_le_nat_alt split: if_splits)

lemma read_noted: "env_laws E \<Longrightarrow> read_attempts E (note_failure E True now dir) =
    (let f = failures (read_attempts E dir) in \<lparr>failures = (if f = - 1 then f else f + 1), last_unix = now\<rparr>)"
  by (simp add: note_failure_def read_attempts_def [of E "_\<lparr>attempts_file := _\<rparr>"] lawsD Let_def)

text \<open>The count is the number of wrong secrets tried, and its time pays for all the waits.\<close>

definition paid :: "lock_env \<Rightarrow> u64 \<Rightarrow> nat \<Rightarrow> u64 \<Rightarrow> lock_dir \<Rightarrow> bool" where
  "paid E t0 k t dir \<longleftrightarrow>
     failures (read_attempts E dir) = of_nat k \<and> last_unix (read_attempts E dir) \<le> t \<and> t0 \<le> t
     \<and> (k = 0 \<or> unat t0 + waits k \<le> unat (last_unix (read_attempts E dir)))"

lemma paid_wrong:
  assumes "env_laws E" and "paid E t0 k t dir" and "t \<le> now" and "Suc k < 2 ^ 32"
    and "unlock E r True now s dir = (Inl Wrong_passphrase, dir')"
  shows "paid E t0 (Suc k) now dir'"
proof -
  note u = unlock_wrong [OF assms(5)]
  have f: "failures (read_attempts E dir) = of_nat k" "last_unix (read_attempts E dir) \<le> t" "t0 \<le> t"
    using assms(2) by (simp_all add: paid_def)
  have "unat (of_nat k :: u32) = k" using assms(4) by (simp add: unat_of_nat)
  then have "(of_nat k :: u32) \<noteq> - 1" using assms(4) by (auto simp: unsigned_minus_1_eq_mask mask_eq_exp_minus_1)
  then have "read_attempts E dir' = \<lparr>failures = of_nat (Suc k), last_unix = now\<rparr>"
    using u read_noted [OF assms(1)] f(1) by (simp add: Let_def)
  moreover have "unat t0 + waits (Suc k) \<le> unat now"
  proof (cases "k = 0")
    case True
    then show ?thesis using f(3) assms(3) by (simp add: waits_def wait_after_def word_le_nat_alt)
  next
    case False
    have "unat (last_unix (read_attempts E dir)) + unat (wait_after (of_nat k)) \<le> unat now"
      using wait_secs_0 [of E now dir] u f assms(3) by simp
    then show ?thesis using assms(2) False by (simp add: paid_def waits_def)
  qed
  ultimately show ?thesis using f(3) assms(3) by (simp add: paid_def)
qed

lemma guessing_paid: "guessing E t0 k t dir \<Longrightarrow> env_laws E \<Longrightarrow> k < 2 ^ 32 \<Longrightarrow> paid E t0 k t dir"
proof (induction rule: guessing.induct)
  case (none dir)
  then show ?case by (simp add: paid_def read_attempts_def)
next
  case (wrong k t dir now r s dir')
  then show ?case by (intro paid_wrong [where t = t and k = k and dir = dir]) auto
next
  case (refused k t dir now r s e dir')
  then show ?case using unlock_refused [OF refused.hyps(3,4)] by (auto simp: paid_def)
qed

lemma waits_Suc: "waits (Suc k) = waits k + unat (wait_after (of_nat k))"
  by (simp add: waits_def)

lemma unat_wait_after:
  "i < 2 ^ 32 \<Longrightarrow> unat (wait_after (of_nat i)) =
     (if i \<le> 4 then 0 else if i \<le> 9 then 30 else if i \<le> 14 then 300 else if i \<le> 19 then 1800 else 3600)"
  by (simp add: wait_after_def word_le_nat_alt unat_of_nat)

lemma waits_20: "waits 20 = 10650"
proof -
  have "waits 20 = (\<Sum>i < (20::nat). if i \<le> 4 then 0 else if i \<le> 9 then 30 else if i \<le> 14 then 300 else if i \<le> 19 then 1800 else 3600)"
    unfolding waits_def by (rule sum.cong) (simp_all add: unat_wait_after)
  also have "\<dots> = 10650" by (simp add: lessThan_nat_numeral lessThan_Suc)
  finally show ?thesis .
qed

lemma waits_late: "20 + k \<le> 2 ^ 32 \<Longrightarrow> waits (20 + k) = 10650 + 3600 * k"
proof (induction k)
  case (Suc k)
  then show ?case using unat_wait_after [of "20 + k"] waits_Suc [of "20 + k"] by simp
qed (simp add: waits_20)

text \<open>
  C5. Guessing at the screen is slow, across restarts. However someone holding a locked phone spaces their attempts
  (through any number of restarts, as the count is on disk; the clock not being set back), when \<open>k\<close>
  wrong secrets have been tried the last one came no sooner than the sum of the waits of the failures before
  it: with twenty or more tries, 10,650 seconds and an hour for each after the twentieth. All ten thousand
  4-digit PINs take more than 365 days.
\<close>

theorem guessing_pace:
  assumes "env_laws E" and "guessing E t0 k t dir" and "20 \<le> k" and "k < 2 ^ 32"
  shows "unat t0 + 10650 + 3600 * (k - 20) \<le> unat t \<and> (k = 10 ^ 4 \<longrightarrow> unat t0 + 365 * (24 * 60 * 60) < unat t)"
proof -
  have "unat t0 + waits k \<le> unat t"
    using guessing_paid [OF assms(2,1,4)] assms(3) by (auto simp: paid_def word_le_nat_alt)
  moreover have "waits k = 10650 + 3600 * (k - 20)" using waits_late [of "k - 20"] assms(3,4) by auto
  ultimately show ?thesis by auto
qed

text \<open>
  Two things the lock does not do. Disarming tries the passphrase whatever wait is running, and a wrong one is
  not counted; and a wipe code cannot be armed on a file whose costs are not the current ones, because its
  slot is wrapped under the current costs and read under the file's.
\<close>

lemma clear_duress_unthrottled:
  "fst (clear_duress E r dr nonce disk pass (dir\<lparr>attempts_file := a\<rparr>)) = fst (clear_duress E r dr nonce disk pass dir)
   \<and> attempts_file (snd (clear_duress E r dr nonce disk pass dir)) = attempts_file dir"
proof -
  have "read_lock E r (dir\<lparr>attempts_file := a\<rparr>) = read_lock E r dir" by (simp add: read_lock_def)
  then show ?thesis
    by (auto simp: clear_duress_def write_bytes_def Let_def split: sum.splits option.splits)
qed

lemma old_costs_cannot_arm:
  assumes "env_laws E" and "opens_only E" and "read_lock E (read_r r) dir = Inr l"
    and "derive E secret (w_salt (wrap_r r)) (m_cost_kib l) (t_cost l) (p_cost l)
           \<noteq> derive E secret (w_salt (wrap_r r)) M_COST_KIB T_COST P_COST"
  shows "fst (set_duress E r disk now pass secret dir) \<noteq> Inr ()"
proof
  assume ok: "fst (set_duress E r disk now pass secret dir) = Inr ()"
  obtain res dir' where run: "set_duress E r disk now pass secret dir = (res, dir')" by (rule prod.exhaust)
  from run show False
  proof (cases rule: set_duress_cases)
    case (written l' key d a b)
    then have l: "l' = l" using assms(3) by simp
    let ?dir = "dir\<lparr>lock_file := Some (lock_json E (l'\<lparr>duress := d, armed := a, v := FORMAT_V\<rparr>))\<rparr>"
    have "try_slot E d secret (m_cost_kib l') (t_cost l') (p_cost l') = None"
      using try_wrap_other [OF assms(1,2) written(5)] assms(4) l by simp
    moreover have "read_lock E (check_r r) ?dir = Inr (l'\<lparr>duress := d, armed := a, v := FORMAT_V\<rparr>)"
      by (rule read_written [OF assms(1)]) simp_all
    ultimately have "fst (unlock E (check_r r) (counts disk) now secret ?dir) \<noteq> Inr Duress"
      using written(4) by (auto simp: unlock_def Let_def split: option.splits)
    with written(7) ok run show False by (cases rule: self_check_cases) auto
  qed (use ok run in auto)
qed

section \<open>An instance\<close>

text \<open>
  Toy primitives with the laws: a sealed text carries its key, and the file its fields, each after its length.
\<close>

definition framed :: "bytes \<Rightarrow> bytes" where
  "framed b = replicate (length b) 1 @ [0] @ b"

definition unframe :: "bytes \<Rightarrow> bytes \<times> bytes" where
  "unframe b = (let n = length (takeWhile (\<lambda>x. x = 1) b) in (take n (drop (n + 1) b), drop (n + n + 1) b))"

lemma unframe_framed [simp]: "unframe (framed b @ rest) = (b, rest)"
proof -
  have "takeWhile (\<lambda>x. x = 1) (replicate n 1 @ 0 # xs) = replicate n 1" for n and xs :: bytes
    by (induction n) simp_all
  then have "takeWhile (\<lambda>x. x = 1) (framed b @ rest) = replicate (length b) 1"
    by (simp add: framed_def)
  then show ?thesis by (simp add: unframe_def framed_def Let_def)
qed

definition toy_print :: "lock_v2 \<Rightarrow> bytes" where
  "toy_print l = concat (map framed [be_bytes 4 (unat (m_cost_kib l)), be_bytes 4 (unat (t_cost l)), be_bytes 4 (unat (p_cost l)),
     text_bytes (salt (normal l)), text_bytes (wrapped (normal l)), text_bytes (salt (duress l)), text_bytes (wrapped (duress l)),
     text_bytes (armed l)])"

definition toy_parse :: "bytes \<Rightarrow> lock_doc option" where
  "toy_parse b =
     (let (m, b) = unframe b; (t, b) = unframe b; (p, b) = unframe b; (ns, b) = unframe b; (nw, b) = unframe b;
          (ds, b) = unframe b; (dw, b) = unframe b; (a, b) = unframe b
      in Some (Doc2 \<lparr>v = FORMAT_V, m_cost_kib = of_nat (be_nat m), t_cost = of_nat (be_nat t), p_cost = of_nat (be_nat p),
           normal = \<lparr>salt = bytes_text ns, wrapped = bytes_text nw\<rparr>, duress = \<lparr>salt = bytes_text ds, wrapped = bytes_text dw\<rparr>,
           armed = bytes_text a\<rparr>))"

definition toy_key :: "string \<Rightarrow> bytes \<Rightarrow> bytes" where
  "toy_key s sa = take 32 (text_bytes s @ [0] @ sa @ replicate 32 0)"

definition toy_env :: lock_env where
  "toy_env = \<lparr>argon2id = \<lambda>pw s m t p. Some (toy_key (bytes_text pw) s),
     aead_seal = \<lambda>k n p. if length k = 32 then Some (k @ p) else None,
     aead_open = \<lambda>k c. if length k = 32 \<and> take 32 c = k then Some (drop 32 c) else None,
     b64_enc = bytes_text, b64_dec = \<lambda>s. Some (text_bytes s), lock_json = toy_print, lock_parse = toy_parse,
     attempts_json = \<lambda>a. framed (be_bytes 4 (unat (failures a))) @ be_bytes 8 (unat (last_unix a)),
     attempts_parse = \<lambda>b. let (f, u) = unframe b in Some \<lparr>failures = of_nat (be_nat f), last_unix = of_nat (be_nat u)\<rparr>\<rparr>"

lemma toy_laws: "env_laws toy_env" "opens_only toy_env"
proof -
  have w: "be_nat (be_bytes 4 (unat (x :: u32))) = unat x" "be_nat (be_bytes 8 (unat (y :: u64))) = unat y" for x y
    using unsigned_less [of x, where 'a = nat] unsigned_less [of y, where 'a = nat] by (simp_all add: be_nat_be_bytes)
  have "toy_parse (toy_print l) = Some (Doc2 l)" if "v l = FORMAT_V" for l
    using that unframe_framed [of _ "[]"] by (cases l) (simp add: toy_parse_def toy_print_def w)
  then show "env_laws toy_env" by (simp add: env_laws_def toy_env_def w)
  show "opens_only toy_env" by (auto simp: opens_only_def toy_env_def split: if_splits)
qed

definition toy_decoy :: decoy_random where
  "toy_decoy = \<lparr>d_salt = [9], d_kek = replicate 32 7, d_filler = replicate 32 3, d_nonce = []\<rparr>"

definition toy_random :: duress_random where
  "toy_random = \<lparr>read_r = toy_decoy, check_r = toy_decoy, filler = replicate 32 5, wrap_r = \<lparr>w_salt = [8], w_nonce = []\<rparr>, armed_nonce = []\<rparr>"

definition empty_dir :: lock_dir where
  "empty_dir = \<lparr>lock_file = None, attempts_file = None\<rparr>"

definition toy_locked :: lock_dir where
  "toy_locked = snd (set_passphrase toy_env \<lparr>w_salt = [1], w_nonce = []\<rparr> toy_decoy [] True (replicate 32 4) ''1234'' empty_dir)"

lemma length_toy_key [simp]: "length (toy_key s sa) = 32"
  by (simp add: toy_key_def)

lemma toy_decoy_simps [simp]: "d_salt toy_decoy = [9]" "d_kek toy_decoy = replicate 32 7" "d_filler toy_decoy = replicate 32 3"
  by (simp_all add: toy_decoy_def)

lemma toy_set: "set_passphrase toy_env \<lparr>w_salt = [1], w_nonce = []\<rparr> toy_decoy [] True (replicate 32 4) ''1234'' empty_dir = (Inr (), toy_locked)"
  by (simp add: toy_locked_def set_passphrase_def wrap_slot_def derive_def toy_env_def decoy_slot_def seal_armed_def write_bytes_def
      M_COST_KIB_def T_COST_def P_COST_def MAX_M_COST_KIB_def MAX_T_COST_def MAX_P_COST_def word_le_nat_alt)

lemma toy_derive: "derive toy_env s sa M_COST_KIB T_COST P_COST = Some (toy_key s sa)"
  by (simp add: derive_def toy_env_def M_COST_KIB_def T_COST_def P_COST_def MAX_M_COST_KIB_def MAX_T_COST_def MAX_P_COST_def word_le_nat_alt)

lemma toy_ready: "wait_secs toy_env now empty_dir = 0" "wait_secs toy_env now toy_locked = 0"
  by (simp_all add: wait_secs_def read_attempts_def wait_after_def toy_locked_def empty_dir_def set_passphrase_def write_bytes_def
      split: option.splits)

definition toy_lock :: lock_v2 where
  "toy_lock = \<lparr>v = FORMAT_V, m_cost_kib = M_COST_KIB, t_cost = T_COST, p_cost = P_COST,
     normal = the (wrap_slot toy_env \<lparr>w_salt = [1], w_nonce = []\<rparr> (replicate 32 4) ''1234''),
     duress = the (decoy_slot toy_env toy_decoy), armed = the (seal_armed toy_env [] (replicate 32 4) False)\<rparr>"

lemma toy_read: "lock_file dir = lock_file toy_locked \<Longrightarrow> read_lock toy_env r dir = Inr toy_lock"
proof (rule read_written [OF toy_laws(1)])
  assume "lock_file dir = lock_file toy_locked"
  moreover have "lock_file toy_locked = Some (lock_json toy_env toy_lock)"
  proof (rule set_passphraseE [OF toy_set])
    fix n d a
    assume l: "wrap_slot toy_env \<lparr>w_salt = [1], w_nonce = []\<rparr> (replicate 32 4) ''1234'' = Some n"
      "decoy_slot toy_env toy_decoy = Some d" "seal_armed toy_env [] (replicate 32 4) False = Some a"
    assume "toy_locked = empty_dir\<lparr>lock_file := Some (lock_json toy_env \<lparr>v = FORMAT_V, m_cost_kib = M_COST_KIB,
        t_cost = T_COST, p_cost = P_COST, normal = n, duress = d, armed = a\<rparr>)\<rparr>"
    with l show ?thesis by (metis (no_types) lock_dir.select_convs(1) lock_dir.surjective lock_dir.update_convs(1) option.sel toy_lock_def)
  qed
  ultimately show "lock_file dir = Some (lock_json toy_env toy_lock)" by simp
qed (simp add: toy_lock_def)

lemma toy_wrap: "wrap_slot toy_env r key s = Some \<lparr>salt = bytes_text (w_salt r), wrapped = bytes_text (toy_key s (w_salt r) @ key)\<rparr>"
  by (simp add: wrap_slot_def toy_derive) (simp add: toy_env_def)

lemma toy_decoy_slot:
  "length (d_kek r) = 32 \<Longrightarrow> decoy_slot toy_env r = Some \<lparr>salt = bytes_text (d_salt r), wrapped = bytes_text (d_kek r @ d_filler r)\<rparr>"
  by (simp add: decoy_slot_def toy_env_def)

lemma toy_try:
  "length k = 32 \<Longrightarrow> try_slot toy_env \<lparr>salt = bytes_text sa, wrapped = bytes_text (k @ key)\<rparr> s M_COST_KIB T_COST P_COST
     = (if k = toy_key s sa \<and> length key = 32 then Some key else None)"
  by (simp add: try_slot_def derive_def M_COST_KIB_def T_COST_def P_COST_def MAX_M_COST_KIB_def MAX_T_COST_def MAX_P_COST_def word_le_nat_alt)
     (simp add: toy_env_def)

text \<open>Keys of different secrets, none of them the decoy's.\<close>

lemma toy_keys:
  "toy_key ''1234'' [1] \<noteq> toy_key ''9999'' [1]" "toy_key ''1234'' [1] \<noteq> toy_key ''0000'' [1]"
  "toy_key ''1234'' [1] \<noteq> toy_key ''1235'' [1]"
  "replicate 32 7 \<noteq> toy_key ''0000'' [9]" "replicate 32 7 \<noteq> toy_key ''1235'' [9]"
  by (simp_all add: toy_key_def text_bytes_def) (auto simp: text_bytes_def dest!: arg_cong [where f = hd])

lemmas toy_slots = toy_wrap toy_decoy_slot toy_try toy_keys

theorem lock_opens_for_passphrase_only_witness:
  "fst (unlock toy_env toy_decoy True 0 ''1234'' toy_locked) = Inr (Normal (replicate 32 4))
   \<and> fst (unlock toy_env toy_decoy True 0 ''1235'' toy_locked) = Inl Wrong_passphrase"
  using lock_opens_for_passphrase_only [OF toy_laws toy_set, of 0 "''1235''" toy_decoy True]
  using toy_keys by (simp add: toy_ready toy_derive)

lemma toy_arm:
  "set_duress toy_env toy_random \<lparr>writes = True, restores = True, counts = True\<rparr> 0 ''1234'' ''9999'' toy_locked
     = (Inr (), toy_locked\<lparr>lock_file := Some (lock_json toy_env
          (toy_lock\<lparr>duress := the (wrap_slot toy_env \<lparr>w_salt = [8], w_nonce = []\<rparr> (replicate 32 5) ''9999''),
             armed := the (seal_armed toy_env [] (replicate 32 4) True), v := FORMAT_V\<rparr>))\<rparr>)"
  (is "_ = (Inr (), ?dir)")
proof -
  let ?l = "toy_lock\<lparr>duress := the (wrap_slot toy_env \<lparr>w_salt = [8], w_nonce = []\<rparr> (replicate 32 5) ''9999''),
             armed := the (seal_armed toy_env [] (replicate 32 4) True), v := FORMAT_V\<rparr>"
  have seal: "length key = 32 \<Longrightarrow> \<exists>a. seal_armed toy_env [] key on = Some a" for key on by (simp add: seal_armed_def toy_env_def)
  have reads: "read_lock toy_env q ?dir = Inr ?l" for q by (rule read_written [OF toy_laws(1)]) (simp_all add: toy_lock_def)
  have "wait_secs toy_env 0 ?dir = 0" using toy_ready(2) [of 0] by (simp add: wait_secs_def read_attempts_def)
  moreover have "attempts_file ?dir = None"
    by (simp add: toy_locked_def empty_dir_def set_passphrase_def write_bytes_def split: option.splits)
  ultimately have "unlock toy_env toy_decoy True 0 ''9999'' ?dir = (Inr Duress, ?dir)"
    using reads by (simp add: unlock_read toy_lock_def toy_slots forget_failures_def)
  moreover have "try_slot toy_env (normal toy_lock) ''1234'' M_COST_KIB T_COST P_COST = Some (replicate 32 4)"
    "try_slot toy_env (normal toy_lock) ''9999'' M_COST_KIB T_COST P_COST = None"
    by (simp_all add: toy_lock_def toy_slots)
  moreover have "wrap_slot toy_env \<lparr>w_salt = [8], w_nonce = []\<rparr> (replicate 32 5) ''9999'' \<noteq> None"
    "seal_armed toy_env [] (replicate 32 4) True \<noteq> None" "lock_file toy_locked \<noteq> None"
    using seal [of "replicate 32 4" True] toy_read [of toy_locked undefined]
    by (auto simp: toy_wrap read_lock_def split: option.splits)
  moreover have "m_cost_kib toy_lock = M_COST_KIB" "t_cost toy_lock = T_COST" "p_cost toy_lock = P_COST" "v toy_lock = FORMAT_V"
    by (simp_all add: toy_lock_def)
  ultimately show ?thesis
    by (auto simp: set_duress_def toy_read toy_random_def self_check_def write_bytes_def Let_def)
qed

definition toy_armed :: lock_dir where
  "toy_armed = snd (set_duress toy_env toy_random \<lparr>writes = True, restores = True, counts = True\<rparr> 0 ''1234'' ''9999'' toy_locked)"

lemma toy_armed: "set_duress toy_env toy_random \<lparr>writes = True, restores = True, counts = True\<rparr> 0 ''1234'' ''9999'' toy_locked = (Inr (), toy_armed)"
  by (simp add: toy_armed_def toy_arm)

theorem duress_all_or_nothing_witness:
  "fst (unlock toy_env toy_decoy True 5 ''9999'' toy_armed) = Inr Duress
   \<and> fst (unlock toy_env toy_decoy True 5 ''1234'' toy_armed) = Inr (Normal (replicate 32 4))
   \<and> duress_armed toy_env toy_decoy (replicate 32 4) toy_armed"
proof -
  have "try_slot toy_env (normal toy_lock) ''1234'' (m_cost_kib toy_lock) (t_cost toy_lock) (p_cost toy_lock) = Some (replicate 32 4)"
    by (simp add: toy_lock_def toy_slots)
  then show ?thesis
    using duress_all_or_nothing [OF toy_laws(1) toy_armed _ toy_read [OF refl], of "replicate 32 4" toy_decoy True 5] by simp
qed

theorem duress_invisible_in_shape_witness:
  "\<exists>l1 l2. read_lock toy_env toy_decoy toy_locked = Inr l1 \<and> read_lock toy_env toy_decoy toy_armed = Inr l2
     \<and> length (wrapped (duress l2)) = length (wrapped (duress l1)) \<and> length (armed l2) = length (armed l1)"
proof -
  have seal: "length c = length q + 32" if "aead_seal toy_env k n q = Some c" for k n q c
    using that by (auto simp: toy_env_def split: if_splits)
  have "length (b64_enc toy_env x) = length x" for x
    using length_text_bytes [of "bytes_text x"] by (simp add: toy_env_def del: length_text_bytes)
  then have b64: "length x = length y \<Longrightarrow> length (b64_enc toy_env x) = length (b64_enc toy_env y)" for x y by simp
  have "\<exists>l. lock_file toy_armed = Some (lock_json toy_env l) \<and> v l = FORMAT_V" by (auto simp: toy_armed_def toy_arm)
  then obtain l2 where l2: "read_lock toy_env toy_decoy toy_armed = Inr l2" using read_written [OF toy_laws(1)] by blast
  show ?thesis
    using duress_invisible_in_shape [OF toy_laws(1) seal b64 _ _ _ toy_set toy_armed toy_read [OF refl] l2] l2
      toy_read [of toy_locked toy_decoy]
    by (simp add: toy_random_def)
qed

text \<open>An attempt an hour, each of them wrong.\<close>

lemma toy_guesses:
  "k \<le> 100 \<Longrightarrow> \<exists>dir. guessing toy_env 0 k (of_nat (3600 * k)) dir \<and> lock_file dir = lock_file toy_locked"
proof (induction k)
  case 0
  have "guessing toy_env 0 0 0 toy_locked"
    by (rule guessing.none)
      (simp add: toy_locked_def empty_dir_def set_passphrase_def write_bytes_def split: option.splits)
  then show ?case by auto
next
  case (Suc k)
  then obtain dir where d: "guessing toy_env 0 k (of_nat (3600 * k)) dir" "lock_file dir = lock_file toy_locked" by auto
  have word: "unat (of_nat n :: u64) = n" if "n < 2 ^ 64" for n using that by (simp add: unat_of_nat)
  define now where "now = (of_nat (3600 * Suc k) :: u64)"
  define t where "t = (of_nat (3600 * k) :: u64)"
  have now: "unat now = 3600 * Suc k" "unat t = 3600 * k"
    using Suc.prems unfolding now_def t_def by (intro word; simp)+
  have p: "paid toy_env 0 k t dir" using guessing_paid [OF d(1) toy_laws(1)] Suc.prems t_def by simp
  then have "unat (last_unix (read_attempts toy_env dir)) \<le> 3600 * k" using now by (simp add: paid_def word_le_nat_alt)
  moreover have "unat (wait_after (failures (read_attempts toy_env dir))) \<le> 3600" by (simp add: wait_after_def)
  ultimately have "wait_secs toy_env now dir = 0"
    using now by (simp add: wait_secs_def Let_def unat_eq_0 [symmetric] unat_sat_sub64 word_less_nat_alt)
  moreover have "try_slot toy_env (normal toy_lock) ''0000'' (m_cost_kib toy_lock) (t_cost toy_lock) (p_cost toy_lock) = None"
    "try_slot toy_env (duress toy_lock) ''0000'' (m_cost_kib toy_lock) (t_cost toy_lock) (p_cost toy_lock) = None"
    by (simp_all add: toy_lock_def toy_slots)
  ultimately have u: "unlock toy_env toy_decoy True now ''0000'' dir = (Inl Wrong_passphrase, note_failure toy_env True now dir)"
    using toy_read [OF d(2)] by (simp add: unlock_read)
  have "guessing toy_env 0 (Suc k) now (note_failure toy_env True now dir)"
    by (rule guessing.wrong [OF d(1) [folded t_def] _ u]) (use now in \<open>simp add: word_le_nat_alt\<close>)
  then show ?case using d(2) unfolding now_def by (auto simp: note_failure_def Let_def)
qed

theorem guessing_pace_witness:
  "\<exists>dir. guessing toy_env 0 30 108000 dir \<and> 10650 + 36000 \<le> unat (108000 :: u64)"
  using toy_guesses [of 30] guessing_pace [OF toy_laws(1), of 0 30 108000] by auto

end
