(* ===== verification/Envelope.thy ===== *)
theory Envelope
  imports MediaKind ContactLimits
begin

text \<open>
  The envelopes sealed inside messages (\<open>core/src/node.rs\<close>: \<open>put_field\<close>, \<open>take_field\<close> and the pack and unpack
  functions), and \<open>String::from_utf8_lossy\<close>, by which a received text is read.
\<close>

section \<open>Lossy decoding\<close>

text \<open>
  The standard library's chunks: a well-formed sequence, or a maximal prefix of one that is replaced by
  U+FFFD. \<open>utf8_step\<close> gives which, and its length.
\<close>

definition in_code :: "nat \<Rightarrow> nat \<Rightarrow> string \<Rightarrow> nat \<Rightarrow> bool" where
  "in_code lo hi s i = (i < length s \<and> lo \<le> code (s ! i) \<and> code (s ! i) \<le> hi)"

definition utf8_step :: "string \<Rightarrow> bool \<times> nat" where
  "utf8_step s =
     (let a = code (hd s); cont = in_code 128 191 s
      in if a < 128 then (True, 1)
         else if 194 \<le> a \<and> a \<le> 223 then (if cont 1 then (True, 2) else (False, 1))
         else if 224 \<le> a \<and> a \<le> 239
         then (if \<not> in_code (if a = 224 then 160 else 128) (if a = 237 then 159 else 191) s 1 then (False, 1)
               else if \<not> cont 2 then (False, 2) else (True, 3))
         else if 240 \<le> a \<and> a \<le> 244
         then (if \<not> in_code (if a = 240 then 144 else 128) (if a = 244 then 143 else 191) s 1 then (False, 1)
               else if \<not> cont 2 then (False, 2) else if \<not> cont 3 then (False, 3) else (True, 4))
         else (False, 1))"

definition replacement :: string where
  "replacement = map char_of [0xEF, 0xBF, 0xBD :: nat]"

lemma utf8_step_pos: "0 < snd (utf8_step s)"
  unfolding utf8_step_def Let_def by simp

function utf8_lossy :: "string \<Rightarrow> string" where
  "utf8_lossy s =
     (if s = [] then []
      else (let (good, n) = utf8_step s in (if good then take n s else replacement) @ utf8_lossy (drop n s)))"
  by pat_completeness auto
termination
proof (relation "measure length")
  fix s :: string and x :: "bool \<times> nat" and good n
  assume "s \<noteq> []" "x = utf8_step s" "(good, n) = x"
  moreover have "0 < n" using utf8_step_pos [of s] calculation by (metis snd_conv)
  ultimately show "(drop n s, s) \<in> measure length" by simp
qed simp

declare utf8_lossy.simps [simp del]

definition from_utf8_lossy :: "bytes \<Rightarrow> string" where
  "from_utf8_lossy bs = utf8_lossy (bytes_text bs)"

lemma cont_byte_in_code: "cont_byte c \<longleftrightarrow> 128 \<le> code c \<and> code c \<le> 191"
  by (auto simp: cont_byte_def)

lemma in_code_simps [simp]:
  "in_code lo hi [] i = False" "in_code lo hi (c # s) 0 = (lo \<le> code c \<and> code c \<le> hi)"
  "in_code lo hi (c # s) (Suc i) = in_code lo hi s i"
  by (auto simp: in_code_def)

lemma in_code_numeral [simp]: "in_code lo hi (c # s) (numeral k) = in_code lo hi s (pred_numeral k)"
  by (simp add: numeral_eq_Suc)

lemma utf8_valid_cases:
  assumes "utf8_valid (a # t)"
  obtains "code a < 128" "utf8_valid t"
    | b t1 where "t = b # t1" "194 \<le> code a" "code a \<le> 223" "128 \<le> code b" "code b \<le> 191" "utf8_valid t1"
    | b c t1 where "t = b # c # t1" "224 \<le> code a" "code a \<le> 239" "(if code a = 224 then 160 else 128) \<le> code b"
        "code b \<le> (if code a = 237 then 159 else 191)" "128 \<le> code c" "code c \<le> 191" "utf8_valid t1"
    | b c d t1 where "t = b # c # d # t1" "240 \<le> code a" "code a \<le> 244" "(if code a = 240 then 144 else 128) \<le> code b"
        "code b \<le> (if code a = 244 then 143 else 191)" "128 \<le> code c" "code c \<le> 191" "128 \<le> code d" "code d \<le> 191"
        "utf8_valid t1"
proof (cases "code a < 128")
  case True
  with assms that(1) show ?thesis by simp
next
  case a: False
  with assms obtain b t1 where t: "t = b # t1" by (cases t) auto
  show ?thesis
  proof (cases "194 \<le> code a \<and> code a < 224")
    case True
    with assms a t that(2) [of b t1] show ?thesis by (simp add: cont_byte_in_code)
  next
    case two: False
    with assms a t obtain c t2 where t1: "t1 = c # t2" by (cases t1) auto
    show ?thesis
    proof (cases "224 \<le> code a \<and> code a < 240")
      case three: True
      with assms a t t1 have "cont_byte b" "cont_byte c" "code a = 224 \<longrightarrow> 160 \<le> code b" "code a = 237 \<longrightarrow> code b < 160" "utf8_valid t2"
        by simp_all
      moreover from this have "(if code a = 224 then 160 else 128) \<le> code b" "code b \<le> (if code a = 237 then 159 else 191)"
        by (auto simp: cont_byte_in_code)
      ultimately show ?thesis using that(3) [of b c t2] t t1 three by (simp add: cont_byte_in_code)
    next
      case three: False
      with assms a t t1 two obtain d t3 where t2: "t2 = d # t3" by (cases t2) auto
      from assms a t t1 t2 two three
      have "240 \<le> code a \<and> code a < 245" "cont_byte b" "cont_byte c" "cont_byte d" "code a = 240 \<longrightarrow> 144 \<le> code b"
        "code a = 244 \<longrightarrow> code b < 144" "utf8_valid t3" by simp_all
      moreover from this have "(if code a = 240 then 144 else 128) \<le> code b" "code b \<le> (if code a = 244 then 143 else 191)"
        by (auto simp: cont_byte_in_code)
      ultimately show ?thesis using that(4) [of b c d t3] t t1 t2 by (simp add: cont_byte_in_code)
    qed
  qed
qed

lemma utf8_valid_step:
  assumes "utf8_valid s" "s \<noteq> []"
  shows "fst (utf8_step s) \<and> utf8_valid (drop (snd (utf8_step s)) s)"
proof -
  obtain a t where s: "s = a # t" using assms(2) by (cases s) auto
  from assms(1) show ?thesis unfolding s
    by (cases rule: utf8_valid_cases) (simp_all add: utf8_step_def Let_def)
qed

lemma utf8_lossy_valid: "utf8_valid s \<Longrightarrow> utf8_lossy s = s"
proof (induction s rule: utf8_lossy.induct)
  case (1 s)
  show ?case
  proof (cases "s = []")
    case False
    obtain n where st: "utf8_step s = (True, n)" using utf8_valid_step [OF "1.prems" False] by (cases "utf8_step s") auto
    then have "utf8_valid (drop n s)" using utf8_valid_step [OF "1.prems" False] by simp
    with 1(1) [OF False st [symmetric]] st False show ?thesis by (subst utf8_lossy.simps) simp
  qed (simp add: utf8_lossy.simps)
qed

section \<open>Fields\<close>

definition put_field :: "bytes \<Rightarrow> bytes" where
  "put_field bs = be_bytes 4 (length bs mod 2 ^ 32) @ bs"

definition take_field :: "bytes \<Rightarrow> (bytes \<times> bytes) option" where
  "take_field buf =
     (if length buf < 4 then None
      else (let n = be_nat (take 4 buf); r = drop 4 buf
        in if length r < n then None else Some (take n r, drop n r)))"

lemma take_put_field [simp]: "length bs < 2 ^ 32 \<Longrightarrow> take_field (put_field bs @ r) = Some (bs, r)"
  by (simp add: take_field_def put_field_def be_nat_be_bytes)

definition text_field :: "bytes \<Rightarrow> (string \<times> bytes) option" where
  "text_field buf = Option.bind (take_field buf) (\<lambda>(f, r). map_option (\<lambda>t. (t, r)) (from_utf8 f))"

section \<open>The envelopes\<close>

definition pack_edit :: "string \<Rightarrow> string \<Rightarrow> bytes" where
  "pack_edit target txt = put_field (text_bytes target) @ text_bytes txt"

definition unpack_edit :: "bytes \<Rightarrow> (string \<times> string) option" where
  "unpack_edit buf =
     Option.bind (text_field buf) (\<lambda>(target, r). map_option (\<lambda>t. (target, clamp_text t)) (from_utf8 r))"

definition pack_burn :: "nat \<Rightarrow> string \<Rightarrow> bytes" where
  "pack_burn timer txt = put_field (text_bytes (dec timer)) @ text_bytes txt"

definition burn_field :: "bytes \<Rightarrow> (nat \<times> bytes) option" where
  "burn_field buf = map_option (\<lambda>(t, r). (case parse_uint (2 ^ 64) t of None \<Rightarrow> 0 | Some n \<Rightarrow> n, r)) (text_field buf)"

definition unpack_burn :: "bytes \<Rightarrow> (nat \<times> string) option" where
  "unpack_burn buf =
     Option.bind (burn_field buf) (\<lambda>(timer, r). map_option (\<lambda>t. (timer, clamp_text t)) (from_utf8 r))"

definition pack_unsend :: "string \<Rightarrow> bytes" where
  "pack_unsend target = text_bytes target"

definition unpack_unsend :: "bytes \<Rightarrow> string option" where
  "unpack_unsend buf = from_utf8 buf"

definition pack_media :: "string \<Rightarrow> string \<Rightarrow> string \<Rightarrow> bytes \<Rightarrow> bytes" where
  "pack_media transfer kind mime data =
     put_field (text_bytes transfer) @ put_field (text_bytes kind) @ put_field (text_bytes mime) @ data"

text \<open>The transfer id, kind and type that start every media envelope; the last two are the contact's choice.\<close>

definition media_head :: "bytes \<Rightarrow> ((string \<times> string \<times> string) \<times> bytes) option" where
  "media_head buf =
     Option.bind (text_field buf) (\<lambda>(transfer, r).
       if \<not> sane_id transfer then None
       else Option.bind (text_field r) (\<lambda>(kind, r).
            Option.bind (text_field r) (\<lambda>(mime, r). Some ((transfer, sanitize kind mime), r))))"

definition unpack_media :: "bytes \<Rightarrow> (string \<times> string \<times> string \<times> bytes) option" where
  "unpack_media buf = map_option (\<lambda>((transfer, kind, mime), r). (transfer, kind, mime, r)) (media_head buf)"

definition pack_burn_media :: "nat \<Rightarrow> string \<Rightarrow> string \<Rightarrow> string \<Rightarrow> bytes \<Rightarrow> bytes" where
  "pack_burn_media timer transfer kind mime data = put_field (text_bytes (dec timer)) @ pack_media transfer kind mime data"

definition unpack_burn_media :: "bytes \<Rightarrow> (nat \<times> string \<times> string \<times> string \<times> bytes) option" where
  "unpack_burn_media buf =
     Option.bind (burn_field buf) (\<lambda>(timer, r). map_option (\<lambda>((transfer, kind, mime), r). (timer, transfer, kind, mime, r)) (media_head r))"

definition pack_media_incoming :: "string \<Rightarrow> string \<Rightarrow> string \<Rightarrow> nat \<Rightarrow> bytes \<Rightarrow> bytes" where
  "pack_media_incoming transfer kind mime byte_count thumb =
     put_field (text_bytes transfer) @ put_field (text_bytes kind) @ put_field (text_bytes mime) @ be_bytes 8 byte_count @ thumb"

definition unpack_media_incoming :: "bytes \<Rightarrow> (string \<times> string \<times> string \<times> nat \<times> bytes) option" where
  "unpack_media_incoming buf =
     Option.bind (media_head buf) (\<lambda>((transfer, kind, mime), r).
       if length r < 8 then None else Some (transfer, kind, mime, be_nat (take 8 r), drop 8 r))"

section \<open>Round trips\<close>

definition short :: "string \<Rightarrow> bool" where
  "short t = (utf8_valid t \<and> length t < 2 ^ 32)"

lemma text_field_put [simp]: "short t \<Longrightarrow> text_field (put_field (text_bytes t) @ r) = Some (t, r)"
  by (simp add: text_field_def short_def)

lemma utf8_valid_ascii: "list_all (\<lambda>c. code c < 128) t \<Longrightarrow> utf8_valid t"
  by (induction t) simp_all

lemma length_dec: "n < 10 ^ Suc k \<Longrightarrow> length (dec n) \<le> Suc k"
proof (induction k arbitrary: n)
  case (Suc k)
  then have "n div 10 < 10 ^ Suc k" by (simp add: div_less_iff_less_mult)
  from Suc.IH [OF this] show ?case by (subst dec.simps) simp
qed (simp add: dec.simps)

lemma short_dec: "n < 2 ^ 64 \<Longrightarrow> short (dec n)"
proof -
  assume "n < 2 ^ 64"
  then have "length (dec n) \<le> Suc 19" by (intro length_dec) simp
  moreover have "utf8_valid (dec n)"
    using dec_is_digits [of n] by (intro utf8_valid_ascii) (auto simp: is_digit_def list_all_iff)
  ultimately show ?thesis by (simp add: short_def)
qed

lemma short_id: "sane_id i \<Longrightarrow> short i"
  by (fastforce simp: short_def sane_id_def list_all_iff is_ascii_graphic_def code_def MAX_ID_BYTES_def intro!: utf8_valid_ascii)

lemma clamp_text_short: "length t \<le> MAX_TEXT_BYTES \<Longrightarrow> clamp_text t = t"
  by (simp add: clamp_text_def)

lemma from_utf8_lossy_text: "utf8_valid t \<Longrightarrow> from_utf8_lossy (text_bytes t) = t"
  by (simp add: from_utf8_lossy_def utf8_lossy_valid)

text \<open>What is packed is what is read, as long as a text is no longer than a text may be.\<close>

lemma unpack_pack_edit:
  "\<lbrakk>sane_id target; utf8_valid txt; length txt \<le> MAX_TEXT_BYTES\<rbrakk> \<Longrightarrow> unpack_edit (pack_edit target txt) = Some (target, txt)"
  by (simp add: unpack_edit_def pack_edit_def short_id clamp_text_short)

lemma unpack_pack_unsend: "sane_id target \<Longrightarrow> unpack_unsend (pack_unsend target) = Some target"
  using short_id [of target] by (simp add: unpack_unsend_def pack_unsend_def short_def)

lemma burn_field_put: "timer < 2 ^ 64 \<Longrightarrow> burn_field (put_field (text_bytes (dec timer)) @ r) = Some (timer, r)"
  using short_dec [of timer] by (simp add: burn_field_def parse_uint_dec)

lemma unpack_pack_burn:
  "\<lbrakk>timer < 2 ^ 64; utf8_valid txt; length txt \<le> MAX_TEXT_BYTES\<rbrakk> \<Longrightarrow> unpack_burn (pack_burn timer txt) = Some (timer, txt)"
  by (simp only: unpack_burn_def pack_burn_def burn_field_put) (simp add: clamp_text_short)

lemma media_head_put:
  "\<lbrakk>sane_id transfer; short kind; short mime\<rbrakk> \<Longrightarrow>
     media_head (pack_media transfer kind mime r) = Some ((transfer, sanitize kind mime), r)"
  by (simp add: media_head_def pack_media_def short_id)

text \<open>What \<open>sanitize\<close> lets through is left as it is.\<close>

lemma unpack_pack_media:
  "\<lbrakk>sane_id transfer; short kind; short mime; sanitize kind mime = (kind, mime)\<rbrakk> \<Longrightarrow>
     unpack_media (pack_media transfer kind mime data) = Some (transfer, kind, mime, data)"
  by (simp add: unpack_media_def media_head_put)

lemma unpack_pack_burn_media:
  "\<lbrakk>timer < 2 ^ 64; sane_id transfer; short kind; short mime; sanitize kind mime = (kind, mime)\<rbrakk> \<Longrightarrow>
     unpack_burn_media (pack_burn_media timer transfer kind mime data) = Some (timer, transfer, kind, mime, data)"
  by (simp only: unpack_burn_media_def pack_burn_media_def burn_field_put) (simp add: media_head_put)

lemma unpack_pack_media_incoming:
  "\<lbrakk>sane_id transfer; short kind; short mime; sanitize kind mime = (kind, mime); n < 2 ^ 64\<rbrakk> \<Longrightarrow>
     unpack_media_incoming (pack_media_incoming transfer kind mime n thumb) = Some (transfer, kind, mime, n, thumb)"
  using media_head_put [of transfer kind mime "be_bytes 8 n @ thumb"]
  by (simp add: unpack_media_incoming_def pack_media_incoming_def pack_media_def be_nat_be_bytes)

end
