(* ===== verification/RelaySets.thy ===== *)
theory RelaySets
  imports Keyroll
begin

text \<open>
  Which relays a node uses (\<open>core/src/node.rs\<close>, \<open>RelaySet\<close> in \<open>core/src/storage/mod.rs\<close>) and the signed
  directory that moves the Night Drop relays (\<open>core/src/directory.rs\<close>, \<open>adopt_directory\<close> and
  \<open>finish_directory_fetch\<close> in \<open>core/src/node/messaging.rs\<close>). Times are Unix seconds. The Night Drop relay's
  client stands for its address. JSON and the signature scheme are arguments.
\<close>

section \<open>Lists and sets of relays\<close>

datatype relay_entry = NightDrop | Onion string

record relay_set =
  nightdrop :: bool
  set_relays :: "string list"

definition add_entry :: "relay_set \<Rightarrow> relay_entry \<Rightarrow> relay_set" where
  "add_entry s e =
     (case e of
        NightDrop \<Rightarrow> s\<lparr>nightdrop := True\<rparr>
      | Onion a \<Rightarrow> if a \<in> set (set_relays s) then s else s\<lparr>set_relays := set_relays s @ [a]\<rparr>)"

definition relay_set_of :: "relay_entry list \<Rightarrow> relay_set" where
  "relay_set_of entries = foldl add_entry \<lparr>nightdrop = False, set_relays = []\<rparr> entries"

definition is_empty_set :: "relay_set \<Rightarrow> bool" where
  "is_empty_set s = (\<not> nightdrop s \<and> set_relays s = [])"

definition MAX_RELAYS :: nat where
  "MAX_RELAYS = 4"

definition RELAY_TTL :: nat where
  "RELAY_TTL = 24 * 60 * 60"

definition trim_entry :: "relay_entry \<Rightarrow> relay_entry option" where
  "trim_entry e =
     (case e of Onion a \<Rightarrow> if trim a = [] then None else Some (Onion (trim a)) | NightDrop \<Rightarrow> Some NightDrop)"

fun normalize_from :: "relay_entry list \<Rightarrow> relay_entry list \<Rightarrow> relay_entry list \<Rightarrow> relay_entry list \<times> relay_entry list" where
  "normalize_from kept overflow [] = (kept, overflow)"
| "normalize_from kept overflow (e # es) =
     (case trim_entry e of
        None \<Rightarrow> normalize_from kept overflow es
      | Some e \<Rightarrow>
          if e \<in> set kept \<or> e \<in> set overflow then normalize_from kept overflow es
          else if length kept < MAX_RELAYS then normalize_from (kept @ [e]) overflow es
          else normalize_from kept (overflow @ [e]) es)"

definition normalize_relays :: "relay_entry list \<Rightarrow> relay_entry list \<times> relay_entry list" where
  "normalize_relays = normalize_from [] []"

text \<open>The loop of \<open>sanitize_peer_set\<close>, with its early exit at the cap.\<close>

fun sanitize_from :: "string list \<Rightarrow> string list \<Rightarrow> string list" where
  "sanitize_from kept [] = kept"
| "sanitize_from kept (a # as) =
     (if trim a = [] \<or> 128 < length (trim a) \<or> trim a \<in> set kept then sanitize_from kept as
      else if length kept = MAX_RELAYS then kept
      else sanitize_from (kept @ [trim a]) as)"

definition sanitize_peer_set :: "relay_set \<Rightarrow> relay_set" where
  "sanitize_peer_set s = s\<lparr>set_relays := sanitize_from [] (set_relays s)\<rparr>"

section \<open>The node's relays\<close>

record relay_state =
  relays :: "relay_entry list"
  relays_draining :: "(relay_entry \<times> nat) list"
  relay_reachable :: "(string \<times> bool) list"
  relay :: "string option"
  discovered_relays :: "string list"
  directory_version :: u64
  directory_key :: "trust option"
  directory_next_check :: nat
  relays_dirty :: bool

definition polled_relay_set :: "nat \<Rightarrow> relay_state \<Rightarrow> relay_set" where
  "polled_relay_set now st =
     relay_set_of (relays st @ map fst (filter (\<lambda>(e, until). now < until) (relays_draining st)))"

text \<open>One relay that leaves: it drains until \<open>until\<close>, and only once.\<close>

definition drain_until :: "nat \<Rightarrow> (relay_entry \<times> nat) list \<Rightarrow> relay_entry \<Rightarrow> (relay_entry \<times> nat) list" where
  "drain_until until ds gone = filter (\<lambda>(e, _). e \<noteq> gone) ds @ [(gone, until)]"

definition set_relay_list_at :: "relay_entry list \<Rightarrow> nat \<Rightarrow> relay_state \<Rightarrow> relay_state" where
  "set_relay_list_at list now st =
     (let (list, overflow) = normalize_relays list;
          until = now + RELAY_TTL;
          gone = filter (\<lambda>e. e \<notin> set list) (relays st) @ overflow;
          draining = filter (\<lambda>(e, until). e \<notin> set list \<and> now < until) (foldl (drain_until until) (relays_draining st) gone);
          st = st\<lparr>relays := list, relays_draining := draining\<rparr>;
          keep = set_relays (polled_relay_set now st)
      in st\<lparr>relay_reachable := filter (\<lambda>(a, _). a \<in> set keep) (relay_reachable st), relays_dirty := True\<rparr>)"

definition start_with_relay_list :: "relay_entry list \<Rightarrow> relay_state \<Rightarrow> relay_state" where
  "start_with_relay_list list st =
     st\<lparr>relays := fst (normalize_relays list), relays_draining := [], relays_dirty := True\<rparr>"

definition my_relay_set :: "relay_state \<Rightarrow> relay_set" where
  "my_relay_set st = relay_set_of (relays st)"

definition direct_only :: "relay_state \<Rightarrow> bool" where
  "direct_only st = (relays st = [])"

definition uses_nightdrop_relay :: "relay_state \<Rightarrow> bool" where
  "uses_nightdrop_relay st = (NightDrop \<in> set (relays st) \<and> relay st \<noteq> None)"

definition server_storage_available :: "relay_set option \<Rightarrow> relay_state \<Rightarrow> bool" where
  "server_storage_available peer st =
     (\<not> direct_only st \<and> (case peer of None \<Rightarrow> False | Some s \<Rightarrow> \<not> is_empty_set s))"

definition expand_relay_set :: "relay_set \<Rightarrow> relay_state \<Rightarrow> string option \<times> string list" where
  "expand_relay_set s st =
     (if nightdrop s then relay st else None,
      foldl (\<lambda>ts a. if a \<in> set ts then ts else ts @ [a]) []
        (take MAX_RELAYS (set_relays s) @ (if nightdrop s then discovered_relays st else [])))"

definition post_route :: "relay_set \<Rightarrow> relay_state \<Rightarrow> string option \<times> string list" where
  "post_route s st = (if relays st = [] then (None, []) else expand_relay_set s st)"

definition relays_between :: "relay_set option \<Rightarrow> relay_state \<Rightarrow> string option \<times> string list" where
  "relays_between peer st = (case peer of None \<Rightarrow> (None, []) | Some s \<Rightarrow> post_route s st)"

definition relays_meet :: "relay_set option \<Rightarrow> relay_state \<Rightarrow> bool" where
  "relays_meet peer st = (let (primary, targets) = relays_between peer st in primary \<noteq> None \<or> targets \<noteq> [])"

text \<open>\<open>agreed\<close>: whether the pair has a confirmed mailbox (\<open>mailbox_agreed\<close>).\<close>

definition route_to :: "bool \<Rightarrow> relay_set option \<Rightarrow> relay_state \<Rightarrow> string option \<times> string list" where
  "route_to agreed peer st = (if \<not> agreed then (None, []) else relays_between peer st)"

definition relay_health :: "relay_state \<Rightarrow> (string \<times> bool) list" where
  "relay_health st =
     map (\<lambda>a. (a, case map_of (relay_reachable st) a of None \<Rightarrow> True | Some r \<Rightarrow> r)) (set_relays (my_relay_set st))"

section \<open>The signed directory\<close>

record relay_directory =
  version :: u64
  issued_at :: u64
  dir_relays :: "string list"

record signed_directory =
  dir_payload :: string
  dir_sig :: string
  dir_rotation :: "rotation option"

record dir_env =
  scheme :: sig_scheme
  dir_verify :: "bytes \<Rightarrow> bytes \<Rightarrow> bytes \<Rightarrow> bool"
  from_wire :: "string \<Rightarrow> signed_directory option"
  read_directory :: "bytes \<Rightarrow> relay_directory option"

definition verify_directory :: "dir_env \<Rightarrow> signed_directory \<Rightarrow> bytes \<Rightarrow> relay_directory option" where
  "verify_directory E s pubkey =
     (if pubkey = replicate 32 0 then None
      else Option.bind (dec64 (scheme E) (dir_payload s)) (\<lambda>payload.
           Option.bind (Option.bind (dec64 (scheme E) (dir_sig s)) (try_into 64)) (\<lambda>sg.
             if vk_ok (scheme E) pubkey \<and> dir_verify E pubkey payload sg then read_directory E payload else None)))"

datatype directory_outcome = Invalid | Current | Applied bool

definition adopt_directory ::
  "dir_env \<Rightarrow> nat \<Rightarrow> roots \<Rightarrow> string \<Rightarrow> relay_state \<Rightarrow> directory_outcome \<times> relay_state" where
  "adopt_directory E now rts wire st =
     (case from_wire E wire of
        None \<Rightarrow> (Invalid, st)
      | Some s \<Rightarrow>
          (let (key, moved) = current_key (scheme E) rts (directory_key st) (dir_rotation s)
           in case verify_directory E s key of
                None \<Rightarrow> (Invalid, st)
              | Some dir \<Rightarrow>
                  (let st = (case moved of None \<Rightarrow> st | Some t \<Rightarrow> st\<lparr>directory_key := Some t, relays_dirty := True\<rparr>)
                   in if version dir \<le> directory_version st then (Current, st)
                      else (let cleaned = filter (\<lambda>a. a \<noteq> []) (map trim (dir_relays dir));
                                changed = (cleaned \<noteq> discovered_relays st);
                                st = st\<lparr>discovered_relays := cleaned, directory_version := version dir\<rparr>;
                                keep = cleaned @ set_relays (polled_relay_set now st)
                            in (Applied changed,
                                st\<lparr>relay_reachable := filter (\<lambda>(a, _). a \<in> set keep) (relay_reachable st),
                                   relays_dirty := True\<rparr>)))))"

definition CHECK_INTERVAL_SECS :: nat where
  "CHECK_INTERVAL_SECS = 24 * 3600"

definition RETRY_INTERVAL_SECS :: nat where
  "RETRY_INTERVAL_SECS = 3 * 3600"

definition MAX_SITE_BYTES :: nat where
  "MAX_SITE_BYTES = 16 * 1024"

text \<open>
  \<open>fetch_from_site\<close> and \<open>fetch_directory\<close>: \<open>got\<close> is what the transport brought from the site (\<open>None\<close>: no
  anonymized path; an error is \<open>Some None\<close>), \<open>asked_lists\<close> what the relays would answer.
\<close>

definition fetch_from_site :: "bytes option option \<Rightarrow> string option option" where
  "fetch_from_site got =
     map_option (\<lambda>r. Option.bind r (\<lambda>b. if MAX_SITE_BYTES < length b then None else from_utf8 b)) got"

definition fetch_directory :: "bytes option option \<Rightarrow> string list \<Rightarrow> string option option \<times> string list" where
  "fetch_directory got asked_lists =
     (let site = fetch_from_site got
      in (site, case site of Some (Some _) \<Rightarrow> [] | _ \<Rightarrow> asked_lists))"

definition directory_fetch_due :: "bool \<Rightarrow> nat \<Rightarrow> relay_state \<Rightarrow> bool" where
  "directory_fetch_due ready now st = (\<not> direct_only st \<and> ready \<and> directory_next_check st \<le> now)"

definition begin_directory_fetch :: "nat \<Rightarrow> relay_state \<Rightarrow> relay_state" where
  "begin_directory_fetch now st = st\<lparr>directory_next_check := now + RETRY_INTERVAL_SECS, relays_dirty := True\<rparr>"

fun adopt_first :: "dir_env \<Rightarrow> nat \<Rightarrow> roots \<Rightarrow> string list \<Rightarrow> relay_state \<Rightarrow> relay_state" where
  "adopt_first E now rts [] st = st"
| "adopt_first E now rts (w # ws) st =
     (case adopt_directory E now rts w st of
        (Applied _, st) \<Rightarrow> st | (_, st) \<Rightarrow> adopt_first E now rts ws st)"

definition finish_directory_fetch ::
  "dir_env \<Rightarrow> string option option \<times> string list \<Rightarrow> nat \<Rightarrow> roots \<Rightarrow> relay_state \<Rightarrow> relay_state" where
  "finish_directory_fetch E result now rts st =
     (let (site, asked_lists) = result;
          (outcome, st) = (case site of Some (Some wire) \<Rightarrow> adopt_directory E now rts wire st | _ \<Rightarrow> (Invalid, st));
          st = (case outcome of
                  Invalid \<Rightarrow> (adopt_first E now rts asked_lists st)\<lparr>directory_next_check := now + RETRY_INTERVAL_SECS\<rparr>
                | _ \<Rightarrow> st\<lparr>directory_next_check := now + CHECK_INTERVAL_SECS\<rparr>)
      in st\<lparr>relays_dirty := True\<rparr>)"

section \<open>No relay is left while mail for us may be on it\<close>

definition in_set :: "relay_entry \<Rightarrow> relay_set \<Rightarrow> bool" where
  "in_set e s = (case e of NightDrop \<Rightarrow> nightdrop s | Onion a \<Rightarrow> a \<in> set (set_relays s))"

lemma in_set_foldl: "in_set e (foldl add_entry s es) \<longleftrightarrow> in_set e s \<or> e \<in> set es"
proof (induction es arbitrary: s)
  case (Cons x es)
  have "in_set e (add_entry s x) \<longleftrightarrow> in_set e s \<or> e = x"
    by (cases e; cases x) (auto simp: in_set_def add_entry_def)
  with Cons show ?case by auto
qed simp

lemma in_relay_set_of: "in_set e (relay_set_of es) \<longleftrightarrow> e \<in> set es"
  unfolding relay_set_of_def in_set_foldl by (cases e) (simp_all add: in_set_def)

lemma in_polled:
  "in_set e (polled_relay_set now st) \<longleftrightarrow> e \<in> set (relays st) \<or> (\<exists>until. (e, until) \<in> set (relays_draining st) \<and> now < until)"
  by (force simp: polled_relay_set_def in_relay_set_of)

lemma drain_untils:
  "(e, u) \<in> set (foldl (drain_until until) ds gone) \<longleftrightarrow> (if e \<in> set gone then u = until else (e, u) \<in> set ds)"
  by (induction gone arbitrary: ds) (auto simp: drain_until_def)

lemma set_list_fields:
  "relays (set_relay_list_at list now st) = fst (normalize_relays list)"
  "relays_draining (set_relay_list_at list now st) =
     filter (\<lambda>(e, until). e \<notin> set (fst (normalize_relays list)) \<and> now < until)
       (foldl (drain_until (now + RELAY_TTL)) (relays_draining st)
         (filter (\<lambda>e. e \<notin> set (fst (normalize_relays list))) (relays st) @ snd (normalize_relays list)))"
  by (simp_all add: set_relay_list_at_def Let_def split: prod.splits)

text \<open>A relay in use at \<open>t\<close> stays polled up to \<open>t + RELAY_TTL\<close>.\<close>

definition kept_since :: "nat \<Rightarrow> relay_entry \<Rightarrow> relay_state \<Rightarrow> bool" where
  "kept_since t e st \<longleftrightarrow> e \<in> set (relays st) \<or> (\<exists>until. (e, until) \<in> set (relays_draining st) \<and> t + RELAY_TTL \<le> until)"

lemma kept_since_change:
  assumes "kept_since t e st" and "t \<le> now" and "now < t + RELAY_TTL"
  shows "kept_since t e (set_relay_list_at list now st)"
proof (cases "e \<in> set (fst (normalize_relays list))")
  case False
  show ?thesis
  proof (cases "e \<in> set (relays st) \<or> e \<in> set (snd (normalize_relays list))")
    case True
    then have "(e, now + RELAY_TTL) \<in> set (relays_draining (set_relay_list_at list now st))"
      using False by (auto simp: set_list_fields drain_untils RELAY_TTL_def)
    then show ?thesis using assms(2) by (auto simp: kept_since_def)
  next
    case gone: False
    then obtain u where "(e, u) \<in> set (relays_draining st)" "t + RELAY_TTL \<le> u" using assms(1) by (auto simp: kept_since_def)
    then have "(e, u) \<in> set (relays_draining (set_relay_list_at list now st))"
      using False gone assms(3) by (simp add: set_list_fields drain_untils)
    then show ?thesis using \<open>t + RELAY_TTL \<le> u\<close> by (auto simp: kept_since_def)
  qed
qed (simp add: kept_since_def set_list_fields)

definition change_all :: "(relay_entry list \<times> nat) list \<Rightarrow> relay_state \<Rightarrow> relay_state" where
  "change_all cs st = fold (\<lambda>(list, now). set_relay_list_at list now) cs st"

lemma kept_since_changes:
  "kept_since t e st \<Longrightarrow> \<forall>(list, now) \<in> set cs. t \<le> now \<and> now < t + RELAY_TTL \<Longrightarrow> kept_since t e (change_all cs st)"
  by (induction cs arbitrary: st) (auto simp: change_all_def kept_since_change)

text \<open>
  C23. A change of the relay list strands no mail. A relay that is in use at some time (in the list, or still
  draining for a full TTL) is polled at every later time before that plus the TTL a post may live, whatever
  lists the user sets in between, in any number: a blob posted to it at that time expires before it stops
  being polled.
\<close>

theorem left_relay_still_polled:
  assumes "e \<in> set (relays st)" and "\<forall>(list, changed) \<in> set cs. t \<le> changed \<and> changed \<le> now"
    and "t \<le> now" and "now < t + RELAY_TTL"
  shows "in_set e (polled_relay_set now (change_all cs st))"
proof -
  have "kept_since t e (change_all cs st)"
    using assms by (intro kept_since_changes) (auto simp: kept_since_def)
  with assms(4) show ?thesis by (force simp: kept_since_def in_polled)
qed

definition fresh_state :: "relay_entry list \<Rightarrow> relay_state" where
  "fresh_state es = \<lparr>relays = es, relays_draining = [], relay_reachable = [], relay = Some ''nd'', discovered_relays = [],
     directory_version = 0, directory_key = None, directory_next_check = 0, relays_dirty = False\<rparr>"

theorem left_relay_still_polled_witness:
  "in_set (Onion ''r'') (polled_relay_set 1200 (change_all [([NightDrop], 1000), ([], 1100)] (fresh_state [Onion ''r''])))"
  by (rule left_relay_still_polled [where t = 900]) (simp_all add: fresh_state_def RELAY_TTL_def)

section \<open>What a contact can make us do\<close>

lemma normalize_from_bounds:
  "length kept \<le> MAX_RELAYS \<Longrightarrow> distinct (kept @ overflow) \<Longrightarrow> normalize_from kept overflow es = (k, v) \<Longrightarrow>
   length k \<le> MAX_RELAYS \<and> distinct (k @ v)"
  by (induction kept overflow es rule: normalize_from.induct) (auto split: option.splits if_splits)

text \<open>However the list is set, it holds at most four entries, none twice, none of them being cut and in use.\<close>

lemma relay_list_bounded:
  "length (relays (set_relay_list_at es now st)) \<le> MAX_RELAYS \<and> distinct (relays (set_relay_list_at es now st))"
  using normalize_from_bounds [of "[]" "[]" es] by (cases "normalize_from [] [] es") (auto simp: set_list_fields normalize_relays_def)

lemma sanitize_from_bounds:
  "length kept \<le> MAX_RELAYS \<Longrightarrow> distinct kept \<Longrightarrow> list_all (\<lambda>a. a \<noteq> [] \<and> length a \<le> 128) kept \<Longrightarrow>
   length (sanitize_from kept as) \<le> MAX_RELAYS \<and> distinct (sanitize_from kept as)
   \<and> list_all (\<lambda>a. a \<noteq> [] \<and> length a \<le> 128) (sanitize_from kept as)"
proof (induction kept as rule: sanitize_from.induct)
  case (2 kept a as)
  consider (skip) "trim a = [] \<or> 128 < length (trim a) \<or> trim a \<in> set kept"
    | (full) "trim a \<noteq> []" "\<not> 128 < length (trim a)" "trim a \<notin> set kept" "length kept = MAX_RELAYS"
    | (add) "trim a \<noteq> []" "\<not> 128 < length (trim a)" "trim a \<notin> set kept" "length kept \<noteq> MAX_RELAYS"
    by blast
  then show ?case
  proof cases
    case skip
    then show ?thesis using 2 by simp
  next
    case full
    then show ?thesis using "2.prems" by simp
  next
    case add
    then show ?thesis using "2.IH"(2) "2.prems" by simp
  qed
qed simp

lemma targets_once:
  "distinct ts \<Longrightarrow> distinct (foldl (\<lambda>ts a. if a \<in> set ts then ts else ts @ [a]) ts as)
     \<and> set (foldl (\<lambda>ts a. if a \<in> set ts then ts else ts @ [a]) ts as) = set ts \<union> set as
     \<and> length (foldl (\<lambda>ts a. if a \<in> set ts then ts else ts @ [a]) ts as) \<le> length ts + length as"
proof (induction as arbitrary: ts)
  case (Cons a as)
  note here = Cons.IH [OF Cons.prems]
  show ?case
  proof (cases "a \<in> set ts")
    case True
    with here show ?thesis by (auto simp: insert_absorb)
  next
    case False
    with Cons.prems have "distinct (ts @ [a])" by simp
    from Cons.IH [OF this] False show ?thesis by simp
  qed
qed simp

text \<open>A route names each relay once, at most four of them the contact's own choice; unknown or unagreed gets none.\<close>

lemma route_bounded:
  "distinct (snd (route_to agreed peer st))
   \<and> length (snd (route_to agreed peer st)) \<le> MAX_RELAYS + length (discovered_relays st)"
proof -
  have "distinct (snd (expand_relay_set s st)) \<and> length (snd (expand_relay_set s st)) \<le> MAX_RELAYS + length (discovered_relays st)" for s
    using targets_once [of "[]" "take MAX_RELAYS (set_relays s) @ (if nightdrop s then discovered_relays st else [])"]
    by (auto simp: expand_relay_set_def split: if_splits)
  then show ?thesis by (auto simp: route_to_def relays_between_def post_route_def split: option.splits)
qed

section \<open>The directory moves only forward, and only by the operator\<close>

definition cleaned :: "relay_directory \<Rightarrow> string list" where
  "cleaned dir = filter (\<lambda>a. a \<noteq> []) (map trim (dir_relays dir))"

lemma adopt_cases:
  assumes "adopt_directory E now rts wire st = (out, st')"
  obtains (kept) "directory_version st' = directory_version st" "discovered_relays st' = discovered_relays st"
    | (moved) s key payload sg dir where "from_wire E wire = Some s"
      "key = fst (current_key (scheme E) rts (directory_key st) (dir_rotation s))"
      "dir_verify E key payload sg" "read_directory E payload = Some dir"
      "directory_version st < version dir" "directory_version st' = version dir" "discovered_relays st' = cleaned dir"
proof (cases "from_wire E wire")
  case None
  then show thesis using assms kept by (simp add: adopt_directory_def)
next
  case (Some s)
  obtain key m where ck: "current_key (scheme E) rts (directory_key st) (dir_rotation s) = (key, m)" by (rule prod.exhaust)
  show thesis
  proof (cases "verify_directory E s key")
    case None
    with Some ck show thesis using assms kept by (simp add: adopt_directory_def)
  next
    case v: (Some dir)
    then obtain payload sg where p: "dir_verify E key payload sg" "read_directory E payload = Some dir"
      by (auto simp: verify_directory_def bind_eq_Some_conv split: if_splits)
    show thesis
    proof (cases "version dir \<le> directory_version st")
      case True
      with Some ck v show thesis using assms kept by (auto simp: adopt_directory_def split: option.splits)
    next
      case False
      with Some ck v have "directory_version st' = version dir" "discovered_relays st' = cleaned dir"
        using assms by (auto simp: adopt_directory_def cleaned_def Let_def split: option.splits)
      with False Some ck p show thesis using moved by (simp add: not_le)
    qed
  qed
qed

definition adopt_all :: "dir_env \<Rightarrow> roots \<Rightarrow> (nat \<times> string) list \<Rightarrow> relay_state \<Rightarrow> relay_state" where
  "adopt_all E rts ws st = fold (\<lambda>(now, w) st. snd (adopt_directory E now rts w st)) ws st"

text \<open>
  The directory is never rolled back and never forged. Whatever lists are shown, in whatever order, from the
  site or from relays that lie, replay or withhold: either the relays in use are unchanged, at the
  unchanged version, or they are exactly the cleaned list of a payload the operator signed, with the key
  trusted when it was shown, at that payload's version, which is higher than before.
\<close>

theorem directory_never_rolled_back:
  assumes "\<forall>k p sg. dir_verify E k p sg \<longrightarrow> p \<in> signed_payloads"
  shows "directory_version (adopt_all E rts ws st) = directory_version st
           \<and> discovered_relays (adopt_all E rts ws st) = discovered_relays st
       \<or> (\<exists>p \<in> signed_payloads. \<exists>dir. read_directory E p = Some dir
            \<and> directory_version st < version dir \<and> directory_version (adopt_all E rts ws st) = version dir
            \<and> discovered_relays (adopt_all E rts ws st) = cleaned dir)"
proof (induction ws arbitrary: st rule: rev_induct)
  case (snoc nw ws)
  obtain now w where nw: "nw = (now, w)" by (rule prod.exhaust)
  obtain out st2 where a: "adopt_directory E now rts w (adopt_all E rts ws st) = (out, st2)" by (rule prod.exhaust)
  have end_state: "adopt_all E rts (ws @ [nw]) st = st2" using a nw by (simp add: adopt_all_def)
  from a have "directory_version st2 = directory_version (adopt_all E rts ws st)
        \<and> discovered_relays st2 = discovered_relays (adopt_all E rts ws st)
      \<or> (\<exists>p \<in> signed_payloads. \<exists>dir. read_directory E p = Some dir \<and> directory_version (adopt_all E rts ws st) < version dir
            \<and> directory_version st2 = version dir \<and> discovered_relays st2 = cleaned dir)"
    by (cases rule: adopt_cases) (use assms in blast)+
  moreover have "directory_version st \<le> directory_version (adopt_all E rts ws st)" using snoc [of st] by auto
  ultimately show ?case
  proof (elim disjE bexE exE conjE)
    assume "directory_version st2 = directory_version (adopt_all E rts ws st)"
      "discovered_relays st2 = discovered_relays (adopt_all E rts ws st)"
    then show ?thesis using snoc [of st] unfolding end_state by simp
  next
    fix p dir
    assume le: "directory_version st \<le> directory_version (adopt_all E rts ws st)"
      and lt: "directory_version (adopt_all E rts ws st) < version dir" and p: "p \<in> signed_payloads"
      "read_directory E p = Some dir" "directory_version st2 = version dir" "discovered_relays st2 = cleaned dir"
    from le_less_trans [OF le lt] p show ?thesis unfolding end_state by blast
  qed
qed (simp add: adopt_all_def)

definition toy_dir_env :: dir_env where
  "toy_dir_env = \<lparr>scheme = known_scheme, dir_verify = \<lambda>k p sg. p = [7],
     from_wire = \<lambda>w. Some \<lparr>dir_payload = w, dir_sig = w, dir_rotation = None\<rparr>,
     read_directory = \<lambda>p. Some \<lparr>version = 3, issued_at = 0, dir_relays = [''a.onion'']\<rparr>\<rparr>"

theorem directory_never_rolled_back_witness:
  "directory_version (adopt_all toy_dir_env \<lparr>root_purpose = Directory, signing = [], recovery = []\<rparr> [(5, ''x'')] (fresh_state [])) = 0
   \<or> discovered_relays (adopt_all toy_dir_env \<lparr>root_purpose = Directory, signing = [], recovery = []\<rparr> [(5, ''x'')] (fresh_state []))
      = cleaned \<lparr>version = 3, issued_at = 0, dir_relays = [''a.onion'']\<rparr>"
  using directory_never_rolled_back [of toy_dir_env "{[7]}" "\<lparr>root_purpose = Directory, signing = [], recovery = []\<rparr>"
      "[(5, ''x'')]" "fresh_state []"]
  by (simp add: toy_dir_env_def fresh_state_def) blast

end
