(* ===== verification/Conversation.thy ===== *)
theory Conversation
  imports Envelope Mailbox RelaySets
begin

text \<open>
  A conversation as the message handlers keep it: the chat of \<open>ChatState\<close> with what is known of the contact's
  side, the two timelines, the daily allowance and the receipts of queued copies (\<open>Chat\<close> and \<open>Contact\<close> in
  \<open>core/src/node.rs\<close> and \<open>api.rs\<close>), the part of the node they read and write, and the housekeeping by time of
  \<open>core/src/node/messaging.rs\<close>: \<open>mark_burn_viewed\<close>, \<open>sweep_burns\<close>, \<open>sweep_time\<close>.
\<close>

section \<open>State\<close>

record 's conv = "'s chat" +
  peer_supports_burn :: "bool option"
  remote_storage :: bool
  remote_storage_healthy :: bool
  disappearing_secs :: nat
  peer_backed_up :: bool
  peer_verified :: bool
  relay_receipts :: "(string \<times> queued_receipt list) list"
  storage_timeline :: "(nat \<times> bool) list"
  disappearing_timeline :: "(nat \<times> nat) list"
  day_allowance :: allowance
  told_captures :: "bool option"
  told_block :: "bool option"
  told_nearby_seq :: nat

record awaiting =
  aw_contact :: string
  aw_msg_id :: string
  aw_since :: nat

text \<open>
  The node. \<open>sealed_files\<close> is the media store, each id with the bytes its file opens to; \<open>open_files\<close> the names of
  the decrypted copies beside it.
\<close>

record 's messenger =
  my_id :: string
  convs :: "(string \<times> 's conv) list"
  pending_receipts :: "(string \<times> string) list"
  awaiting_receipt :: "awaiting list"
  captures_announced :: "(string \<times> bool) list"
  block_announced :: "(string \<times> bool) list"
  nearby_announced :: "(string \<times> nat) list"
  seen_frames :: "bytes list"
  media_on :: bool
  sealed_files :: "(string \<times> bytes) list"
  open_files :: "string list"
  burn_receipts :: bool
  detached_sends :: "sent_frame list"
  touched :: bool

definition get_conv :: "string \<Rightarrow> ('s, 'z) messenger_scheme \<Rightarrow> 's conv option" where
  "get_conv i n = map_of (convs n) i"

definition put_conv :: "string \<Rightarrow> 's conv \<Rightarrow> ('s, 'z) messenger_scheme \<Rightarrow> ('s, 'z) messenger_scheme" where
  "put_conv i c n = n\<lparr>convs := AList.update i c (convs n)\<rparr>"

definition push_message :: "chat_message \<Rightarrow> 's conv \<Rightarrow> 's conv" where
  "push_message m c = c\<lparr>history := history c @ [m]\<rparr>"

definition media_message :: "nat \<Rightarrow> bool \<Rightarrow> string \<Rightarrow> string \<Rightarrow> string \<Rightarrow> nat \<Rightarrow> string \<Rightarrow> string \<Rightarrow> chat_message" where
  "media_message now mine kind mime_type media bytes_n transfer thumb =
     (text_message now mine [] [])\<lparr>msg_kind := kind, mime := mime_type, media_id := media, media_size := bytes_n,
        transfer_id := transfer, thumb_id := thumb\<rparr>"

text \<open>\<open>iter_mut().find(p)\<close> and a change to what it finds.\<close>

fun update_first :: "('a \<Rightarrow> bool) \<Rightarrow> ('a \<Rightarrow> 'a) \<Rightarrow> 'a list \<Rightarrow> 'a list" where
  "update_first p f [] = []"
| "update_first p f (x # xs) = (if p x then f x # xs else x # update_first p f xs)"

definition awaiting_approval :: "('s, 'z) chat_scheme \<Rightarrow> bool" where
  "awaiting_approval c = list_ex (\<lambda>m. is_system m \<and> msg_kind m = ''await_approval'') (history c)"

definition clear_system_notices :: "string list \<Rightarrow> ('s, 'z) chat_scheme \<Rightarrow> ('s, 'z) chat_scheme" where
  "clear_system_notices kinds c =
     c\<lparr>history := filter (\<lambda>m. \<not> (is_system m \<and> msg_kind m \<in> set kinds)) (history c)\<rparr>"

definition OVER_ALLOWANCE_NOTICE :: string where
  "OVER_ALLOWANCE_NOTICE = ''This contact has sent more than Night Drop keeps in a day. Further messages from them are being dropped until tomorrow.''"

definition within_allowance :: "u64 \<Rightarrow> u64 \<Rightarrow> 's conv \<Rightarrow> bool \<times> 's conv" where
  "within_allowance now media c =
     (case admit now media (day_allowance c) of
        (Yes, a) \<Rightarrow> (True, c\<lparr>day_allowance := a\<rparr>)
      | (DropAndNotice, a) \<Rightarrow>
          (False, push_message (system_message (unat now) OVER_ALLOWANCE_NOTICE) (c\<lparr>day_allowance := a\<rparr>))
      | (DropQuietly, a) \<Rightarrow> (False, c\<lparr>day_allowance := a\<rparr>))"

section \<open>What applies to a message by its time\<close>

definition storage_on_at :: "(nat \<times> bool) list \<Rightarrow> nat \<Rightarrow> bool" where
  "storage_on_at timeline at = (case find (\<lambda>(changed, _). changed \<le> at) (rev timeline) of None \<Rightarrow> False | Some (_, on) \<Rightarrow> on)"

definition timer_at :: "(nat \<times> nat) list \<Rightarrow> nat \<Rightarrow> nat" where
  "timer_at timeline at = (case find (\<lambda>(changed, _). changed \<le> at) (rev timeline) of None \<Rightarrow> 0 | Some (_, t) \<Rightarrow> t)"

definition units :: "nat \<Rightarrow> string \<Rightarrow> string" where
  "units k one = dec k @ '' '' @ one @ (if k = 1 then [] else ''s'')"

definition disappearing_label :: "nat \<Rightarrow> string" where
  "disappearing_label t =
     (if t = 0 then ''off''
      else if t mod 604800 = 0 then units (t div 604800) ''week''
      else if t mod 86400 = 0 then units (t div 86400) ''day''
      else if t mod 3600 = 0 then units (t div 3600) ''hour''
      else if t mod 60 = 0 then units (t div 60) ''minute''
      else units t ''second'')"

section \<open>Attachments\<close>

text \<open>
  \<open>is_media_id\<close>; \<open>store_media\<close>, with the id drawn for the file, and \<open>None\<close> where sealing or writing it fails; and
  \<open>forget_media\<close>, which removes the sealed file and every decrypted copy.
\<close>

definition is_media_id :: "string \<Rightarrow> bool" where
  "is_media_id i =
     (i \<noteq> [] \<and> length i \<le> 64 \<and>
      list_all (\<lambda>c. 65 \<le> code c \<and> code c \<le> 90 \<or> is_digit c \<or> c = CHR ''-'') i)"

definition store_media :: "string option \<Rightarrow> bytes \<Rightarrow> ('s, 'z) messenger_scheme \<Rightarrow> string option \<times> ('s, 'z) messenger_scheme" where
  "store_media drawn data n =
     (if \<not> media_on n then (None, n)
      else (case drawn of None \<Rightarrow> (None, n)
            | Some i \<Rightarrow> (Some i, n\<lparr>sealed_files := AList.update i data (sealed_files n)\<rparr>)))"

definition forget_media :: "string \<Rightarrow> ('s, 'z) messenger_scheme \<Rightarrow> ('s, 'z) messenger_scheme" where
  "forget_media i n =
     (if \<not> is_media_id i \<or> \<not> media_on n then n
      else n\<lparr>sealed_files := AList.delete i (sealed_files n),
             open_files := filter (\<lambda>f. \<not> prefix (i @ ''.'') f) (open_files n)\<rparr>)"

definition message_files :: "chat_message \<Rightarrow> string list" where
  "message_files m = filter (\<lambda>i. i \<noteq> []) [media_id m, thumb_id m]"

section \<open>Burn messages\<close>

definition burn_lapsed :: "nat \<Rightarrow> chat_message \<Rightarrow> bool" where
  "burn_lapsed now m =
     (0 < burn_secs m \<and> sent_at m \<noteq> 0 \<and> \<not> from_me m \<and> viewed_at m = 0 \<and> RELAY_TTL \<le> now - sent_at m)"

definition burn_done :: "nat \<Rightarrow> chat_message \<Rightarrow> bool" where
  "burn_done now m =
     (burn_secs m \<noteq> 0 \<and> sent_at m \<noteq> 0 \<and>
      (if viewed_at m \<noteq> 0 then burn_secs m \<le> now - viewed_at m else RELAY_TTL \<le> now - sent_at m))"

text \<open>One chat: the chat, the files to forget, whether anything changed.\<close>

definition burn_sweep_chat :: "nat \<Rightarrow> 's conv \<Rightarrow> 's conv \<times> string list \<times> bool" where
  "burn_sweep_chat now c =
     (let lapsed = filter (burn_lapsed now) (history c);
          marked = map (\<lambda>m. if burn_lapsed now m then make_burn_tombstone m else m) (history c);
          stay = filter (\<lambda>m. \<not> burn_done now m) marked
      in (c\<lparr>history := stay\<rparr>,
          concat (map message_files lapsed) @ concat (map message_files (filter (burn_done now) marked)),
          lapsed \<noteq> [] \<or> length stay \<noteq> length marked))"

definition sweep_burns :: "nat \<Rightarrow> ('s, 'z) messenger_scheme \<Rightarrow> bool \<times> ('s, 'z) messenger_scheme" where
  "sweep_burns now n =
     (let swept = map (\<lambda>(i, c). (i, burn_sweep_chat now c)) (convs n);
          dead = concat (map (\<lambda>(i, c, d, _). d) swept);
          changed = list_ex (\<lambda>(i, c, d, ch). ch) swept
      in (changed,
          (fold forget_media dead (n\<lparr>convs := map (\<lambda>(i, c, _). (i, c)) swept\<rparr>))\<lparr>touched := touched n \<or> changed\<rparr>))"

text \<open>
  \<open>mark_burn_viewed\<close>: the clock starts once, at the moment the UI showed the message (0: now, rounded up), and an
  opted-in receipt naming it is sealed and left for the caller to send.
\<close>

definition burn_named :: "string \<Rightarrow> chat_message \<Rightarrow> bool" where
  "burn_named i m =
     (0 < burn_secs m \<and> \<not> from_me m \<and>
      (message_id m \<noteq> [] \<and> message_id m = i \<or> transfer_id m \<noteq> [] \<and> transfer_id m = i))"

definition send_burn_receipt :: "('s, 'r) ratchet_scheme \<Rightarrow> string \<Rightarrow> string \<Rightarrow> ('s, 'z) messenger_scheme \<Rightarrow> ('s, 'z) messenger_scheme" where
  "send_burn_receipt R contact target n =
     (case get_conv contact n of None \<Rightarrow> n
      | Some c \<Rightarrow>
          (case seal_olm R (session c) (text_bytes target) of None \<Rightarrow> n
           | Some (m, ses) \<Rightarrow>
               (put_conv contact (c\<lparr>session := ses\<rparr>) n)
                 \<lparr>detached_sends := detached_sends n
                    @ [\<lparr>to_addr = peer_address c, to_contact = contact, sent = Viewed (my_id n) m\<rparr>]\<rparr>))"

definition mark_burn_viewed ::
  "('s, 'r) ratchet_scheme \<Rightarrow> nat \<Rightarrow> string \<Rightarrow> string \<Rightarrow> nat \<Rightarrow> ('s, 'z) messenger_scheme \<Rightarrow> bool \<times> ('s, 'z) messenger_scheme" where
  "mark_burn_viewed R now_ceil contact i shown n =
     (case get_conv contact n of None \<Rightarrow> (False, n)
      | Some c \<Rightarrow>
          (case find (burn_named i) (history c) of None \<Rightarrow> (False, n)
           | Some m \<Rightarrow>
               if viewed_at m \<noteq> 0 then (False, n)
               else (let at = (if shown = 0 then now_ceil else min shown now_ceil);
                         target = (if message_id m = [] then transfer_id m else message_id m);
                         n = (put_conv contact
                                (c\<lparr>history := update_first (burn_named i) (\<lambda>m. m\<lparr>viewed_at := at\<rparr>) (history c)\<rparr>) n)
                               \<lparr>touched := True\<rparr>
                     in (True, if burn_receipts n \<and> target \<noteq> [] then send_burn_receipt R contact target n else n))))"

section \<open>Housekeeping by time\<close>

definition queue_lapsed :: "nat \<Rightarrow> chat_message \<Rightarrow> bool" where
  "queue_lapsed now m = (from_me m \<and> delivery m = ''queued'' \<and> sent_at m \<noteq> 0 \<and> RELAY_TTL < now - sent_at m)"

definition time_expired :: "nat \<Rightarrow> (nat \<times> bool) list \<Rightarrow> (nat \<times> nat) list \<Rightarrow> chat_message \<Rightarrow> bool" where
  "time_expired now storage timeline m =
     (let age = now - sent_at m;
          (bombed, timer) = (if is_system m then (False, 0)
                             else (storage_on_at storage (sent_at m), timer_at timeline (sent_at m)))
      in sent_at m \<noteq> 0 \<and> (bombed \<and> RELAY_TTL < age \<or> 0 < timer \<and> timer < age))"

definition time_sweep_chat :: "nat \<Rightarrow> 's conv \<Rightarrow> 's conv \<times> string list \<times> bool" where
  "time_sweep_chat now c =
     (let lapsed = filter (queue_lapsed now) (history c);
          c1 = c\<lparr>history := map (\<lambda>m. if queue_lapsed now m then m\<lparr>delivery := ''expired''\<rparr> else m) (history c),
                 relay_receipts := fold (\<lambda>m. AList.delete (message_id m)) lapsed (relay_receipts c)\<rparr>;
          gone = time_expired now (storage_timeline c) (disappearing_timeline c)
      in if storage_timeline c \<noteq> [] \<or> disappearing_timeline c \<noteq> []
         then (c1\<lparr>history := filter (\<lambda>m. \<not> gone m) (history c1)\<rparr>,
               concat (map message_files (filter gone (history c1))),
               lapsed \<noteq> [] \<or> list_ex gone (history c1))
         else (c1, [], lapsed \<noteq> []))"

definition sweep_time :: "nat \<Rightarrow> ('s, 'z) messenger_scheme \<Rightarrow> ('s, 'z) messenger_scheme" where
  "sweep_time now n =
     (let n = snd (sweep_burns now n);
          swept = map (\<lambda>(i, c). (i, time_sweep_chat now c)) (convs n);
          dead = concat (map (\<lambda>(i, c, d, _). d) swept);
          changed = list_ex (\<lambda>(i, c, d, ch). ch) swept
      in (fold forget_media dead (n\<lparr>convs := map (\<lambda>(i, c, _). (i, c)) swept\<rparr>))\<lparr>touched := touched n \<or> changed\<rparr>)"

section \<open>Lookups\<close>

lemma get_put_conv [simp]: "get_conv j (put_conv i c n) = (if j = i then Some c else get_conv j n)"
  by (simp add: get_conv_def put_conv_def update_conv)

lemma put_conv_simps [simp]:
  "my_id (put_conv i c n) = my_id n" "pending_receipts (put_conv i c n) = pending_receipts n"
  "awaiting_receipt (put_conv i c n) = awaiting_receipt n" "sealed_files (put_conv i c n) = sealed_files n"
  "open_files (put_conv i c n) = open_files n" "seen_frames (put_conv i c n) = seen_frames n"
  "media_on (put_conv i c n) = media_on n" "burn_receipts (put_conv i c n) = burn_receipts n"
  "detached_sends (put_conv i c n) = detached_sends n"
  by (simp_all add: put_conv_def)

lemma get_conv_cong [simp]:
  "get_conv i (n\<lparr>pending_receipts := a\<rparr>) = get_conv i n" "get_conv i (n\<lparr>awaiting_receipt := b\<rparr>) = get_conv i n"
  "get_conv i (n\<lparr>touched := t\<rparr>) = get_conv i n" "get_conv i (n\<lparr>sealed_files := fs\<rparr>) = get_conv i n"
  "get_conv i (n\<lparr>seen_frames := sf\<rparr>) = get_conv i n" "get_conv i (n\<lparr>captures_announced := ca\<rparr>) = get_conv i n"
  "get_conv i (n\<lparr>block_announced := ba\<rparr>) = get_conv i n" "get_conv i (n\<lparr>nearby_announced := na\<rparr>) = get_conv i n"
  "get_conv i (n\<lparr>detached_sends := ds\<rparr>) = get_conv i n"
  by (simp_all add: get_conv_def)

section \<open>Forgetting files\<close>

lemma forget_media_keeps [simp]:
  "convs (forget_media i n) = convs n" "media_on (forget_media i n) = media_on n" "touched (forget_media i n) = touched n"
  by (simp_all add: forget_media_def)

lemma fold_forget_keeps [simp]:
  "convs (fold forget_media ids n) = convs n" "media_on (fold forget_media ids n) = media_on n"
  by (induction ids arbitrary: n) simp_all

definition dead_file :: "string list \<Rightarrow> string \<Rightarrow> bool" where
  "dead_file ids i = (i \<in> set ids \<and> is_media_id i)"

lemma delete_filter: "AList.delete k m = filter (\<lambda>kv. fst kv \<noteq> k) m"
  unfolding AList.delete_eq by (rule filter_cong) auto

lemma sealed_after_forget:
  "media_on n \<Longrightarrow> sealed_files (fold forget_media ids n) = filter (\<lambda>kv. \<not> dead_file ids (fst kv)) (sealed_files n)"
proof (induction ids arbitrary: n)
  case (Cons i ids)
  then show ?case
    by (auto simp: dead_file_def forget_media_def delete_filter intro!: filter_cong)
qed (simp add: dead_file_def)

lemma open_after_forget:
  "media_on n \<Longrightarrow> open_files (fold forget_media ids n) = filter (\<lambda>f. \<not> (\<exists>i. dead_file ids i \<and> prefix (i @ ''.'') f)) (open_files n)"
proof (induction ids arbitrary: n)
  case (Cons i ids)
  then show ?case
    by (auto simp: dead_file_def forget_media_def intro!: filter_cong)
qed (simp add: dead_file_def)

lemma forget_nothing_off: "\<not> media_on n \<Longrightarrow> fold forget_media ids n = n"
  by (induction ids) (simp_all add: forget_media_def)

section \<open>Burn messages end\<close>

definition burn_keep :: "nat \<Rightarrow> chat_message \<Rightarrow> chat_message list" where
  "burn_keep now m =
     (if burn_lapsed now m then [make_burn_tombstone m] else if burn_done now m then [] else [m])"

definition burn_over :: "nat \<Rightarrow> chat_message \<Rightarrow> bool" where
  "burn_over now m = (burn_lapsed now m \<or> burn_done now m)"

lemma tombstone_quiet [simp]: "\<not> burn_lapsed t (make_burn_tombstone m)" "\<not> burn_done t (make_burn_tombstone m)"
  by (simp_all add: burn_lapsed_def burn_done_def make_burn_tombstone_def)

lemma burn_lapsed_done: "burn_lapsed now m \<Longrightarrow> burn_done now m"
  by (simp add: burn_lapsed_def burn_done_def)

lemma burn_sweep_history: "history (fst (burn_sweep_chat now c)) = concat (map (burn_keep now) (history c))"
proof -
  have "filter (\<lambda>m. \<not> burn_done now m) (map (\<lambda>m. if burn_lapsed now m then make_burn_tombstone m else m) h)
      = concat (map (burn_keep now) h)" for h
    by (induction h) (auto simp: burn_keep_def)
  then show ?thesis by (simp add: burn_sweep_chat_def Let_def)
qed

lemma burn_sweep_chat_eq: "fst (burn_sweep_chat now c) = c\<lparr>history := concat (map (burn_keep now) (history c))\<rparr>"
  using burn_sweep_history [of now c] by (simp add: burn_sweep_chat_def Let_def)

lemma burn_sweep_dead:
  "set (fst (snd (burn_sweep_chat now c))) = (\<Union>m \<in> set (filter (burn_done now) (history c)). set (message_files m))"
  by (auto simp: burn_sweep_chat_def Let_def burn_lapsed_done split: if_splits)

lemma burn_keep_later:
  assumes "s \<le> t"
  shows "concat (map (burn_keep t) (burn_keep s m)) = burn_keep t m"
proof -
  have "burn_done s m \<Longrightarrow> burn_done t m" "burn_lapsed s m \<Longrightarrow> burn_lapsed t m"
    "burn_lapsed t m \<Longrightarrow> burn_done s m \<Longrightarrow> burn_lapsed s m"
    using assms by (auto simp: burn_done_def burn_lapsed_def split: if_splits)
  then show ?thesis by (auto simp: burn_keep_def)
qed

lemma burn_sweep_later:
  "s \<le> t \<Longrightarrow> fst (burn_sweep_chat t (fst (burn_sweep_chat s c))) = fst (burn_sweep_chat t c)"
proof -
  assume st: "s \<le> t"
  have "concat (map (burn_keep t) (concat (map (burn_keep s) h))) = concat (map (burn_keep t) h)" for h
    by (induction h) (simp_all add: burn_keep_later [OF st])
  then show ?thesis by (simp add: burn_sweep_chat_eq)
qed

definition burn_dead :: "nat \<Rightarrow> ('s, 'z) messenger_scheme \<Rightarrow> string \<Rightarrow> bool" where
  "burn_dead now n f \<longleftrightarrow>
     is_media_id f \<and> list_ex (\<lambda>kc. list_ex (\<lambda>m. burn_done now m \<and> f \<in> set (message_files m)) (history (snd kc))) (convs n)"

lemma sweep_burns_convs: "convs (snd (sweep_burns now n)) = map (\<lambda>(i, c). (i, fst (burn_sweep_chat now c))) (convs n)"
  by (simp add: sweep_burns_def Let_def case_prod_unfold)

lemma sweep_burns_media_on [simp]: "media_on (snd (sweep_burns now n)) = media_on n"
  by (simp add: sweep_burns_def Let_def case_prod_unfold)

lemma sweep_burns_dead:
  "dead_file (concat (map (\<lambda>(i, c, d, _). d) (map (\<lambda>(i, c). (i, burn_sweep_chat now c)) (convs n)))) f \<longleftrightarrow> burn_dead now n f"
  using burn_sweep_dead by (fastforce simp: dead_file_def burn_dead_def case_prod_unfold list_ex_iff)

lemma sweep_burns_files:
  assumes "media_on n"
  shows "sealed_files (snd (sweep_burns now n)) = filter (\<lambda>kv. \<not> burn_dead now n (fst kv)) (sealed_files n)"
    and "open_files (snd (sweep_burns now n)) = filter (\<lambda>f. \<not> (\<exists>i. burn_dead now n i \<and> prefix (i @ ''.'') f)) (open_files n)"
  using assms by (simp_all del: map_map add: sweep_burns_def Let_def sealed_after_forget open_after_forget sweep_burns_dead)

lemma sweep_burns_off: "\<not> media_on n \<Longrightarrow> sealed_files (snd (sweep_burns now n)) = sealed_files n \<and> open_files (snd (sweep_burns now n)) = open_files n"
  by (simp add: sweep_burns_def Let_def forget_nothing_off)

lemma get_conv_sweep_burns: "get_conv i (snd (sweep_burns now n)) = map_option (\<lambda>c. fst (burn_sweep_chat now c)) (get_conv i n)"
  by (simp add: get_conv_def sweep_burns_convs map_of_map)

section \<open>Properties\<close>

definition burn_deadline :: "chat_message \<Rightarrow> nat" where
  "burn_deadline m = (if viewed_at m = 0 then sent_at m + RELAY_TTL else viewed_at m + burn_secs m)"

lemma burn_done_deadline: "burn_done now m \<longleftrightarrow> 0 < burn_secs m \<and> sent_at m \<noteq> 0 \<and> burn_deadline m \<le> now"
  by (auto simp: burn_done_def burn_deadline_def RELAY_TTL_def)

lemma burn_keep_member: "x \<in> set (burn_keep now m) \<Longrightarrow> \<not> burn_done now x"
  by (auto simp: burn_keep_def split: if_splits)

text \<open>
  C26. A burn message ends on time: once a sweep has run at or after its deadline, which is its timer after it was
  first shown or else a day after it was sent or came, the chat no longer holds it, nor any burn message past its
  own deadline, and neither a sealed file nor a decrypted copy of its attachment is left.
\<close>

theorem burn_gone_on_time:
  assumes "get_conv i n = Some c" and "m \<in> set (history c)" and "0 < burn_secs m" and "sent_at m \<noteq> 0"
    and "burn_deadline m \<le> now" and "media_on n"
  shows "\<exists>c'. get_conv i (snd (sweep_burns now n)) = Some c'
       \<and> m \<notin> set (history c')
       \<and> list_all (\<lambda>x. burn_secs x = 0 \<or> sent_at x = 0 \<or> now < burn_deadline x) (history c')
       \<and> list_all (\<lambda>f. is_media_id f \<longrightarrow> f \<notin> fst ` set (sealed_files (snd (sweep_burns now n)))
            \<and> list_all (\<lambda>g. \<not> prefix (f @ ''.'') g) (open_files (snd (sweep_burns now n)))) (message_files m)"
proof -
  have over: "burn_done now m" using assms by (simp add: burn_done_deadline)
  have "(i, c) \<in> set (convs n)" using assms(1) by (simp add: get_conv_def map_of_SomeD)
  then have dead: "burn_dead now n f" if "is_media_id f" "f \<in> set (message_files m)" for f
    using assms(2) over that unfolding burn_dead_def list_ex_iff by force
  let ?c = "fst (burn_sweep_chat now c)"
  have gone: "\<not> burn_done now x" if "x \<in> set (history ?c)" for x
    using that burn_keep_member by (auto simp: burn_sweep_history)
  then have "m \<notin> set (history ?c)" using over by blast
  moreover have "list_all (\<lambda>x. burn_secs x = 0 \<or> sent_at x = 0 \<or> now < burn_deadline x) (history ?c)"
    unfolding list_all_iff using gone burn_done_deadline by (metis neq0_conv not_le)
  ultimately show ?thesis
    using assms(1) dead by (auto simp: get_conv_sweep_burns sweep_burns_files [OF assms(6)] list_all_iff)
qed

text \<open>
  How often the sweep runs does not matter: whatever sweeps ran at earlier times, one at \<open>now\<close> leaves the chats,
  the sealed files and the decrypted copies that it alone would have left.
\<close>

lemma sweep_burns_later:
  assumes "s \<le> t"
  shows "convs (snd (sweep_burns t (snd (sweep_burns s n)))) = convs (snd (sweep_burns t n))
       \<and> sealed_files (snd (sweep_burns t (snd (sweep_burns s n)))) = sealed_files (snd (sweep_burns t n))
       \<and> open_files (snd (sweep_burns t (snd (sweep_burns s n)))) = open_files (snd (sweep_burns t n))"
proof -
  have mono: "burn_done s m \<Longrightarrow> burn_done t m" for m using assms by (simp add: burn_done_deadline)
  let ?in = "\<lambda>t f m. burn_done t m \<and> f \<in> set (message_files m)"
  have "list_ex (?in t f) (burn_keep s m) \<or> ?in s f m \<longleftrightarrow> ?in t f m" for m f
    using mono [of m] burn_lapsed_done [of s m] by (auto simp: burn_keep_def)
  then have "list_ex (?in t f) (concat (map (burn_keep s) h)) \<or> list_ex (?in s f) h \<longleftrightarrow> list_ex (?in t f) h" for f h
    by (induction h) (simp, force)
  then have "list_ex (\<lambda>kc. list_ex (?in t f) (history (snd kc))) (map (\<lambda>(i, c). (i, fst (burn_sweep_chat s c))) xs)
      \<or> list_ex (\<lambda>kc. list_ex (?in s f) (history (snd kc))) xs \<longleftrightarrow> list_ex (\<lambda>kc. list_ex (?in t f) (history (snd kc))) xs"
    for f and xs :: "(string \<times> 'a conv) list"
    by (induction xs) (simp, force simp: burn_sweep_history case_prod_unfold)
  then have dead: "burn_dead t (snd (sweep_burns s n)) f \<or> burn_dead s n f \<longleftrightarrow> burn_dead t n f" for f
    unfolding burn_dead_def sweep_burns_convs by blast
  have "convs (snd (sweep_burns t (snd (sweep_burns s n)))) = convs (snd (sweep_burns t n))"
    by (simp add: sweep_burns_convs burn_sweep_later [OF assms] case_prod_unfold)
  moreover have "sealed_files (snd (sweep_burns t (snd (sweep_burns s n)))) = sealed_files (snd (sweep_burns t n))
      \<and> open_files (snd (sweep_burns t (snd (sweep_burns s n)))) = open_files (snd (sweep_burns t n))"
  proof (cases "media_on n")
    case True
    then show ?thesis using dead by (auto simp: sweep_burns_files intro!: filter_cong)
  qed (simp add: sweep_burns_off)
  ultimately show ?thesis by simp
qed

theorem burn_sweep_cadence:
  assumes "list_all (\<lambda>t. t \<le> now) ts"
  shows "convs (snd (sweep_burns now (fold (\<lambda>t n. snd (sweep_burns t n)) ts n))) = convs (snd (sweep_burns now n))
       \<and> sealed_files (snd (sweep_burns now (fold (\<lambda>t n. snd (sweep_burns t n)) ts n))) = sealed_files (snd (sweep_burns now n))
       \<and> open_files (snd (sweep_burns now (fold (\<lambda>t n. snd (sweep_burns t n)) ts n))) = open_files (snd (sweep_burns now n))"
  using assms
proof (induction ts arbitrary: n)
  case (Cons t ts)
  then show ?case using sweep_burns_later [of t now n] by simp
qed simp

text \<open>A change of a timeline reaches no message stamped before it, and every later one.\<close>

lemma timer_at_snoc: "timer_at (ks @ [(t, k)]) at = (if t \<le> at then k else timer_at ks at)"
  by (simp add: timer_at_def)

lemma storage_on_at_snoc: "storage_on_at (ks @ [(t, on)]) at = (if t \<le> at then on else storage_on_at ks at)"
  by (simp add: storage_on_at_def)

lemma timeline_forward_only:
  "sent_at m < t \<Longrightarrow> time_expired now (st @ [(t, on)]) (ks @ [(t, k)]) m = time_expired now st ks m"
  by (simp add: time_expired_def timer_at_snoc storage_on_at_snoc)

text \<open>The clock of a revealed message starts once, at a moment not after the reveal is handled.\<close>

lemma update_first_find:
  "find p xs = Some x \<Longrightarrow> p (f x) \<Longrightarrow> find p (update_first p f xs) = Some (f x)"
  by (induction xs) (auto split: if_splits)

lemma burn_clock_starts_once:
  assumes "mark_burn_viewed R t1 who i shown1 n = (True, n1)" and "0 < t1"
  shows "mark_burn_viewed R t2 who i shown2 n1 = (False, n1)"
proof -
  let ?at = "if shown1 = 0 then t1 else min shown1 t1"
  from assms obtain c m where c: "get_conv who n = Some c" and m: "find (burn_named i) (history c) = Some m"
    and fresh: "viewed_at m = 0"
    by (auto simp: mark_burn_viewed_def Let_def split: option.splits if_splits)
  let ?h = "update_first (burn_named i) (\<lambda>m. m\<lparr>viewed_at := ?at\<rparr>) (history c)"
  have "burn_named i m" using m by (metis find_Some_iff)
  then have "find (burn_named i) ?h = Some (m\<lparr>viewed_at := ?at\<rparr>)"
    by (intro update_first_find [OF m]) (simp add: burn_named_def)
  moreover have "\<exists>ses. get_conv who n1 = Some (c\<lparr>history := ?h, session := ses\<rparr>) \<or> get_conv who n1 = Some (c\<lparr>history := ?h\<rparr>)"
    using assms(1) c m fresh
    by (auto simp: mark_burn_viewed_def send_burn_receipt_def Let_def split: option.splits if_splits)
  ultimately show ?thesis using assms(2) by (auto simp: mark_burn_viewed_def)
qed

section \<open>A concrete state\<close>

definition sample_chat :: "nat conv" where
  "sample_chat =
     \<lparr>peer_app_version = None, peer_address = ''bob.onion'', session = 1,
      history = [(text_message 50 True ''hello'' ''a1'')\<lparr>delivery := ''sent''\<rparr>, text_message 60 False ''old'' ''b1''],
      last_seen = None, authorized = True, closed = False, mailbox = None, peer_wire_old = False, told_upgrade = False,
      alive_count = 0, peer_supports_burn = None, remote_storage = False, remote_storage_healthy = True,
      disappearing_secs = 0, peer_backed_up = False, peer_verified = False, relay_receipts = [], storage_timeline = [],
      disappearing_timeline = [], day_allowance = default_allowance, told_captures = None, told_block = None,
      told_nearby_seq = 0\<rparr>"

definition sample_messenger :: "nat messenger" where
  "sample_messenger =
     \<lparr>my_id = ''me'', convs = [(''bob'', sample_chat), (''eve'', sample_chat)], pending_receipts = [],
      awaiting_receipt = [\<lparr>aw_contact = ''bob'', aw_msg_id = ''a1'', aw_since = 50\<rparr>], captures_announced = [],
      block_announced = [], nearby_announced = [], seen_frames = [], media_on = True, sealed_files = [], open_files = [],
      burn_receipts = False, detached_sends = [], touched = False\<rparr>"

definition shown_photo :: chat_message where
  "shown_photo = (media_message 60 False ''image'' ''image/jpeg'' ''FILE-1'' 3 ''t1'' [])\<lparr>burn_secs := 30, viewed_at := 100\<rparr>"

definition photo_messenger :: "nat messenger" where
  "photo_messenger = (put_conv ''bob'' (push_message shown_photo sample_chat) sample_messenger)
     \<lparr>sealed_files := [(''FILE-1'', [1, 2, 3]), (''FILE-2'', [4])], open_files := [''FILE-1.jpg'']\<rparr>"

theorem burn_gone_on_time_witness:
  "\<exists>c'. get_conv ''bob'' (snd (sweep_burns 130 photo_messenger)) = Some c' \<and> shown_photo \<notin> set (history c')
     \<and> ''FILE-1'' \<notin> fst ` set (sealed_files (snd (sweep_burns 130 photo_messenger)))
     \<and> \<not> list_ex (prefix ''FILE-1.'') (open_files (snd (sweep_burns 130 photo_messenger)))"
proof -
  have "get_conv ''bob'' photo_messenger = Some (push_message shown_photo sample_chat)"
    by (simp add: photo_messenger_def get_conv_def put_conv_def sample_messenger_def)
  moreover have "shown_photo \<in> set (history (push_message shown_photo sample_chat))" by (simp add: push_message_def)
  moreover have "0 < burn_secs shown_photo" "sent_at shown_photo \<noteq> 0" "burn_deadline shown_photo \<le> 130"
    by (simp_all add: shown_photo_def media_message_def text_message_def burn_deadline_def)
  moreover have "media_on photo_messenger" by (simp add: photo_messenger_def sample_messenger_def)
  moreover have "message_files shown_photo = [''FILE-1'']" "is_media_id ''FILE-1''"
    by (simp_all add: message_files_def shown_photo_def media_message_def text_message_def is_media_id_def is_digit_def code_def)
  ultimately show ?thesis
    using burn_gone_on_time [of "''bob''" photo_messenger _ shown_photo 130] by (auto simp: list_ex_iff list_all_iff)
qed

theorem burn_sweep_cadence_witness:
  "convs (snd (sweep_burns 130 (fold (\<lambda>t n. snd (sweep_burns t n)) [90, 120, 130] photo_messenger)))
   = convs (snd (sweep_burns 130 photo_messenger))"
  using burn_sweep_cadence [of 130 "[90, 120, 130]" photo_messenger] by simp

end
