(* ===== verification/Inbox.thy ===== *)
theory Inbox
  imports Conversation
begin

text \<open>
  Frames from contacts that carry or settle messages, and the signals about a chat:
  \<open>core/src/node/frames.rs\<close> (\<open>process_frame\<close> with its branches for them) and \<open>verify_control\<close> of \<open>core/src/node.rs\<close>.
  The clock is read once for a frame. Handshakes, mailbox and relay announcements, addresses, keys and names have
  their own handlers; \<open>process_frame\<close> is \<open>None\<close> on them.
\<close>

section \<open>What handlers share\<close>

definition EDIT_WINDOW :: nat where
  "EDIT_WINDOW = 15 * 60"

definition MAX_THUMB_BYTES :: nat where
  "MAX_THUMB_BYTES = 256 * 1024"

definition MARK_CLOSED :: bytes where "MARK_CLOSED = text_bytes ''nightdrop/ctl/closed/v1''"
definition MARK_ACK :: bytes where "MARK_ACK = text_bytes ''nightdrop/ctl/ack/v1''"
definition MARK_BACKEDUP :: bytes where "MARK_BACKEDUP = text_bytes ''nightdrop/ctl/backedup/v1''"
definition MARK_SCREENSHOT :: bytes where "MARK_SCREENSHOT = text_bytes ''nightdrop/ctl/screenshot/v1''"
definition MARK_RECORDING :: bytes where "MARK_RECORDING = text_bytes ''nightdrop/ctl/recording/v1''"
definition MARK_CAPTURE_OVERRIDE_ON :: bytes where
  "MARK_CAPTURE_OVERRIDE_ON = text_bytes ''nightdrop/ctl/capture-override-on/v1''"
definition MARK_CAPTURE_OVERRIDE_OFF :: bytes where
  "MARK_CAPTURE_OVERRIDE_OFF = text_bytes ''nightdrop/ctl/capture-override-off/v1''"
definition MARK_VERIFIED :: bytes where "MARK_VERIFIED = text_bytes ''nightdrop/ctl/verified/v1''"
definition MARK_UNVERIFIED :: bytes where "MARK_UNVERIFIED = text_bytes ''nightdrop/ctl/unverified/v1''"
definition MARK_BURNS_V1 :: bytes where "MARK_BURNS_V1 = text_bytes ''nightdrop/ctl/burns/v1''"
definition MARK_VERSION_PREFIX :: bytes where "MARK_VERSION_PREFIX = text_bytes ''nightdrop/ctl/version/v1:''"

text \<open>
  The session library: beside sealing and opening, whether a frame's body is an Olm message at all (\<open>to_olm\<close>), and
  whether a session has received anything. An opening that fails leaves the session as it was.
\<close>

record 's olm = "'s ratchet" +
  parses_olm :: "wire_olm \<Rightarrow> bool"
  received_any :: "'s \<Rightarrow> bool"

definition opened :: "'s olm \<Rightarrow> 's \<Rightarrow> wire_olm \<Rightarrow> (bytes \<times> 's) option" where
  "opened R ses m = (if parses_olm R m then open_olm R ses m else None)"

datatype frame_error = BadOlm | NotOpened | BadEnvelope | NotStored

text \<open>What a handler returns: an error, nothing to report, or the chat to refresh with a text for the notification.\<close>

type_synonym report = "frame_error + (string \<times> string) option"

definition kept_chat :: "report \<Rightarrow> string \<Rightarrow> 's conv \<Rightarrow> ('s, 'z) messenger_scheme \<Rightarrow> report \<times> ('s, 'z) messenger_scheme" where
  "kept_chat r sender c n = (r, put_conv sender c n)"

text \<open>Frames taken only from an approved contact; one that cannot be opened is an error.\<close>

definition from_approved ::
  "'s olm \<Rightarrow> string \<Rightarrow> wire_olm \<Rightarrow> ('s conv \<Rightarrow> bytes \<Rightarrow> report \<times> ('s, 'z) messenger_scheme) \<Rightarrow> ('s, 'z) messenger_scheme
   \<Rightarrow> report \<times> ('s, 'z) messenger_scheme" where
  "from_approved R sender m k n =
     (if \<not> parses_olm R m then (Inl BadOlm, n)
      else (case get_conv sender n of None \<Rightarrow> (Inr None, n)
            | Some c \<Rightarrow>
                if \<not> authorized c then (Inr None, n)
                else (case open_olm R (session c) m of None \<Rightarrow> (Inl NotOpened, n)
                      | Some (pt, ses) \<Rightarrow> k (c\<lparr>session := ses\<rparr>) pt)))"

text \<open>Signals: one that cannot be opened is ignored.\<close>

definition signal ::
  "'s olm \<Rightarrow> string \<Rightarrow> wire_olm \<Rightarrow> ('s conv \<Rightarrow> bytes \<Rightarrow> report \<times> ('s, 'z) messenger_scheme) \<Rightarrow> ('s, 'z) messenger_scheme
   \<Rightarrow> report \<times> ('s, 'z) messenger_scheme" where
  "signal R sender m k n =
     (case get_conv sender n of None \<Rightarrow> (Inr None, n)
      | Some c \<Rightarrow> (case opened R (session c) m of None \<Rightarrow> (Inr None, n) | Some (pt, ses) \<Rightarrow> k (c\<lparr>session := ses\<rparr>) pt))"

text \<open>\<open>verify_control\<close>: opened and exactly the marker; then it is proof of life.\<close>

definition verify_control ::
  "'s olm \<Rightarrow> u64 \<Rightarrow> string \<Rightarrow> wire_olm \<Rightarrow> bytes \<Rightarrow> ('s conv \<Rightarrow> report \<times> ('s, 'z) messenger_scheme) \<Rightarrow> ('s, 'z) messenger_scheme
   \<Rightarrow> report \<times> ('s, 'z) messenger_scheme" where
  "verify_control R now sender m marker k n =
     signal R sender m
       (\<lambda>c pt. if pt = marker then k (mark_alive now c) else kept_chat (Inr None) sender c n) n"

definition owe_receipt :: "string \<Rightarrow> string \<Rightarrow> ('s, 'z) messenger_scheme \<Rightarrow> ('s, 'z) messenger_scheme" where
  "owe_receipt sender i n = n\<lparr>pending_receipts := pending_receipts n @ [(sender, i)]\<rparr>"

section \<open>Texts\<close>

definition already_shown :: "string \<Rightarrow> chat_message list \<Rightarrow> bool" where
  "already_shown i h = (i \<noteq> [] \<and> list_ex (\<lambda>m. \<not> from_me m \<and> message_id m = i \<and> \<not> is_system m) h)"

text \<open>An opened text, plain or burn: a duplicate and one over the allowance are receipted and not shown.\<close>

definition take_text ::
  "u64 \<Rightarrow> string \<Rightarrow> string \<Rightarrow> chat_message \<Rightarrow> string \<Rightarrow> 's conv \<Rightarrow> ('s, 'z) messenger_scheme \<Rightarrow> report \<times> ('s, 'z) messenger_scheme" where
  "take_text now sender i msg preview c n =
     (let n = owe_receipt sender i n
      in if already_shown i (history c) then kept_chat (Inr None) sender c n
         else (let (fits, c) = within_allowance now 0 c
               in if \<not> fits then kept_chat (Inr None) sender c n
                  else kept_chat (Inr (Some (sender, preview))) sender
                         (clear_system_notices [''await_approval'', ''approved''] (push_message msg c)) n))"

definition on_message :: "'s olm \<Rightarrow> u64 \<Rightarrow> string \<Rightarrow> string \<Rightarrow> wire_olm \<Rightarrow> ('s, 'z) messenger_scheme \<Rightarrow> report \<times> ('s, 'z) messenger_scheme" where
  "on_message R now sender i m n =
     (if \<not> sane_id i then (Inr None, n)
      else from_approved R sender m
             (\<lambda>c pt. let txt = clamp_text (from_utf8_lossy pt)
                     in take_text now sender i (text_message (unat now) False txt i) txt (mark_alive now c) n) n)"

definition on_burn :: "'s olm \<Rightarrow> u64 \<Rightarrow> string \<Rightarrow> string \<Rightarrow> wire_olm \<Rightarrow> ('s, 'z) messenger_scheme \<Rightarrow> report \<times> ('s, 'z) messenger_scheme" where
  "on_burn R now sender i m n =
     (if \<not> sane_id i then (Inr None, n)
      else from_approved R sender m
             (\<lambda>c pt. let c = mark_alive now c
                     in case unpack_burn pt of
                          None \<Rightarrow> kept_chat (Inl BadEnvelope) sender c n
                        | Some (timer, txt) \<Rightarrow>
                            if timer = 0 then kept_chat (Inr None) sender c n
                            else take_text now sender i ((text_message (unat now) False txt i)\<lparr>burn_secs := timer\<rparr>) [] c n) n)"

text \<open>What an edit or an unsend may name: the contact's own text of the last quarter of an hour.\<close>

definition open_to_change :: "nat \<Rightarrow> string \<Rightarrow> chat_message \<Rightarrow> bool" where
  "open_to_change now target m =
     (\<not> from_me m \<and> \<not> is_system m \<and> msg_kind m = ''text'' \<and> message_id m \<noteq> [] \<and> message_id m = target
      \<and> sent_at m \<noteq> 0 \<and> now - sent_at m \<le> EDIT_WINDOW)"

definition change_message ::
  "nat \<Rightarrow> string \<Rightarrow> string \<Rightarrow> (chat_message \<Rightarrow> chat_message) \<Rightarrow> 's conv \<Rightarrow> ('s, 'z) messenger_scheme \<Rightarrow> report \<times> ('s, 'z) messenger_scheme" where
  "change_message now sender target f c n =
     (if list_ex (open_to_change now target) (history c)
      then kept_chat (Inr (Some (sender, []))) sender (c\<lparr>history := update_first (open_to_change now target) f (history c)\<rparr>) n
      else kept_chat (Inr None) sender c n)"

definition on_edit :: "'s olm \<Rightarrow> u64 \<Rightarrow> string \<Rightarrow> wire_olm \<Rightarrow> ('s, 'z) messenger_scheme \<Rightarrow> report \<times> ('s, 'z) messenger_scheme" where
  "on_edit R now sender m n =
     from_approved R sender m
       (\<lambda>c pt. case unpack_edit pt of
          None \<Rightarrow> kept_chat (Inl BadEnvelope) sender c n
        | Some (target, txt) \<Rightarrow> change_message (unat now) sender target (\<lambda>m. m\<lparr>msg_text := txt, edited := True\<rparr>) c n) n"

definition on_unsend :: "'s olm \<Rightarrow> u64 \<Rightarrow> string \<Rightarrow> wire_olm \<Rightarrow> ('s, 'z) messenger_scheme \<Rightarrow> report \<times> ('s, 'z) messenger_scheme" where
  "on_unsend R now sender m n =
     from_approved R sender m
       (\<lambda>c pt. case unpack_unsend pt of
          None \<Rightarrow> kept_chat (Inl BadEnvelope) sender c n
        | Some target \<Rightarrow> change_message (unat now) sender target make_tombstone c n) n"

section \<open>Attachments\<close>

definition already_complete :: "string \<Rightarrow> chat_message list \<Rightarrow> bool" where
  "already_complete t h = list_ex (\<lambda>m. \<not> from_me m \<and> transfer_id m \<noteq> [] \<and> transfer_id m = t \<and> media_id m \<noteq> []) h"

definition placeholder_for :: "string \<Rightarrow> chat_message \<Rightarrow> bool" where
  "placeholder_for t m = (transfer_id m \<noteq> [] \<and> transfer_id m = t \<and> media_id m = [])"

definition transfer_receipt :: "string \<Rightarrow> string" where
  "transfer_receipt t = ''t:'' @ t"

text \<open>\<open>drawn\<close>: the id drawn for the file to store, \<open>None\<close> if it cannot be written.\<close>

definition on_media_incoming ::
  "'s olm \<Rightarrow> u64 \<Rightarrow> string option \<Rightarrow> string \<Rightarrow> wire_olm \<Rightarrow> ('s, 'z) messenger_scheme \<Rightarrow> report \<times> ('s, 'z) messenger_scheme" where
  "on_media_incoming R now drawn sender m n =
     from_approved R sender m
       (\<lambda>c pt. case unpack_media_incoming pt of
          None \<Rightarrow> kept_chat (Inl BadEnvelope) sender c n
        | Some (t, kind, mime_type, bytes_n, thumb) \<Rightarrow>
            (let thumb = (if MAX_THUMB_BYTES < length thumb then [] else thumb);
                 (fits, c) = within_allowance now (of_nat (length thumb)) c
             in if \<not> fits then kept_chat (Inr None) sender c n
                else (let (stored, n) = (if thumb = [] then (Some [], n) else store_media drawn thumb n)
                      in case stored of None \<Rightarrow> kept_chat (Inl NotStored) sender c n
                         | Some thumb_file \<Rightarrow>
                             kept_chat (Inr (Some (sender, []))) sender
                               (push_message (media_message (unat now) False kind mime_type [] bytes_n t thumb_file) c) n))) n"

definition on_media ::
  "'s olm \<Rightarrow> u64 \<Rightarrow> string option \<Rightarrow> string \<Rightarrow> wire_olm \<Rightarrow> ('s, 'z) messenger_scheme \<Rightarrow> report \<times> ('s, 'z) messenger_scheme" where
  "on_media R now drawn sender m n =
     from_approved R sender m
       (\<lambda>c pt. case unpack_media pt of
          None \<Rightarrow> kept_chat (Inl BadEnvelope) sender c n
        | Some (t, kind, mime_type, data) \<Rightarrow>
            if already_complete t (history c)
            then kept_chat (Inr None) sender c (owe_receipt sender (transfer_receipt t) n)
            else (let (fits, c) = within_allowance now (of_nat (length data)) c
                  in if \<not> fits
                     then kept_chat (Inr None) sender
                            (c\<lparr>history := filter (\<lambda>m. \<not> (transfer_id m = t \<and> \<not> from_me m \<and> media_id m = [])) (history c)\<rparr>)
                            (owe_receipt sender (transfer_receipt t) n)
                     else (let (stored, n) = store_media drawn data n
                           in case stored of None \<Rightarrow> kept_chat (Inl NotStored) sender c n
                              | Some media \<Rightarrow>
                                  kept_chat (Inr (Some (sender, []))) sender
                                    (if list_ex (placeholder_for t) (history c)
                                     then c\<lparr>history := update_first (placeholder_for t) (\<lambda>m. m\<lparr>media_id := media\<rparr>) (history c)\<rparr>
                                     else push_message (media_message (unat now) False kind mime_type media (length data) t []) c)
                                    (owe_receipt sender (transfer_receipt t) n)))) n"

definition on_burn_media ::
  "'s olm \<Rightarrow> u64 \<Rightarrow> string option \<Rightarrow> string \<Rightarrow> wire_olm \<Rightarrow> ('s, 'z) messenger_scheme \<Rightarrow> report \<times> ('s, 'z) messenger_scheme" where
  "on_burn_media R now drawn sender m n =
     from_approved R sender m
       (\<lambda>c pt. case unpack_burn_media pt of
          None \<Rightarrow> kept_chat (Inl BadEnvelope) sender c n
        | Some (timer, t, kind, mime_type, data) \<Rightarrow>
            if timer = 0 then kept_chat (Inr None) sender c n
            else if already_complete t (history c)
            then kept_chat (Inr None) sender c (owe_receipt sender (transfer_receipt t) n)
            else (let (fits, c) = within_allowance now (of_nat (length data)) c
                  in if \<not> fits then kept_chat (Inr None) sender c (owe_receipt sender (transfer_receipt t) n)
                     else (let (stored, n) = store_media drawn data n
                           in case stored of None \<Rightarrow> kept_chat (Inl NotStored) sender c n
                              | Some media \<Rightarrow>
                                  kept_chat (Inr (Some (sender, []))) sender
                                    (push_message
                                       ((media_message (unat now) False kind mime_type media (length data) t [])\<lparr>burn_secs := timer\<rparr>) c)
                                    (owe_receipt sender (transfer_receipt t) n)))) n"

text \<open>They opened a burn message of ours: our copy goes, with its files. Anything else it names stays.\<close>

definition viewed_target :: "string \<Rightarrow> chat_message \<Rightarrow> bool" where
  "viewed_target target m =
     (from_me m \<and> 0 < burn_secs m
      \<and> (message_id m \<noteq> [] \<and> message_id m = target \<or> transfer_id m \<noteq> [] \<and> transfer_id m = target))"

definition on_viewed :: "'s olm \<Rightarrow> string \<Rightarrow> wire_olm \<Rightarrow> ('s, 'z) messenger_scheme \<Rightarrow> report \<times> ('s, 'z) messenger_scheme" where
  "on_viewed R sender m n =
     from_approved R sender m
       (\<lambda>c pt. case from_utf8 pt of
          None \<Rightarrow> kept_chat (Inl BadEnvelope) sender c n
        | Some target \<Rightarrow>
            (let gone = filter (viewed_target target) (history c)
             in kept_chat (Inr (if gone = [] then None else Some (sender, []))) sender
                  (c\<lparr>history := filter (\<lambda>m. \<not> viewed_target target m) (history c)\<rparr>)
                  (fold forget_media (concat (map message_files gone)) n))) n"

section \<open>Receipts and proof of life\<close>

definition names_ours :: "string \<Rightarrow> chat_message \<Rightarrow> bool" where
  "names_ours named m =
     (from_me m \<and>
      (if prefix ''t:'' named then transfer_id m \<noteq> [] \<and> transfer_id m = drop 2 named
       else message_id m \<noteq> [] \<and> message_id m = named))"

definition on_delivered :: "'s olm \<Rightarrow> u64 \<Rightarrow> string \<Rightarrow> wire_olm \<Rightarrow> ('s, 'z) messenger_scheme \<Rightarrow> report \<times> ('s, 'z) messenger_scheme" where
  "on_delivered R now sender m n =
     (if \<not> parses_olm R m then (Inl BadOlm, n)
      else signal R sender m
             (\<lambda>c pt. let named = from_utf8_lossy pt; c = mark_alive now c
                     in if named = [] then kept_chat (Inr None) sender c n
                        else kept_chat (Inr None) sender
                               (c\<lparr>history := update_first (names_ours named) (\<lambda>m. m\<lparr>delivery := ''delivered''\<rparr>) (history c)\<rparr>)
                               (n\<lparr>awaiting_receipt :=
                                    filter (\<lambda>a. \<not> (aw_contact a = sender \<and> aw_msg_id a = named)) (awaiting_receipt n)\<rparr>)) n)"

definition on_ack :: "'s olm \<Rightarrow> u64 \<Rightarrow> string \<Rightarrow> wire_olm \<Rightarrow> ('s, 'z) messenger_scheme \<Rightarrow> report \<times> ('s, 'z) messenger_scheme" where
  "on_ack R now sender m n =
     verify_control R now sender m MARK_ACK (\<lambda>c. kept_chat (Inr None) sender (mark_alive now c) n) n"

section \<open>Signals about the chat\<close>

definition add_notice :: "u64 \<Rightarrow> string \<Rightarrow> 's conv \<Rightarrow> 's conv" where
  "add_notice now txt c = push_message (system_message (unat now) txt) c"

definition on_storage :: "'s olm \<Rightarrow> u64 \<Rightarrow> string \<Rightarrow> wire_olm \<Rightarrow> ('s, 'z) messenger_scheme \<Rightarrow> report \<times> ('s, 'z) messenger_scheme" where
  "on_storage R now sender m n =
     from_approved R sender m
       (\<lambda>c pt. let enabled = (pt = text_bytes ''on'')
               in if enabled = remote_storage c then kept_chat (Inr None) sender c n
                  else (let (fits, c) = within_allowance now 0 c
                        in if \<not> fits then kept_chat (Inr None) sender c n
                           else kept_chat (Inr (Some (sender, []))) sender
                                  (add_notice now
                                     (if enabled then map char_of [0xE2, 0x98, 0x81, 0xEF, 0xB8, 0x8F :: nat] @ '' The other person enabled 24h server storage for this chat. Messages are held (encrypted) on the relay for up to 24 hours.''
                                      else map char_of [0xE2, 0x98, 0x81, 0xEF, 0xB8, 0x8F :: nat] @ '' The other person disabled server storage for this chat. Messages stay on your devices only.'')
                                     (c\<lparr>remote_storage := enabled,
                                        storage_timeline := storage_timeline c @ [(unat now, enabled)]\<rparr>)) n)) n"

definition on_disappearing :: "'s olm \<Rightarrow> u64 \<Rightarrow> string \<Rightarrow> wire_olm \<Rightarrow> ('s, 'z) messenger_scheme \<Rightarrow> report \<times> ('s, 'z) messenger_scheme" where
  "on_disappearing R now sender m n =
     from_approved R sender m
       (\<lambda>c pt. let timer = (case Option.bind (from_utf8 pt) (parse_uint (2 ^ 64)) of None \<Rightarrow> 0 | Some k \<Rightarrow> k)
               in if timer = disappearing_secs c then kept_chat (Inr None) sender c n
                  else (let (fits, c) = within_allowance now 0 c
                        in if \<not> fits then kept_chat (Inr None) sender c n
                           else kept_chat (Inr (Some (sender, []))) sender
                                  (add_notice now
                                     (map char_of [0xE2, 0x8F, 0xB1, 0xEF, 0xB8, 0x8F :: nat] @ '' The other person set disappearing messages to ''
                                      @ disappearing_label timer @ ''.'')
                                     (c\<lparr>disappearing_secs := timer,
                                        disappearing_timeline := disappearing_timeline c @ [(unat now, timer)]\<rparr>)) n)) n"

definition on_burns :: "'s olm \<Rightarrow> u64 \<Rightarrow> string \<Rightarrow> wire_olm \<Rightarrow> ('s, 'z) messenger_scheme \<Rightarrow> report \<times> ('s, 'z) messenger_scheme" where
  "on_burns R now sender m n =
     verify_control R now sender m MARK_BURNS_V1
       (\<lambda>c. if peer_supports_burn c = Some True then kept_chat (Inr None) sender c n
            else kept_chat (Inr (Some (sender, []))) sender (c\<lparr>peer_supports_burn := Some True\<rparr>) n) n"

definition on_version :: "'s olm \<Rightarrow> u64 \<Rightarrow> string \<Rightarrow> wire_olm \<Rightarrow> ('s, 'z) messenger_scheme \<Rightarrow> report \<times> ('s, 'z) messenger_scheme" where
  "on_version R now sender m n =
     signal R sender m
       (\<lambda>c pt.
          case (if prefix MARK_VERSION_PREFIX pt then from_utf8 (drop (length MARK_VERSION_PREFIX) pt) else None) of
            None \<Rightarrow> kept_chat (Inr None) sender c n
          | Some v \<Rightarrow>
              if \<not> is_plausible_version v then kept_chat (Inr None) sender c n
              else (let c = (if \<not> version_outdated v then forget_upgrade_notice (c\<lparr>peer_wire_old := False\<rparr>) else c)
                    in if peer_app_version c = Some v then kept_chat (Inr None) sender c n
                       else (let (updated, c) = (if peer_app_version c \<noteq> None then within_allowance now 0 c else (False, c));
                                 c = (if updated then c\<lparr>told_captures := None, told_block := None, told_nearby_seq := 0\<rparr> else c);
                                 n = (if updated
                                      then n\<lparr>captures_announced := AList.delete sender (captures_announced n),
                                             block_announced := AList.delete sender (block_announced n),
                                             nearby_announced := AList.delete sender (nearby_announced n)\<rparr>
                                      else n)
                             in kept_chat (Inr (Some (sender, []))) sender (c\<lparr>peer_app_version := Some v\<rparr>) n))) n"

text \<open>Not authenticated: it ends only a request on whose session nothing has arrived.\<close>

definition on_code_in_use :: "'s olm \<Rightarrow> u64 \<Rightarrow> string \<Rightarrow> ('s, 'z) messenger_scheme \<Rightarrow> report \<times> ('s, 'z) messenger_scheme" where
  "on_code_in_use R now sender n =
     (case get_conv sender n of None \<Rightarrow> (Inr None, n)
      | Some c \<Rightarrow>
          if received_any R (session c) then (Inr None, n)
          else kept_chat (Inr (Some (sender, []))) sender
                 (add_notice now (map char_of [0xE2, 0x9A, 0xA0, 0xEF, 0xB8, 0x8F :: nat] @ '' That invite code has already been used. Ask for a new code to start a chat.'')
                    (c\<lparr>closed := True\<rparr>)) n)"

definition on_closed :: "'s olm \<Rightarrow> u64 \<Rightarrow> string \<Rightarrow> wire_olm \<Rightarrow> ('s, 'z) messenger_scheme \<Rightarrow> report \<times> ('s, 'z) messenger_scheme" where
  "on_closed R now sender m n =
     verify_control R now sender m MARK_CLOSED
       (\<lambda>c. if closed c then kept_chat (Inr None) sender c n
            else kept_chat (Inr (Some (sender, []))) sender
                   (add_notice now (map char_of [0xF0, 0x9F, 0x91, 0xBB :: nat] @ '' The other person deleted this chat. A new chat will need to be created to keep talking.'')
                      (c\<lparr>closed := True\<rparr>)) n) n"

definition capture_note :: "bytes \<Rightarrow> string option" where
  "capture_note pt =
     (if pt = MARK_SCREENSHOT then Some (map char_of [0xF0, 0x9F, 0x93, 0xB8 :: nat] @ '' The other person took a screenshot of this chat.'')
      else if pt = MARK_RECORDING then Some (map char_of [0xF0, 0x9F, 0x94, 0xB4 :: nat] @ '' The other person is recording their screen with this chat open.'')
      else if pt = MARK_CAPTURE_OVERRIDE_ON
      then Some (map char_of [0xF0, 0x9F, 0x94, 0x93 :: nat] @ '' The other person turned off screenshot blocking for this chat on their phone. You are still told about each screenshot they take.'')
      else if pt = MARK_CAPTURE_OVERRIDE_OFF
      then Some (map char_of [0xF0, 0x9F, 0x94, 0x92 :: nat] @ '' The other person blocks screenshots in this chat again, as you asked.'')
      else None)"

definition on_screenshot :: "'s olm \<Rightarrow> u64 \<Rightarrow> string \<Rightarrow> wire_olm \<Rightarrow> ('s, 'z) messenger_scheme \<Rightarrow> report \<times> ('s, 'z) messenger_scheme" where
  "on_screenshot R now sender m n =
     signal R sender m
       (\<lambda>c pt. case capture_note pt of
          None \<Rightarrow> kept_chat (Inr None) sender c n
        | Some note \<Rightarrow>
            (let (fits, c) = within_allowance now 0 (mark_alive now c)
             in if \<not> fits then kept_chat (Inr None) sender c n
                else kept_chat (Inr (Some (sender, []))) sender (add_notice now note c) n)) n"

definition on_backed_up :: "'s olm \<Rightarrow> u64 \<Rightarrow> string \<Rightarrow> wire_olm \<Rightarrow> ('s, 'z) messenger_scheme \<Rightarrow> report \<times> ('s, 'z) messenger_scheme" where
  "on_backed_up R now sender m n =
     verify_control R now sender m MARK_BACKEDUP
       (\<lambda>c. if peer_backed_up c then kept_chat (Inr None) sender c n
            else kept_chat (Inr (Some (sender, []))) sender
                   (add_notice now
                      (map char_of [0xF0, 0x9F, 0x97, 0x84, 0xEF, 0xB8, 0x8F :: nat] @ '' The other person is keeping a backup of this chat, so your messages may persist in their backup.'')
                      (c\<lparr>peer_backed_up := True\<rparr>)) n) n"

definition on_verified :: "'s olm \<Rightarrow> u64 \<Rightarrow> string \<Rightarrow> wire_olm \<Rightarrow> ('s, 'z) messenger_scheme \<Rightarrow> report \<times> ('s, 'z) messenger_scheme" where
  "on_verified R now sender m n =
     signal R sender m
       (\<lambda>c pt.
          if pt \<noteq> MARK_VERIFIED \<and> pt \<noteq> MARK_UNVERIFIED then kept_chat (Inr None) sender c n
          else if peer_verified c = (pt = MARK_VERIFIED) then kept_chat (Inr None) sender c n
          else (let (fits, c) = within_allowance now 0 c
                in if \<not> fits then kept_chat (Inr None) sender c n
                   else kept_chat (Inr (Some (sender, []))) sender
                          (add_notice now
                             (if pt = MARK_VERIFIED
                              then map char_of [0xE2, 0x9C, 0x85 :: nat] @ '' The other person marked this chat'' @ [CHR 0x27] @ ''s safety number verified. Compare it yourself too to be sure '' @ map char_of [0xE2, 0x80, 0x94 :: nat] @ '' this is only what they told you.''
                              else map char_of [0xE2, 0x9A, 0xA0, 0xEF, 0xB8, 0x8F :: nat] @ '' The other person cleared their verification of this chat'' @ [CHR 0x27] @ ''s safety number.'')
                             (c\<lparr>peer_verified := (pt = MARK_VERIFIED)\<rparr>)) n)) n"

section \<open>The dispatcher\<close>

definition process_frame ::
  "'s olm \<Rightarrow> u64 \<Rightarrow> string option \<Rightarrow> frame \<Rightarrow> ('s, 'z) messenger_scheme \<Rightarrow> (report \<times> ('s, 'z) messenger_scheme) option" where
  "process_frame R now drawn f n =
     (let n = n\<lparr>touched := True\<rparr>
      in case f of
           Message s i m \<Rightarrow> Some (on_message R now s i m n)
         | Burn s i m \<Rightarrow> Some (on_burn R now s i m n)
         | Burns s m \<Rightarrow> Some (on_burns R now s m n)
         | Version s m \<Rightarrow> Some (on_version R now s m n)
         | Edit s m \<Rightarrow> Some (on_edit R now s m n)
         | Unsend s m \<Rightarrow> Some (on_unsend R now s m n)
         | Storage s m \<Rightarrow> Some (on_storage R now s m n)
         | Disappearing s m \<Rightarrow> Some (on_disappearing R now s m n)
         | CodeInUse s _ \<Rightarrow> Some (on_code_in_use R now s n)
         | Closed s m \<Rightarrow> Some (on_closed R now s m n)
         | Cover _ \<Rightarrow> Some (Inr None, n)
         | Screenshot s m \<Rightarrow> Some (on_screenshot R now s m n)
         | BackedUp s m \<Rightarrow> Some (on_backed_up R now s m n)
         | Verified s m \<Rightarrow> Some (on_verified R now s m n)
         | Ack s m \<Rightarrow> Some (on_ack R now s m n)
         | Delivered s m \<Rightarrow> Some (on_delivered R now s m n)
         | ClientKey _ _ \<Rightarrow> Some (Inr None, n)
         | MediaIncoming s m \<Rightarrow> Some (on_media_incoming R now drawn s m n)
         | Media s m \<Rightarrow> Some (on_media R now drawn s m n)
         | BurnMedia s m \<Rightarrow> Some (on_burn_media R now drawn s m n)
         | Viewed s m \<Rightarrow> Some (on_viewed R s m n)
         | Pake _ \<Rightarrow> Some (Inr None, n)
         | _ \<Rightarrow> None)"

end
