(* ===== verification/InboxSafe.thy ===== *)
theory InboxSafe
  imports Inbox
begin

text \<open>
  What a contact can do to a chat. The changes a history may undergo are a step relation, \<open>hist_step\<close>; every frame
  that \<open>process_frame\<close> takes is shown to be a sequence of such steps on the sender's chat and nothing on another, and
  the properties are proved by induction over the steps.
\<close>

section \<open>The permitted changes of a history\<close>

inductive hist_step :: "nat \<Rightarrow> string option \<Rightarrow> chat_message list \<Rightarrow> chat_message list \<Rightarrow> bool" for now rc where
  notice: "\<lbrakk>is_system m; \<not> from_me m; transfer_id m = []\<rbrakk> \<Longrightarrow> hist_step now rc h (h @ [m])"
| unnotice: "list_all (\<lambda>m. p m \<or> is_system m) h \<Longrightarrow> hist_step now rc h (filter p h)"
| shown: "\<lbrakk>sent_at m = now; \<not> from_me m; \<not> is_system m; \<not> already_shown (message_id m) h; transfer_id m = []\<rbrakk> \<Longrightarrow> hist_step now rc h (h @ [m])"
| attached: "\<lbrakk>sent_at m = now; \<not> from_me m; \<not> is_system m; message_id m = []; media_id m = [] \<or> \<not> already_complete (transfer_id m) h\<rbrakk>
    \<Longrightarrow> hist_step now rc h (h @ [m])"
| completed: "\<not> already_complete t h \<Longrightarrow> hist_step now rc h (update_first (placeholder_for t) (\<lambda>m. m\<lparr>media_id := i\<rparr>) h)"
| abandoned: "t \<noteq> [] \<Longrightarrow> hist_step now rc h (filter (\<lambda>m. \<not> (transfer_id m = t \<and> \<not> from_me m \<and> media_id m = [])) h)"
| rewritten: "hist_step now rc h (update_first (open_to_change now target) (\<lambda>m. m\<lparr>msg_text := txt, edited := True\<rparr>) h)"
| retracted: "hist_step now rc h (update_first (open_to_change now target) make_tombstone h)"
| confirmed: "rc = Some named \<Longrightarrow> hist_step now rc h (update_first (names_ours named) (\<lambda>m. m\<lparr>delivery := ''delivered''\<rparr>) h)"
| burned: "hist_step now rc h (filter (\<lambda>m. \<not> viewed_target target m) h)"

definition steps :: "nat \<Rightarrow> string option \<Rightarrow> 's conv \<Rightarrow> 's conv \<Rightarrow> bool" where
  "steps now rc c c' = (hist_step now rc)\<^sup>*\<^sup>* (history c) (history c')"

lemma steps_refl [simp, intro]: "history c' = history c \<Longrightarrow> steps now rc c c'"
  by (simp add: steps_def)

lemma steps_trans [trans]: "steps now rc a b \<Longrightarrow> steps now rc b c \<Longrightarrow> steps now rc a c"
  by (simp add: steps_def)

lemma steps_one: "hist_step now rc (history c) (history c') \<Longrightarrow> steps now rc c c'"
  by (simp add: steps_def)

lemma steps_start: "history c0 = history c \<Longrightarrow> steps now rc c0 c' \<Longrightarrow> steps now rc c c'"
  by (simp add: steps_def)

lemma steps_unnotice: "history c' = filter p (history c) \<Longrightarrow> list_all (\<lambda>m. p m \<or> is_system m) (history c) \<Longrightarrow> steps now rc c c'"
  by (rule steps_one) (simp add: hist_step.unnotice)

lemma steps_forget_upgrade: "steps now rc c (forget_upgrade_notice c)"
proof (cases "told_upgrade c")
  case True
  then show ?thesis by (intro steps_unnotice) (auto simp: forget_upgrade_notice_def list_all_iff)
qed (simp add: forget_upgrade_notice_def)

lemma steps_alive: "steps now rc c (mark_alive w c)"
  unfolding mark_alive_def by (rule steps_start [OF _ steps_forget_upgrade]) simp

lemma steps_notices: "steps now rc c (clear_system_notices kinds c)"
  by (rule steps_unnotice) (auto simp: clear_system_notices_def list_all_iff)

lemma steps_add_notice: "steps now rc c (add_notice w txt c)"
  by (rule steps_one)
    (simp add: add_notice_def push_message_def system_message_def text_message_def hist_step.notice)

lemma allowance_cases:
  assumes "within_allowance w b c = (ok, c')"
  obtains a where "ok" "c' = c\<lparr>day_allowance := a\<rparr>"
    | a where "\<not> ok" "c' = c\<lparr>day_allowance := a\<rparr> \<or> c' = push_message (system_message (unat w) OVER_ALLOWANCE_NOTICE) (c\<lparr>day_allowance := a\<rparr>)"
  using assms by (auto simp: within_allowance_def split: prod.splits admission.splits)

lemma steps_push_notice: "history c' = history c \<Longrightarrow> steps now rc c (push_message (system_message t txt) c')"
  by (rule steps_one) (simp add: push_message_def system_message_def text_message_def hist_step.notice)

lemma steps_allowance:
  assumes "within_allowance w b c = (ok, c')"
  shows "steps now rc c c'"
proof (rule allowance_cases [OF assms])
  fix a
  assume "c' = c\<lparr>day_allowance := a\<rparr> \<or> c' = push_message (system_message (unat w) OVER_ALLOWANCE_NOTICE) (c\<lparr>day_allowance := a\<rparr>)"
  then show ?thesis using steps_push_notice [of "c\<lparr>day_allowance := a\<rparr>" c] by auto
qed simp

lemma allowance_ok_history: "within_allowance w b c = (True, c') \<Longrightarrow> history c' = history c"
  by (erule allowance_cases) auto

section \<open>A frame changes only the sender's chat, by permitted steps\<close>

definition chat_steps :: "nat \<Rightarrow> string option \<Rightarrow> string \<Rightarrow> ('s, 'z) messenger_scheme \<Rightarrow> ('s, 'z) messenger_scheme \<Rightarrow> bool" where
  "chat_steps now rc s n n' \<longleftrightarrow>
     (\<forall>j. j \<noteq> s \<longrightarrow> get_conv j n' = get_conv j n) \<and>
     (case get_conv s n of None \<Rightarrow> get_conv s n' = None
      | Some c \<Rightarrow> \<exists>c'. get_conv s n' = Some c' \<and> steps now rc c c')"

lemma chat_steps_refl [simp]: "chat_steps now rc s n n"
  by (auto simp: chat_steps_def split: option.splits)

lemma kept_chat_steps:
  "\<lbrakk>get_conv s n = Some c; convs n1 = convs n; steps now rc c c'\<rbrakk> \<Longrightarrow> chat_steps now rc s n (snd (kept_chat r s c' n1))"
  by (simp add: chat_steps_def kept_chat_def) (simp add: get_conv_def)

lemma from_approved_steps:
  assumes "\<And>c pt ses. \<lbrakk>get_conv s n = Some c; authorized c; opened R (session c) m = Some (pt, ses)\<rbrakk>
             \<Longrightarrow> chat_steps now rc s n (snd (k (c\<lparr>session := ses\<rparr>) pt))"
  shows "chat_steps now rc s n (snd (from_approved R s m k n))"
  using assms by (auto simp: from_approved_def opened_def split: option.splits)

lemma signal_steps:
  assumes "\<And>c pt ses. \<lbrakk>get_conv s n = Some c; opened R (session c) m = Some (pt, ses)\<rbrakk>
             \<Longrightarrow> chat_steps now rc s n (snd (k (c\<lparr>session := ses\<rparr>) pt))"
  shows "chat_steps now rc s n (snd (signal R s m k n))"
  using assms by (auto simp: signal_def split: option.splits)

lemma verify_control_steps:
  assumes "\<And>c ses. get_conv s n = Some c \<Longrightarrow> chat_steps now rc s n (snd (k (mark_alive w (c\<lparr>session := ses\<rparr>))))"
  shows "chat_steps now rc s n (snd (verify_control R w s m mk k n))"
  unfolding verify_control_def
  by (rule signal_steps) (auto intro: assms kept_chat_steps)

lemma steps_session: "steps now rc (c\<lparr>session := ses\<rparr>) c' \<Longrightarrow> steps now rc c c'"
  by (rule steps_start) simp_all

lemma owe_receipt_convs [simp]: "convs (owe_receipt s i n) = convs n"
  by (simp add: owe_receipt_def)

lemma store_media_convs: "store_media drawn data n = (r, n1) \<Longrightarrow> convs n1 = convs n"
  by (auto simp: store_media_def split: option.splits if_splits)

lemma take_text_steps:
  assumes "get_conv s n = Some c0" and "steps now rc c0 c"
    and "sent_at msg = now" "\<not> from_me msg" "\<not> is_system msg" "message_id msg = i" "transfer_id msg = []"
  shows "chat_steps now rc s n (snd (take_text w s i msg preview c n))"
proof -
  obtain ok c1 where w: "within_allowance w 0 c = (ok, c1)" by fastforce
  have c1: "steps now rc c0 c1" using assms(2) steps_allowance [OF w] steps_trans by blast
  let ?c2 = "clear_system_notices [''await_approval'', ''approved''] (push_message msg c1)"
  have "steps now rc c0 ?c2" if "ok" "\<not> already_shown i (history c)"
  proof -
    have "steps now rc c1 (push_message msg c1)"
      using that w assms(3-7) allowance_ok_history [of w 0 c c1]
      by (intro steps_one) (simp add: push_message_def hist_step.shown)
    from steps_trans [OF c1 steps_trans [OF this steps_notices]] show ?thesis .
  qed
  then show ?thesis
    using kept_chat_steps [OF assms(1) owe_receipt_convs] assms(2) c1 w by (simp add: take_text_def Let_def)
qed

lemma on_message_steps: "chat_steps (unat w) rc s n (snd (on_message R w s i m n))"
  unfolding on_message_def
  by (auto intro!: from_approved_steps take_text_steps steps_session [OF steps_alive] simp: Let_def text_message_def)

lemma on_burn_steps: "chat_steps (unat w) rc s n (snd (on_burn R w s i m n))"
  unfolding on_burn_def
  by (auto intro!: from_approved_steps take_text_steps kept_chat_steps steps_session [OF steps_alive]
      simp: Let_def text_message_def split: option.splits)

lemma change_message_steps:
  assumes "get_conv s n = Some c0" and "history c = history c0"
    and "f = (\<lambda>m. m\<lparr>msg_text := txt, edited := True\<rparr>) \<or> f = make_tombstone"
  shows "chat_steps now rc s n (snd (change_message now s target f c n))"
proof -
  have "hist_step now rc (history c0) (update_first (open_to_change now target) f (history c0))"
    using assms(3) hist_step.rewritten hist_step.retracted by auto
  then have "steps now rc c0 (c\<lparr>history := update_first (open_to_change now target) f (history c)\<rparr>)"
    using assms(2) by (intro steps_one) simp
  then show ?thesis using assms(1,2) by (simp add: change_message_def kept_chat_steps)
qed

lemma on_edit_steps: "chat_steps (unat w) rc s n (snd (on_edit R w s m n))"
  unfolding on_edit_def
  by (auto intro!: from_approved_steps change_message_steps kept_chat_steps split: option.splits)

lemma on_unsend_steps: "chat_steps (unat w) rc s n (snd (on_unsend R w s m n))"
  unfolding on_unsend_def
  by (auto intro!: from_approved_steps change_message_steps kept_chat_steps split: option.splits)

text \<open>An opened attachment.\<close>

lemma sane_id_nonempty: "sane_id t \<Longrightarrow> t \<noteq> []"
  by (auto simp: sane_id_def)

lemma media_head_sane: "media_head buf = Some ((t, k, y), r) \<Longrightarrow> sane_id t"
  by (auto simp: media_head_def split: prod.splits if_splits option.splits elim!: bind_eq_Some_conv [THEN iffD1, elim_format])

lemma unpack_media_sane: "unpack_media buf = Some (t, k, y, d) \<Longrightarrow> t \<noteq> []"
  by (auto simp: unpack_media_def dest!: media_head_sane sane_id_nonempty)

lemma steps_media:
  assumes "history c1 = history c" and "media = [] \<or> \<not> already_complete t (history c)"
  shows "steps u rc c (push_message ((media_message u False kind y media k t thumb)\<lparr>burn_secs := b\<rparr>) c1)"
  using assms
  by (intro steps_one) (auto simp: push_message_def media_message_def text_message_def intro!: hist_step.attached)

lemma media_message_burn0: "media_message u False kind y media k t thumb = (media_message u False kind y media k t thumb)\<lparr>burn_secs := 0\<rparr>"
  by (simp add: media_message_def text_message_def)

lemma on_media_incoming_steps: "chat_steps (unat w) rc s n (snd (on_media_incoming R w drawn s m n))"
  unfolding on_media_incoming_def
proof (rule from_approved_steps, goal_cases)
  case (1 c pt ses)
  show ?case
  proof (cases "unpack_media_incoming pt")
    case (Some x)
    obtain t kind y k thumb where x: "x = (t, kind, y, k, thumb)" by (cases x) auto
    let ?thumb = "if MAX_THUMB_BYTES < length thumb then [] else thumb"
    obtain ok c1 where w: "within_allowance w (of_nat (length ?thumb)) (c\<lparr>session := ses\<rparr>) = (ok, c1)" by fastforce
    have c1: "steps (unat w) rc c c1" by (rule steps_session [OF steps_allowance [OF w]])
    obtain st n1 where st: "(if ?thumb = [] then (Some [], n) else store_media drawn ?thumb n) = (st, n1)" by fastforce
    then have n1: "convs n1 = convs n" by (auto split: if_splits dest: store_media_convs)
    have "steps (unat w) rc c (push_message (media_message (unat w) False kind y [] k t f) c1)" if ok for f
      using that w allowance_ok_history [of w _ "c\<lparr>session := ses\<rparr>" c1]
      by (subst media_message_burn0, intro steps_media) auto
    then show ?thesis using Some x w st kept_chat_steps [OF 1(1) n1] kept_chat_steps [OF 1(1) refl c1]
      by (simp add: Let_def c1 split: option.splits)
  qed (use 1 in \<open>auto intro!: kept_chat_steps\<close>)
qed

lemma steps_then: "steps now rc c c1 \<Longrightarrow> hist_step now rc (history c1) h' \<Longrightarrow> steps now rc c (c1\<lparr>history := h'\<rparr>)"
  unfolding steps_def by simp

lemma kept_owed:
  "get_conv s n = Some c \<Longrightarrow> convs n1 = convs n \<Longrightarrow> steps now rc c c' \<Longrightarrow> chat_steps now rc s n (snd (kept_chat r s c' (owe_receipt a b n1)))"
  by (rule kept_chat_steps) simp_all

lemma on_media_steps: "chat_steps (unat w) rc s n (snd (on_media R w drawn s m n))"
  unfolding on_media_def
proof (rule from_approved_steps, goal_cases)
  case (1 c pt ses)
  show ?case
  proof (cases "unpack_media pt")
    case (Some x)
    obtain t kind y data where x: "x = (t, kind, y, data)" by (cases x) auto
    then have t: "t \<noteq> []" using Some unpack_media_sane by blast
    obtain ok c1 where w: "within_allowance w (of_nat (length data)) (c\<lparr>session := ses\<rparr>) = (ok, c1)" by fastforce
    have c1: "steps (unat w) rc c c1" by (rule steps_session [OF steps_allowance [OF w]])
    obtain st n1 where st: "store_media drawn data n = (st, n1)" by fastforce
    have dropped: "steps (unat w) rc c (c1\<lparr>history := filter (\<lambda>m. \<not> (transfer_id m = t \<and> \<not> from_me m \<and> media_id m = [])) (history c1)\<rparr>)"
      by (rule steps_then [OF c1 hist_step.abandoned [OF t]])
    show ?thesis
    proof (cases "already_complete t (history c) \<or> \<not> ok")
      case True
      then show ?thesis using Some x w dropped 1(1)
        by (auto simp: Let_def intro!: kept_owed)
    next
      case False
      then have h1: "history c1 = history c" and fresh: "\<not> already_complete t (history c)"
        using w allowance_ok_history [of w _ "c\<lparr>session := ses\<rparr>" c1] by auto
      have filled: "steps (unat w) rc c (c1\<lparr>history := update_first (placeholder_for t) (\<lambda>m. m\<lparr>media_id := f\<rparr>) (history c1)\<rparr>)" for f
        using hist_step.completed [OF fresh] h1 by (intro steps_one) simp
      have added: "steps (unat w) rc c (push_message (media_message (unat w) False kind y f (length data) t []) c1)" for f
        by (subst media_message_burn0) (rule steps_media [OF h1 disjI2 [OF fresh]])
      show ?thesis using False Some x w st filled added c1 1(1) store_media_convs [OF st]
        by (auto simp: Let_def split: option.splits intro!: kept_owed kept_chat_steps)
    qed
  qed (use 1 in \<open>auto intro!: kept_chat_steps\<close>)
qed

lemma on_burn_media_steps: "chat_steps (unat w) rc s n (snd (on_burn_media R w drawn s m n))"
  unfolding on_burn_media_def
proof (rule from_approved_steps, goal_cases)
  case (1 c pt ses)
  show ?case
  proof (cases "unpack_burn_media pt")
    case (Some x)
    obtain timer t kind y data where x: "x = (timer, t, kind, y, data)" by (cases x) auto
    obtain ok c1 where w: "within_allowance w (of_nat (length data)) (c\<lparr>session := ses\<rparr>) = (ok, c1)" by fastforce
    have c1: "steps (unat w) rc c c1" by (rule steps_session [OF steps_allowance [OF w]])
    obtain st n1 where st: "store_media drawn data n = (st, n1)" by fastforce
    have added: "steps (unat w) rc c (push_message ((media_message (unat w) False kind y f (length data) t [])\<lparr>burn_secs := timer\<rparr>) c1)"
      if "ok" "\<not> already_complete t (history c)" for f
      using that w allowance_ok_history [of w _ "c\<lparr>session := ses\<rparr>" c1] by (intro steps_media) auto
    show ?thesis using Some x w st added c1 1(1) store_media_convs [OF st]
      by (auto simp: Let_def split: option.splits intro!: kept_owed kept_chat_steps)
  qed (use 1 in \<open>auto intro!: kept_chat_steps\<close>)
qed

lemma on_viewed_steps: "chat_steps now rc s n (snd (on_viewed R s m n))"
proof -
  have "steps now rc c (c\<lparr>session := ses, history := filter (\<lambda>m. \<not> viewed_target target m) (history c)\<rparr>)"
    for c :: "'a conv" and ses target
    using steps_then [OF steps_refl, of "c\<lparr>session := ses\<rparr>" c now, OF _ hist_step.burned] by simp
  then show ?thesis unfolding on_viewed_def
    by (auto simp: Let_def split: option.splits intro!: from_approved_steps kept_chat_steps)
qed

text \<open>The name a receipt opens to, if the frame is one that opens to a name.\<close>

definition receipt_name :: "'s olm \<Rightarrow> wire_olm \<Rightarrow> string \<Rightarrow> ('s, 'z) messenger_scheme \<Rightarrow> string option" where
  "receipt_name R m s n =
     Option.bind (get_conv s n) (\<lambda>c. map_option (\<lambda>(pt, ses). from_utf8_lossy pt) (opened R (session c) m))"

lemma on_delivered_steps: "chat_steps now (receipt_name R m s n) s n (snd (on_delivered R w s m n))"
proof (cases "parses_olm R m")
  case True
  have "chat_steps now (receipt_name R m s n) s n
     (snd (signal R s m
             (\<lambda>c pt. let named = from_utf8_lossy pt; c = mark_alive w c
                     in if named = [] then kept_chat (Inr None) s c n
                        else kept_chat (Inr None) s
                               (c\<lparr>history := update_first (names_ours named) (\<lambda>m. m\<lparr>delivery := ''delivered''\<rparr>) (history c)\<rparr>)
                               (n\<lparr>awaiting_receipt :=
                                    filter (\<lambda>a. \<not> (aw_contact a = s \<and> aw_msg_id a = named)) (awaiting_receipt n)\<rparr>)) n))"
  proof (rule signal_steps, goal_cases)
    case (1 c pt ses)
    then have rc: "receipt_name R m s n = Some (from_utf8_lossy pt)" by (simp add: receipt_name_def)
    have base: "steps now (receipt_name R m s n) c (mark_alive w (c\<lparr>session := ses\<rparr>))" by (rule steps_session [OF steps_alive])
    show ?case
      using base steps_then [OF base hist_step.confirmed [OF rc]] by (auto simp: Let_def intro!: kept_chat_steps [OF 1(1)])
  qed
  with True show ?thesis by (simp add: on_delivered_def)
qed (simp add: on_delivered_def)

lemma steps_alive_session: "steps now rc (mark_alive w (c\<lparr>session := ses\<rparr>)) c' \<Longrightarrow> steps now rc c c'"
  by (rule steps_trans [OF steps_session [OF steps_alive]])

lemma steps_noted: "history c1 = history c \<Longrightarrow> steps now rc c (add_notice w txt c1)"
  unfolding add_notice_def by (rule steps_push_notice)

lemma steps_noted_after: "within_allowance w b c = (ok, c1) \<Longrightarrow> history c2 = history c1 \<Longrightarrow> steps now rc c (add_notice v txt c2)"
  by (rule steps_trans [OF steps_allowance steps_noted]) simp_all

lemma control_steps:
  assumes "\<And>c. \<exists>r c'. k c = kept_chat r s c' n \<and> steps now rc c c'"
  shows "chat_steps now rc s n (snd (verify_control R w s m mk k n))"
proof (rule verify_control_steps)
  fix c ses
  assume c: "get_conv s n = Some c"
  obtain r c' where "k (mark_alive w (c\<lparr>session := ses\<rparr>)) = kept_chat r s c' n" "steps now rc (mark_alive w (c\<lparr>session := ses\<rparr>)) c'"
    using assms by metis
  then show "chat_steps now rc s n (snd (k (mark_alive w (c\<lparr>session := ses\<rparr>))))"
    using kept_chat_steps [OF c refl steps_alive_session] by metis
qed

lemma on_ack_steps: "chat_steps now rc s n (snd (on_ack R w s m n))"
  unfolding on_ack_def by (rule control_steps) (metis steps_alive)

lemma on_burns_steps: "chat_steps now rc s n (snd (on_burns R w s m n))"
  unfolding on_burns_def by (rule control_steps) (auto intro!: exI)

lemma on_closed_steps: "chat_steps now rc s n (snd (on_closed R w s m n))"
  unfolding on_closed_def by (rule control_steps) (auto intro!: exI steps_noted)

lemma on_backed_up_steps: "chat_steps now rc s n (snd (on_backed_up R w s m n))"
  unfolding on_backed_up_def by (rule control_steps) (auto intro!: exI steps_noted)

lemma on_code_in_use_steps: "chat_steps now rc s n (snd (on_code_in_use R w s n))"
  by (auto simp: on_code_in_use_def split: option.splits intro!: kept_chat_steps steps_noted)

text \<open>A signal whose handling is counted against the allowance and leaves a notice.\<close>

lemma counted_steps:
  assumes "get_conv s n = Some c" and "steps now rc c c0"
    and "\<And>c1. history (g c1) = history c1"
  shows "chat_steps now rc s n (snd (let (fits, c1) = within_allowance w b c0
           in if \<not> fits then kept_chat r s c1 n else kept_chat r' s (add_notice v txt (g c1)) n))"
proof -
  obtain ok c1 where w: "within_allowance w b c0 = (ok, c1)" by fastforce
  show ?thesis
    using steps_trans [OF assms(2) steps_allowance [OF w]] steps_trans [OF assms(2) steps_noted_after [OF w assms(3)]]
    by (simp add: w kept_chat_steps [OF assms(1) refl])
qed

lemma on_storage_steps: "chat_steps now rc s n (snd (on_storage R w s m n))"
  unfolding on_storage_def
proof (rule from_approved_steps, goal_cases)
  case (1 c pt ses)
  let ?on = "pt = text_bytes ''on''" and ?c = "c\<lparr>session := ses\<rparr>"
  have base: "steps now rc c ?c" by simp
  show ?case
    using counted_steps [OF 1(1) base, of "\<lambda>c. c\<lparr>remote_storage := ?on, storage_timeline := storage_timeline c @ [(unat w, ?on)]\<rparr>" w 0]
      kept_chat_steps [OF 1(1) refl base] by (simp add: Let_def)
qed

lemma on_disappearing_steps: "chat_steps now rc s n (snd (on_disappearing R w s m n))"
  unfolding on_disappearing_def
proof (rule from_approved_steps, goal_cases)
  case (1 c pt ses)
  obtain t where t: "(case Option.bind (from_utf8 pt) (parse_uint (2 ^ 64)) of None \<Rightarrow> 0 | Some k \<Rightarrow> k) = t" by blast
  let ?c = "c\<lparr>session := ses\<rparr>"
  have base: "steps now rc c ?c" by simp
  show ?case
    using counted_steps [OF 1(1) base, of "\<lambda>c. c\<lparr>disappearing_secs := t, disappearing_timeline := disappearing_timeline c @ [(unat w, t)]\<rparr>" w 0]
      kept_chat_steps [OF 1(1) refl base] unfolding t by (simp add: Let_def)
qed

lemma on_screenshot_steps: "chat_steps now rc s n (snd (on_screenshot R w s m n))"
  unfolding on_screenshot_def
proof (rule signal_steps, goal_cases)
  case (1 c pt ses)
  have base: "steps now rc c (mark_alive w (c\<lparr>session := ses\<rparr>))" by (rule steps_session [OF steps_alive])
  show ?case
    using counted_steps [OF 1(1) base, of "\<lambda>c. c" w 0] kept_chat_steps [OF 1(1) refl]
    by (simp split: option.splits)
qed

lemma on_verified_steps: "chat_steps now rc s n (snd (on_verified R w s m n))"
  unfolding on_verified_def
proof (rule signal_steps, goal_cases)
  case (1 c pt ses)
  have base: "steps now rc c (c\<lparr>session := ses\<rparr>)" by simp
  show ?case
    using counted_steps [OF 1(1) base, of "\<lambda>c. c\<lparr>peer_verified := (pt = MARK_VERIFIED)\<rparr>" w 0]
      kept_chat_steps [OF 1(1) refl base] by simp
qed

lemma on_version_steps: "chat_steps now rc s n (snd (on_version R w s m n))"
  unfolding on_version_def
proof (rule signal_steps, goal_cases)
  case (1 c pt ses)
  let ?c = "c\<lparr>session := ses\<rparr>"
  have base: "steps now rc c ?c" by simp
  show ?case
  proof (cases "if prefix MARK_VERSION_PREFIX pt then from_utf8 (drop (length MARK_VERSION_PREFIX) pt) else None")
    case None
    then show ?thesis using kept_chat_steps [OF 1(1) refl base] by simp
  next
    case (Some v)
    let ?c1 = "if \<not> version_outdated v then forget_upgrade_notice (?c\<lparr>peer_wire_old := False\<rparr>) else ?c"
    have c1: "steps now rc c ?c1"
      using steps_start [OF _ steps_forget_upgrade, of "?c\<lparr>peer_wire_old := False\<rparr>" c] base by simp
    obtain up c2 where c2: "(if peer_app_version ?c1 \<noteq> None then within_allowance w 0 ?c1 else (False, ?c1)) = (up, c2)"
      by fastforce
    then have "steps now rc c c2" using steps_trans [OF c1 steps_allowance] c1 by (cases "peer_app_version ?c1 \<noteq> None") auto
    then have "steps now rc c (c3\<lparr>peer_app_version := Some v\<rparr>)" if "history c3 = history c2" for c3
      using that by (simp add: steps_def)
    then show ?thesis using c1 base unfolding Some option.case Let_def c2
      by (auto intro!: kept_chat_steps [OF 1(1)])
  qed
qed

text \<open>The sender a frame names, and its sealed body.\<close>

definition frame_sender :: "frame \<Rightarrow> string option" where
  "frame_sender f =
     (case f of
        Message s i m \<Rightarrow> Some s | Burn s i m \<Rightarrow> Some s | Burns s m \<Rightarrow> Some s | Version s m \<Rightarrow> Some s
      | Edit s m \<Rightarrow> Some s | Unsend s m \<Rightarrow> Some s | Storage s m \<Rightarrow> Some s | Disappearing s m \<Rightarrow> Some s
      | CodeInUse s k \<Rightarrow> Some s | Closed s m \<Rightarrow> Some s | Screenshot s m \<Rightarrow> Some s | BackedUp s m \<Rightarrow> Some s
      | Verified s m \<Rightarrow> Some s | Ack s m \<Rightarrow> Some s | Delivered s m \<Rightarrow> Some s | MediaIncoming s m \<Rightarrow> Some s
      | Media s m \<Rightarrow> Some s | BurnMedia s m \<Rightarrow> Some s | Viewed s m \<Rightarrow> Some s | _ \<Rightarrow> None)"

definition frame_body :: "frame \<Rightarrow> wire_olm option" where
  "frame_body f =
     (case f of
        Message s i m \<Rightarrow> Some m | Burn s i m \<Rightarrow> Some m | Burns s m \<Rightarrow> Some m | Version s m \<Rightarrow> Some m
      | Edit s m \<Rightarrow> Some m | Unsend s m \<Rightarrow> Some m | Storage s m \<Rightarrow> Some m | Disappearing s m \<Rightarrow> Some m
      | Closed s m \<Rightarrow> Some m | Screenshot s m \<Rightarrow> Some m | BackedUp s m \<Rightarrow> Some m
      | Verified s m \<Rightarrow> Some m | Ack s m \<Rightarrow> Some m | Delivered s m \<Rightarrow> Some m | MediaIncoming s m \<Rightarrow> Some m
      | Media s m \<Rightarrow> Some m | BurnMedia s m \<Rightarrow> Some m | Viewed s m \<Rightarrow> Some m | _ \<Rightarrow> None)"

definition confirms :: "'s olm \<Rightarrow> frame \<Rightarrow> ('s, 'z) messenger_scheme \<Rightarrow> string option" where
  "confirms R f n = (case f of Delivered s m \<Rightarrow> receipt_name R m s n | _ \<Rightarrow> None)"

lemmas handler_steps = on_message_steps on_burn_steps on_burns_steps on_version_steps on_edit_steps on_unsend_steps
  on_storage_steps on_disappearing_steps on_code_in_use_steps on_closed_steps on_screenshot_steps on_backed_up_steps
  on_verified_steps on_ack_steps on_media_incoming_steps on_media_steps on_burn_media_steps on_viewed_steps

lemma receipt_name_touched [simp]: "receipt_name R m s (n\<lparr>touched := t\<rparr>) = receipt_name R m s n"
  by (simp add: receipt_name_def)

lemma chat_steps_touched [simp]: "chat_steps now rc s (n\<lparr>touched := t\<rparr>) n' = chat_steps now rc s n n'"
  by (simp add: chat_steps_def)

lemma process_frame_steps:
  assumes "process_frame R w drawn f n = Some (r, n')"
  shows "case frame_sender f of None \<Rightarrow> n' = n\<lparr>touched := True\<rparr> | Some s \<Rightarrow> chat_steps (unat w) (confirms R f n) s n n'"
proof -
  have *: "chat_steps (unat w) rc s (n\<lparr>touched := True\<rparr>) n' \<Longrightarrow> chat_steps (unat w) rc s n n'" for rc s by simp
  note h = handler_steps [where n = "n\<lparr>touched := True\<rparr>", unfolded chat_steps_touched]
  note d = on_delivered_steps [where n = "n\<lparr>touched := True\<rparr>", unfolded chat_steps_touched receipt_name_touched]
  show ?thesis
    using assms h d
    by (cases f) (simp_all add: process_frame_def Let_def frame_sender_def confirms_def, (metis snd_conv)+)
qed

section \<open>Nothing is shown twice\<close>

definition inbound_ids :: "chat_message list \<Rightarrow> string list" where
  "inbound_ids h = map message_id (filter (\<lambda>m. \<not> from_me m \<and> \<not> is_system m \<and> message_id m \<noteq> []) h)"

definition inbound_transfers :: "chat_message list \<Rightarrow> string list" where
  "inbound_transfers h = map transfer_id (filter (\<lambda>m. \<not> from_me m \<and> transfer_id m \<noteq> [] \<and> media_id m \<noteq> []) h)"

definition shown_once :: "chat_message list \<Rightarrow> bool" where
  "shown_once h = (distinct (inbound_ids h) \<and> distinct (inbound_transfers h))"

lemma update_first_cases:
  obtains "update_first p f xs = xs" "\<forall>x \<in> set xs. \<not> p x"
    | a x b where "xs = a @ x # b" "p x" "update_first p f xs = a @ f x # b"
proof (induction xs arbitrary: thesis)
  case (Cons y ys)
  show ?case
  proof (cases "p y")
    case True
    then show ?thesis using Cons.prems(2) [of "[]" y ys] by simp
  next
    case False
    show ?thesis
    proof (rule Cons.IH)
      assume "update_first p f ys = ys" "\<forall>x \<in> set ys. \<not> p x"
      with False show ?thesis using Cons.prems(1) by simp
    next
      fix a x b
      assume "ys = a @ x # b" "p x" "update_first p f ys = a @ f x # b"
      with False show ?thesis using Cons.prems(2) [of "y # a" x b] by simp
    qed
  qed
qed simp

lemma inbound_append [simp]:
  "inbound_ids (a @ b) = inbound_ids a @ inbound_ids b" "inbound_transfers (a @ b) = inbound_transfers a @ inbound_transfers b"
  by (simp_all add: inbound_ids_def inbound_transfers_def)

lemma inbound_Cons:
  "inbound_ids (m # h) = (if \<not> from_me m \<and> \<not> is_system m \<and> message_id m \<noteq> [] then message_id m # inbound_ids h else inbound_ids h)"
  "inbound_transfers (m # h) = (if \<not> from_me m \<and> transfer_id m \<noteq> [] \<and> media_id m \<noteq> [] then transfer_id m # inbound_transfers h
     else inbound_transfers h)"
  by (simp_all add: inbound_ids_def inbound_transfers_def)

lemma already_shown_iff: "already_shown i h \<longleftrightarrow> i \<in> set (inbound_ids h)"
  by (auto simp: already_shown_def inbound_ids_def list_ex_iff)

lemma already_complete_iff: "already_complete t h \<longleftrightarrow> t \<in> set (inbound_transfers h)"
  by (auto simp: already_complete_def inbound_transfers_def list_ex_iff)

lemma shown_once_filter:
  assumes "shown_once h"
  shows "shown_once (filter p h)"
proof -
  have "inbound_ids (filter p h) = map message_id (filter p (filter (\<lambda>m. \<not> from_me m \<and> \<not> is_system m \<and> message_id m \<noteq> []) h))"
    "inbound_transfers (filter p h) = map transfer_id (filter p (filter (\<lambda>m. \<not> from_me m \<and> transfer_id m \<noteq> [] \<and> media_id m \<noteq> []) h))"
    unfolding inbound_ids_def inbound_transfers_def filter_filter by (simp_all add: conj_ac)
  moreover have "distinct (map message_id (filter p (filter (\<lambda>m. \<not> from_me m \<and> \<not> is_system m \<and> message_id m \<noteq> []) h)))"
    by (rule distinct_map_filter) (use assms in \<open>simp add: shown_once_def inbound_ids_def\<close>)
  moreover have "distinct (map transfer_id (filter p (filter (\<lambda>m. \<not> from_me m \<and> transfer_id m \<noteq> [] \<and> media_id m \<noteq> []) h)))"
    by (rule distinct_map_filter) (use assms in \<open>simp add: shown_once_def inbound_transfers_def\<close>)
  ultimately show ?thesis by (simp only: shown_once_def)
qed

lemma shown_once_same:
  assumes "\<And>x. from_me (f x) = from_me x" "\<And>x. is_system (f x) = is_system x" "\<And>x. message_id (f x) = message_id x"
    "\<And>x. transfer_id (f x) = transfer_id x" "\<And>x. media_id (f x) = media_id x"
  shows "shown_once (update_first p f h) = shown_once h"
  by (rule update_first_cases [of p f h]) (auto simp: shown_once_def inbound_Cons assms)

lemma shown_once_step: "hist_step now rc h h' \<Longrightarrow> shown_once h \<Longrightarrow> shown_once h'"
proof (induction rule: hist_step.induct)
  case (completed t h i)
  then show ?case
    by (rule_tac update_first_cases [of "placeholder_for t" "\<lambda>m. m\<lparr>media_id := i\<rparr>" h])
      (auto simp: shown_once_def inbound_Cons already_complete_iff placeholder_for_def)
qed (auto simp: shown_once_filter shown_once_same make_tombstone_def, auto simp: shown_once_def inbound_Cons already_shown_iff already_complete_iff inbound_ids_def inbound_transfers_def)

lemma shown_once_steps: "steps now rc c c' \<Longrightarrow> shown_once (history c) \<Longrightarrow> shown_once (history c')"
  unfolding steps_def by (induction rule: rtranclp_induct) (auto intro: shown_once_step)

section \<open>Our messages, and settled ones\<close>

definition ordinary_ours :: "chat_message \<Rightarrow> bool" where
  "ordinary_ours m = (from_me m \<and> \<not> is_system m \<and> burn_secs m = 0)"

definition ours_filed :: "chat_message list \<Rightarrow> bool" where
  "ours_filed h = list_all (\<lambda>m. from_me m \<longrightarrow> transfer_id m = [] \<or> media_id m \<noteq> []) h"

definition may_become :: "string option \<Rightarrow> chat_message \<Rightarrow> chat_message \<Rightarrow> bool" where
  "may_become rc m m' = (m' = m \<or> (\<exists>nm. rc = Some nm \<and> names_ours nm m \<and> m' = m\<lparr>delivery := ''delivered''\<rparr>))"

definition settled :: "nat \<Rightarrow> chat_message \<Rightarrow> bool" where
  "settled now m = (\<not> from_me m \<and> \<not> is_system m \<and> transfer_id m = [] \<and> EDIT_WINDOW < now - sent_at m)"

lemma may_become_refl [simp]: "may_become rc m m"
  by (simp add: may_become_def)

lemma may_become_all [simp]: "list_all2 (may_become rc) h h"
  by (simp add: list.rel_refl)

lemma may_become_trans: "may_become rc a b \<Longrightarrow> may_become rc b c \<Longrightarrow> may_become rc a c"
  by (auto simp: may_become_def names_ours_def)

lemma may_become_all_trans:
  "\<lbrakk>list_all2 (may_become rc) a b; list_all2 (may_become rc) b c\<rbrakk> \<Longrightarrow> list_all2 (may_become rc) a c"
  by (rule list_all2_trans [of "may_become rc" "may_become rc" "may_become rc"]) (auto intro: may_become_trans)

lemma filter_keep: "list_all (\<lambda>m. p m \<or> \<not> q m) h \<Longrightarrow> filter q (filter p h) = filter q h"
  by (induction h) auto

lemma filter_update:
  assumes "\<And>m. m \<in> set h \<Longrightarrow> p m \<Longrightarrow> q (f m) = q m \<and> (q m \<longrightarrow> r m (f m))" and "\<And>m. r m m"
  shows "list_all2 r (filter q h) (filter q (update_first p f h))"
  using assms(1) by (induction h) (auto simp: assms(2) list.rel_refl)

lemma filter_same_update:
  assumes "\<And>m. m \<in> set h \<Longrightarrow> p m \<Longrightarrow> \<not> q (f m) \<and> \<not> q m"
  shows "filter q (update_first p f h) = filter q h"
  using assms by (induction h) auto

lemma ours_filed_update:
  "(\<And>m. m \<in> set h \<Longrightarrow> p m \<Longrightarrow> from_me (f m) = from_me m \<and> (from_me m \<longrightarrow> transfer_id (f m) = transfer_id m \<and> media_id (f m) = media_id m))
   \<Longrightarrow> ours_filed h \<Longrightarrow> ours_filed (update_first p f h)"
  unfolding ours_filed_def by (induction h) auto

lemma ours_filed_step: "hist_step now rc h h' \<Longrightarrow> ours_filed h \<Longrightarrow> ours_filed h'"
proof (induction rule: hist_step.induct)
  case (completed t h i)
  then show ?case by (intro ours_filed_update) (auto simp: ours_filed_def list_all_iff placeholder_for_def)
qed (auto intro!: ours_filed_update simp: make_tombstone_def, auto simp: ours_filed_def list_all_iff)

lemma ours_step: "hist_step now rc h h' \<Longrightarrow> ours_filed h \<Longrightarrow>
  list_all2 (may_become rc) (filter ordinary_ours h) (filter ordinary_ours h')"
proof (induction rule: hist_step.induct)
  case (unnotice p h)
  then have "filter ordinary_ours (filter p h) = filter ordinary_ours h"
    by (intro filter_keep) (auto simp: list_all_iff ordinary_ours_def)
  then show ?case by simp
next
  case (abandoned t h)
  have "filter ordinary_ours (filter (\<lambda>m. \<not> (transfer_id m = t \<and> \<not> from_me m \<and> media_id m = [])) h) = filter ordinary_ours h"
    by (intro filter_keep) (auto simp: list_all_iff ordinary_ours_def)
  then show ?case by simp
next
  case (burned h target)
  have "filter ordinary_ours (filter (\<lambda>m. \<not> viewed_target target m) h) = filter ordinary_ours h"
    by (intro filter_keep) (auto simp: list_all_iff ordinary_ours_def viewed_target_def)
  then show ?case by simp
next
  case (completed t h i)
  then have "filter ordinary_ours (update_first (placeholder_for t) (\<lambda>m. m\<lparr>media_id := i\<rparr>) h) = filter ordinary_ours h"
    by (intro filter_same_update) (auto simp: ours_filed_def list_all_iff placeholder_for_def ordinary_ours_def)
  then show ?case by simp
next
  case (confirmed named h)
  then show ?case by (intro filter_update) (auto simp: ordinary_ours_def may_become_def)
next
  case (rewritten h target t)
  have "filter ordinary_ours (update_first (open_to_change now target) (\<lambda>m. m\<lparr>msg_text := t, edited := True\<rparr>) h) = filter ordinary_ours h"
    by (intro filter_same_update) (auto simp: open_to_change_def ordinary_ours_def)
  then show ?case by simp
next
  case (retracted h target)
  have "filter ordinary_ours (update_first (open_to_change now target) make_tombstone h) = filter ordinary_ours h"
    by (intro filter_same_update) (auto simp: open_to_change_def ordinary_ours_def make_tombstone_def)
  then show ?case by simp
qed (simp_all add: ordinary_ours_def)

lemma ours_steps:
  assumes "steps now rc c c'" and "ours_filed (history c)"
  shows "ours_filed (history c') \<and> list_all2 (may_become rc) (filter ordinary_ours (history c)) (filter ordinary_ours (history c'))"
  using assms(1) unfolding steps_def
proof (induction rule: rtranclp_induct)
  case base
  with assms(2) show ?case by simp
next
  case (step h h')
  then show ?case using ours_filed_step ours_step may_become_all_trans by blast
qed

lemma settled_step: "hist_step now rc h h' \<Longrightarrow> filter (settled now) h' = filter (settled now) h"
proof (induction rule: hist_step.induct)
  case (unnotice p h)
  then show ?case by (intro filter_keep) (auto simp: list_all_iff settled_def)
next
  case (abandoned t h)
  then show ?case by (intro filter_keep) (auto simp: list_all_iff settled_def)
next
  case (burned h target)
  then show ?case by (intro filter_keep) (auto simp: list_all_iff settled_def viewed_target_def)
qed (auto intro!: filter_same_update simp: settled_def placeholder_for_def open_to_change_def names_ours_def make_tombstone_def)

lemma settled_steps: "steps now rc c c' \<Longrightarrow> filter (settled now) (history c') = filter (settled now) (history c)"
  unfolding steps_def by (induction rule: rtranclp_induct) (auto simp: settled_step)

section \<open>Frames that do not open\<close>

definition unopened :: "'s olm \<Rightarrow> frame \<Rightarrow> ('s, 'z) messenger_scheme \<Rightarrow> bool" where
  "unopened R f n =
     (case frame_sender f of None \<Rightarrow> True
      | Some s \<Rightarrow> (case get_conv s n of None \<Rightarrow> True
                   | Some c \<Rightarrow> (case frame_body f of None \<Rightarrow> received_any R (session c)
                                | Some m \<Rightarrow> opened R (session c) m = None)))"

lemma unopened_rules:
  assumes "\<And>c. get_conv s n = Some c \<Longrightarrow> opened R (session c) m = None"
  shows "snd (from_approved R s m k n) = n" "snd (signal R s m k' n) = n" "snd (verify_control R w s m mk k'' n) = n"
  using assms by (auto simp: from_approved_def signal_def verify_control_def opened_def split: option.splits)

lemma unopened_handlers:
  assumes "\<And>c. get_conv s n = Some c \<Longrightarrow> opened R (session c) m = None"
  shows "snd (on_message R w s i m n) = n" and "snd (on_burn R w s i m n) = n" and "snd (on_burns R w s m n) = n"
    and "snd (on_version R w s m n) = n" and "snd (on_edit R w s m n) = n" and "snd (on_unsend R w s m n) = n"
    and "snd (on_storage R w s m n) = n" and "snd (on_disappearing R w s m n) = n" and "snd (on_closed R w s m n) = n"
    and "snd (on_screenshot R w s m n) = n" and "snd (on_backed_up R w s m n) = n" and "snd (on_verified R w s m n) = n"
    and "snd (on_ack R w s m n) = n" and "snd (on_delivered R w s m n) = n" and "snd (on_media_incoming R w d s m n) = n"
    and "snd (on_media R w d s m n) = n" and "snd (on_burn_media R w d s m n) = n" and "snd (on_viewed R s m n) = n"
proof -
  note u = unopened_rules [where s = s and n = n and R = R and m = m, OF assms]
  show "snd (on_message R w s i m n) = n" unfolding on_message_def by (split if_split) (metis snd_conv u(1))
  show "snd (on_burn R w s i m n) = n" unfolding on_burn_def by (split if_split) (metis snd_conv u(1))
  show "snd (on_delivered R w s m n) = n" unfolding on_delivered_def by (split if_split) (metis snd_conv u(2))
  show "snd (on_burns R w s m n) = n" unfolding on_burns_def by (rule u)
  show "snd (on_version R w s m n) = n" unfolding on_version_def by (rule u)
  show "snd (on_edit R w s m n) = n" unfolding on_edit_def by (rule u)
  show "snd (on_unsend R w s m n) = n" unfolding on_unsend_def by (rule u)
  show "snd (on_storage R w s m n) = n" unfolding on_storage_def by (rule u)
  show "snd (on_disappearing R w s m n) = n" unfolding on_disappearing_def by (rule u)
  show "snd (on_closed R w s m n) = n" unfolding on_closed_def by (rule u)
  show "snd (on_screenshot R w s m n) = n" unfolding on_screenshot_def by (rule u)
  show "snd (on_backed_up R w s m n) = n" unfolding on_backed_up_def by (rule u)
  show "snd (on_verified R w s m n) = n" unfolding on_verified_def by (rule u)
  show "snd (on_ack R w s m n) = n" unfolding on_ack_def by (rule u)
  show "snd (on_media_incoming R w d s m n) = n" unfolding on_media_incoming_def by (rule u)
  show "snd (on_media R w d s m n) = n" unfolding on_media_def by (rule u)
  show "snd (on_burn_media R w d s m n) = n" unfolding on_burn_media_def by (rule u)
  show "snd (on_viewed R s m n) = n" unfolding on_viewed_def by (rule u)
qed

section \<open>Runs\<close>

datatype inbox_event =
    Arrives u64 "string option" frame
  | SweepBurns nat
  | SweepTime nat
  | Reveals nat string string nat

fun inbox_run :: "'s olm \<Rightarrow> inbox_event list \<Rightarrow> ('s, 'z) messenger_scheme \<Rightarrow> ('s, 'z) messenger_scheme option" where
  "inbox_run R [] n = Some n"
| "inbox_run R (Arrives w drawn f # es) n = Option.bind (process_frame R w drawn f n) (\<lambda>(r, n). inbox_run R es n)"
| "inbox_run R (SweepBurns now # es) n = inbox_run R es (snd (sweep_burns now n))"
| "inbox_run R (SweepTime now # es) n = inbox_run R es (sweep_time now n)"
| "inbox_run R (Reveals now who i at # es) n = inbox_run R es (snd (mark_burn_viewed R now who i at n))"

definition all_shown_once :: "('s, 'z) messenger_scheme \<Rightarrow> bool" where
  "all_shown_once n = (\<forall>i c. get_conv i n = Some c \<longrightarrow> shown_once (history c))"

lemma shown_once_burn_sweep: "shown_once (history c) \<Longrightarrow> shown_once (history (fst (burn_sweep_chat now c)))"
proof -
  have nil: "inbound_ids [] = []" "inbound_transfers [] = []" by (simp_all add: inbound_ids_def inbound_transfers_def)
  have "inbound_ids (burn_keep now m) = inbound_ids (if burn_done now m then [] else [m])
      \<and> inbound_transfers (burn_keep now m) = inbound_transfers (if burn_done now m then [] else [m])" for m
    by (cases "burn_lapsed now m") (simp_all add: burn_keep_def burn_lapsed_done inbound_Cons nil make_burn_tombstone_def)
  then have "inbound_ids (concat (map (burn_keep now) h)) = inbound_ids (filter (\<lambda>m. \<not> burn_done now m) h)
      \<and> inbound_transfers (concat (map (burn_keep now) h)) = inbound_transfers (filter (\<lambda>m. \<not> burn_done now m) h)" for h
    by (induction h) (simp_all add: inbound_Cons nil)
  then show "shown_once (history c) \<Longrightarrow> ?thesis"
    using shown_once_filter [of "history c"] by (simp add: shown_once_def burn_sweep_history)
qed

lemma all_shown_once_burns: "all_shown_once n \<Longrightarrow> all_shown_once (snd (sweep_burns now n))"
  by (auto simp: all_shown_once_def get_conv_sweep_burns intro: shown_once_burn_sweep)

lemma sweep_time_convs:
  "convs (sweep_time now n) = map (\<lambda>(i, c). (i, fst (time_sweep_chat now c))) (convs (snd (sweep_burns now n)))"
  by (simp add: sweep_time_def Let_def case_prod_unfold)

lemma get_conv_sweep_time:
  "get_conv i (sweep_time now n) = map_option (\<lambda>c. fst (time_sweep_chat now c)) (get_conv i (snd (sweep_burns now n)))"
  by (simp add: get_conv_def sweep_time_convs map_of_map)

lemma shown_once_time_sweep: "shown_once (history c) \<Longrightarrow> shown_once (history (fst (time_sweep_chat now c)))"
proof -
  assume h: "shown_once (history c)"
  let ?g = "\<lambda>m. if queue_lapsed now m then m\<lparr>delivery := ''expired''\<rparr> else m"
  have "inbound_ids (map ?g h) = inbound_ids h \<and> inbound_transfers (map ?g h) = inbound_transfers h" for h
    by (induction h) (auto simp: inbound_Cons)
  with h have "shown_once (map ?g (history c))" by (simp add: shown_once_def)
  with shown_once_filter show ?thesis by (simp add: time_sweep_chat_def Let_def)
qed

lemma all_shown_once_time: "all_shown_once n \<Longrightarrow> all_shown_once (sweep_time now n)"
  using all_shown_once_burns [of n now] by (auto simp: all_shown_once_def get_conv_sweep_time intro: shown_once_time_sweep)

lemma all_shown_once_viewed: "all_shown_once n \<Longrightarrow> all_shown_once (snd (mark_burn_viewed R now who i at n))"
  by (auto simp: all_shown_once_def mark_burn_viewed_def send_burn_receipt_def Let_def shown_once_same split: option.splits)

lemma frame_chat:
  assumes "process_frame R w drawn f n = Some (r, n')"
  shows "case get_conv i n of None \<Rightarrow> get_conv i n' = None
    | Some c \<Rightarrow> \<exists>c'. get_conv i n' = Some c' \<and> steps (unat w) (confirms R f n) c c'"
proof (cases "frame_sender f = Some i")
  case True
  with process_frame_steps [OF assms] show ?thesis by (simp add: chat_steps_def)
next
  case False
  with process_frame_steps [OF assms] have "get_conv i n' = get_conv i n"
    by (auto simp: chat_steps_def split: option.splits)
  then show ?thesis by (auto split: option.splits)
qed

lemma frame_chat_from:
  assumes "process_frame R w drawn f n = Some (r, n')" and "get_conv i n' = Some c'"
  obtains c where "get_conv i n = Some c" "steps (unat w) (confirms R f n) c c'"
  using frame_chat [OF assms(1), of i] assms(2) by (auto split: option.splits)

lemma all_shown_once_frame: "process_frame R w drawn f n = Some (r, n') \<Longrightarrow> all_shown_once n \<Longrightarrow> all_shown_once n'"
  unfolding all_shown_once_def by (metis frame_chat_from shown_once_steps)

section \<open>Properties\<close>

text \<open>
  The frames these properties are about: the kinds of an established conversation, on which \<open>process_frame\<close> is defined.
  The other eight belong to pairing (\<open>Hello\<close>, \<open>Approved\<close>) and to the standing announcements (\<open>MailboxKey\<close>, \<open>Captures\<close>,
  \<open>Name\<close>, \<open>Address\<close>, \<open>RelaySet\<close>, \<open>ClientKeySealed\<close>). They do change chats, in other ways: a \<open>Hello\<close> after a close puts a
  new chat in the place of the old one and its history.
\<close>

definition conversation_frame :: "frame \<Rightarrow> bool" where
  "conversation_frame f =
     (case f of Hello _ _ _ \<Rightarrow> False | Approved _ _ \<Rightarrow> False | MailboxKey _ _ \<Rightarrow> False | Captures _ _ \<Rightarrow> False
      | Name _ _ \<Rightarrow> False | Address _ _ \<Rightarrow> False | RelaySet _ _ \<Rightarrow> False | ClientKeySealed _ _ \<Rightarrow> False | _ \<Rightarrow> True)"

lemma conversation_frames: "process_frame R w drawn f n \<noteq> None \<longleftrightarrow> conversation_frame f"
  by (cases f) (simp_all add: process_frame_def conversation_frame_def)

lemma conversation_taken:
  assumes "conversation_frame f"
  obtains r n' where "process_frame R w drawn f n = Some (r, n')"
proof (cases "process_frame R w drawn f n")
  case None
  with assms conversation_frames [of R w drawn f n] show ?thesis by simp
next
  case (Some a)
  then show ?thesis using that by (cases a) simp
qed

text \<open>
  C27. Every frame of an established conversation (the 22 kinds of \<open>conversation_frame\<close>; pairing and the standing
  announcements aside), whoever sent it, changes at most the chat of the sender it names, and that chat's history only
  by the permitted steps: a notice added or cleared, a message or attachment not yet held added, a placeholder
  completed or dropped, a text of theirs of the last quarter of an hour rewritten or retracted, a message of ours
  marked delivered by a receipt that opened to its name, a burn message of ours dropped.
\<close>

theorem frames_take_permitted_steps:
  assumes "conversation_frame f"
  shows "\<exists>r n'. process_frame R w drawn f n = Some (r, n')
       \<and> (\<forall>j. frame_sender f \<noteq> Some j \<longrightarrow> get_conv j n' = get_conv j n)
       \<and> (\<forall>i c. get_conv i n = Some c \<longrightarrow>
            (\<exists>c'. get_conv i n' = Some c' \<and> (hist_step (unat w) (confirms R f n))\<^sup>*\<^sup>* (history c) (history c')))"
proof -
  obtain r n' where run: "process_frame R w drawn f n = Some (r, n')" using conversation_taken [OF assms] .
  have "get_conv j n' = get_conv j n" if "frame_sender f \<noteq> Some j" for j
    using that process_frame_steps [OF run] by (auto simp: chat_steps_def split: option.splits)
  moreover have "\<exists>c'. get_conv i n' = Some c' \<and> (hist_step (unat w) (confirms R f n))\<^sup>*\<^sup>* (history c) (history c')"
    if "get_conv i n = Some c" for i c
    using that frame_chat [OF run, of i] by (simp add: steps_def)
  ultimately show ?thesis using run by blast
qed

text \<open>
  C28. A forged, replayed or misdirected frame of an established conversation (the 22 kinds of \<open>conversation_frame\<close>), one
  whose sealed body does not open on the session of the contact it claims to be from, changes nothing at all: no chat,
  no receipt owed, no file. The one kind of these that is acted on without being opened, the report of a used code,
  changes nothing once anything has arrived on the chat's session; before that it closes the waiting chat.
\<close>

theorem unopened_frame_changes_nothing:
  assumes "conversation_frame f" and "unopened R f n"
  shows "\<exists>r. process_frame R w drawn f n = Some (r, n\<lparr>touched := True\<rparr>)"
proof -
  obtain r n' where run: "process_frame R w drawn f n = Some (r, n')" using conversation_taken [OF assms(1)] .
  let ?n = "n\<lparr>touched := True\<rparr>"
  have shut: "unopened R f n \<Longrightarrow> frame_sender f = Some s \<Longrightarrow> frame_body f = Some m \<Longrightarrow> get_conv s ?n = Some c
      \<Longrightarrow> opened R (session c) m = None" for s m c
    by (simp add: unopened_def)
  note u = unopened_handlers [where n = ?n, OF shut [OF assms(2)]]
  have "n' = ?n"
  proof (cases "frame_body f")
    case (Some m)
    then show ?thesis using run u
      by (cases f) (simp_all add: frame_body_def frame_sender_def process_frame_def Let_def, (metis snd_conv)+)
  next
    case None
    then show ?thesis using run assms(2)
      by (cases f) (auto simp: frame_body_def frame_sender_def process_frame_def Let_def unopened_def on_code_in_use_def split: option.splits)
  qed
  with run show ?thesis by blast
qed

text \<open>
  C29. No message or attachment of a contact is shown twice: in every run of frames, sweeps and reveals, whatever
  copies arrive by whichever path, no chat holds two of the contact's messages with one id, nor two complete
  attachments of one transfer.
\<close>

theorem nothing_shown_twice:
  assumes "inbox_run R es n = Some n'" and "all_shown_once n"
  shows "all_shown_once n'"
  using assms
proof (induction R es n rule: inbox_run.induct)
  case (2 R w drawn f es n)
  then obtain r n1 where f: "process_frame R w drawn f n = Some (r, n1)" and run: "inbox_run R es n1 = Some n'"
    by (auto simp: bind_eq_Some_conv)
  from 2(1) [OF f refl run all_shown_once_frame [OF f 2(3)]] show ?case .
qed (auto simp: all_shown_once_burns all_shown_once_time all_shown_once_viewed)

text \<open>
  C30. What a contact cannot do within an established conversation: our ordinary messages keep their content, order and
  place whatever frame of the 22 kinds of \<open>conversation_frame\<close> arrives (a new pairing, \<open>Hello\<close>, is not among them),
  only a receipt that opened to a message's name marks it delivered; and the contact's own texts older than the
  edit window can no longer be changed or taken back.
\<close>

theorem contents_stand:
  assumes "conversation_frame f" and "get_conv i n = Some c" and "ours_filed (history c)"
  shows "\<exists>r n' c'. process_frame R w drawn f n = Some (r, n') \<and> get_conv i n' = Some c' \<and> ours_filed (history c')
       \<and> list_all2 (may_become (confirms R f n)) (filter ordinary_ours (history c)) (filter ordinary_ours (history c'))
       \<and> filter (settled (unat w)) (history c') = filter (settled (unat w)) (history c)"
proof -
  obtain r n' where run: "process_frame R w drawn f n = Some (r, n')" using conversation_taken [OF assms(1)] .
  obtain c' where c': "get_conv i n' = Some c'" and st: "steps (unat w) (confirms R f n) c c'"
    using frame_chat [OF run, of i] assms(2) by auto
  note ours = ours_steps [OF st assms(3)]
  show ?thesis
    by (intro exI conjI) (rule run c' conjunct1 [OF ours] conjunct2 [OF ours] settled_steps [OF st])+
qed

section \<open>Concrete runs\<close>

text \<open>A session that counts what it opened, in the clear.\<close>

definition plain_olm :: "nat olm" where
  "plain_olm =
     \<lparr>seal_olm = (\<lambda>ses pt. Some (\<lparr>message_type = 1, body = bytes_text pt\<rparr>, ses)),
      open_olm = (\<lambda>ses m. if message_type m = 1 then Some (text_bytes (body m), ses + 1) else None),
      parses_olm = (\<lambda>m. message_type m \<le> 1), received_any = (\<lambda>ses. 0 < ses)\<rparr>"

definition sealed_as :: "string \<Rightarrow> wire_olm" where
  "sealed_as t = \<lparr>message_type = 1, body = t\<rparr>"

definition bobs_text :: frame where
  "bobs_text = Message ''bob'' ''b2'' (sealed_as ''hi'')"

lemma sample_texts:
  "map_option (\<lambda>(r, n'). (r, map_option (\<lambda>c. map (\<lambda>m. (from_me m, msg_text m)) (history c)) (get_conv ''bob'' n')))
     (process_frame plain_olm 2000 None bobs_text sample_messenger)
   = Some (Inr (Some (''bob'', ''hi'')), Some [(True, ''hello''), (False, ''old''), (False, ''hi'')])"
proof -
  have "utf8_valid ''hi''" "sane_id ''b2''" by (simp_all add: code_def sane_id_def is_ascii_graphic_def MAX_ID_BYTES_def)
  then have "from_utf8_lossy (text_bytes ''hi'') = ''hi''" "clamp_text ''hi'' = ''hi''"
    by (simp_all add: from_utf8_lossy_text clamp_text_short MAX_TEXT_BYTES_def)
  moreover have "admit 2000 0 default_allowance = (Yes, \<lparr>window_start = 0, messages = 1, media_bytes = 0, noticed = False\<rparr>)"
    by (simp add: admit_def default_allowance_def sat_add64_def DAY_SECS_def MAX_MESSAGES_PER_DAY_def MAX_MEDIA_BYTES_PER_DAY_def)
  ultimately show ?thesis using \<open>sane_id ''b2''\<close>
    by (simp add: process_frame_def bobs_text_def on_message_def from_approved_def plain_olm_def sample_messenger_def sample_chat_def
      sealed_as_def get_conv_def mark_alive_def forget_upgrade_notice_def take_text_def owe_receipt_def already_shown_def
      text_message_def within_allowance_def kept_chat_def put_conv_def push_message_def clear_system_notices_def Let_def)
qed

lemma sample_ready: "all_shown_once sample_messenger"
proof -
  have "shown_once (history sample_chat)"
    by (simp add: sample_chat_def shown_once_def inbound_ids_def inbound_transfers_def text_message_def)
  then show ?thesis
    by (auto simp: all_shown_once_def sample_messenger_def get_conv_def split: if_splits)
qed

theorem frames_take_permitted_steps_witness:
  "\<exists>r n' c'. process_frame plain_olm 2000 None bobs_text sample_messenger = Some (r, n')
     \<and> get_conv ''eve'' n' = Some sample_chat \<and> get_conv ''bob'' n' = Some c'
     \<and> map msg_text (history c') = [''hello'', ''old'', ''hi'']
     \<and> (hist_step 2000 None)\<^sup>*\<^sup>* (history sample_chat) (history c')"
proof -
  from sample_texts obtain r n' c' where run: "process_frame plain_olm 2000 None bobs_text sample_messenger = Some (r, n')"
    and c': "get_conv ''bob'' n' = Some c'" and texts: "map (\<lambda>m. (from_me m, msg_text m)) (history c') = [(True, ''hello''), (False, ''old''), (False, ''hi'')]"
    by auto
  have "map snd (map (\<lambda>m. (from_me m, msg_text m)) (history c')) = [''hello'', ''old'', ''hi'']" unfolding texts by simp
  then have shown: "map msg_text (history c') = [''hello'', ''old'', ''hi'']" by (simp add: o_def)
  have quiet: "confirms plain_olm bobs_text sample_messenger = None" "frame_sender bobs_text = Some ''bob''"
    by (simp_all add: confirms_def bobs_text_def frame_sender_def)
  have chats: "get_conv ''bob'' sample_messenger = Some sample_chat" "get_conv ''eve'' sample_messenger = Some sample_chat"
    by (simp_all add: get_conv_def sample_messenger_def)
  have "conversation_frame bobs_text" by (simp add: bobs_text_def conversation_frame_def)
  from frames_take_permitted_steps [OF this, of plain_olm 2000 None sample_messenger] run
  have t: "\<forall>j. frame_sender bobs_text \<noteq> Some j \<longrightarrow> get_conv j n' = get_conv j sample_messenger"
    "\<forall>i c. get_conv i sample_messenger = Some c \<longrightarrow> (\<exists>c'. get_conv i n' = Some c'
       \<and> (hist_step (unat (2000::u64)) (confirms plain_olm bobs_text sample_messenger))\<^sup>*\<^sup>* (history c) (history c'))"
    by (metis option.inject prod.inject)+
  have eve: "get_conv ''eve'' n' = Some sample_chat"
    using t(1) [THEN spec, of "''eve''"] quiet chats by simp
  have st: "(hist_step 2000 None)\<^sup>*\<^sup>* (history sample_chat) (history c')"
    using t(2) [THEN spec, THEN spec, of "''bob''" sample_chat] quiet chats c' by simp
  show ?thesis by (intro exI conjI) (rule run eve c' shown st)+
qed

theorem unopened_frame_changes_nothing_witness:
  "map_option snd (process_frame plain_olm 2000 None (Closed ''bob'' \<lparr>message_type = 0, body = ''forged''\<rparr>) sample_messenger)
   = Some (sample_messenger\<lparr>touched := True\<rparr>)"
proof -
  let ?f = "Closed ''bob'' \<lparr>message_type = 0, body = ''forged''\<rparr>"
  have "conversation_frame ?f" by (simp add: conversation_frame_def)
  moreover have "unopened plain_olm ?f sample_messenger"
    by (simp add: unopened_def frame_sender_def frame_body_def get_conv_def sample_messenger_def opened_def plain_olm_def)
  ultimately obtain r where "process_frame plain_olm 2000 None ?f sample_messenger = Some (r, sample_messenger\<lparr>touched := True\<rparr>)"
    using unopened_frame_changes_nothing [of ?f plain_olm sample_messenger 2000 None] by blast
  then show ?thesis by simp
qed

theorem nothing_shown_twice_witness:
  "\<exists>n'. inbox_run plain_olm [Arrives 2000 None bobs_text, Arrives 2001 None bobs_text, SweepTime 3000] sample_messenger = Some n'
     \<and> all_shown_once n'"
proof -
  have "inbox_run plain_olm [Arrives 2000 None bobs_text, Arrives 2001 None bobs_text, SweepTime 3000] sample_messenger \<noteq> None"
    by (auto simp: process_frame_def bobs_text_def Let_def split: prod.splits)
  then show ?thesis using nothing_shown_twice [OF _ sample_ready] by blast
qed

definition bobs_receipt :: frame where
  "bobs_receipt = Delivered ''bob'' (sealed_as ''a1'')"

theorem contents_stand_witness:
  "\<exists>r n' c'. process_frame plain_olm 2000 None bobs_receipt sample_messenger = Some (r, n') \<and> get_conv ''bob'' n' = Some c'
     \<and> list_all2 (may_become (Some ''a1'')) (filter ordinary_ours (history sample_chat)) (filter ordinary_ours (history c'))
     \<and> filter (settled 2000) (history c') = [text_message 60 False ''old'' ''b1'']"
proof -
  have "conversation_frame bobs_receipt" by (simp add: bobs_receipt_def conversation_frame_def)
  moreover have "confirms plain_olm bobs_receipt sample_messenger = Some ''a1''"
    by (simp add: confirms_def bobs_receipt_def receipt_name_def get_conv_def sample_messenger_def opened_def plain_olm_def
        sealed_as_def from_utf8_lossy_text code_def)
  moreover have "get_conv ''bob'' sample_messenger = Some sample_chat" by (simp add: get_conv_def sample_messenger_def)
  moreover have "ours_filed (history sample_chat)" by (simp add: ours_filed_def sample_chat_def text_message_def)
  moreover have "filter (settled 2000) (history sample_chat) = [text_message 60 False ''old'' ''b1'']"
    by (simp add: settled_def sample_chat_def text_message_def EDIT_WINDOW_def)
  ultimately show ?thesis
    using contents_stand [of bobs_receipt "''bob''" sample_messenger sample_chat plain_olm 2000 None] by fastforce
qed

end
