(* ===== verification/Recall.thy ===== *)
theory Recall
  imports RelayClient RelaySets PollPlan
begin

text \<open>
  Copies of a sealed message on relays, and taking them back: \<open>queue_on_relays\<close> and \<open>recall_receipts\<close> of
  \<open>core/src/node.rs\<close>, over the relays and the network of \<open>RelayClient\<close>. The transport's two ways of making a
  client, the sealing and the hash behind the circuit group are arguments.
\<close>

section \<open>Posting and recalling copies\<close>

definition handed_directly :: queued_receipt where
  "handed_directly = \<lparr>q_relay = None, q_handle = [], q_msg_id = [], q_delete_token = []\<rparr>"

text \<open>What the transport offers: a dialer for an address, and one on circuits of a group of its own.\<close>

record relay_transport =
  relay_dialer :: "string \<Rightarrow> bool"
  relay_dialer_isolated :: "string \<Rightarrow> nat \<Rightarrow> bool"

definition build_relay :: "relay_transport \<Rightarrow> string \<Rightarrow> relay_client" where
  "build_relay T a = (if relay_dialer T a then Dialer a (Some a) else Tcp a)"

definition isolated :: "relay_transport \<Rightarrow> relay_client \<Rightarrow> nat \<Rightarrow> relay_client" where
  "isolated T c grp =
     (case client_addr c of
        Some a \<Rightarrow> if relay_dialer_isolated T a grp then Dialer a (Some a) else c
      | None \<Rightarrow> c)"

definition post_copy ::
  "network \<Rightarrow> relay_client \<Rightarrow> string option \<Rightarrow> string \<Rightarrow> bytes \<Rightarrow> world \<Rightarrow> queued_receipt list \<times> world" where
  "post_copy N c a handle sealed w =
     (let (r, w) = client_post N c handle sealed (secs RELAY_TTL) w
      in (case r of None \<Rightarrow> []
          | Some p \<Rightarrow> [\<lparr>q_relay = a, q_handle = handle, q_msg_id = rec_msg_id p, q_delete_token = rec_delete_token p\<rparr>], w))"

fun fan_out ::
  "network \<Rightarrow> relay_transport \<Rightarrow> nat \<Rightarrow> string \<Rightarrow> bytes \<Rightarrow> string list \<Rightarrow> string list \<Rightarrow> world \<Rightarrow> queued_receipt list \<times> world" where
  "fan_out N T grp handle sealed seen [] w = ([], w)"
| "fan_out N T grp handle sealed seen (a # as) w =
     (if a \<in> set seen then fan_out N T grp handle sealed seen as w
      else (let (copies, w) = post_copy N (isolated T (build_relay T a) grp) (Some a) handle sealed w;
                (more, w) = fan_out N T grp handle sealed (seen @ [a]) as w
            in (copies @ more, w)))"

definition queue_on_relays ::
  "network \<Rightarrow> relay_transport \<Rightarrow> mailbox_crypto \<Rightarrow> (string \<Rightarrow> bytes \<Rightarrow> bytes option) \<Rightarrow> relay_client option \<Rightarrow> string list \<Rightarrow>
   string \<Rightarrow> string \<Rightarrow> bytes \<Rightarrow> world \<Rightarrow> queued_receipt list option \<times> world" where
  "queue_on_relays N T C relay_wrap primary peer_relays contact_id handle frame w =
     (if primary = None \<and> peer_relays = [] then (None, w)
      else if handle = [] then (None, w)
      else (case relay_wrap contact_id frame of None \<Rightarrow> (None, w)
        | Some sealed \<Rightarrow>
            (let grp = post_group C contact_id;
                 (first, w) = (case primary of None \<Rightarrow> ([], w)
                               | Some p \<Rightarrow> post_copy N (isolated T p grp) None handle sealed w);
                 seen = (case Option.bind primary client_addr of None \<Rightarrow> [] | Some a \<Rightarrow> [a]);
                 (more, w) = fan_out N T grp handle sealed seen peer_relays w
             in (if first @ more = [] then None else Some (first @ more), w))))"

fun recall_loop ::
  "network \<Rightarrow> relay_transport \<Rightarrow> nat \<Rightarrow> relay_client option \<Rightarrow> queued_receipt list \<Rightarrow> bool \<Rightarrow> world \<Rightarrow> bool \<times> world" where
  "recall_loop N T grp primary [] all_recalled w = (all_recalled, w)"
| "recall_loop N T grp primary (q # qs) all_recalled w =
     (case (case q_relay q of None \<Rightarrow> map_option (\<lambda>p. isolated T p grp) primary
            | Some a \<Rightarrow> Some (isolated T (build_relay T a) grp)) of
        None \<Rightarrow> recall_loop N T grp primary qs False w
      | Some c \<Rightarrow>
          if q_handle q = [] then recall_loop N T grp primary qs False w
          else (let (r, w) = client_recall N c (q_handle q) \<lparr>rec_msg_id = q_msg_id q, rec_delete_token = q_delete_token q\<rparr> w
                in recall_loop N T grp primary qs (all_recalled \<and> r = Some True) w))"

definition recall_receipts ::
  "network \<Rightarrow> relay_transport \<Rightarrow> mailbox_crypto \<Rightarrow> relay_client option \<Rightarrow> string \<Rightarrow> queued_receipt list \<Rightarrow> world \<Rightarrow> bool \<times> world" where
  "recall_receipts N T C primary contact_id receipts w =
     (if receipts = [] then (False, w) else recall_loop N T (post_group C contact_id) primary receipts True w)"

section \<open>Where a copy is\<close>

text \<open>The tokens the relays will draw, and how often a blob with the token \<open>t\<close> is or was in a mailbox.\<close>

fun op_toks :: "relay_op \<Rightarrow> (string \<times> string) list" where
  "op_toks (Serve now u toks req) = [toks]"
| "op_toks (Sweep now) = []"

definition exchange_toks :: "exchange \<Rightarrow> (string \<times> string) list" where
  "exchange_toks e = concat (map (op_toks \<circ> snd) (others e)) @ [ex_tokens e]"

definition script_toks :: "world \<Rightarrow> (string \<times> string) list" where
  "script_toks w = concat (map exchange_toks (script w))"

definition bears :: "string \<times> string \<Rightarrow> stored \<Rightarrow> bool" where
  "bears t s = (msg_id s = fst t \<and> delete_token s = snd t)"

definition traces :: "string \<times> string \<Rightarrow> string \<Rightarrow> string \<Rightarrow> world \<Rightarrow> nat" where
  "traces t r h w =
     length (filter (bears t) (queued (stores w r) h)) + length (filter (\<lambda>hs. fst hs = h \<and> bears t (snd hs)) (handed w r))"

definition relays_ok :: "network \<Rightarrow> world \<Rightarrow> bool" where
  "relays_ok N w \<longleftrightarrow> (\<forall>r. store_inv (net_limits N r) (stores w r))"

lemma many_drained_bears:
  "store_inv lim st \<Longrightarrow>
   length (filter (\<lambda>hs. fst hs = h \<and> P (snd hs)) (many_drained hs b now st))
     + length (filter P (queued (snd (snd (drain_many hs b now st))) h)) \<le> length (filter P (queued st h))"
proof (induction hs b now st rule: drain_many.induct)
  case (2 x hs b now st)
  obtain t b1 st1 where 1: "drain_handle_bounded x b now st = (t, b1, st1)" by (metis prod_cases3)
  have inv: "store_inv lim st1" using "2.prems" 1 by (rule drain_queue_inv)
  note IH = "2.IH" [OF 1 [symmetric] refl refl inv]
  obtain pre where pre: "queued st x = pre @ queued st1 x" "t = filter (is_live now) pre"
    and other: "\<And>h'. h' \<noteq> x \<Longrightarrow> queued st1 h' = queued st h'"
    by (rule drain_handle_bounded_queued [OF "2.prems" 1]) blast
  have "length (filter P (filter (is_live now) pre)) \<le> length (filter P pre)"
    by (induction pre) auto
  then have "length (filter (\<lambda>hs. fst hs = h \<and> P (snd hs)) (map (Pair x) t)) + length (filter P (queued st1 h))
      \<le> length (filter P (queued st h))"
    using pre other [of h] by (cases "h = x") (simp_all add: filter_map o_def)
  with IH 1 show ?case by (auto split: prod.splits)
qed simp

lemma op_bears:
  assumes inv: "store_inv lim st"
  shows "length (filter (\<lambda>hs. fst hs = h \<and> P (snd hs)) (handed_out x st)) + length (filter P (queued (apply_op env lim dir x st) h))
       \<le> length (filter P (queued st h)) + length (filter P (posted_to env lim h x st))"
proof (cases x)
  case (Sweep now')
  have "length (filter P (filter (is_live now') q)) \<le> length (filter P q)" for q by (induction q) auto
  with Sweep inv show ?thesis by (simp add: reap_queued(1))
next
  case (Serve now' u toks req)
  obtain r ev st' where p: "process env lim dir now' u toks req st = (r, ev, st')" by (metis prod_cases3)
  note frame = request_frame [OF inv p, of h]
  note many = many_drained_bears [OF inv, of h P]
  show ?thesis
  proof (cases req)
    case (Post h' b t)
    with p have pp: "process_post env lim now' u toks h' b t st = (r, ev, st')" by simp
    have "queued st' h = queued st h @ posted_to env lim h x st"
      using post_appends [OF inv pp] by (simp add: Serve Post)
    with Serve Post p show ?thesis by simp
  next
    case (Recall h' m t)
    have "length (filter P (queued st' h)) \<le> length (filter P (queued st h))"
    proof (cases "h' = h")
      case True
      have "length (filter P (filter Q q)) \<le> length (filter P q)" for Q and q :: "stored list" by (induction q) auto
      with True p Recall process_recall_queued(1) [OF inv, of h m t r ev st'] show ?thesis by simp
    next
      case False
      with frame Recall show ?thesis by auto
    qed
    with Serve Recall p show ?thesis by simp
  next
    case (TakeMany hs)
    with Serve many [of hs default_budget now'] show ?thesis
      by (auto simp: process_take_many_def Let_def split: prod.splits)
  next
    case (Take h')
    with Serve many [of "[h']" default_budget now', unfolded drain_many_single] show ?thesis
      by (auto simp: process_take_def Let_def split: prod.splits)
  next
    case (Fetch h')
    with Serve many [of "[h']" default_budget now', unfolded drain_many_single] show ?thesis
      by (auto simp: process_fetch_def Let_def split: prod.splits)
  qed (use Serve p in \<open>auto simp: process_peek_def process_get_directory_def Let_def\<close>)
qed

lemma posted_bears_other: "t \<notin> set (op_toks x) \<Longrightarrow> filter (bears t) (posted_to env lim h x st) = []"
proof (cases x)
  case (Serve now u toks req)
  assume "t \<notin> set (op_toks x)"
  then have "t \<noteq> toks" using Serve by simp
  then show ?thesis using Serve
    by (cases req) (auto simp: bears_def new_stored_def Let_def prod_eq_iff split: option.splits)
qed simp

lemma posted_bears_one:
  "\<exists>h0. \<forall>h. length (filter (bears t) (posted_to env lim h x st)) \<le> (if h = h0 then 1 else 0)"
proof (cases x)
  case (Serve now u toks req)
  show ?thesis
  proof (cases req)
    case (Post h0 b ttl)
    have "length (filter (bears t) (posted_to env lim h x st)) \<le> (if h = h0 then 1 else 0)" for h
      using Serve Post by (auto split: option.splits)
    then show ?thesis by blast
  qed (simp_all add: Serve)
qed simp

text \<open>An operation anywhere leaves no more traces of a token than there were, but for the post that draws it.\<close>

lemma net_op_ok: "relays_ok N w \<Longrightarrow> relays_ok N (net_op N rx w)"
  by (auto simp: relays_ok_def net_op_def intro: apply_op_inv split: prod.splits)

lemma net_op_traces:
  assumes "relays_ok N w"
  shows "traces t r h (net_op N (r', x) w)
       \<le> traces t r h w + (if r = r' then length (filter (bears t) (posted_to (net_env N) (net_limits N r') h x (stores w r'))) else 0)"
proof -
  have inv: "store_inv (net_limits N r') (stores w r')" using assms by (simp add: relays_ok_def)
  show ?thesis
    using op_bears [OF inv, of h "bears t" x "net_env N" "net_directory N r'"]
    by (auto simp: traces_def net_op_def gives_def)
qed

text \<open>
  A token is unused and will be drawn at most once; or it was drawn, and at most one blob bears it; or no
  blob bears it and it is never drawn again.
\<close>

definition never :: "network \<Rightarrow> string \<times> string \<Rightarrow> (string \<times> string) list \<Rightarrow> world \<Rightarrow> bool" where
  "never N t ts w \<longleftrightarrow> relays_ok N w \<and> t \<notin> set ts \<and> (\<forall>r h. traces t r h w = 0)"

definition alone :: "string \<times> string \<Rightarrow> world \<Rightarrow> bool" where
  "alone t w \<longleftrightarrow> (\<exists>r0 h0. \<forall>r h. traces t r h w \<le> (if r = r0 \<and> h = h0 then 1 else 0))"

lemma alone_le:
  assumes "alone t w" and "\<And>r h. traces t r h w' \<le> traces t r h w"
  shows "alone t w'"
proof -
  obtain r0 h0 where "\<And>r h. traces t r h w \<le> (if r = r0 \<and> h = h0 then 1 else 0)"
    using assms(1) unfolding alone_def by blast
  then have "\<forall>r h. traces t r h w' \<le> (if r = r0 \<and> h = h0 then 1 else 0)" using assms(2) order_trans by blast
  then show ?thesis unfolding alone_def by blast
qed

definition once :: "network \<Rightarrow> string \<times> string \<Rightarrow> (string \<times> string) list \<Rightarrow> world \<Rightarrow> bool" where
  "once N t ts w \<longleftrightarrow> relays_ok N w
     \<and> (count_list ts t \<le> 1 \<and> (\<forall>r h. traces t r h w = 0) \<or> t \<notin> set ts \<and> alone t w)"

lemma never_drop: "never N t (ts @ ts') w \<Longrightarrow> never N t ts' w"
  by (simp add: never_def)

lemma once_drop: "once N t (ts @ ts') w \<Longrightarrow> once N t ts' w"
  by (auto simp: once_def)

lemma never_net_op:
  assumes "never N t (op_toks x @ ts) w"
  shows "never N t ts (net_op N (r, x) w)"
proof -
  have ok: "relays_ok N w" and t: "t \<notin> set (op_toks x)" "t \<notin> set ts" and zero: "\<And>r h. traces t r h w = 0"
    using assms by (auto simp: never_def)
  have "traces t r' h (net_op N (r, x) w) = 0" for r' h
    using net_op_traces [OF ok, of t r' h r x] zero t(1) by (simp add: posted_bears_other split: if_splits)
  then show ?thesis using net_op_ok [OF ok] t(2) by (simp add: never_def)
qed

lemma once_net_op:
  assumes "once N t (op_toks x @ ts) w"
  shows "once N t ts (net_op N (r, x) w)"
proof (cases "t \<in> set (op_toks x)")
  case True
  have ok: "relays_ok N w" using assms by (simp add: once_def)
  have toks: "op_toks x = [t]" using True by (cases x) auto
  with assms have zero: "\<And>r h. traces t r h w = 0" and ts: "t \<notin> set ts"
    by (auto simp: once_def count_list_0_iff)
  obtain h0 where new: "\<And>h. length (filter (bears t) (posted_to (net_env N) (net_limits N r) h x (stores w r))) \<le> (if h = h0 then 1 else 0)"
    using posted_bears_one by blast
  have "traces t r' h (net_op N (r, x) w) \<le> (if r' = r \<and> h = h0 then 1 else 0)" for r' h
    using net_op_traces [OF ok, of t r' h r x] zero new [of h] by (auto split: if_splits)
  then have "alone t (net_op N (r, x) w)" unfolding alone_def by blast
  then show ?thesis using net_op_ok [OF ok] ts by (simp add: once_def)
next
  case False
  have ok: "relays_ok N w" using assms by (simp add: once_def)
  have le: "traces t r' h (net_op N (r, x) w) \<le> traces t r' h w" for r' h
    using net_op_traces [OF ok, of t r' h r x] False by (simp add: posted_bears_other split: if_splits)
  consider "count_list ts t \<le> 1" "\<And>r h. traces t r h w = 0" | "t \<notin> set ts" "alone t w"
    using assms by (auto simp: once_def)
  then show ?thesis
  proof cases
    case 1
    have "traces t r' h (net_op N (r, x) w) = 0" for r' h using le [of r' h] 1(2) by simp
    with 1(1) net_op_ok [OF ok] show ?thesis by (simp add: once_def)
  next
    case 2
    with alone_le [OF 2(2) le] net_op_ok [OF ok] show ?thesis by (simp add: once_def)
  qed
qed

text \<open>Both are kept by everything a request of ours sets off.\<close>

lemma traces_cong: "stores w' = stores w \<Longrightarrow> handed w' = handed w \<Longrightarrow> traces t r h w' = traces t r h w"
  by (simp add: traces_def)

lemma once_cong: "stores w' = stores w \<Longrightarrow> handed w' = handed w \<Longrightarrow> once N t ts w' = once N t ts w"
  using traces_cong [of w' w] by (simp add: once_def alone_def relays_ok_def)

lemma never_cong: "stores w' = stores w \<Longrightarrow> handed w' = handed w \<Longrightarrow> never N t ts w' = never N t ts w"
  using traces_cong [of w' w] by (simp add: never_def relays_ok_def)

lemma fold_net_op:
  assumes "\<And>r x w ts. I (op_toks x @ ts) w \<Longrightarrow> I ts (net_op N (r, x) w)"
  shows "I (concat (map (op_toks \<circ> snd) xs) @ ts) w \<Longrightarrow> I ts (fold (net_op N) xs w)"
proof (induction xs arbitrary: w)
  case (Cons rx xs)
  obtain r x where "rx = (r, x)" by (rule prod.exhaust)
  with Cons.prems assms [of x "concat (map (op_toks \<circ> snd) xs) @ ts" w r] Cons.IH show ?case by (simp add: o_def)
qed simp

lemma round_trip_keeps:
  assumes step: "\<And>r x w ts. I (op_toks x @ ts) w \<Longrightarrow> I ts (net_op N (r, x) w)"
    and drop: "\<And>ts ts' w. I (ts @ ts') w \<Longrightarrow> I ts' w"
    and same: "\<And>w w' ts. stores w' = stores w \<Longrightarrow> handed w' = handed w \<Longrightarrow> I ts w' = I ts w"
    and start: "I (script_toks w) w"
  shows "I (script_toks (snd (round_trip N r req w))) (snd (round_trip N r req w))"
proof (cases "script w")
  case Nil
  with start show ?thesis by (simp add: round_trip_def)
next
  case (Cons e es)
  define w1 where "w1 = fold (net_op N) (others e) (w\<lparr>script := es\<rparr>)"
  have es: "script_toks w1 = concat (map exchange_toks es)" by (simp add: script_toks_def w1_def)
  have "I (concat (map (op_toks \<circ> snd) (others e)) @ ex_tokens e # script_toks w1) (w\<lparr>script := es\<rparr>)"
    using start Cons es same [of "w\<lparr>script := es\<rparr>" w] by (simp add: script_toks_def exchange_toks_def)
  then have w1: "I (ex_tokens e # script_toks w1) w1"
    unfolding w1_def [symmetric] by (metis fold_net_op [of I N] step w1_def)
  then have "I (script_toks w1) (our_op N r (serve_request e req) w1)"
    using step [of "serve_request e req" "script_toks w1" w1 r] same [of "our_op N r (serve_request e req) w1"]
    by (simp add: serve_request_def our_op_def)
  moreover have "I (script_toks w1) w1" using w1 drop [of "[ex_tokens e]"] by simp
  ultimately show ?thesis
    using Cons by (simp add: round_trip_def Let_def w1_def [symmetric] script_toks_def [of "our_op N r x w1" for x]
        script_toks_def [of w1, symmetric] split: fate.splits)
qed

lemmas once_round_trip = round_trip_keeps [of "once N t" N for N t, OF once_net_op once_drop once_cong]
lemmas never_round_trip = round_trip_keeps [of "never N t" N for N t, OF never_net_op never_drop never_cong]

section \<open>Copies and their tokens\<close>

definition tok :: "queued_receipt \<Rightarrow> string \<times> string" where
  "tok q = (q_msg_id q, q_delete_token q)"

lemma round_trip_toks: "set (script_toks (snd (round_trip N r req w))) \<subseteq> set (script_toks w)"
  by (cases "script w") (auto simp: round_trip_def Let_def script_toks_def split: fate.splits)

lemma post_reply_toks:
  assumes "ok (relay_reply N r e (Post h b t) st)"
  shows "resp_msg_id (relay_reply N r e (Post h b t) st) = Some (fst (ex_tokens e))
       \<and> resp_delete_token (relay_reply N r e (Post h b t) st) = Some (snd (ex_tokens e))"
proof -
  obtain a ev st' where p: "process_post (net_env N) (net_limits N r) (ex_now e) (ex_unix e) (ex_tokens e) h b t st = (a, ev, st')"
    by (metis prod_cases3)
  have a: "relay_reply N r e (Post h b t) st = a"
    using p by (simp add: relay_reply_def relay_knows_def serve_request_def)
  from p show ?thesis
    by (cases rule: process_post_cases) (use assms a in \<open>auto simp: response_err_def default_response_def\<close>)
qed

lemma post_copy_toks:
  assumes "post_copy N c a h b w = (qs, w')"
  shows "tok ` set qs \<subseteq> set (script_toks w)" and "set (script_toks w') \<subseteq> set (script_toks w)"
proof -
  let ?rt = "round_trip N (reaches c) (Post h (b64_encode (net_env N) b) (as_secs (secs RELAY_TTL))) w"
  have w': "w' = snd ?rt" using assms by (auto simp: post_copy_def client_post_def split: prod.splits)
  then show "set (script_toks w') \<subseteq> set (script_toks w)" using round_trip_toks by simp
  show "tok ` set qs \<subseteq> set (script_toks w)"
  proof (cases "script w")
    case Nil
    then have "?rt = (None, w)" by (simp add: round_trip_def)
    with assms show ?thesis by (auto simp: post_copy_def client_post_def)
  next
    case (Cons e es)
    let ?st = "stores (fold (net_op N) (others e) (w\<lparr>script := es\<rparr>)) (reaches c)"
    have "fst ?rt = None \<or> fst ?rt = Some (relay_reply N (reaches c) e (Post h (b64_encode (net_env N) b) (as_secs (secs RELAY_TTL))) ?st)"
      using Cons by (simp add: round_trip_def Let_def split: fate.split)
    with assms have "qs = [] \<or> tok ` set qs = {ex_tokens e}"
      using post_reply_toks [of N "reaches c" e h "b64_encode (net_env N) b" "as_secs (secs RELAY_TTL)" ?st]
      by (auto simp: post_copy_def client_post_def tok_def or_default_def split: prod.splits if_splits)
    with Cons show ?thesis by (auto simp: script_toks_def exchange_toks_def)
  qed
qed

lemma fan_out_toks:
  "fan_out N T grp h b seen as w = (qs, w') \<Longrightarrow> tok ` set qs \<subseteq> set (script_toks w) \<and> set (script_toks w') \<subseteq> set (script_toks w)"
proof (induction as arbitrary: seen w qs w')
  case (Cons a as)
  show ?case
  proof (cases "a \<in> set seen")
    case True
    with Cons show ?thesis by simp
  next
    case False
    obtain q1 w1 q2 where 1: "post_copy N (isolated T (build_relay T a) grp) (Some a) h b w = (q1, w1)"
      and 2: "fan_out N T grp h b (seen @ [a]) as w1 = (q2, w')" and "qs = q1 @ q2"
      using Cons.prems False by (auto split: prod.splits)
    with Cons.IH [OF 2] post_copy_toks [OF 1] show ?thesis by auto
  qed
qed simp

text \<open>What a round trip keeps, every call keeps.\<close>

definition kept :: "network \<Rightarrow> ((string \<times> string) list \<Rightarrow> world \<Rightarrow> bool) \<Rightarrow> bool" where
  "kept N I \<longleftrightarrow> (\<forall>r req w. I (script_toks w) w \<longrightarrow> I (script_toks (snd (round_trip N r req w))) (snd (round_trip N r req w)))"

lemma once_kept: "kept N (once N t)"
  unfolding kept_def by (intro allI impI) (rule once_round_trip)

lemma never_kept: "kept N (never N t)"
  unfolding kept_def by (intro allI impI) (rule never_round_trip)

lemma post_copy_keeps:
  assumes "kept N I" and "I (script_toks w) w" and "post_copy N c a h b w = (qs, w')"
  shows "I (script_toks w') w'"
proof -
  have "w' = snd (round_trip N (reaches c) (Post h (b64_encode (net_env N) b) (as_secs (secs RELAY_TTL))) w)"
    using assms(3) by (auto simp: post_copy_def client_post_def split: prod.splits)
  with assms(1,2) show ?thesis by (simp add: kept_def)
qed

lemma client_recall_keeps:
  assumes "kept N I" and "I (script_toks w) w" and "client_recall N c h p w = (r, w')"
  shows "I (script_toks w') w'"
proof -
  have "w' = snd (round_trip N (reaches c) (Recall h (rec_msg_id p) (rec_delete_token p)) w)"
    using assms(3) by (auto simp: client_recall_def split: prod.splits)
  with assms(1,2) show ?thesis by (simp add: kept_def)
qed

lemma fan_out_keeps: "kept N I \<Longrightarrow> I (script_toks w) w \<Longrightarrow> fan_out N T grp h b seen as w = (qs, w') \<Longrightarrow> I (script_toks w') w'"
proof (induction as arbitrary: seen w qs)
  case (Cons a as)
  show ?case
  proof (cases "a \<in> set seen")
    case True
    with Cons show ?thesis by simp
  next
    case False
    obtain q1 w1 q2 where 1: "post_copy N (isolated T (build_relay T a) grp) (Some a) h b w = (q1, w1)"
      and 2: "fan_out N T grp h b (seen @ [a]) as w1 = (q2, w')"
      using Cons.prems(3) False by (auto split: prod.splits)
    from Cons.IH [OF Cons.prems(1) post_copy_keeps [OF Cons.prems(1,2) 1] 2] show ?thesis .
  qed
qed simp

lemma queue_on_relays_cases:
  assumes "queue_on_relays N T C wrap primary peers contact h f w = (res, w')"
  obtains (nowhere) "res = None" "w' = w"
    | (posting) b q1 w1 seen q2 where
        "(case primary of None \<Rightarrow> ([], w) | Some p \<Rightarrow> post_copy N (isolated T p (post_group C contact)) None h b w) = (q1, w1)"
        "fan_out N T (post_group C contact) h b seen peers w1 = (q2, w')"
        "res = (if q1 @ q2 = [] then None else Some (q1 @ q2))"
proof (cases "primary = None \<and> peers = [] \<or> h = [] \<or> wrap contact f = None")
  case True
  with assms nowhere show thesis by (auto simp: queue_on_relays_def split: if_splits)
next
  case False
  then obtain b where b: "wrap contact f = Some b" by auto
  have neq: "(primary = None \<and> peers = []) = False" "(h = []) = False" using False by simp_all
  obtain q1 w1 where 1: "(case primary of None \<Rightarrow> ([], w)
      | Some p \<Rightarrow> post_copy N (isolated T p (post_group C contact)) None h b w) = (q1, w1)" by (rule prod.exhaust)
  define seen where "seen = (case Option.bind primary client_addr of None \<Rightarrow> [] | Some a \<Rightarrow> [a])"
  obtain q2 w2 where 2: "fan_out N T (post_group C contact) h b seen peers w1 = (q2, w2)" by (rule prod.exhaust)
  have "(res, w') = (if q1 @ q2 = [] then None else Some (q1 @ q2), w2)"
    unfolding assms [symmetric] queue_on_relays_def
    by (simp only: b neq if_False option.case Let_def 1 prod.case seen_def [symmetric] 2)
  with 1 2 posting show thesis by simp
qed

lemma queue_toks:
  assumes "queue_on_relays N T C wrap primary peers contact h f w = (Some qs, w')"
  shows "tok ` set qs \<subseteq> set (script_toks w)"
  using assms
proof (cases rule: queue_on_relays_cases)
  case (posting b q1 w1 seen q2)
  have "tok ` set q1 \<subseteq> set (script_toks w)" "set (script_toks w1) \<subseteq> set (script_toks w)"
    using posting(1) post_copy_toks by (auto split: option.splits)
  with fan_out_toks [OF posting(2)] posting(3) show ?thesis by (auto split: if_splits)
qed simp

lemma queue_keeps:
  assumes "kept N I" and "I (script_toks w) w" and "queue_on_relays N T C wrap primary peers contact h f w = (res, w')"
  shows "I (script_toks w') w'"
  using assms(3)
proof (cases rule: queue_on_relays_cases)
  case nowhere
  with assms(2) show ?thesis by simp
next
  case (posting b q1 w1 seen q2)
  have "I (script_toks w1) w1"
    using posting(1) assms(2) post_copy_keeps [OF assms(1,2)] by (auto split: option.splits)
  then show ?thesis using posting(2) by (rule fan_out_keeps [OF assms(1)])
qed

section \<open>A successful recall\<close>

lemma recalled_never:
  assumes once: "once N t (script_toks w) w"
    and rc: "client_recall N c h \<lparr>rec_msg_id = fst t, rec_delete_token = snd t\<rparr> w = (Some True, w')"
  shows "never N t (script_toks w') w'"
proof -
  let ?r = "reaches c" and ?req = "Recall h (fst t) (snd t)"
  obtain e es where script: "script w = e # es" and ans: "fate e = Answered"
    using rc by (auto simp: client_recall_def round_trip_def Let_def split: list.splits prod.splits fate.splits)
  define w1 where "w1 = fold (net_op N) (others e) (w\<lparr>script := es\<rparr>)"
  have reply: "ok (relay_reply N ?r e ?req (stores w1 ?r))" and w': "w' = our_op N ?r (serve_request e ?req) w1"
    using rc script ans by (auto simp: client_recall_def round_trip_def Let_def w1_def [symmetric] split: prod.splits)
  have toks: "script_toks w = concat (map (op_toks \<circ> snd) (others e)) @ ex_tokens e # script_toks w1"
    using script by (simp add: script_toks_def exchange_toks_def w1_def)
  have "once N t (concat (map (op_toks \<circ> snd) (others e)) @ ex_tokens e # script_toks w1) (w\<lparr>script := es\<rparr>)"
    using once once_cong [of "w\<lparr>script := es\<rparr>" w] toks by simp
  then have w1: "once N t (ex_tokens e # script_toks w1) w1"
    using fold_net_op [of "once N t" N, OF once_net_op] unfolding w1_def by blast
  then have ok1: "relays_ok N w1" by (simp add: once_def)
  then have inv: "store_inv (net_limits N ?r) (stores w1 ?r)" by (simp add: relays_ok_def)
  obtain a ev st' where p: "process_recall h (fst t) (snd t) (stores w1 ?r) = (a, ev, st')" by (metis prod_cases3)
  note after = process_recall_queued [OF inv p]
  have "ok a" using reply p by (simp add: relay_reply_def relay_knows_def serve_request_def)
  moreover have "process (net_env N) (net_limits N ?r) (net_directory N ?r) (ex_now e) (ex_unix e) (ex_tokens e) ?req (stores w1 ?r)
      = (a, ev, st')" using p by simp
  ultimately obtain s where "s \<in> set (queued (stores w1 ?r) h)" "bears t s"
    using relay_recall_needs_token [OF inv] by (fastforce simp: list_ex_iff bears_def)
  then have pos: "0 < length (filter (bears t) (queued (stores w1 ?r) h))" by (auto simp: filter_empty_conv)
  then have "0 < traces t ?r h w1" by (simp add: traces_def)
  then have "t \<notin> set (ex_tokens e # script_toks w1) \<and> alone t w1" using w1 unfolding once_def by (metis less_irrefl)
  then have notin: "t \<notin> set (script_toks w1)" and "alone t w1" by simp_all
  then obtain r0 h0 where only: "\<And>r h. traces t r h w1 \<le> (if r = r0 \<and> h = h0 then 1 else 0)" unfolding alone_def by blast
  with \<open>0 < traces t ?r h w1\<close> have here: "r0 = ?r" "h0 = h" by (metis leD)+
  let ?w2 = "net_op N (?r, serve_request e ?req) w1"
  have st: "stores ?w2 ?r = st'" "handed ?w2 = handed w1"
    using p by (simp_all add: net_op_def relay_knows_def serve_request_def gives_def fun_upd_idem)
  have "traces t ?r h w1 \<le> 1" using only [of ?r h] here by simp
  have "length (filter (\<lambda>hs. fst hs = h \<and> bears t (snd hs)) (handed w1 ?r)) = 0"
    using \<open>traces t ?r h w1 \<le> 1\<close> pos unfolding traces_def by linarith
  moreover have "filter (bears t) (queued st' h) = []"
    using after(1) by (auto simp: filter_empty_conv bears_def recall_hit_def)
  ultimately have zero: "traces t ?r h ?w2 = 0" using st by (simp add: traces_def)
  have "traces t r h' ?w2 = 0" for r h'
  proof (cases "r = ?r \<and> h' = h")
    case True
    with zero show ?thesis by simp
  next
    case False
    then have "traces t r h' w1 = 0" using only [of r h'] here by auto
    with net_op_traces [OF ok1, of t r h' ?r "serve_request e ?req"] show ?thesis
      by (simp add: serve_request_def split: if_splits)
  qed
  moreover have "traces t r h' w' = traces t r h' ?w2" for r h'
    by (rule traces_cong) (simp_all add: w' our_op_def)
  moreover have "relays_ok N w'" using net_op_ok [OF ok1] by (simp add: w' our_op_def relays_ok_def)
  moreover have "script_toks w' = script_toks w1" by (simp add: w' script_toks_def)
  ultimately show ?thesis using notin by (simp add: never_def)
qed

lemma recall_loop_cases:
  assumes "recall_loop N T grp primary (q # qs) acc w = (b, w')"
  obtains (unasked) "recall_loop N T grp primary qs False w = (b, w')"
    | (asked) c r w1 where
        "client_recall N c (q_handle q) \<lparr>rec_msg_id = q_msg_id q, rec_delete_token = q_delete_token q\<rparr> w = (r, w1)"
        "recall_loop N T grp primary qs (acc \<and> r = Some True) w1 = (b, w')"
proof -
  let ?c = "case q_relay q of None \<Rightarrow> map_option (\<lambda>p. isolated T p grp) primary
      | Some a \<Rightarrow> Some (isolated T (build_relay T a) grp)"
  show thesis
  proof (cases "?c = None \<or> q_handle q = []")
    case True
    with assms show thesis by (intro unasked) (cases ?c; simp)
  next
    case False
    then obtain c where c: "?c = Some c" using option.exhaust by metis
    obtain r w1 where "client_recall N c (q_handle q) \<lparr>rec_msg_id = q_msg_id q, rec_delete_token = q_delete_token q\<rparr> w = (r, w1)"
      by (rule prod.exhaust)
    with assms c False show thesis by (intro asked [of c r w1]) simp_all
  qed
qed

lemma recall_loop_acc: "recall_loop N T grp primary qs False w = (b, w') \<Longrightarrow> \<not> b"
proof (induction qs arbitrary: w)
  case (Cons q qs)
  from Cons.prems show ?case by (cases rule: recall_loop_cases) (use Cons.IH in auto)
qed simp

lemma recall_loop_keeps:
  "kept N I \<Longrightarrow> I (script_toks w) w \<Longrightarrow> recall_loop N T grp primary qs acc w = (b, w') \<Longrightarrow> I (script_toks w') w'"
proof (induction qs arbitrary: acc w)
  case (Cons q qs)
  from Cons.prems(3) show ?case
  proof (cases rule: recall_loop_cases)
    case unasked
    with Cons.prems(1,2) Cons.IH show ?thesis by blast
  next
    case (asked c r w1)
    with Cons.prems(1) Cons.IH client_recall_keeps [OF Cons.prems(1,2)] show ?thesis by blast
  qed
qed simp

lemma recall_loop_never:
  assumes "recall_loop N T grp primary qs True w = (True, w')" and "\<And>q. q \<in> set qs \<Longrightarrow> once N (tok q) (script_toks w) w"
  shows "\<forall>q \<in> set qs. never N (tok q) (script_toks w') w'"
  using assms
proof (induction qs arbitrary: w)
  case (Cons q qs)
  from Cons.prems(1) show ?case
  proof (cases rule: recall_loop_cases)
    case unasked
    then show ?thesis using recall_loop_acc by blast
  next
    case (asked c r w1)
    have "r = Some True" using recall_loop_acc [of N T grp primary qs w1 True w'] asked(2) by (cases "r = Some True") simp_all
    then have rc: "client_recall N c (q_handle q) \<lparr>rec_msg_id = fst (tok q), rec_delete_token = snd (tok q)\<rparr> w = (Some True, w1)"
      and rest: "recall_loop N T grp primary qs True w1 = (True, w')"
      using asked by (simp_all add: tok_def)
    have "never N (tok q) (script_toks w1) w1"
      using recalled_never [OF Cons.prems(2) [of q] rc] by simp
    then have "never N (tok q) (script_toks w') w'" by (rule recall_loop_keeps [OF never_kept _ rest])
    moreover have "once N (tok q') (script_toks w1) w1" if "q' \<in> set qs" for q'
      using client_recall_keeps [OF once_kept _ rc] Cons.prems(2) [of q'] that by simp
    ultimately show ?thesis using Cons.IH [OF rest] by simp
  qed
qed simp

text \<open>The tokens the relays will draw are drawn once each, and no blob bears one yet.\<close>

definition fresh_tokens :: "world \<Rightarrow> bool" where
  "fresh_tokens w \<longleftrightarrow> distinct (script_toks w) \<and> (\<forall>t \<in> set (script_toks w). \<forall>r h. traces t r h w = 0)"

lemma distinct_count_list: "distinct xs \<Longrightarrow> count_list xs t \<le> 1"
  by (induction xs) (auto simp: count_list_0_iff)

lemma fresh_once:
  assumes "relays_ok N w" and "fresh_tokens w" and "t \<in> set (script_toks w)"
  shows "once N t (script_toks w) w"
  using assms distinct_count_list [of "script_toks w" t] by (simp add: fresh_tokens_def once_def)

text \<open>
  C25. A recall that succeeds means nobody has read the message, nor will. A sealed frame is posted to the
  recipient's relays and later every recorded copy is recalled, while anybody does anything to any relay at
  any moment, requests and replies get lost, and the sender may by then use another primary relay. If
  \<open>recall_receipts\<close> says every copy was recalled, then no relay holds any of those copies, under any handle, and
  none has handed one out: an edit or unsend that rests on it is invisible. (The relays' random tokens do
  not repeat.)
\<close>

theorem recalled_copies_unread:
  assumes "relays_ok N w" and "fresh_tokens w"
    and "queue_on_relays N T C relay_wrap primary peer_relays contact_id handle frame w = (Some copies, w1)"
    and "recall_receipts N T C primary' contact_id copies w1 = (True, w2)"
  shows "\<forall>q \<in> set copies. \<forall>r h.
           (\<forall>s \<in> set (queued (stores w2 r) h). (msg_id s, delete_token s) \<noteq> (q_msg_id q, q_delete_token q))
         \<and> (\<forall>(h', s) \<in> set (handed w2 r). (msg_id s, delete_token s) \<noteq> (q_msg_id q, q_delete_token q))"
proof -
  have "recall_loop N T (post_group C contact_id) primary' copies True w1 = (True, w2)"
    using assms(4) by (simp add: recall_receipts_def split: if_splits)
  moreover have "once N (tok q) (script_toks w1) w1" if "q \<in> set copies" for q
    using queue_toks [OF assms(3)] that by (intro queue_keeps [OF once_kept fresh_once [OF assms(1,2)] assms(3)]) auto
  ultimately have "traces (tok q) r h w2 = 0" if "q \<in> set copies" for q r h
    using recall_loop_never that by (fastforce simp: never_def)
  then show ?thesis by (fastforce simp: traces_def filter_empty_conv bears_def tok_def)
qed

text \<open>A copy that went directly, or whose relay is not known any more, keeps a recall from claiming success.\<close>

lemma direct_copy_blocks_recall:
  "q \<in> set copies \<Longrightarrow> q_handle q = [] \<Longrightarrow> \<not> fst (recall_receipts N T C primary contact_id copies w)"
proof -
  have "q \<in> set qs \<Longrightarrow> q_handle q = [] \<Longrightarrow> recall_loop N T grp primary qs acc w = (b, w') \<Longrightarrow> \<not> b" for qs acc w w' b grp
  proof (induction qs arbitrary: acc w)
    case (Cons p qs)
    show ?case
    proof (cases "p = q")
      case True
      with Cons.prems show ?thesis by (auto split: option.splits dest: recall_loop_acc)
    next
      case False
      from Cons.prems(3) show ?thesis
        by (cases rule: recall_loop_cases) (use False Cons.prems(1,2) Cons.IH in \<open>auto dest: recall_loop_acc\<close>)
    qed
  qed simp
  then show "q \<in> set copies \<Longrightarrow> q_handle q = [] \<Longrightarrow> ?thesis" by (auto simp: recall_receipts_def) (metis prod.exhaust fst_conv)
qed

section \<open>Concrete runs\<close>

definition two_relays :: "fate list \<Rightarrow> world" where
  "two_relays fates =
     \<lparr>stores = (\<lambda>_. empty_store), handed = (\<lambda>_. []), mine = (\<lambda>_. []),
      script = map (\<lambda>(i, f). \<lparr>others = [], fate = f, ex_now = i, ex_unix = i, ex_tokens = (replicate i CHR ''m'', [])\<rparr>) (enumerate 0 fates)\<rparr>"

definition plain_transport :: relay_transport where
  "plain_transport = \<lparr>relay_dialer = (\<lambda>_. True), relay_dialer_isolated = (\<lambda>_ _. False)\<rparr>"

definition queue_then_recall :: "fate list \<Rightarrow> queued_receipt list option \<times> bool \<times> world" where
  "queue_then_recall fates =
     (let (qs, w1) = queue_on_relays sample_network plain_transport plain_crypto (\<lambda>_. Some) (Some (Tcp ''p'')) [''q''] ''bob'' ''h'' [7] (two_relays fates);
          (b, w2) = recall_receipts sample_network plain_transport plain_crypto (Some (Tcp ''p'')) ''bob'' (case qs of None \<Rightarrow> [] | Some qs \<Rightarrow> qs) w1
      in (qs, b, w2))"

lemmas relay_eval = queue_then_recall_def queue_on_relays_def recall_receipts_def post_copy_def client_post_def client_recall_def
  isolated_def build_relay_def plain_transport_def round_trip_def our_op_def net_op_def relay_reply_def relay_knows_def
  serve_request_def two_relays_def sample_network_def process_post_def process_recall_def Let_def empty_store_def post_reject_def
  valid_handle_def is_handle_char_def MAX_HANDLE_BYTES_def sample_env_def sample_limits_def entry_cost_def push_stored_def
  of_char_def or_default_def default_response_def RELAY_TTL_def gives_def recall_hit_def just_ok_def

lemma two_relays_ok: "relays_ok sample_network (two_relays fates)"
  by (simp add: relays_ok_def two_relays_def store_inv_empty)

lemma two_relays_fresh: "fresh_tokens (two_relays fates)"
proof -
  have "script_toks (two_relays fates) = map ((\<lambda>i. (replicate i CHR ''m'', [])) \<circ> fst) (enumerate 0 fates)"
    by (simp add: two_relays_def script_toks_def exchange_toks_def o_def case_prod_beta concat_map_singleton)
  also have "\<dots> = map (\<lambda>i. (replicate i CHR ''m'', [])) [0..<length fates]"
    by (simp only: map_map [symmetric] map_fst_enumerate) simp
  finally have "script_toks (two_relays fates) = map (\<lambda>i. (replicate i CHR ''m'', [])) [0..<length fates]" .
  then have "distinct (script_toks (two_relays fates))"
    by (simp add: distinct_map inj_on_def)
  moreover have "traces t r h (two_relays fates) = 0" for t r h
    by (simp add: traces_def two_relays_def queued_def empty_store_def)
  ultimately show ?thesis by (simp add: fresh_tokens_def)
qed

theorem recalled_copies_unread_witness:
  "\<exists>copies w2. queue_then_recall [Answered, Answered, Answered, Answered] = (Some copies, True, w2) \<and> length copies = 2
     \<and> (\<forall>q \<in> set copies. \<forall>s \<in> set (queued (stores w2 ''p'') ''h''). (msg_id s, delete_token s) \<noteq> (q_msg_id q, q_delete_token q))"
proof -
  let ?fates = "[Answered, Answered, Answered, Answered]"
  obtain qs w1 where 1: "queue_on_relays sample_network plain_transport plain_crypto (\<lambda>_. Some) (Some (Tcp ''p'')) [''q''] ''bob'' ''h'' [7]
      (two_relays ?fates) = (qs, w1)" by (rule prod.exhaust)
  obtain copies where copies: "qs = Some copies" "length copies = 2" using 1 by (auto simp: relay_eval)
  obtain b w2 where 2: "recall_receipts sample_network plain_transport plain_crypto (Some (Tcp ''p'')) ''bob'' copies w1 = (b, w2)"
    by (rule prod.exhaust)
  have "queue_then_recall ?fates = (Some copies, b, w2)" using 1 2 copies(1) by (simp add: queue_then_recall_def)
  moreover have "fst (snd (queue_then_recall ?fates))" by (simp add: relay_eval)
  ultimately show ?thesis
    using recalled_copies_unread [OF two_relays_ok two_relays_fresh 1 [unfolded copies(1)], of _ w2] 2 copies(2) by auto
qed

text \<open>
  What the receipts do not cover: a post the relay took but whose reply was lost leaves a copy without a
  receipt. Here the copy on the first relay is such; every recorded copy, the one on the second relay, is
  recalled, so the edit or unsend is taken to be invisible, and the first relay still holds the message.
\<close>

lemma unheard_copy_outlives_recall:
  "fst (snd (queue_then_recall [Unheard, Answered, Answered]))
   \<and> queued (stores (snd (snd (queue_then_recall [Unheard, Answered, Answered]))) ''p'') ''h'' \<noteq> []"
  by (simp add: relay_eval queued_def)

end
