(* ===== verification/Outbox.thy ===== *)
theory Outbox
  imports InboxSafe Recall
begin

text \<open>
  Sending, on an asynchronous transport: composing (\<open>send_inner\<close>), the deferred sends and their outcomes, the held
  queue with its retries, control frames and relay retries in the outbox, the copies behind unconfirmed messages,
  edits and unsends (\<open>core/src/node/messaging.rs\<close>, \<open>core/src/node.rs\<close>). A sealed frame is kept as the frame, its
  encoding being a function of it. What a dial and a round of posts to the relays answer are inputs, as is the route
  to a contact, the primary relay and the relays beside it that \<open>RelaySets\<close>' \<open>route_to\<close> gives.
  Standing announcements and the synchronous in-memory transport are left out.
\<close>

section \<open>State\<close>

definition RECEIPT_TIMEOUT :: nat where "RECEIPT_TIMEOUT = 30"
definition HELD_RETRY_FIRST_SECS :: nat where "HELD_RETRY_FIRST_SECS = 60"
definition HELD_RETRY_CAP_OPEN_SECS :: nat where "HELD_RETRY_CAP_OPEN_SECS = 5 * 60"
definition HELD_RETRY_CAP_BACKGROUND_SECS :: nat where "HELD_RETRY_CAP_BACKGROUND_SECS = 15 * 60"
definition DIRECT_WEDGED_THRESHOLD :: nat where "DIRECT_WEDGED_THRESHOLD = 3"

record pending_send =
  ps_contact :: string
  ps_msg_id :: string
  ps_frame :: frame

record held_send =
  hs_contact :: string
  hs_msg_id :: string
  hs_frame :: frame
  hs_in_flight :: bool

record held_control =
  pc_recipient :: string
  pc_address :: string
  pc_relays :: relay_set
  pc_handle :: string
  pc_frame :: frame
  pc_in_flight :: bool

record detached =
  ds_primary :: "string option"
  ds_relays :: "string list"
  ds_recipient :: string
  ds_handle :: string
  ds_address :: string
  ds_frame :: frame
  ds_fresh :: bool

datatype route = DirectThenRelay | RelayThenDirect | RelayOnly

datatype delivery = Direct | Relayed "queued_receipt list" | Failed

datatype done_then =
    Done_Nothing
  | Done_Caller "(string \<times> string) option"
  | Done_Control frame
  | Done_Held frame
  | Done_Unconfirmed awaiting
  | Done_Cover

record outbound =
  ob_send :: detached
  ob_route :: route
  ob_done :: done_then

record finished =
  fi_done :: done_then
  fi_delivery :: delivery
  fi_recipient :: string
  fi_frame :: frame
  fi_relayless :: bool

record planned_send =
  pl_contact :: string
  pl_handle :: string
  pl_msg_id :: string
  pl_frame :: frame
  pl_address :: string
  pl_primary :: "string option"
  pl_relays :: "string list"
  pl_remote_storage :: bool

record send_outcome =
  so_contact :: string
  so_msg_id :: string
  so_frame :: frame
  so_delivered :: bool
  so_copies :: "queued_receipt list option"
  so_relay_failed :: bool

record 's office = "'s messenger" +
  pending_sends :: "pending_send list"
  held :: "held_send list"
  pending_control :: "held_control list"
  out_queue :: "outbound list"
  held_backoff :: "(string \<times> nat \<times> nat) list"
  background :: bool
  direct_failures :: nat
  direct_ever_succeeded :: bool
  relay_ever_succeeded :: bool

text \<open>Where a frame to a contact, and a relay copy for a given relay set, goes now, and the mailbox handle it goes under.\<close>

record paths =
  route_of :: "string \<Rightarrow> string option \<times> string list"
  set_route :: "relay_set \<Rightarrow> string option \<times> string list"
  handle_of :: "string \<Rightarrow> string"

definition has_relay_route :: "paths \<Rightarrow> string \<Rightarrow> bool" where
  "has_relay_route P contact = (fst (route_of P contact) \<noteq> None \<or> snd (route_of P contact) \<noteq> [])"

definition peer_outdated :: "string \<Rightarrow> ('s, 'z) messenger_scheme \<Rightarrow> bool" where
  "peer_outdated contact n = (case get_conv contact n of None \<Rightarrow> False | Some c \<Rightarrow> outdated c)"

section \<open>Waiting and retrying\<close>

definition may_retry :: "paths \<Rightarrow> string \<Rightarrow> nat \<Rightarrow> 's office \<Rightarrow> bool" where
  "may_retry P contact now n =
     (\<not> peer_outdated contact n \<and>
      (has_relay_route P contact \<or>
       (case map_of (held_backoff n) contact of None \<Rightarrow> True | Some (_, next_at) \<Rightarrow> next_at \<le> now)))"

definition held_retry_failed :: "string \<Rightarrow> nat \<Rightarrow> 's office \<Rightarrow> 's office" where
  "held_retry_failed contact now n =
     (let cap = (if background n then HELD_RETRY_CAP_BACKGROUND_SECS else HELD_RETRY_CAP_OPEN_SECS);
          delay = (case map_of (held_backoff n) contact of
                     Some (delay, _) \<Rightarrow> min (delay * 2) cap | None \<Rightarrow> HELD_RETRY_FIRST_SECS)
      in n\<lparr>held_backoff := AList.update contact (delay, now + delay) (held_backoff n)\<rparr>)"

definition note_direct_result :: "bool \<Rightarrow> 's office \<Rightarrow> 's office" where
  "note_direct_result delivered n =
     (if delivered then n\<lparr>direct_failures := 0, direct_ever_succeeded := True\<rparr>
      else n\<lparr>direct_failures := min (direct_failures n + 1) (2 ^ 32 - 1)\<rparr>)"

definition direct_path_wedged :: "'s office \<Rightarrow> bool" where
  "direct_path_wedged n =
     (\<not> direct_ever_succeeded n \<and> \<not> relay_ever_succeeded n \<and> DIRECT_WEDGED_THRESHOLD \<le> direct_failures n)"

definition our_message :: "string \<Rightarrow> chat_message \<Rightarrow> bool" where
  "our_message i m = (from_me m \<and> message_id m = i)"

definition mark_sent_message :: "string \<Rightarrow> string \<Rightarrow> string \<Rightarrow> 's office \<Rightarrow> 's office" where
  "mark_sent_message contact i state n =
     (case get_conv contact n of None \<Rightarrow> n
      | Some c \<Rightarrow> put_conv contact (c\<lparr>history := update_first (our_message i) (\<lambda>m. m\<lparr>delivery := state\<rparr>) (history c)\<rparr>) n)"

definition hold_message :: "paths \<Rightarrow> string \<Rightarrow> string \<Rightarrow> frame \<Rightarrow> 's office \<Rightarrow> 's office" where
  "hold_message P contact i f n =
     (let state = (if peer_outdated contact n then ''update''
                   else if \<not> has_relay_route P contact then ''waiting'' else ''queued'');
          n = mark_sent_message contact i state n
      in n\<lparr>held := held n @ [\<lparr>hs_contact = contact, hs_msg_id = i, hs_frame = f, hs_in_flight = False\<rparr>], touched := True\<rparr>)"

definition held_unsent :: "string \<Rightarrow> string \<Rightarrow> held_send \<Rightarrow> bool" where
  "held_unsent contact i h = (\<not> hs_in_flight h \<and> i \<noteq> [] \<and> hs_contact h = contact \<and> hs_msg_id h = i)"

section \<open>The outbox\<close>

definition detach :: "paths \<Rightarrow> string \<Rightarrow> string \<Rightarrow> frame \<Rightarrow> bool \<Rightarrow> detached" where
  "detach P addr contact f fresh =
     \<lparr>ds_primary = fst (route_of P contact), ds_relays = snd (route_of P contact), ds_recipient = contact,
      ds_handle = handle_of P contact, ds_address = addr, ds_frame = f, ds_fresh = fresh\<rparr>"

definition relayless :: "detached \<Rightarrow> bool" where
  "relayless d = (ds_primary d = None \<and> ds_relays d = [])"

text \<open>\<open>DetachedSend::run\<close>, where a dial would answer \<open>dial\<close> and posting to the relays \<open>copied\<close>.\<close>

definition run_send :: "bool \<Rightarrow> queued_receipt list option \<Rightarrow> route \<Rightarrow> detached \<Rightarrow> delivery" where
  "run_send dial copied r d =
     (let direct = (ds_address d \<noteq> [] \<and> dial);
          relay = (if relayless d \<or> ds_handle d = [] then None else copied)
      in case r of
           DirectThenRelay \<Rightarrow>
             if direct then Direct
             else if relayless d then Failed
             else (case relay of Some copies \<Rightarrow> Relayed copies | None \<Rightarrow> Failed)
         | RelayThenDirect \<Rightarrow> (case relay of Some copies \<Rightarrow> Relayed copies | None \<Rightarrow> if direct then Direct else Failed)
         | RelayOnly \<Rightarrow> (case relay of Some copies \<Rightarrow> Relayed copies | None \<Rightarrow> Failed))"

definition finish_with :: "delivery \<Rightarrow> outbound \<Rightarrow> finished" where
  "finish_with dl o' =
     \<lparr>fi_done = ob_done o', fi_delivery = dl, fi_recipient = ds_recipient (ob_send o'), fi_frame = ds_frame (ob_send o'),
      fi_relayless = relayless (ob_send o')\<rparr>"

definition run_outbound :: "bool \<Rightarrow> queued_receipt list option \<Rightarrow> outbound \<Rightarrow> finished" where
  "run_outbound dial copied o' = finish_with (run_send dial copied (ob_route o') (ob_send o')) o'"

definition abandon :: "outbound \<Rightarrow> finished" where
  "abandon o' = finish_with Failed o'"

definition is_caller :: "outbound \<Rightarrow> bool" where
  "is_caller o' = (case ob_done o' of Done_Caller _ \<Rightarrow> True | _ \<Rightarrow> False)"

definition caller_failed :: "finished \<Rightarrow> bool" where
  "caller_failed f = ((case fi_done f of Done_Caller _ \<Rightarrow> True | _ \<Rightarrow> False) \<and> fi_delivery f = Failed \<and> \<not> fi_relayless f)"

definition queue_out :: "detached \<Rightarrow> route \<Rightarrow> done_then \<Rightarrow> 's office \<Rightarrow> 's office" where
  "queue_out d r dn n = n\<lparr>out_queue := out_queue n @ [\<lparr>ob_send = d, ob_route = r, ob_done = dn\<rparr>]\<rparr>"

definition take_outbox :: "'s office \<Rightarrow> outbound list \<times> 's office" where
  "take_outbox n = (out_queue n, n\<lparr>out_queue := []\<rparr>)"

definition take_caller_outbox :: "'s office \<Rightarrow> outbound list \<times> 's office" where
  "take_caller_outbox n = (filter is_caller (out_queue n), n\<lparr>out_queue := filter (\<lambda>o'. \<not> is_caller o') (out_queue n)\<rparr>)"

text \<open>\<open>deliver_with\<close>, for one-off control frames: to an outdated contact they wait in the held queue.\<close>

definition deliver_with :: "paths \<Rightarrow> string \<Rightarrow> string \<Rightarrow> frame \<Rightarrow> bool \<Rightarrow> done_then \<Rightarrow> 's office \<Rightarrow> 's office" where
  "deliver_with P addr contact f fresh dn n =
     (if peer_outdated contact n
      then (case dn of
              Done_Nothing \<Rightarrow> n\<lparr>held := held n @ [\<lparr>hs_contact = contact, hs_msg_id = [], hs_frame = f, hs_in_flight = False\<rparr>], touched := True\<rparr>
            | Done_Caller _ \<Rightarrow> n\<lparr>held := held n @ [\<lparr>hs_contact = contact, hs_msg_id = [], hs_frame = f, hs_in_flight = False\<rparr>], touched := True\<rparr>
            | _ \<Rightarrow> n)
      else queue_out (detach P addr contact f fresh) DirectThenRelay dn n)"

section \<open>The held queue\<close>

text \<open>\<open>flush_held_for\<close>: which entries go out now, by index and route; \<open>busy\<close> are relay-less contacts passed already.\<close>

fun held_due :: "paths \<Rightarrow> nat \<Rightarrow> string option \<Rightarrow> bool \<Rightarrow> 's office \<Rightarrow> nat \<Rightarrow> string list \<Rightarrow> held_send list \<Rightarrow> (nat \<times> route) list" where
  "held_due P now only direct_first n i busy [] = []"
| "held_due P now only direct_first n i busy (h # hs) =
     (if only \<noteq> None \<and> only \<noteq> Some (hs_contact h) \<or> peer_outdated (hs_contact h) n
      then held_due P now only direct_first n (Suc i) busy hs
      else if has_relay_route P (hs_contact h)
      then (if hs_in_flight h then [] else [(i, if direct_first then DirectThenRelay else RelayOnly)])
             @ held_due P now only direct_first n (Suc i) busy hs
      else if hs_contact h \<in> set busy then held_due P now only direct_first n (Suc i) busy hs
      else (if \<not> hs_in_flight h \<and> may_retry P (hs_contact h) now n then [(i, DirectThenRelay)] else [])
             @ held_due P now only direct_first n (Suc i) (hs_contact h # busy) hs)"

definition send_held :: "paths \<Rightarrow> nat \<times> route \<Rightarrow> 's office \<Rightarrow> 's office" where
  "send_held P ir n =
     (let h = held n ! fst ir;
          n = n\<lparr>held := (held n)[fst ir := h\<lparr>hs_in_flight := True\<rparr>]\<rparr>;
          addr = (case get_conv (hs_contact h) n of None \<Rightarrow> [] | Some c \<Rightarrow> peer_address c)
      in queue_out (detach P addr (hs_contact h) (hs_frame h) True) (snd ir) (Done_Held (hs_frame h)) n)"

definition open_chat :: "string \<Rightarrow> ('s, 'z) messenger_scheme \<Rightarrow> bool" where
  "open_chat contact n = (case get_conv contact n of None \<Rightarrow> False | Some c \<Rightarrow> \<not> closed c)"

definition flush_held_for :: "paths \<Rightarrow> nat \<Rightarrow> string option \<Rightarrow> bool \<Rightarrow> 's office \<Rightarrow> 's office" where
  "flush_held_for P now only direct_first n =
     (let kept = filter (\<lambda>h. open_chat (hs_contact h) n) (held n);
          n = n\<lparr>held := kept, touched := touched n \<or> length kept \<noteq> length (held n)\<rparr>
      in fold (send_held P) (held_due P now only direct_first n 0 [] kept) n)"

text \<open>\<open>flush_pending_control_for\<close>, which marks what it sends in flight, one copy at a time.\<close>

definition detach_pending :: "paths \<Rightarrow> held_control \<Rightarrow> detached" where
  "detach_pending P p =
     (let (primary, relays) = (if pc_handle p = [] then (None, []) else set_route P (pc_relays p))
      in \<lparr>ds_primary = primary, ds_relays = relays, ds_recipient = pc_recipient p, ds_handle = pc_handle p,
          ds_address = pc_address p, ds_frame = pc_frame p, ds_fresh = False\<rparr>)"

definition flush_pending_control_for :: "paths \<Rightarrow> nat \<Rightarrow> string option \<Rightarrow> 's office \<Rightarrow> 's office" where
  "flush_pending_control_for P now only n =
     (let allowed = (\<lambda>p. \<not> pc_in_flight p \<and> (only = None \<or> only = Some (pc_recipient p))
                        \<and> (\<not> relayless (detach_pending P p) \<or> may_retry P (pc_recipient p) now n));
          due = filter allowed (pending_control n);
          n = n\<lparr>pending_control := map (\<lambda>p. if allowed p then p\<lparr>pc_in_flight := True\<rparr> else p) (pending_control n)\<rparr>
      in fold (\<lambda>f n. case find (\<lambda>p. pc_frame p = f) (pending_control n) of
                       None \<Rightarrow> n
                     | Some p \<Rightarrow> queue_out (detach_pending P p) RelayThenDirect (Done_Control f) n)
           (map pc_frame due) n)"

definition heard_from :: "paths \<Rightarrow> nat \<Rightarrow> string \<Rightarrow> 's office \<Rightarrow> 's office" where
  "heard_from P now contact n =
     (let waited = map_of (held_backoff n) contact \<noteq> None;
          n = n\<lparr>held_backoff := AList.delete contact (held_backoff n)\<rparr>;
          holding = list_ex (\<lambda>h. hs_contact h = contact) (held n) \<or> list_ex (\<lambda>p. pc_recipient p = contact) (pending_control n)
      in if waited \<or> holding
         then flush_pending_control_for P now (Some contact) (flush_held_for P now (Some contact) True n)
         else n)"


section \<open>Composing\<close>

datatype send_error =
  TooLong | UnknownContact | NotAuthorized | AwaitingAcceptance | ChatDeleted | NotSealed | NoTimer | NoBurnSupport
| NotEditable | WindowPassed | NotCleaned | NotSaved

text \<open>The gates of a text and of an attachment, and a sealed body.\<close>

definition may_send :: "'s conv \<Rightarrow> send_error option" where
  "may_send c =
     (if \<not> authorized c then Some NotAuthorized
      else if awaiting_approval c then Some AwaitingAcceptance
      else if closed c then Some ChatDeleted else None)"

definition text_body :: "nat \<Rightarrow> string \<Rightarrow> bytes" where
  "text_body burn t = (if burn = 0 then text_bytes t else pack_burn burn t)"

definition text_frame :: "nat \<Rightarrow> string \<Rightarrow> string \<Rightarrow> wire_olm \<Rightarrow> frame" where
  "text_frame burn from i m = (if burn = 0 then Message from i m else Burn from i m)"

text \<open>\<open>send_inner\<close>, with the message id drawn for it.\<close>

definition send_inner ::
  "('s, 'r) ratchet_scheme \<Rightarrow> nat \<Rightarrow> string \<Rightarrow> string \<Rightarrow> string \<Rightarrow> nat \<Rightarrow> 's office \<Rightarrow> (send_error + unit) \<times> 's office" where
  "send_inner R now i contact t burn n =
     (if MAX_TEXT_BYTES < length t then (Inl TooLong, n)
      else (case get_conv contact n of None \<Rightarrow> (Inl UnknownContact, n)
        | Some c \<Rightarrow>
            (case may_send c of Some e \<Rightarrow> (Inl e, n)
             | None \<Rightarrow>
                 (case seal_olm R (session c) (text_body burn t) of None \<Rightarrow> (Inl NotSealed, n)
                  | Some (m, ses) \<Rightarrow>
                      (Inr (),
                       (put_conv contact
                          (push_message ((text_message now True t i)\<lparr>delivery := ''queued'', burn_secs := burn\<rparr>)
                             (c\<lparr>session := ses\<rparr>)) n)
                         \<lparr>pending_sends := pending_sends n
                            @ [\<lparr>ps_contact = contact, ps_msg_id = i, ps_frame = text_frame burn (my_id n) i m\<rparr>]\<rparr>)))))"

definition send_text ::
  "('s, 'r) ratchet_scheme \<Rightarrow> nat \<Rightarrow> string \<Rightarrow> string \<Rightarrow> string \<Rightarrow> 's office \<Rightarrow> (send_error + unit) \<times> 's office" where
  "send_text R now i contact t n = send_inner R now i contact t 0 n"

definition burn_supported :: "string \<Rightarrow> 's office \<Rightarrow> bool" where
  "burn_supported contact n =
     (case get_conv contact n of None \<Rightarrow> False | Some c \<Rightarrow> peer_supports_burn c = Some True)"

definition send_burn ::
  "('s, 'r) ratchet_scheme \<Rightarrow> nat \<Rightarrow> string \<Rightarrow> string \<Rightarrow> string \<Rightarrow> nat \<Rightarrow> 's office \<Rightarrow> (send_error + unit) \<times> 's office" where
  "send_burn R now i contact t burn n =
     (if burn = 0 then (Inl NoTimer, n)
      else if \<not> burn_supported contact n then (Inl NoBurnSupport, n)
      else send_inner R now i contact t burn n)"

section \<open>Deferred sends\<close>

text \<open>
  \<open>plan_pending_sends\<close> takes the queue; \<open>execute_sends\<close> dials, and posts to the relays where the dial failed or a
  copy is always wanted; \<open>apply_send_outcomes\<close> records what came of it. \<open>copied\<close> is what \<open>queue_on_relays\<close> answers.
\<close>

definition plan_one :: "paths \<Rightarrow> pending_send \<Rightarrow> planned_send list \<times> 's office \<Rightarrow> planned_send list \<times> 's office" where
  "plan_one P p pn =
     (case get_conv (ps_contact p) (snd pn) of None \<Rightarrow> pn
      | Some c \<Rightarrow>
          if outdated c then (fst pn, hold_message P (ps_contact p) (ps_msg_id p) (ps_frame p) (snd pn))
          else (fst pn @ [\<lparr>pl_contact = ps_contact p, pl_handle = handle_of P (ps_contact p), pl_msg_id = ps_msg_id p,
                           pl_frame = ps_frame p, pl_address = peer_address c, pl_primary = fst (route_of P (ps_contact p)),
                           pl_relays = snd (route_of P (ps_contact p)), pl_remote_storage = remote_storage c\<rparr>], snd pn))"

definition plan_pending_sends :: "paths \<Rightarrow> 's office \<Rightarrow> planned_send list option \<times> 's office" where
  "plan_pending_sends P n =
     (let (items, n) = fold (plan_one P) (pending_sends n) ([], n\<lparr>pending_sends := []\<rparr>)
      in (if items = [] then None else Some items, n))"

definition relay_answer :: "string option \<Rightarrow> string list \<Rightarrow> string \<Rightarrow> queued_receipt list option \<Rightarrow> queued_receipt list option" where
  "relay_answer primary beside handle copied = (if primary = None \<and> beside = [] \<or> handle = [] then None else copied)"

definition execute_one :: "bool \<Rightarrow> queued_receipt list option \<Rightarrow> planned_send \<Rightarrow> send_outcome" where
  "execute_one dial copied p =
     (let tried = (\<not> dial \<or> pl_remote_storage p);
          got = relay_answer (pl_primary p) (pl_relays p) (pl_handle p) copied
      in \<lparr>so_contact = pl_contact p, so_msg_id = pl_msg_id p, so_frame = pl_frame p, so_delivered = dial,
          so_copies = (if tried then got else None), so_relay_failed = (tried \<and> got = None)\<rparr>)"

text \<open>\<open>sent_message_mut\<close>: our own message, a text by its message id, an attachment, which has none, by its transfer id.\<close>

definition is_sent_message :: "string \<Rightarrow> chat_message \<Rightarrow> bool" where
  "is_sent_message i m =
     (i \<noteq> [] \<and> from_me m \<and> \<not> is_system m \<and> (message_id m = i \<or> message_id m = [] \<and> transfer_id m = i))"

definition outcome_chat :: "send_outcome \<Rightarrow> 's conv \<Rightarrow> 's conv" where
  "outcome_chat o' c =
     (let c = (case so_copies o' of
                 Some copies \<Rightarrow>
                   (let c = (if so_delivered o' then c
                             else c\<lparr>relay_receipts := AList.update (so_msg_id o') copies (relay_receipts c)\<rparr>)
                    in if remote_storage c then c\<lparr>remote_storage_healthy := True\<rparr> else c)
               | None \<Rightarrow>
                   if so_relay_failed o' \<and> so_delivered o' \<and> remote_storage c then c\<lparr>remote_storage_healthy := False\<rparr> else c)
      in c\<lparr>history := update_first (is_sent_message (so_msg_id o'))
                        (\<lambda>m. m\<lparr>delivery := if so_delivered o' then ''sent'' else ''queued''\<rparr>) (history c)\<rparr>)"

definition await_receipt :: "nat \<Rightarrow> string \<Rightarrow> string \<Rightarrow> 's office \<Rightarrow> 's office" where
  "await_receipt now contact i n =
     n\<lparr>awaiting_receipt := awaiting_receipt n @ [\<lparr>aw_contact = contact, aw_msg_id = i, aw_since = now\<rparr>]\<rparr>"

definition apply_outcome :: "paths \<Rightarrow> nat \<Rightarrow> send_outcome \<Rightarrow> 's office \<Rightarrow> 's office" where
  "apply_outcome P now o' n =
     (let n = note_direct_result (so_delivered o') n;
          n = (case get_conv (so_contact o') n of None \<Rightarrow> n
               | Some c \<Rightarrow> (put_conv (so_contact o') (outcome_chat o' c) n)
                             \<lparr>relay_ever_succeeded := relay_ever_succeeded n \<or> so_copies o' \<noteq> None\<rparr>);
          n = (if so_delivered o' then await_receipt now (so_contact o') (so_msg_id o') n
               else if so_relay_failed o'
               then hold_message P (so_contact o') (so_msg_id o') (so_frame o')
                      (if has_relay_route P (so_contact o') then n else held_retry_failed (so_contact o') now n)
               else n)
      in if so_delivered o' then n\<lparr>held_backoff := AList.delete (so_contact o') (held_backoff n)\<rparr> else n)"

definition add_id :: "string \<Rightarrow> string list \<Rightarrow> string list" where
  "add_id i ids = (if i \<in> set ids then ids else ids @ [i])"

definition apply_send_outcomes :: "paths \<Rightarrow> nat \<Rightarrow> send_outcome list \<Rightarrow> 's office \<Rightarrow> string list \<times> 's office" where
  "apply_send_outcomes P now os n = (fold add_id (map so_contact os) [], fold (apply_outcome P now) os n)"


section \<open>Unconfirmed messages\<close>

text \<open>
  \<open>sweep_unconfirmed\<close>: one entry. It is dropped, or still waits, or its message goes out again, sealed anew under
  the same id. A burn message never does.
\<close>

definition unconfirmed_message :: "string \<Rightarrow> chat_message \<Rightarrow> bool" where
  "unconfirmed_message i m = (from_me m \<and> message_id m = i \<and> delivery m = ''sent'' \<and> burn_secs m = 0)"

definition sweep_one ::
  "paths \<Rightarrow> ('s, 'r) ratchet_scheme \<Rightarrow> nat \<Rightarrow> awaiting \<Rightarrow> awaiting list \<times> 's office \<Rightarrow> awaiting list \<times> 's office" where
  "sweep_one P R now a wn =
     (let (still, n) = wn; contact = aw_contact a
      in if now - aw_since a < RECEIPT_TIMEOUT then (still @ [a], n)
         else (case get_conv contact n of None \<Rightarrow> (still, n)
           | Some c \<Rightarrow>
               if closed c then (still, n)
               else (case find (unconfirmed_message (aw_msg_id a)) (history c) of None \<Rightarrow> (still, n)
                 | Some m \<Rightarrow>
                     (case seal_olm R (session c) (text_bytes (msg_text m)) of None \<Rightarrow> (still, n)
                      | Some (w, ses) \<Rightarrow>
                          (let n = put_conv contact (c\<lparr>session := ses\<rparr>) n;
                               f = Message (my_id n) (aw_msg_id a) w;
                               routed = has_relay_route P contact
                           in if \<not> routed \<and> \<not> may_retry P contact now n then (still @ [a], n)
                              else (still,
                                    queue_out (detach P (if routed then [] else peer_address c) contact f (\<not> routed))
                                      (if routed then RelayOnly else DirectThenRelay) (Done_Unconfirmed a) n))))))"

definition sweep_unconfirmed :: "paths \<Rightarrow> ('s, 'r) ratchet_scheme \<Rightarrow> nat \<Rightarrow> 's office \<Rightarrow> 's office" where
  "sweep_unconfirmed P R now n =
     (let (still, n) = fold (sweep_one P R now) (awaiting_receipt n) ([], n\<lparr>awaiting_receipt := []\<rparr>)
      in n\<lparr>awaiting_receipt := awaiting_receipt n @ still\<rparr>)"

section \<open>What the outbox achieved\<close>

definition keep_copies :: "string \<Rightarrow> queued_receipt list \<Rightarrow> 's conv \<Rightarrow> 's conv" where
  "keep_copies i copies c = c\<lparr>relay_receipts := AList.update i copies (relay_receipts c)\<rparr>"

text \<open>The retry clock, and a one-off frame to a contact with no relay route, which is held.\<close>

definition note_reach :: "nat \<Rightarrow> finished \<Rightarrow> 's office \<Rightarrow> 's office" where
  "note_reach now f n =
     (if fi_recipient f = [] \<or> fi_recipient f = my_id n then n
      else if fi_delivery f = Direct then n\<lparr>held_backoff := AList.delete (fi_recipient f) (held_backoff n)\<rparr>
      else if fi_delivery f = Failed \<and> fi_relayless f then held_retry_failed (fi_recipient f) now n
      else n)"

definition one_off :: "done_then \<Rightarrow> bool" where
  "one_off dn = (case dn of Done_Nothing \<Rightarrow> True | Done_Caller _ \<Rightarrow> True | _ \<Rightarrow> False)"

definition hold_one_off :: "finished \<Rightarrow> 's office \<Rightarrow> 's office" where
  "hold_one_off f n =
     (if fi_delivery f = Failed \<and> fi_relayless f \<and> one_off (fi_done f) \<and> open_chat (fi_recipient f) n
      then n\<lparr>held := held n @ [\<lparr>hs_contact = fi_recipient f, hs_msg_id = [], hs_frame = fi_frame f, hs_in_flight = False\<rparr>],
             touched := True\<rparr>
      else n)"

definition caller_done :: "(string \<times> string) option \<Rightarrow> delivery \<Rightarrow> 's office \<Rightarrow> 's office" where
  "caller_done record dl n =
     (case (record, dl) of
        (Some (contact, i), Relayed copies) \<Rightarrow>
          (case get_conv contact n of None \<Rightarrow> n
           | Some c \<Rightarrow> (put_conv contact (keep_copies i copies c) n)\<lparr>touched := True\<rparr>)
      | _ \<Rightarrow> n)"

definition control_done :: "frame \<Rightarrow> delivery \<Rightarrow> 's office \<Rightarrow> 's office" where
  "control_done f dl n =
     (if dl \<noteq> Failed
      then n\<lparr>pending_control := filter (\<lambda>p. pc_frame p \<noteq> f) (pending_control n), touched := True\<rparr>
      else n\<lparr>pending_control := update_first (\<lambda>p. pc_frame p = f) (\<lambda>p. p\<lparr>pc_in_flight := False\<rparr>) (pending_control n)\<rparr>)"

text \<open>A held frame: off the queue once it landed, and the next one follows when their device took it.\<close>

fun position :: "('a \<Rightarrow> bool) \<Rightarrow> 'a list \<Rightarrow> nat option" where
  "position p [] = None"
| "position p (x # xs) = (if p x then Some 0 else map_option Suc (position p xs))"

definition held_chat :: "held_send \<Rightarrow> delivery \<Rightarrow> 's conv \<Rightarrow> 's conv" where
  "held_chat h dl c =
     (let c = c\<lparr>history := update_first (\<lambda>m. hs_msg_id h \<noteq> [] \<and> our_message (hs_msg_id h) m)
                             (\<lambda>m. m\<lparr>delivery := if dl = Direct then ''sent'' else ''queued''\<rparr>) (history c)\<rparr>
      in case dl of Relayed copies \<Rightarrow> if hs_msg_id h = [] then c else keep_copies (hs_msg_id h) copies c
         | _ \<Rightarrow> c)"

definition held_done :: "paths \<Rightarrow> nat \<Rightarrow> frame \<Rightarrow> delivery \<Rightarrow> 's office \<Rightarrow> string list \<times> 's office" where
  "held_done P now f dl n =
     (case position (\<lambda>h. hs_frame h = f) (held n) of None \<Rightarrow> ([], n)
      | Some i \<Rightarrow>
          (let h = held n ! i
           in if dl = Failed then ([], n\<lparr>held := (held n)[i := h\<lparr>hs_in_flight := False\<rparr>]\<rparr>)
              else (let n = n\<lparr>held := take i (held n) @ drop (Suc i) (held n), touched := True\<rparr>;
                        n = (case get_conv (hs_contact h) n of None \<Rightarrow> n | Some c \<Rightarrow> put_conv (hs_contact h) (held_chat h dl c) n);
                        ids = (if hs_msg_id h = [] then [] else [hs_contact h])
                    in if dl = Direct
                       then (ids, flush_held_for P now (Some (hs_contact h)) True
                                    (if hs_msg_id h = [] then n else await_receipt now (hs_contact h) (hs_msg_id h) n))
                       else (ids, n))))"

definition unconfirmed_done :: "nat \<Rightarrow> awaiting \<Rightarrow> delivery \<Rightarrow> 's office \<Rightarrow> string list \<times> 's office" where
  "unconfirmed_done now a dl n =
     (case dl of
        Relayed copies \<Rightarrow>
          (case get_conv (aw_contact a) n of None \<Rightarrow> ([], n)
           | Some c \<Rightarrow>
               ([aw_contact a],
                put_conv (aw_contact a)
                  ((keep_copies (aw_msg_id a) (copies @ [handed_directly]) c)
                     \<lparr>history := update_first (\<lambda>m. our_message (aw_msg_id a) m \<and> delivery m = ''sent'')
                                   (\<lambda>m. m\<lparr>delivery := ''queued''\<rparr>) (history c)\<rparr>) n))
      | Direct \<Rightarrow> ([], n\<lparr>awaiting_receipt := awaiting_receipt n @ [a\<lparr>aw_since := now\<rparr>]\<rparr>)
      | Failed \<Rightarrow> ([], n\<lparr>awaiting_receipt := awaiting_receipt n @ [a]\<rparr>))"

definition settle :: "paths \<Rightarrow> nat \<Rightarrow> finished \<Rightarrow> 's office \<Rightarrow> string list \<times> 's office" where
  "settle P now f n =
     (let n = hold_one_off f (note_reach now f n)
      in case fi_done f of
           Done_Nothing \<Rightarrow> ([], n)
         | Done_Caller record \<Rightarrow> ([], caller_done record (fi_delivery f) n)
         | Done_Control g \<Rightarrow> ([], control_done g (fi_delivery f) n)
         | Done_Held g \<Rightarrow> held_done P now g (fi_delivery f) n
         | Done_Unconfirmed a \<Rightarrow> unconfirmed_done now a (fi_delivery f) n
         | Done_Cover \<Rightarrow> ([], n))"

definition apply_outbound :: "paths \<Rightarrow> nat \<Rightarrow> finished list \<Rightarrow> 's office \<Rightarrow> string list \<times> 's office" where
  "apply_outbound P now fs n =
     fold (\<lambda>f (ids, n). let (more, n) = settle P now f n in (fold add_id more ids, n)) fs ([], n)"

text \<open>\<open>queue_pending_control\<close>.\<close>

definition queue_pending_control :: "paths \<Rightarrow> held_control \<Rightarrow> route \<Rightarrow> 's office \<Rightarrow> 's office" where
  "queue_pending_control P p r n =
     (let p = p\<lparr>pc_in_flight := True\<rparr>
      in queue_out (detach_pending P p) r (Done_Control (pc_frame p))
           (n\<lparr>pending_control := pending_control n @ [p], touched := True\<rparr>))"

section \<open>Edits and unsends\<close>

text \<open>
  The halves around the recall: the first checks and hands back the copies to recall, \<open>None\<close> where the message is not
  queued; the second takes whether every copy was recalled (\<open>Recall\<close>'s \<open>recall_receipts\<close>).
\<close>

definition own_text :: "string \<Rightarrow> chat_message \<Rightarrow> bool" where
  "own_text i m = (from_me m \<and> \<not> is_system m \<and> msg_kind m = ''text'' \<and> message_id m = i)"

definition still_open :: "nat \<Rightarrow> chat_message \<Rightarrow> bool" where
  "still_open now m =
     (delivery m = ''queued'' \<or> delivery m = ''waiting'' \<or> sent_at m \<noteq> 0 \<and> now - sent_at m \<le> EDIT_WINDOW)"

definition queued_copies :: "string \<Rightarrow> string \<Rightarrow> 's office \<Rightarrow> queued_receipt list option \<times> 's office" where
  "queued_copies contact i n =
     (case get_conv contact n of None \<Rightarrow> (None, n)
      | Some c \<Rightarrow> (Some (case map_of (relay_receipts c) i of None \<Rightarrow> [] | Some copies \<Rightarrow> copies),
                   put_conv contact (c\<lparr>relay_receipts := AList.delete i (relay_receipts c)\<rparr>) n))"

definition begin_change ::
  "(chat_message \<Rightarrow> chat_message) \<Rightarrow> nat \<Rightarrow> string \<Rightarrow> string \<Rightarrow> 's office \<Rightarrow> (send_error + queued_receipt list option) \<times> 's office" where
  "begin_change g now contact i n =
     (case get_conv contact n of None \<Rightarrow> (Inl UnknownContact, n)
      | Some c \<Rightarrow>
          if closed c then (Inl ChatDeleted, n)
          else (case find (own_text i) (history c) of None \<Rightarrow> (Inl NotEditable, n)
            | Some m \<Rightarrow>
                if \<not> still_open now m then (Inl WindowPassed, n)
                else (let n = put_conv contact (c\<lparr>history := update_first (own_text i) g (history c)\<rparr>) n
                      in if delivery m \<noteq> ''queued'' then (Inr None, n)
                         else (let (copies, n) = queued_copies contact i n in (Inr copies, n)))))"

definition begin_edit :: "nat \<Rightarrow> string \<Rightarrow> string \<Rightarrow> string \<Rightarrow> 's office \<Rightarrow> (send_error + queued_receipt list option) \<times> 's office" where
  "begin_edit now contact i t n = begin_change (\<lambda>m. m\<lparr>msg_text := t, edited := True\<rparr>) now contact i n"

definition begin_unsend :: "nat \<Rightarrow> string \<Rightarrow> string \<Rightarrow> 's office \<Rightarrow> (send_error + queued_receipt list option) \<times> 's office" where
  "begin_unsend now contact i n = begin_change id now contact i n"

definition finish_edit ::
  "paths \<Rightarrow> ('s, 'r) ratchet_scheme \<Rightarrow> string \<Rightarrow> string \<Rightarrow> string \<Rightarrow> bool option \<Rightarrow> 's office \<Rightarrow> (send_error + unit) \<times> 's office" where
  "finish_edit P R contact i t recalled n =
     (case get_conv contact n of None \<Rightarrow> (Inl UnknownContact, n)
      | Some c \<Rightarrow>
          (case position (held_unsent contact i) (held n) of
             Some k \<Rightarrow>
               (let burn = (case find (our_message i) (history c) of None \<Rightarrow> 0 | Some m \<Rightarrow> burn_secs m)
                in case seal_olm R (session c) (text_body burn t) of None \<Rightarrow> (Inl NotSealed, n)
                   | Some (w, ses) \<Rightarrow>
                       (Inr (),
                        (put_conv contact (c\<lparr>session := ses\<rparr>) n)
                          \<lparr>held := (held n)[k := (held n ! k)\<lparr>hs_frame := text_frame burn (my_id n) i w\<rparr>], touched := True\<rparr>))
           | None \<Rightarrow>
               if recalled = Some True
               then (case seal_olm R (session c) (text_bytes t) of None \<Rightarrow> (Inl NotSealed, n)
                 | Some (w, ses) \<Rightarrow>
                     (Inr (),
                      queue_out (detach P [] contact (Message (my_id n) i w) False) RelayOnly
                        (Done_Caller (Some (contact, i))) (put_conv contact (c\<lparr>session := ses\<rparr>) n)))
               else (case seal_olm R (session c) (pack_edit i t) of None \<Rightarrow> (Inl NotSealed, n)
                 | Some (w, ses) \<Rightarrow>
                     (Inr (),
                      deliver_with P (peer_address c) contact (Edit (my_id n) w) False (Done_Caller None)
                        (put_conv contact (c\<lparr>session := ses\<rparr>) n)))))"

definition finish_unsend ::
  "paths \<Rightarrow> ('s, 'r) ratchet_scheme \<Rightarrow> string \<Rightarrow> string \<Rightarrow> bool option \<Rightarrow> 's office \<Rightarrow> (send_error + unit) \<times> 's office" where
  "finish_unsend P R contact i recalled n =
     (case position (held_unsent contact i) (held n) of
        Some k \<Rightarrow>
          (let n = n\<lparr>held := take k (held n) @ drop (Suc k) (held n), touched := True\<rparr>
           in (Inr (), case get_conv contact n of None \<Rightarrow> n
                       | Some c \<Rightarrow> put_conv contact (c\<lparr>history := filter (\<lambda>m. \<not> our_message i m) (history c)\<rparr>) n))
      | None \<Rightarrow>
          (case get_conv contact n of None \<Rightarrow> (Inl UnknownContact, n)
           | Some c \<Rightarrow>
               (let mine = (\<lambda>m. our_message i m \<and> \<not> is_system m)
                in case position mine (history c) of None \<Rightarrow> (Inr (), n)
                   | Some k \<Rightarrow>
                       if recalled = Some True
                       then (Inr (), put_conv contact (c\<lparr>history := take k (history c) @ drop (Suc k) (history c)\<rparr>) n)
                       else (let c = c\<lparr>history := update_first mine make_tombstone (history c)\<rparr>
                             in case seal_olm R (session c) (pack_unsend i) of None \<Rightarrow> (Inl NotSealed, put_conv contact c n)
                                | Some (w, ses) \<Rightarrow>
                                    (Inr (),
                                     deliver_with P (peer_address c) contact (Unsend (my_id n) w) False (Done_Caller None)
                                       (put_conv contact (c\<lparr>session := ses\<rparr>) n))))))"

end
