(* ===== verification/SendMedia.thy ===== *)
theory SendMedia
  imports Outbox PhotoScrub VideoScrub
begin

text \<open>
  Sending an attachment: \<open>send_media\<close> and \<open>send_burn_media\<close> of \<open>core/src/node/messaging.rs\<close>, on an asynchronous
  transport. The transfer id and the ids of the two files are drawn for it; a file whose id is \<open>None\<close> cannot be
  written.
\<close>

section \<open>Cleaning\<close>

definition cleaned_thumb :: "bytes \<Rightarrow> bytes" where
  "cleaned_thumb thumb = (if thumb = [] then [] else (case scrub_jpeg thumb of None \<Rightarrow> [] | Some t \<Rightarrow> t))"

definition cleaned_attachment :: "string \<Rightarrow> string \<Rightarrow> bytes \<Rightarrow> bytes \<Rightarrow> (bytes \<times> bytes \<times> string) option" where
  "cleaned_attachment what mime_type data thumb =
     (if what = ''video''
      then (case scrub_video data of Inl e \<Rightarrow> None | Inr (v, counts) \<Rightarrow> Some (v, cleaned_thumb thumb, mime_type))
      else (case scrub_jpeg data of None \<Rightarrow> None | Some p \<Rightarrow> Some (p, cleaned_thumb thumb, ''image/jpeg'')))"

section \<open>Sending\<close>

text \<open>The pre-signal of a video; an id no message carries names its outcome.\<close>

definition incoming_id :: "string \<Rightarrow> string" where
  "incoming_id t = ''t:'' @ t @ '':incoming''"

definition seal_incoming ::
  "('s, 'r) ratchet_scheme \<Rightarrow> string \<Rightarrow> string \<Rightarrow> string \<Rightarrow> string \<Rightarrow> nat \<Rightarrow> bytes \<Rightarrow> 's office \<Rightarrow> 's office option" where
  "seal_incoming R t contact what mime_type len thumb n =
     (case get_conv contact n of None \<Rightarrow> None
      | Some c \<Rightarrow>
          (case seal_olm R (session c) (pack_media_incoming t what mime_type len thumb) of None \<Rightarrow> None
           | Some (w, ses) \<Rightarrow>
               Some ((put_conv contact (c\<lparr>session := ses\<rparr>) n)
                       \<lparr>pending_sends := pending_sends n
                          @ [\<lparr>ps_contact = contact, ps_msg_id = incoming_id t, ps_frame = MediaIncoming (my_id n) w\<rparr>]\<rparr>)))"

definition attachment_body :: "nat \<Rightarrow> string \<Rightarrow> string \<Rightarrow> string \<Rightarrow> bytes \<Rightarrow> bytes" where
  "attachment_body burn t what mime_type data =
     (if burn = 0 then pack_media t what mime_type data else pack_burn_media burn t what mime_type data)"

definition attachment_frame :: "nat \<Rightarrow> string \<Rightarrow> wire_olm \<Rightarrow> frame" where
  "attachment_frame burn from w = (if burn = 0 then Media from w else BurnMedia from w)"

text \<open>The cleaned attachment: kept in the media store, sealed, shown in the chat and queued.\<close>

definition send_payload ::
  "('s, 'r) ratchet_scheme \<Rightarrow> nat \<Rightarrow> string \<Rightarrow> string option \<Rightarrow> string option \<Rightarrow> string \<Rightarrow> bytes \<Rightarrow> string \<Rightarrow> string \<Rightarrow> bytes \<Rightarrow> nat \<Rightarrow>
   's office \<Rightarrow> (send_error + unit) \<times> 's office" where
  "send_payload R now t file thumb_file contact data mime_type what thumb burn n =
     (case store_media file data n of (None, n) \<Rightarrow> (Inl NotSaved, n)
      | (Some media, n) \<Rightarrow>
          (case (if thumb = [] then (Some [], n) else store_media thumb_file thumb n) of (None, n) \<Rightarrow> (Inl NotSaved, n)
           | (Some thumb_i, n) \<Rightarrow>
               (case get_conv contact n of None \<Rightarrow> (Inl UnknownContact, n)
                | Some c \<Rightarrow>
                    (case seal_olm R (session c) (attachment_body burn t what mime_type data) of None \<Rightarrow> (Inl NotSealed, n)
                     | Some (w, ses) \<Rightarrow>
                         (Inr (),
                          (put_conv contact
                             (push_message
                                ((media_message now True what mime_type media (length data) t thumb_i)
                                   \<lparr>delivery := ''queued'', burn_secs := burn\<rparr>) (c\<lparr>session := ses\<rparr>)) n)
                            \<lparr>pending_sends := pending_sends n
                               @ [\<lparr>ps_contact = contact, ps_msg_id = t, ps_frame = attachment_frame burn (my_id n) w\<rparr>]\<rparr>)))))"

definition send_media_inner ::
  "('s, 'r) ratchet_scheme \<Rightarrow> nat \<Rightarrow> string \<Rightarrow> string option \<Rightarrow> string option \<Rightarrow> string \<Rightarrow> bytes \<Rightarrow> string \<Rightarrow> string \<Rightarrow> bytes \<Rightarrow> nat \<Rightarrow>
   's office \<Rightarrow> (send_error + unit) \<times> 's office" where
  "send_media_inner R now t file thumb_file contact data mime_type what thumb burn n =
     (if MAX_MEDIA_BYTES < length data then (Inl TooLong, n)
      else (case get_conv contact n of None \<Rightarrow> (Inl UnknownContact, n)
        | Some c \<Rightarrow>
            (case may_send c of Some e \<Rightarrow> (Inl e, n)
             | None \<Rightarrow>
                 (case cleaned_attachment what mime_type data thumb of None \<Rightarrow> (Inl NotCleaned, n)
                  | Some (data, thumb, mime_type) \<Rightarrow>
                      (case (if what = ''video'' \<and> burn = 0
                             then seal_incoming R t contact what mime_type (length data) thumb n else Some n) of
                         None \<Rightarrow> (Inl NotSealed, n)
                       | Some n \<Rightarrow> send_payload R now t file thumb_file contact data mime_type what thumb burn n)))))"

definition send_media ::
  "('s, 'r) ratchet_scheme \<Rightarrow> nat \<Rightarrow> string \<Rightarrow> string option \<Rightarrow> string option \<Rightarrow> string \<Rightarrow> bytes \<Rightarrow> string \<Rightarrow> string \<Rightarrow> bytes \<Rightarrow>
   's office \<Rightarrow> (send_error + unit) \<times> 's office" where
  "send_media R now t file thumb_file contact data mime_type what thumb n =
     send_media_inner R now t file thumb_file contact data mime_type what thumb 0 n"

definition send_burn_media ::
  "('s, 'r) ratchet_scheme \<Rightarrow> nat \<Rightarrow> string \<Rightarrow> string option \<Rightarrow> string \<Rightarrow> bytes \<Rightarrow> string \<Rightarrow> string \<Rightarrow> nat \<Rightarrow>
   's office \<Rightarrow> (send_error + unit) \<times> 's office" where
  "send_burn_media R now t file contact data mime_type what burn n =
     (if burn = 0 then (Inl NoTimer, n)
      else if \<not> burn_supported contact n then (Inl NoBurnSupport, n)
      else send_media_inner R now t file None contact data mime_type what [] burn n)"

section \<open>What leaves\<close>

lemma cleaned_attachment_iff:
  "cleaned_attachment what mime_type data thumb = Some (out, th, mt) \<longleftrightarrow>
     th = cleaned_thumb thumb \<and>
     (if what = ''video'' then (\<exists>counts. scrub_video data = Inr (out, counts)) \<and> mt = mime_type
      else scrub_jpeg data = Some out \<and> mt = ''image/jpeg'')"
  by (auto simp: cleaned_attachment_def split: option.splits sum.splits)

lemma cleaned_thumb_cases: "cleaned_thumb thumb = [] \<or> scrub_jpeg thumb = Some (cleaned_thumb thumb)"
  by (auto simp: cleaned_thumb_def split: option.splits)

definition only_files :: "bytes set \<Rightarrow> 's office \<Rightarrow> 's office \<Rightarrow> bool" where
  "only_files B n n' \<longleftrightarrow> (\<forall>(i, b) \<in> set (sealed_files n'). (i, b) \<in> set (sealed_files n) \<or> b \<in> B)"

lemma only_files_refl [simp]: "sealed_files n' = sealed_files n \<Longrightarrow> only_files B n n'"
  by (auto simp: only_files_def)

lemma only_files_trans: "only_files B n n1 \<Longrightarrow> only_files B n1 n2 \<Longrightarrow> only_files B n n2"
  by (fastforce simp: only_files_def)

lemma set_update_subset: "set (AList.update k v xs) \<subseteq> insert (k, v) (set xs)"
  by (induction xs) auto

lemma store_media_office:
  assumes "store_media drawn b n = (r, n')"
  shows "only_files {b} n n'" "pending_sends n' = pending_sends n" "my_id n' = my_id n" "convs n' = convs n"
  using assms set_update_subset by (fastforce simp: store_media_def only_files_def split: if_splits option.splits)+

lemma only_files_mono: "only_files A n n' \<Longrightarrow> A \<subseteq> B \<Longrightarrow> only_files B n n'"
  by (fastforce simp: only_files_def)

lemma send_payload_sent:
  assumes "send_payload R now t file thumb_file contact data mime_type what thumb burn n = (Inr (), n')"
  shows "only_files {data, thumb} n n'"
    and "\<exists>ses w ses'. seal_olm R ses (attachment_body burn t what mime_type data) = Some (w, ses') \<and>
       pending_sends n' = pending_sends n @ [\<lparr>ps_contact = contact, ps_msg_id = t, ps_frame = attachment_frame burn (my_id n) w\<rparr>]"
proof -
  obtain media n1 where s1: "store_media file data n = (Some media, n1)"
    using assms by (auto simp: send_payload_def split: prod.splits option.splits)
  obtain thumb_i n2 where s2: "(if thumb = [] then (Some [], n1) else store_media thumb_file thumb n1) = (Some thumb_i, n2)"
    using assms by (auto simp: send_payload_def s1 split: prod.splits option.splits if_splits)
  have n2: "only_files {thumb} n1 n2" "pending_sends n2 = pending_sends n1" "my_id n2 = my_id n1"
    using s2 store_media_office by (auto split: if_splits)
  note n1 = store_media_office [OF s1]
  obtain c w ses where c: "get_conv contact n2 = Some c" "seal_olm R (session c) (attachment_body burn t what mime_type data) = Some (w, ses)"
    and n': "sealed_files n' = sealed_files n2"
      "pending_sends n' = pending_sends n2 @ [\<lparr>ps_contact = contact, ps_msg_id = t, ps_frame = attachment_frame burn (my_id n2) w\<rparr>]"
    using assms by (simp only: send_payload_def s1 s2 prod.case option.case) (auto split: option.splits)
  have "only_files {data, thumb} n n2"
    using n1(1) n2(1) by (blast intro: only_files_trans only_files_mono)
  then show "only_files {data, thumb} n n'" using n'(1) by (auto simp: only_files_def)
  show "\<exists>ses w ses'. seal_olm R ses (attachment_body burn t what mime_type data) = Some (w, ses') \<and>
       pending_sends n' = pending_sends n @ [\<lparr>ps_contact = contact, ps_msg_id = t, ps_frame = attachment_frame burn (my_id n) w\<rparr>]"
    using c(2) n' n1 n2 by auto
qed

lemma seal_incoming_sent:
  assumes "seal_incoming R t contact what mime_type len thumb n = Some n'"
  shows "sealed_files n' = sealed_files n" "my_id n' = my_id n"
    "\<exists>ses w ses'. seal_olm R ses (pack_media_incoming t what mime_type len thumb) = Some (w, ses') \<and>
       pending_sends n' = pending_sends n @ [\<lparr>ps_contact = contact, ps_msg_id = incoming_id t, ps_frame = MediaIncoming (my_id n) w\<rparr>]"
proof -
  obtain c w ses where c: "get_conv contact n = Some c" "seal_olm R (session c) (pack_media_incoming t what mime_type len thumb) = Some (w, ses)"
    and n': "n' = (put_conv contact (c\<lparr>session := ses\<rparr>) n)\<lparr>pending_sends := pending_sends n
        @ [\<lparr>ps_contact = contact, ps_msg_id = incoming_id t, ps_frame = MediaIncoming (my_id n) w\<rparr>]\<rparr>"
    using assms by (auto simp: seal_incoming_def split: option.splits)
  then show "sealed_files n' = sealed_files n" "my_id n' = my_id n" by simp_all
  show "\<exists>ses w ses'. seal_olm R ses (pack_media_incoming t what mime_type len thumb) = Some (w, ses') \<and>
       pending_sends n' = pending_sends n @ [\<lparr>ps_contact = contact, ps_msg_id = incoming_id t, ps_frame = MediaIncoming (my_id n) w\<rparr>]"
    using c(2) n' by (intro exI [of _ "session c"] exI [of _ w] exI [of _ ses]) simp
qed

text \<open>
  C31. An attachment leaves this device scrubbed or not at all. When sending succeeds, the video or photo that is
  sealed and the copy that is kept are what \<open>scrub_video\<close> or \<open>scrub_jpeg\<close> made of it, a preview what \<open>scrub_jpeg\<close> made
  of it or nothing; nothing else is stored or queued, only a video that does not burn is announced first, and a
  recipient unpacks a photo to exactly the scrubbed bytes.
\<close>

theorem attachments_leave_scrubbed:
  assumes "send_media_inner R now t file thumb_file contact data mime_type what thumb burn n = (Inr (), n')"
  shows "\<exists>out th mt ses w ses' pre.
      (if what = ''video'' then (\<exists>counts. scrub_video data = Inr (out, counts)) \<and> mt = mime_type
       else scrub_jpeg data = Some out \<and> mt = ''image/jpeg'')
    \<and> (th = [] \<or> scrub_jpeg thumb = Some th)
    \<and> (\<forall>(i, b) \<in> set (sealed_files n'). (i, b) \<in> set (sealed_files n) \<or> b = out \<or> b = th)
    \<and> pending_sends n' = pending_sends n @ pre @ [\<lparr>ps_contact = contact, ps_msg_id = t, ps_frame = attachment_frame burn (my_id n) w\<rparr>]
    \<and> seal_olm R ses (attachment_body burn t what mt out) = Some (w, ses')
    \<and> (pre = [] \<or> what = ''video'' \<and> burn = 0 \<and>
         (\<exists>ses1 w1 ses2. seal_olm R ses1 (pack_media_incoming t what mt (length out) th) = Some (w1, ses2) \<and>
            pre = [\<lparr>ps_contact = contact, ps_msg_id = incoming_id t, ps_frame = MediaIncoming (my_id n) w1\<rparr>]))
    \<and> (what = ''image'' \<and> burn = 0 \<and> sane_id t \<longrightarrow> unpack_media (attachment_body burn t what mt out) = Some (t, ''image'', ''image/jpeg'', out))"
proof -
  obtain out th mt where clean: "cleaned_attachment what mime_type data thumb = Some (out, th, mt)"
    using assms by (auto simp: send_media_inner_def split: if_splits option.splits)
  obtain n1 where pre: "(if what = ''video'' \<and> burn = 0 then seal_incoming R t contact what mt (length out) th n else Some n) = Some n1"
    and run: "send_payload R now t file thumb_file contact out mt what th burn n1 = (Inr (), n')"
    using assms clean by (auto simp: send_media_inner_def split: if_splits option.splits)
  have n1: "sealed_files n1 = sealed_files n" "my_id n1 = my_id n"
    using pre seal_incoming_sent(1,2) [of R t contact what mt "length out" th n n1] by (simp_all split: if_splits)
  have ex: "\<exists>pre. pending_sends n1 = pending_sends n @ pre \<and> (pre = [] \<or> what = ''video'' \<and> burn = 0 \<and>
         (\<exists>ses1 w1 ses2. seal_olm R ses1 (pack_media_incoming t what mt (length out) th) = Some (w1, ses2) \<and>
            pre = [\<lparr>ps_contact = contact, ps_msg_id = incoming_id t, ps_frame = MediaIncoming (my_id n) w1\<rparr>]))"
  proof (cases "what = ''video'' \<and> burn = 0")
    case True
    with pre have "seal_incoming R t contact what mt (length out) th n = Some n1" by simp
    from seal_incoming_sent(3) [OF this] True show ?thesis by blast
  next
    case False
    with pre show ?thesis by auto
  qed
  from ex obtain pre where p: "pending_sends n1 = pending_sends n @ pre" "pre = [] \<or> what = ''video'' \<and> burn = 0 \<and>
         (\<exists>ses1 w1 ses2. seal_olm R ses1 (pack_media_incoming t what mt (length out) th) = Some (w1, ses2) \<and>
            pre = [\<lparr>ps_contact = contact, ps_msg_id = incoming_id t, ps_frame = MediaIncoming (my_id n) w1\<rparr>])" by blast
  note sent = send_payload_sent [OF run]
  from sent(2) obtain ses w ses' where w: "seal_olm R ses (attachment_body burn t what mt out) = Some (w, ses')"
    "pending_sends n' = pending_sends n1 @ [\<lparr>ps_contact = contact, ps_msg_id = t, ps_frame = attachment_frame burn (my_id n) w\<rparr>]"
    using n1 by auto
  have th: "th = [] \<or> scrub_jpeg thumb = Some th" using clean cleaned_thumb_cases by (auto simp: cleaned_attachment_iff)
  have files: "\<forall>(i, b) \<in> set (sealed_files n'). (i, b) \<in> set (sealed_files n) \<or> b = out \<or> b = th"
    using sent(1) n1(1) by (auto simp: only_files_def)
  have "unpack_media (attachment_body burn t what mt out) = Some (t, ''image'', ''image/jpeg'', out)" if k: "what = ''image''" "burn = 0" "sane_id t"
  proof -
    have "sanitize ''image'' ''image/jpeg'' = (''image'', ''image/jpeg'')" by code_simp
    moreover have "short ''image''" "short ''image/jpeg''" by (simp_all add: short_def code_def)
    ultimately show ?thesis using k clean by (simp add: attachment_body_def cleaned_attachment_iff unpack_pack_media)
  qed
  with clean th files p w show ?thesis
    unfolding cleaned_attachment_iff by (intro exI [of _ out] exI [of _ th] exI [of _ mt] exI [of _ ses] exI [of _ w] exI [of _ ses'] exI [of _ pre]) auto
qed

text \<open>A refusal: nothing is stored, sealed or shown.\<close>

lemma refused_attachment:
  assumes "send_media_inner R now t file thumb_file contact data mime_type what thumb burn n = (Inl e, n')"
    and "e \<noteq> NotSaved" and "e \<noteq> NotSealed" and "get_conv contact n \<noteq> None"
  shows "n' = n"
  using assms
  by (auto simp: send_media_inner_def send_payload_def seal_incoming_def get_conv_def put_conv_def update_conv
      split: if_splits option.splits prod.splits dest!: store_media_office(4))


section \<open>A sample\<close>

definition quiet_room :: "nat office" where
  "quiet_room =
     \<lparr>my_id = ''me'', convs = [(''bob'', sample_chat\<lparr>history := []\<rparr>)], pending_receipts = [], awaiting_receipt = [],
      captures_announced = [], block_announced = [], nearby_announced = [], seen_frames = [], media_on = True,
      sealed_files = [], open_files = [], burn_receipts = False, detached_sends = [], touched = False,
      pending_sends = [], held = [], pending_control = [], out_queue = [], held_backoff = [], background = False,
      direct_failures = 0, direct_ever_succeeded = False, relay_ever_succeeded = False\<rparr>"

lemma quiet_bob [simp]: "get_conv ''bob'' quiet_room = Some (sample_chat\<lparr>history := []\<rparr>)"
  by (simp add: get_conv_def quiet_room_def)

definition clean_sample :: bytes where
  "clean_sample = [0xFF, 0xD8, 0xFF, 0xC2, 0, 8, 8, 0, 1, 0, 2, 1, 0xFF, 0xDA, 7, 0xFF, 0xD9]"

theorem attachments_leave_scrubbed_witness:
  "\<exists>n'. send_media_inner plain_olm 900 ''t9'' (Some ''FILE-7'') None ''bob'' sample_photo ''image/jpeg'' ''image'' [] 0 quiet_room = (Inr (), n')
     \<and> sealed_files n' = [(''FILE-7'', clean_sample)]
     \<and> (\<exists>ses w ses'. map ps_frame (pending_sends n') = [Media ''me'' w] \<and> seal_olm plain_olm ses (pack_media ''t9'' ''image'' ''image/jpeg'' clean_sample) = Some (w, ses'))"
proof -
  have scrub: "scrub_jpeg sample_photo = Some clean_sample" using sample_scrubbed by (simp add: clean_sample_def)
  have plain: "length sample_photo \<le> MAX_MEDIA_BYTES" "may_send (sample_chat\<lparr>history := []\<rparr>) = None"
    by (simp_all add: sample_photo_def MAX_MEDIA_BYTES_def may_send_def sample_chat_def awaiting_approval_def)
  have fields: "media_on quiet_room" "sealed_files quiet_room = []" "pending_sends quiet_room = []" "my_id quiet_room = ''me''"
    by (simp_all add: quiet_room_def)
  obtain n' where run: "send_media_inner plain_olm 900 ''t9'' (Some ''FILE-7'') None ''bob'' sample_photo ''image/jpeg'' ''image'' [] 0 quiet_room = (Inr (), n')"
    and files: "sealed_files n' = [(''FILE-7'', clean_sample)]"
    using plain fields scrub
    by (simp add: send_media_inner_def cleaned_attachment_def cleaned_thumb_def send_payload_def store_media_def plain_olm_def)
  from attachments_leave_scrubbed [OF run] obtain out mt w ses ses' where
      "scrub_jpeg sample_photo = Some out" "mt = ''image/jpeg''" "map ps_frame (pending_sends n') = [Media ''me'' w]"
      "seal_olm plain_olm ses (attachment_body 0 ''t9'' ''image'' mt out) = Some (w, ses')"
    by (auto simp: fields attachment_frame_def)
  with run files scrub show ?thesis by (auto simp: attachment_body_def)
qed

end
