(* ===== verification/OutboxInv.thy ===== *)
theory OutboxInv
  imports SendMedia
begin

text \<open>
  What each operation of sending does to the messages on their way out. The invariant, \<open>safe\<close>, says of every
  text of ours what accounts for its status; an operation is shown to keep it, given what is being sent without the
  lock as sets of contact and message id. \<open>OutboxSafe\<close> puts the operations together.
\<close>

section \<open>What a frame leaves alone\<close>

text \<open>The sending side of the node, the receipt clock, the recorded copies; and no chat is opened again.\<close>

definition quiet :: "('s, 'z) messenger_scheme \<Rightarrow> ('s, 'z) messenger_scheme \<Rightarrow> bool" where
  "quiet n n' \<longleftrightarrow>
     messenger.more n' = messenger.more n \<and> my_id n' = my_id n \<and> awaiting_receipt n' = awaiting_receipt n \<and>
     (\<forall>j c'. get_conv j n' = Some c' \<longrightarrow>
        (\<exists>c. get_conv j n = Some c \<and> relay_receipts c' = relay_receipts c \<and> (closed c \<longrightarrow> closed c')))"

definition kin :: "'s conv \<Rightarrow> 's conv \<Rightarrow> bool" where
  "kin c c' \<longleftrightarrow> relay_receipts c' = relay_receipts c \<and> (closed c \<longrightarrow> closed c')"

definition level :: "('s, 'z) messenger_scheme \<Rightarrow> ('s, 'z) messenger_scheme \<Rightarrow> bool" where
  "level n n' \<longleftrightarrow> messenger.more n' = messenger.more n \<and> my_id n' = my_id n \<and> awaiting_receipt n' = awaiting_receipt n \<and> convs n' = convs n"

lemma level_refl [simp]: "level n n"
  by (simp add: level_def)

lemma level_owed [simp]: "level n n' \<Longrightarrow> level n (owe_receipt s i n')"
  by (simp add: level_def owe_receipt_def)

lemma level_stored: "store_media d b n = (r, n') \<Longrightarrow> level n n'"
  by (auto simp: level_def store_media_def split: if_splits option.splits)

lemma level_forgot [simp]: "level n (fold forget_media ids n)"
  by (induction ids arbitrary: n) (simp_all add: level_def forget_media_def)

lemma quiet_refl [simp]: "quiet n n"
  by (auto simp: quiet_def)

lemma quiet_kept:
  "\<lbrakk>get_conv s n = Some c; level n n1; kin c c'\<rbrakk> \<Longrightarrow> quiet n (snd (kept_chat r s c' n1))"
  by (auto simp: quiet_def kept_chat_def level_def kin_def get_conv_def put_conv_def update_conv split: if_splits)

lemma quiet_approved:
  assumes "\<And>c pt ses. get_conv s n = Some c \<Longrightarrow> quiet n (snd (k (c\<lparr>session := ses\<rparr>) pt))"
  shows "quiet n (snd (from_approved R s m k n))"
  using assms by (auto simp: from_approved_def split: option.splits)

lemma quiet_signal:
  assumes "\<And>c pt ses. get_conv s n = Some c \<Longrightarrow> quiet n (snd (k (c\<lparr>session := ses\<rparr>) pt))"
  shows "quiet n (snd (signal R s m k n))"
  using assms by (auto simp: signal_def split: option.splits)

lemma kin_base [simp]: "kin c c" "kin (c\<lparr>session := ses\<rparr>) c' = kin c c'"
  by (simp_all add: kin_def)

lemma kin_alive [simp]: "kin c (mark_alive w c') = kin c c'"
  by (simp add: kin_def mark_alive_def forget_upgrade_notice_def)

lemma kin_forget [simp]: "kin c (forget_upgrade_notice c') = kin c c'"
  by (simp add: kin_def forget_upgrade_notice_def)

lemma kin_simps [simp]:
  "kin c (c'\<lparr>session := ses\<rparr>) = kin c c'" "kin c (push_message x c') = kin c c'" "kin c (clear_system_notices ks c') = kin c c'"
  "kin c (add_notice w t c') = kin c c'" "kin c (c'\<lparr>history := h\<rparr>) = kin c c'"
  "kin c (c'\<lparr>remote_storage := b, storage_timeline := st\<rparr>) = kin c c'"
  "kin c (c'\<lparr>disappearing_secs := k, disappearing_timeline := dt\<rparr>) = kin c c'"
  "kin c (c'\<lparr>peer_supports_burn := sb\<rparr>) = kin c c'" "kin c (c'\<lparr>peer_backed_up := b\<rparr>) = kin c c'"
  "kin c (c'\<lparr>peer_verified := b\<rparr>) = kin c c'" "kin c (c'\<lparr>peer_app_version := v\<rparr>) = kin c c'"
  "kin c (c'\<lparr>peer_wire_old := b\<rparr>) = kin c c'"
  "kin c (c'\<lparr>told_captures := tc, told_block := tb, told_nearby_seq := k\<rparr>) = kin c c'"
  by (simp_all add: kin_def push_message_def clear_system_notices_def add_notice_def)

lemma kin_closed: "kin c c' \<Longrightarrow> kin c (c'\<lparr>closed := True\<rparr>)"
  by (simp add: kin_def)

lemma kin_counted: "within_allowance w b c0 = (fits, c1) \<Longrightarrow> kin c c1 = kin c c0"
  by (erule allowance_cases) (auto simp: kin_def push_message_def)

lemma kin_if: "(b \<Longrightarrow> kin c c1) \<Longrightarrow> (\<not> b \<Longrightarrow> kin c c2) \<Longrightarrow> kin c (if b then c1 else c2)"
  by simp

lemma quiet_control:
  assumes "\<And>c0 c. get_conv s n = Some c0 \<Longrightarrow> kin c0 c \<Longrightarrow> quiet n (snd (k c))"
  shows "quiet n (snd (verify_control R w s m mk k n))"
  unfolding verify_control_def
  by (rule quiet_signal) (auto intro: assms quiet_kept)

lemmas quiet_intros = quiet_approved quiet_signal quiet_kept quiet_control kin_closed kin_if

lemma take_text_quiet: "get_conv s n = Some c0 \<Longrightarrow> kin c0 c \<Longrightarrow> quiet n (snd (take_text w s i msg p c n))"
  by (auto simp: take_text_def Let_def kin_counted intro!: quiet_kept split: prod.splits)

lemma change_message_quiet: "get_conv s n = Some c0 \<Longrightarrow> kin c0 c \<Longrightarrow> quiet n (snd (change_message u s t f c n))"
  by (auto simp: change_message_def intro!: quiet_kept)

lemma texts_quiet:
  "quiet n (snd (on_message R w s i m n))" "quiet n (snd (on_burn R w s i m n))"
  "quiet n (snd (on_edit R w s m n))" "quiet n (snd (on_unsend R w s m n))" "quiet n (snd (on_viewed R s m n))"
  unfolding on_message_def on_burn_def on_edit_def on_unsend_def on_viewed_def
  by (auto simp: Let_def intro!: quiet_intros take_text_quiet change_message_quiet split: option.splits)

lemma on_media_incoming_quiet: "quiet n (snd (on_media_incoming R w d s m n))"
  unfolding on_media_incoming_def
proof (rule quiet_approved, goal_cases)
  case (1 c pt ses)
  note k = quiet_kept [OF 1]
  show ?case
    by (auto simp: Let_def kin_counted level_stored split: option.splits prod.splits intro!: k)
qed

lemma on_media_quiet: "quiet n (snd (on_media R w d s m n))"
  unfolding on_media_def
proof (rule quiet_approved, goal_cases)
  case (1 c pt ses)
  note k = quiet_kept [OF 1]
  show ?case
    by (auto simp: Let_def kin_counted level_stored split: option.splits prod.splits intro!: k)
qed

lemma on_burn_media_quiet: "quiet n (snd (on_burn_media R w d s m n))"
  unfolding on_burn_media_def
proof (rule quiet_approved, goal_cases)
  case (1 c pt ses)
  note k = quiet_kept [OF 1]
  show ?case
    by (auto simp: Let_def kin_counted level_stored split: option.splits prod.splits intro!: k)
qed

lemma signals_quiet:
  "quiet n (snd (on_burns R w s m n))" "quiet n (snd (on_ack R w s m n))" "quiet n (snd (on_closed R w s m n))"
  "quiet n (snd (on_backed_up R w s m n))" "quiet n (snd (on_code_in_use R w s n))"
  unfolding on_burns_def on_ack_def on_closed_def on_backed_up_def on_code_in_use_def
  by (auto intro!: quiet_control quiet_kept kin_closed split: option.splits)

lemma notes_quiet:
  "quiet n (snd (on_storage R w s m n))" "quiet n (snd (on_disappearing R w s m n))"
  "quiet n (snd (on_screenshot R w s m n))" "quiet n (snd (on_verified R w s m n))"
  unfolding on_storage_def on_disappearing_def on_screenshot_def on_verified_def
  by (auto simp: Let_def kin_counted intro!: quiet_approved quiet_signal quiet_kept split: option.splits prod.splits)


lemma level_announced [simp]:
  "level n (n'\<lparr>captures_announced := a, block_announced := b, nearby_announced := d\<rparr>) = level n n'"
  by (simp add: level_def)

lemma on_version_quiet: "quiet n (snd (on_version R w s m n))"
  unfolding on_version_def
proof (rule quiet_signal, goal_cases)
  case (1 c pt ses)
  note k = quiet_kept [OF 1]
  show ?case
    by (auto simp: Let_def kin_counted split: option.splits prod.splits if_splits intro!: k)
qed

lemmas handlers_quiet = texts_quiet on_media_incoming_quiet on_media_quiet on_burn_media_quiet signals_quiet notes_quiet on_version_quiet

lemma quiet_touched [simp]: "quiet (n\<lparr>touched := t\<rparr>) n' = quiet n n'"
  by (simp add: quiet_def)

lemma level_touched [simp]: "quiet n (n\<lparr>touched := t\<rparr>)"
  by (auto simp: quiet_def)

definition is_receipt :: "frame \<Rightarrow> bool" where
  "is_receipt f = (case f of Delivered s m \<Rightarrow> True | _ \<Rightarrow> False)"

lemma quiet_result: "quiet n (snd x) \<Longrightarrow> x = (r, n') \<Longrightarrow> quiet n n'"
  by simp

lemma frame_quiet:
  assumes "process_frame R w d f n = Some (r, n')" and "\<not> is_receipt f"
  shows "quiet n n'"
proof -
  note h = handlers_quiet [where n = "n\<lparr>touched := True\<rparr>", unfolded quiet_touched, THEN quiet_result]
  show ?thesis
    using assms by (cases f) (auto simp: process_frame_def Let_def is_receipt_def intro: h)
qed

section \<open>Own texts and their names\<close>

definition named_ours :: "string \<Rightarrow> chat_message \<Rightarrow> bool" where
  "named_ours i m = (from_me m \<and> (message_id m = i \<or> transfer_id m = i))"

definition lone :: "chat_message list \<Rightarrow> bool" where
  "lone h = (\<forall>i. i \<noteq> [] \<longrightarrow> length (filter (named_ours i) h) \<le> 1)"

text \<open>A text of ours that is not a burn message.\<close>

definition tracked :: "chat_message \<Rightarrow> bool" where
  "tracked m = (from_me m \<and> \<not> is_system m \<and> burn_secs m = 0 \<and> transfer_id m = [] \<and> message_id m \<noteq> [] \<and> \<not> prefix ''t:'' (message_id m))"

lemma lone_le:
  assumes "lone h" and "\<And>i. i \<noteq> [] \<Longrightarrow> length (filter (named_ours i) h') \<le> length (filter (named_ours i) h)"
  shows "lone h'"
  using assms le_trans unfolding lone_def by blast

lemma filter_fewer: "length (filter q (filter p h)) \<le> length (filter q h)"
  by (induction h) (auto simp del: filter_filter)

lemma lone_filter: "lone h \<Longrightarrow> lone (filter p h)"
  by (erule lone_le) (rule filter_fewer)

lemma length_filter_same: "(\<And>x. q (f x) = q x) \<Longrightarrow> length (filter q (update_first p f h)) = length (filter q h)"
  by (induction h) simp_all

lemma lone_same:
  assumes "\<And>x. from_me (f x) = from_me x" "\<And>x. message_id (f x) = message_id x" "\<And>x. transfer_id (f x) = transfer_id x"
  shows "lone (update_first p f h) = lone h"
proof -
  have "length (filter (named_ours i) (update_first p f h)) = length (filter (named_ours i) h)" for i
    by (rule length_filter_same) (simp add: named_ours_def assms)
  then show ?thesis by (simp add: lone_def)
qed

lemma lone_other: "\<not> from_me m \<Longrightarrow> lone (h @ [m]) = lone h"
  by (simp add: lone_def named_ours_def)

lemma lone_twice:
  assumes "lone h" and "m \<in> set h" "m' \<in> set h" and "named_ours i m" "named_ours i m'" and "i \<noteq> []"
  shows "m = m'"
proof (rule ccontr)
  assume "m \<noteq> m'"
  then have "card {m, m'} = 2" by simp
  moreover have "{m, m'} \<subseteq> set (filter (named_ours i) h)" using assms by auto
  ultimately have "2 \<le> card (set (filter (named_ours i) h))" by (metis card_mono List.finite_set)
  also have "\<dots> \<le> length (filter (named_ours i) h)" by (rule card_length)
  finally show False using assms(1,6) by (auto simp: lone_def)
qed

text \<open>Where at most one element satisfies the test, the first one is every one.\<close>

lemma update_none: "\<forall>x \<in> set xs. \<not> p x \<Longrightarrow> update_first p f xs = xs"
  by (induction xs) auto

lemma update_lone:
  assumes "length (filter p xs) \<le> 1"
  shows "update_first p f xs = map (\<lambda>x. if p x then f x else x) xs"
  using assms
proof (induction xs)
  case (Cons x xs)
  show ?case
  proof (cases "p x")
    case True
    with Cons.prems have "filter p xs = []" by simp
    then have "\<forall>y \<in> set xs. \<not> p y" by (simp add: filter_empty_conv)
    with True show ?thesis by (auto intro!: map_idI [symmetric])
  qed (use Cons in simp)
qed simp

lemma update_ours:
  assumes "lone h" and "i \<noteq> []" and "\<And>m. p m \<Longrightarrow> named_ours i m"
  shows "update_first p f h = map (\<lambda>m. if p m then f m else m) h"
proof (rule update_lone)
  have "filter p h = filter p (filter (named_ours i) h)" using assms(3) by (auto intro: filter_cong)
  then have "length (filter p h) \<le> length (filter (named_ours i) h)" by (metis length_filter_le)
  then show "length (filter p h) \<le> 1" using assms(1,2) by (auto simp: lone_def intro: le_trans)
qed

lemma updated_member:
  "m' \<in> set (update_first p f h) \<Longrightarrow> m' \<in> set h \<or> (\<exists>m \<in> set h. p m \<and> m' = f m)"
  by (induction h) (auto split: if_splits)

definition points_to :: "string \<Rightarrow> chat_message \<Rightarrow> bool" where
  "points_to i m = (from_me m \<and> (message_id m = i \<or> message_id m = [] \<and> transfer_id m = i))"

text \<open>Marking what an id points to: every text of ours with that id is marked, and no other one touched.\<close>

lemma marked:
  assumes "lone h" and m': "m' \<in> set (update_first p (\<lambda>m. m\<lparr>delivery := d\<rparr>) h)" "tracked m'"
    and p: "\<And>m. p m \<Longrightarrow> points_to i m" "\<And>m. tracked m \<Longrightarrow> message_id m = i \<Longrightarrow> p m"
  shows "message_id m' \<noteq> i \<and> m' \<in> set h \<or> message_id m' = i \<and> delivery m' = d"
proof (cases "message_id m' = i")
  case True
  then have i: "i \<noteq> []" using m'(2) by (auto simp: tracked_def)
  have "update_first p (\<lambda>m. m\<lparr>delivery := d\<rparr>) h = map (\<lambda>m. if p m then m\<lparr>delivery := d\<rparr> else m) h"
    by (rule update_ours [OF assms(1) i]) (use p(1) in \<open>auto simp: points_to_def named_ours_def\<close>)
  then have "m' \<in> (\<lambda>m. if p m then m\<lparr>delivery := d\<rparr> else m) ` set h" using m'(1) by (metis list.set_map)
  then obtain m where m: "m' = (if p m then m\<lparr>delivery := d\<rparr> else m)" by blast
  with m'(2) True have "p m" using p(2) [of m] by (auto simp: tracked_def split: if_splits)
  with m True show ?thesis by simp
next
  case False
  from updated_member [OF m'(1)] show ?thesis
  proof
    assume "\<exists>m \<in> set h. p m \<and> m' = m\<lparr>delivery := d\<rparr>"
    then obtain m where "p m" "m' = m\<lparr>delivery := d\<rparr>" by blast
    with False m'(2) p(1) [of m] show ?thesis by (auto simp: tracked_def points_to_def)
  qed (use False in simp)
qed

section \<open>Accounted for\<close>

definition pending_pairs :: "'s office \<Rightarrow> (string \<times> string) set" where
  "pending_pairs n = (\<lambda>p. (ps_contact p, ps_msg_id p)) ` set (pending_sends n)"

definition held_pairs :: "'s office \<Rightarrow> (string \<times> string) set" where
  "held_pairs n = (\<lambda>h. (hs_contact h, hs_msg_id h)) ` set (held n)"

definition await_pair :: "awaiting \<Rightarrow> string \<times> string" where
  "await_pair a = (aw_contact a, aw_msg_id a)"

definition chased :: "outbound list \<Rightarrow> (string \<times> string) set" where
  "chased os = {await_pair a | a. \<exists>o' \<in> set os. ob_done o' = Done_Unconfirmed a}"

definition clocked :: "'s office \<Rightarrow> (string \<times> string) set" where
  "clocked n = await_pair ` set (awaiting_receipt n) \<union> chased (out_queue n)"

text \<open>
  A text of ours, by what its status says: queued, it waits to be sent (\<open>X\<close>: in a batch on its way), is held, or its
  copies on relays are recorded; waiting, it is held; sent, its receipt is waited for (\<open>Y\<close>: in a retry on its way).
\<close>

definition backed :: "(string \<times> string) set \<Rightarrow> (string \<times> string) set \<Rightarrow> 's office \<Rightarrow> string \<Rightarrow> 's conv \<Rightarrow> chat_message \<Rightarrow> bool" where
  "backed X Y n i c m \<longleftrightarrow>
     (delivery m = ''queued'' \<longrightarrow>
        (i, message_id m) \<in> X \<union> pending_pairs n \<union> held_pairs n \<or> map_of (relay_receipts c) (message_id m) \<noteq> None) \<and>
     (delivery m \<in> {''waiting'', ''update''} \<longrightarrow> (i, message_id m) \<in> held_pairs n) \<and>
     (delivery m = ''sent'' \<longrightarrow> (i, message_id m) \<in> Y \<union> clocked n)"

definition safe :: "(string \<times> string) set \<Rightarrow> (string \<times> string) set \<Rightarrow> 's office \<Rightarrow> bool" where
  "safe X Y n \<longleftrightarrow>
     (\<forall>i c. get_conv i n = Some c \<longrightarrow> \<not> closed c \<longrightarrow>
        lone (history c) \<and> (\<forall>m \<in> set (history c). tracked m \<longrightarrow> backed X Y n i c m))"

definition covers :: "(string \<Rightarrow> string \<Rightarrow> bool) \<Rightarrow> (string \<times> string) set \<Rightarrow> (string \<times> string) set \<Rightarrow> 's office \<Rightarrow>
  (string \<times> string) set \<Rightarrow> (string \<times> string) set \<Rightarrow> 's office \<Rightarrow> bool" where
  "covers S X Y n X' Y' n' \<longleftrightarrow>
     (\<forall>j x. S j x \<longrightarrow>
        ((j, x) \<in> held_pairs n \<longrightarrow> (j, x) \<in> held_pairs n') \<and>
        ((j, x) \<in> X \<union> pending_pairs n \<longrightarrow> (j, x) \<in> X' \<union> pending_pairs n' \<union> held_pairs n') \<and>
        ((j, x) \<in> Y \<union> clocked n \<longrightarrow> (j, x) \<in> Y' \<union> clocked n'))"

lemma backed_covers:
  assumes "covers S X Y n X' Y' n'" and "S i (message_id m)" and "backed X Y n i c m"
    and "map_of (relay_receipts c) (message_id m) \<noteq> None \<Longrightarrow> map_of (relay_receipts c') (message_id m) \<noteq> None"
  shows "backed X' Y' n' i c' m"
  using assms unfolding covers_def backed_def by blast

text \<open>An operation that changes no chat, and one that changes one, settling the messages with the ids in \<open>K\<close>.\<close>

lemma safe_same:
  assumes "safe X Y n" and "convs n' = convs n" and "covers (\<lambda>j x. open_chat j n) X Y n X' Y' n'"
  shows "safe X' Y' n'"
proof -
  have g: "get_conv i n' = get_conv i n" for i using assms(2) by (simp add: get_conv_def)
  show ?thesis
    unfolding safe_def g
  proof (intro allI impI conjI ballI)
    fix i c m
    assume c: "get_conv i n = Some c" "\<not> closed c"
    then show "lone (history c)" using assms(1) by (simp add: safe_def)
    assume "m \<in> set (history c)" "tracked m"
    then have "backed X Y n i c m" using c assms(1) by (simp add: safe_def)
    with c assms(3) show "backed X' Y' n' i c m" by (auto simp: open_chat_def intro: backed_covers)
  qed
qed

lemma safe_put:
  assumes safe: "safe X Y n" and n': "convs n' = convs (put_conv i c' n)" and c: "get_conv i n = Some c"
    and cov: "covers (\<lambda>j x. open_chat j n \<and> (j = i \<longrightarrow> x \<notin> K)) X Y n X' Y' n'"
    and closed: "closed c \<Longrightarrow> closed c'"
    and lone: "lone (history c) \<Longrightarrow> lone (history c')"
    and new: "\<And>m. \<lbrakk>m \<in> set (history c'); tracked m; lone (history c)\<rbrakk> \<Longrightarrow>
       m \<in> set (history c) \<and> message_id m \<notin> K \<and>
         (map_of (relay_receipts c) (message_id m) \<noteq> None \<longrightarrow> map_of (relay_receipts c') (message_id m) \<noteq> None)
       \<or> backed X' Y' n' i c' m"
  shows "safe X' Y' n'"
proof -
  have g: "get_conv j n' = (if j = i then Some c' else get_conv j n)" for j
    using n' get_put_conv [of j i c' n] by (simp only: get_conv_def)
  have old: "backed X' Y' n' j d' m"
    if "get_conv j n = Some d" "\<not> closed d" "m \<in> set (history d)" "tracked m" "j = i \<longrightarrow> message_id m \<notin> K"
      "map_of (relay_receipts d) (message_id m) \<noteq> None \<Longrightarrow> map_of (relay_receipts d') (message_id m) \<noteq> None" for j d d' m
  proof -
    have "backed X Y n j d m" using safe that(1-4) by (simp add: safe_def)
    moreover have "open_chat j n \<and> (j = i \<longrightarrow> message_id m \<notin> K)" using that(1,2,5) by (simp add: open_chat_def)
    ultimately show ?thesis using cov that(6) by (blast intro: backed_covers)
  qed
  show ?thesis
    unfolding safe_def
  proof (intro allI impI)
    fix j d
    assume j: "get_conv j n' = Some d" "\<not> closed d"
    show "lone (history d) \<and> (\<forall>m \<in> set (history d). tracked m \<longrightarrow> backed X' Y' n' j d m)"
    proof (cases "j = i")
      case True
      with j g have d: "d = c'" by simp
      with j closed have open_c: "\<not> closed c" by blast
      then have l: "lone (history c)" using safe c by (simp add: safe_def)
      have "backed X' Y' n' j d m" if m: "m \<in> set (history d)" "tracked m" for m
        using new [of m] m l d old [of i c m c'] c open_c True by blast
      with lone l d show ?thesis by blast
    next
      case False
      with j g have "get_conv j n = Some d" by simp
      with j(2) False old show ?thesis using safe by (auto simp: safe_def)
    qed
  qed
qed

lemma covers_grow:
  assumes "held_pairs n \<subseteq> held_pairs n'" and "X \<union> pending_pairs n \<subseteq> X' \<union> pending_pairs n' \<union> held_pairs n'"
    and "Y \<union> clocked n \<subseteq> Y' \<union> clocked n'"
  shows "covers S X Y n X' Y' n'"
  using assms unfolding covers_def by blast


section \<open>Lookups\<close>

lemma get_conv_office [simp]:
  "get_conv i (n\<lparr>pending_sends := a\<rparr>) = get_conv i n" "get_conv i (n\<lparr>held := b\<rparr>) = get_conv i n"
  "get_conv i (n\<lparr>pending_control := d\<rparr>) = get_conv i n" "get_conv i (n\<lparr>out_queue := e\<rparr>) = get_conv i n"
  "get_conv i (n\<lparr>held_backoff := f\<rparr>) = get_conv i n" "get_conv i (n\<lparr>direct_failures := g\<rparr>) = get_conv i n"
  "get_conv i (n\<lparr>direct_ever_succeeded := h\<rparr>) = get_conv i n" "get_conv i (n\<lparr>relay_ever_succeeded := h\<rparr>) = get_conv i n"
  by (simp_all add: get_conv_def)

lemma put_conv_office [simp]:
  "pending_sends (put_conv i c n) = pending_sends n" "held (put_conv i c n) = held n"
  "pending_control (put_conv i c n) = pending_control n" "out_queue (put_conv i c n) = out_queue n"
  "held_backoff (put_conv i c n) = held_backoff n" "relay_ever_succeeded (put_conv i c n) = relay_ever_succeeded n"
  by (simp_all add: put_conv_def)

lemma convs_put_cong: "convs n' = convs n \<Longrightarrow> convs (put_conv i c n') = convs (put_conv i c n)"
  by (simp add: put_conv_def)

lemmas pair_defs = pending_pairs_def held_pairs_def clocked_def

lemma chased_simps [simp]: "chased [] = {}" "chased (os @ qs) = chased os \<union> chased qs"
  by (auto simp: chased_def)

definition same_mail :: "'s office \<Rightarrow> 's office \<Rightarrow> bool" where
  "same_mail n n' \<longleftrightarrow> convs n' = convs n \<and> held n' = held n \<and> pending_sends n' = pending_sends n
     \<and> awaiting_receipt n' = awaiting_receipt n \<and> out_queue n' = out_queue n"

lemma safe_same_mail: "same_mail n n' \<Longrightarrow> safe X Y n' = safe X Y n"
  by (auto simp: same_mail_def safe_def backed_def pair_defs get_conv_def)

lemma same_mail_simps [simp]:
  "same_mail n (n\<lparr>held_backoff := b\<rparr>)" "same_mail n (held_retry_failed i now n)" "same_mail n (note_direct_result r n)"
  "same_mail n (n\<lparr>pending_control := p\<rparr>)" "same_mail n (n\<lparr>pending_control := p, touched := t\<rparr>)"
  "same_mail n (n\<lparr>touched := t\<rparr>)" "same_mail n (n\<lparr>relay_ever_succeeded := r\<rparr>)"
  by (simp_all add: same_mail_def held_retry_failed_def note_direct_result_def Let_def)

lemmas safe_unchanged [simp] = same_mail_simps [THEN safe_same_mail]

section \<open>Holding a message\<close>

lemma points_our_message: "our_message x m \<Longrightarrow> points_to x m" "tracked m \<Longrightarrow> message_id m = x \<Longrightarrow> our_message x m"
  by (auto simp: our_message_def points_to_def tracked_def)

lemma lone_mark: "lone (update_first p (\<lambda>m. m\<lparr>delivery := d\<rparr>) h) = lone h"
  by (rule lone_same) simp_all

lemma safe_hold:
  assumes "safe (insert (i, x) X) Y n"
  shows "safe X Y (hold_message P i x f n)"
proof (cases "get_conv i n")
  case None
  then have "\<not> open_chat i n" by (simp add: open_chat_def)
  with None show ?thesis
    by (intro safe_same [OF assms]) (auto simp: hold_message_def mark_sent_message_def Let_def covers_def pair_defs)
next
  case (Some c)
  let ?d = "if peer_outdated i n then ''update'' else if \<not> has_relay_route P i then ''waiting'' else ''queued''"
  let ?n' = "hold_message P i x f n"
  let ?c' = "c\<lparr>history := update_first (our_message x) (\<lambda>m. m\<lparr>delivery := ?d\<rparr>) (history c)\<rparr>"
  have n': "?n' = (put_conv i ?c' n)\<lparr>held := held n @ [\<lparr>hs_contact = i, hs_msg_id = x, hs_frame = f, hs_in_flight = False\<rparr>], touched := True\<rparr>"
    by (simp add: hold_message_def mark_sent_message_def Let_def Some)
  then have h: "(i, x) \<in> held_pairs ?n'" by (simp add: held_pairs_def)
  show ?thesis
  proof (rule safe_put [where K = "{x}" and c' = ?c', OF assms _ Some])
    show "convs ?n' = convs (put_conv i ?c' n)" by (simp add: n')
    show "covers (\<lambda>j y. open_chat j n \<and> (j = i \<longrightarrow> y \<notin> {x})) (insert (i, x) X) Y n X Y ?n'"
      by (auto simp: n' covers_def pair_defs)
  next
    fix m
    assume m: "m \<in> set (history ?c')" "tracked m" "lone (history c)"
    then have "message_id m \<noteq> x \<and> m \<in> set (history c) \<or> message_id m = x \<and> delivery m = ?d"
      by (intro marked [where p = "our_message x"]) (auto intro: points_our_message)
    then show "m \<in> set (history c) \<and> message_id m \<notin> {x} \<and>
         (map_of (relay_receipts c) (message_id m) \<noteq> None \<longrightarrow> map_of (relay_receipts ?c') (message_id m) \<noteq> None)
       \<or> backed X Y ?n' i ?c' m"
      using h by (auto simp: backed_def split: if_splits)
  qed (simp_all add: lone_mark)
qed

section \<open>Deferred sends\<close>

lemma points_sent_message: "is_sent_message x m \<Longrightarrow> points_to x m" "tracked m \<Longrightarrow> message_id m = x \<Longrightarrow> is_sent_message x m"
  by (auto simp: is_sent_message_def points_to_def tracked_def)

lemma outcome_chat_simps [simp]:
  "history (outcome_chat o' c) = update_first (is_sent_message (so_msg_id o'))
      (\<lambda>m. m\<lparr>delivery := if so_delivered o' then ''sent'' else ''queued''\<rparr>) (history c)"
  "closed (outcome_chat o' c) = closed c"
  "map_of (relay_receipts (outcome_chat o' c)) x =
     (if x = so_msg_id o' \<and> so_copies o' \<noteq> None \<and> \<not> so_delivered o' then so_copies o' else map_of (relay_receipts c) x)"
  by (auto simp: outcome_chat_def Let_def update_conv split: option.splits)

definition outcome_pair :: "send_outcome \<Rightarrow> string \<times> string" where
  "outcome_pair o' = (so_contact o', so_msg_id o')"

text \<open>The message takes the status of the outcome, whatever accounts for that status.\<close>

lemma safe_outcome_chat:
  assumes safe: "safe (insert (outcome_pair o') X) Y n" and c: "get_conv (so_contact o') n = Some c"
    and n': "convs n' = convs (put_conv (so_contact o') (outcome_chat o' c) n)" "held n' = held n" "pending_sends n' = pending_sends n"
      "out_queue n' = out_queue n" "set (awaiting_receipt n) \<subseteq> set (awaiting_receipt n')"
    and X': "X \<subseteq> X'"
    and ok: "if so_delivered o' then outcome_pair o' \<in> clocked n' else so_copies o' \<noteq> None \<or> outcome_pair o' \<in> X'"
  shows "safe X' Y n'"
proof (rule safe_put [where K = "{so_msg_id o'}" and c' = "outcome_chat o' c", OF safe n'(1) c])
  show "covers (\<lambda>j y. open_chat j n \<and> (j = so_contact o' \<longrightarrow> y \<notin> {so_msg_id o'})) (insert (outcome_pair o') X) Y n X' Y n'"
    using n' X' by (auto simp: covers_def pair_defs outcome_pair_def)
next
  fix m
  let ?d = "if so_delivered o' then ''sent'' else ''queued''"
  assume m: "m \<in> set (history (outcome_chat o' c))" "tracked m" "lone (history c)"
  have "message_id m \<noteq> so_msg_id o' \<and> m \<in> set (history c) \<or> message_id m = so_msg_id o' \<and> delivery m = ?d"
    using m by (intro marked [where p = "is_sent_message (so_msg_id o')"]) (auto intro: points_sent_message)
  then show "m \<in> set (history c) \<and> message_id m \<notin> {so_msg_id o'} \<and>
       (map_of (relay_receipts c) (message_id m) \<noteq> None \<longrightarrow> map_of (relay_receipts (outcome_chat o' c)) (message_id m) \<noteq> None)
     \<or> backed X' Y n' (so_contact o') (outcome_chat o' c) m"
    using ok by (auto simp: backed_def outcome_pair_def split: if_splits)
qed (simp_all add: lone_mark)

lemma safe_none:
  "safe (insert (i, x) X) Y n \<Longrightarrow> get_conv i n = None \<Longrightarrow> convs n' = convs n \<Longrightarrow> held n' = held n \<Longrightarrow>
   pending_sends n' = pending_sends n \<Longrightarrow> out_queue n' = out_queue n \<Longrightarrow> set (awaiting_receipt n) \<subseteq> set (awaiting_receipt n') \<Longrightarrow>
   safe X Y n'"
  by (erule safe_same) (auto simp: covers_def pair_defs open_chat_def)


lemma safe_bigger: "safe X Y n \<Longrightarrow> X \<subseteq> X' \<Longrightarrow> Y \<subseteq> Y' \<Longrightarrow> safe X' Y' n"
  by (erule safe_same) (auto intro!: covers_grow)

lemma execute_outcome:
  assumes "o' = execute_one dial copied p"
  shows "outcome_pair o' = (pl_contact p, pl_msg_id p)" "so_frame o' = pl_frame p" "so_delivered o' = dial"
    "so_relay_failed o' \<Longrightarrow> so_copies o' = None" "\<not> so_delivered o' \<Longrightarrow> so_copies o' \<noteq> None \<or> so_relay_failed o'"
  using assms by (auto simp: execute_one_def outcome_pair_def Let_def split: if_splits)

lemma safe_outcome:
  assumes safe: "safe (insert (outcome_pair o') X) Y n"
    and o': "so_relay_failed o' \<Longrightarrow> so_copies o' = None" "\<not> so_delivered o' \<Longrightarrow> so_copies o' \<noteq> None \<or> so_relay_failed o'"
  shows "safe X Y (apply_outcome P now o' n)"
proof -
  let ?i = "so_contact o'"
  define n1 where "n1 = note_direct_result (so_delivered o') n"
  define n2 where "n2 = (case get_conv ?i n1 of None \<Rightarrow> n1
               | Some c \<Rightarrow> (put_conv ?i (outcome_chat o' c) n1)\<lparr>relay_ever_succeeded := relay_ever_succeeded n1 \<or> so_copies o' \<noteq> None\<rparr>)"
  have n1: "safe (insert (outcome_pair o') X) Y n1" using safe by (simp add: n1_def)
  have n2: "safe X' Y n'" if "convs n' = convs n2" "held n' = held n2" "pending_sends n' = pending_sends n2"
      "out_queue n' = out_queue n2" "set (awaiting_receipt n2) \<subseteq> set (awaiting_receipt n')" "X \<subseteq> X'"
      "if so_delivered o' then outcome_pair o' \<in> clocked n' else so_copies o' \<noteq> None \<or> outcome_pair o' \<in> X'" for X' n'
  proof (cases "get_conv ?i n1")
    case None
    with that n1 have "safe X Y n'" by (intro safe_none [of ?i "so_msg_id o'" X Y n1 n']) (simp_all add: n2_def outcome_pair_def)
    from this that(6) show ?thesis by (rule safe_bigger) simp
  next
    case (Some c)
    with that show ?thesis by (intro safe_outcome_chat [OF n1 Some]) (simp_all add: n2_def)
  qed
  have eq: "apply_outcome P now o' n =
     (let n3 = (if so_delivered o' then await_receipt now ?i (so_msg_id o') n2
               else if so_relay_failed o'
               then hold_message P ?i (so_msg_id o') (so_frame o') (if has_relay_route P ?i then n2 else held_retry_failed ?i now n2)
               else n2)
      in if so_delivered o' then n3\<lparr>held_backoff := AList.delete ?i (held_backoff n3)\<rparr> else n3)"
    by (simp only: apply_outcome_def n2_def n1_def Let_def)
  consider (delivered) "so_delivered o'" | (copied) "\<not> so_delivered o'" "\<not> so_relay_failed o'" | (failed) "\<not> so_delivered o'" "so_relay_failed o'"
    by blast
  then show ?thesis
  proof cases
    case delivered
    have "safe X Y (await_receipt now ?i (so_msg_id o') n2)"
      by (rule n2) (auto simp: await_receipt_def delivered pair_defs outcome_pair_def await_pair_def)
    with delivered show ?thesis
      by (simp add: eq Let_def)
  next
    case copied
    with o'(2) have "so_copies o' \<noteq> None" by blast
    then have "safe X Y n2" using copied by (intro n2) simp_all
    with copied show ?thesis by (simp add: eq Let_def)
  next
    case failed
    have "safe (insert (outcome_pair o') X) Y n2" using failed by (intro n2) auto
    then have "safe (insert (?i, so_msg_id o') X) Y (if has_relay_route P ?i then n2 else held_retry_failed ?i now n2)"
      by (simp add: outcome_pair_def)
    from safe_hold [OF this] failed show ?thesis
      by (simp add: eq Let_def)
  qed
qed

lemma safe_outcomes:
  assumes "list_all2 (\<lambda>p o'. \<exists>dial copied. o' = execute_one dial copied p) ps os"
    and "safe (X \<union> (\<lambda>p. (pl_contact p, pl_msg_id p)) ` set ps) Y n"
  shows "safe X Y (snd (apply_send_outcomes P now os n))"
proof -
  have "safe X Y (fold (apply_outcome P now) os n)"
    using assms
  proof (induction arbitrary: n rule: list_all2_induct)
    case (Cons p ps o' os)
    from Cons(1) obtain dial copied where o': "o' = execute_one dial copied p" by blast
    from Cons.prems have "safe (insert (outcome_pair o') (X \<union> (\<lambda>p. (pl_contact p, pl_msg_id p)) ` set ps)) Y n"
      by (simp add: execute_outcome [OF o'])
    from safe_outcome [OF this execute_outcome(4,5) [OF o']] Cons.IH show ?case by simp
  qed simp
  then show ?thesis by (simp add: apply_send_outcomes_def)
qed

lemma safe_plan:
  assumes "fold (plan_one P) ps (qs, n) = (qs', n')"
    and "safe (X \<union> (\<lambda>p. (ps_contact p, ps_msg_id p)) ` set ps \<union> (\<lambda>p. (pl_contact p, pl_msg_id p)) ` set qs) Y n"
  shows "safe (X \<union> (\<lambda>p. (pl_contact p, pl_msg_id p)) ` set qs') Y n'"
  using assms
proof (induction ps arbitrary: qs n)
  case (Cons p ps)
  let ?i = "ps_contact p" and ?x = "ps_msg_id p"
  let ?Z = "X \<union> (\<lambda>p. (ps_contact p, ps_msg_id p)) ` set ps \<union> (\<lambda>p. (pl_contact p, pl_msg_id p)) ` set qs"
  from Cons.prems(2) have s: "safe (insert (?i, ?x) ?Z) Y n" by simp
  show ?case
  proof (cases "get_conv ?i n")
    case None
    then have "safe ?Z Y n" by (intro safe_none [OF s None]) simp_all
    moreover have "plan_one P p (qs, n) = (qs, n)" by (simp add: plan_one_def None)
    ultimately show ?thesis using Cons.IH [of qs n] Cons.prems(1) by simp
  next
    case (Some c)
    show ?thesis
    proof (cases "outdated c")
      case True
      then have "plan_one P p (qs, n) = (qs, hold_message P ?i ?x (ps_frame p) n)" by (simp add: plan_one_def Some)
      then show ?thesis using Cons.IH [OF _ safe_hold [OF s]] Cons.prems(1) by simp
    next
      case False
      then obtain q where q: "plan_one P p (qs, n) = (qs @ [q], n)" "pl_contact q = ?i" "pl_msg_id q = ?x"
        by (simp add: plan_one_def Some)
      from s have "safe (X \<union> (\<lambda>p. (ps_contact p, ps_msg_id p)) ` set ps \<union> (\<lambda>p. (pl_contact p, pl_msg_id p)) ` set (qs @ [q])) Y n"
        by (rule safe_bigger) (auto simp: q)
      from Cons.IH [OF _ this] Cons.prems(1) show ?thesis by (simp add: q)
    qed
  qed
qed simp

section \<open>The queues\<close>

lemma safe_queue_out: "safe X Y n \<Longrightarrow> safe X Y (queue_out d r dn n)"
  by (erule safe_same) (auto simp: queue_out_def intro!: covers_grow simp: pair_defs)

definition held_pair :: "held_send \<Rightarrow> string \<times> string" where
  "held_pair h = (hs_contact h, hs_msg_id h)"

lemma held_pairs_map: "held_pairs n = set (map held_pair (held n))"
  by (auto simp: held_pairs_def held_pair_def)

lemma held_flag: "map held_pair (hs[k := (hs ! k)\<lparr>hs_in_flight := b\<rparr>]) = map held_pair hs"
  by (cases "k < length hs") (simp_all add: map_update held_pair_def list_update_same_conv list_update_beyond)

lemma held_pairs_flag [simp]: "held_pairs (n\<lparr>held := (held n)[k := (held n ! k)\<lparr>hs_in_flight := b\<rparr>]\<rparr>) = held_pairs n"
  unfolding held_pairs_map by (simp del: set_map add: held_flag)

lemma send_held_pairs: "held_pairs (send_held P ir n) = held_pairs n"
  unfolding held_pairs_map by (simp del: set_map add: send_held_def queue_out_def Let_def held_flag)

lemma safe_send_held: "safe X Y n \<Longrightarrow> safe X Y (send_held P ir n)"
proof (erule safe_same)
  show "convs (send_held P ir n) = convs n" by (simp add: send_held_def queue_out_def Let_def)
  show "covers (\<lambda>j x. open_chat j n) X Y n X Y (send_held P ir n)"
    by (rule covers_grow) (simp_all only: send_held_pairs, auto simp: send_held_def queue_out_def Let_def pair_defs)
qed

lemma safe_fold: "(\<And>x n. safe X Y n \<Longrightarrow> safe X Y (g x n)) \<Longrightarrow> safe X Y n \<Longrightarrow> safe X Y (fold g xs n)"
  by (induction xs arbitrary: n) simp_all

lemma safe_flush:
  assumes "safe X Y n"
  shows "safe X Y (flush_held_for P now only df n)"
proof -
  let ?n = "n\<lparr>held := filter (\<lambda>h. open_chat (hs_contact h) n) (held n),
              touched := touched n \<or> length (filter (\<lambda>h. open_chat (hs_contact h) n) (held n)) \<noteq> length (held n)\<rparr>"
  have "safe X Y ?n"
    by (rule safe_same [OF assms]) (auto simp: covers_def pair_defs)
  then show ?thesis unfolding flush_held_for_def Let_def by (intro safe_fold safe_send_held)
qed

lemma safe_flush_control:
  assumes "safe X Y n"
  shows "safe X Y (flush_pending_control_for P now only n)"
  unfolding flush_pending_control_for_def Let_def
  by (rule safe_fold) (auto split: option.splits intro: safe_queue_out simp: assms)

lemma safe_heard: "safe X Y n \<Longrightarrow> safe X Y (heard_from P now i n)"
  by (simp add: heard_from_def Let_def safe_flush_control safe_flush)


section \<open>What a round of the outbox leaves\<close>

definition chases :: "done_then \<Rightarrow> (string \<times> string) set" where
  "chases dn = (case dn of Done_Unconfirmed a \<Rightarrow> {await_pair a} | _ \<Rightarrow> {})"

lemma chased_Cons [simp]: "chased (o' # os) = chases (ob_done o') \<union> chased os"
  by (auto simp: chased_def chases_def split: done_then.splits)

lemma safe_one_off: "safe X Y n \<Longrightarrow> safe X Y (hold_one_off f (note_reach now f n))"
proof -
  assume "safe X Y n"
  then have "safe X Y (note_reach now f n)" by (simp add: note_reach_def)
  then show ?thesis
    by (simp add: hold_one_off_def) (auto elim!: safe_same intro!: covers_grow simp: pair_defs)
qed

lemma keep_copies_simps [simp]:
  "history (keep_copies i cs c) = history c" "closed (keep_copies i cs c) = closed c"
  "map_of (relay_receipts (keep_copies i cs c)) x = (if x = i then Some cs else map_of (relay_receipts c) x)"
  by (simp_all add: keep_copies_def update_conv)

text \<open>A change of one chat that keeps the history and loses no record of copies.\<close>

lemma safe_put_records:
  assumes "safe X Y n" and "get_conv i n = Some c" and "history c' = history c" and "closed c \<Longrightarrow> closed c'"
    and "\<And>x. map_of (relay_receipts c) x \<noteq> None \<Longrightarrow> map_of (relay_receipts c') x \<noteq> None"
  shows "safe X Y (put_conv i c' n)"
proof (rule safe_put [where K = "{}", OF assms(1) refl assms(2)])
  show "covers (\<lambda>j x. open_chat j n \<and> (j = i \<longrightarrow> x \<notin> {})) X Y n X Y (put_conv i c' n)"
    by (rule covers_grow) (simp_all add: pair_defs)
qed (use assms in auto)

lemma safe_touched [simp]: "safe X Y (n\<lparr>touched := t\<rparr>) = safe X Y n"
  by simp

lemma safe_caller: "safe X Y n \<Longrightarrow> safe X Y (caller_done record dl n)"
  by (auto simp: caller_done_def split: option.splits prod.splits delivery.splits intro!: safe_put_records)

lemma safe_control: "safe X Y n \<Longrightarrow> safe X Y (control_done f dl n)"
  by (simp add: control_done_def)

lemma position_Some: "position p xs = Some k \<Longrightarrow> k < length xs \<and> p (xs ! k)"
  by (induction xs arbitrary: k) (auto split: if_splits)

lemma set_without: "k < length xs \<Longrightarrow> set xs = insert (xs ! k) (set (take k xs @ drop (Suc k) xs))"
  by (subst id_take_nth_drop [of k xs]) auto

lemma held_chat_simps [simp]:
  "history (held_chat h dl c) = update_first (\<lambda>m. hs_msg_id h \<noteq> [] \<and> our_message (hs_msg_id h) m)
      (\<lambda>m. m\<lparr>delivery := if dl = Direct then ''sent'' else ''queued''\<rparr>) (history c)"
  "closed (held_chat h dl c) = closed c"
  "map_of (relay_receipts c) x \<noteq> None \<Longrightarrow> map_of (relay_receipts (held_chat h dl c)) x \<noteq> None"
  by (auto simp: held_chat_def Let_def split: delivery.splits)

lemma held_chat_copies: "dl = Relayed cs \<Longrightarrow> hs_msg_id h \<noteq> [] \<Longrightarrow> map_of (relay_receipts (held_chat h dl c)) (hs_msg_id h) = Some cs"
  by (simp add: held_chat_def Let_def)

text \<open>The held frame \<open>h\<close> has left the queue, as \<open>n'\<close> records.\<close>

lemma safe_landed:
  assumes safe: "safe X Y n" and dl: "dl \<noteq> Failed" and h: "set (held n) \<subseteq> insert h (set (held n'))"
    and n': "convs n' = (case get_conv (hs_contact h) n of None \<Rightarrow> convs n | Some c \<Rightarrow> convs (put_conv (hs_contact h) (held_chat h dl c) n))"
      "pending_sends n' = pending_sends n" "out_queue n' = out_queue n" "set (awaiting_receipt n) \<subseteq> set (awaiting_receipt n')"
    and clock: "dl = Direct \<Longrightarrow> hs_msg_id h \<noteq> [] \<Longrightarrow> (hs_contact h, hs_msg_id h) \<in> clocked n'"
  shows "safe X Y n'"
proof (cases "get_conv (hs_contact h) n")
  case None
  then show ?thesis using h n'
    by (intro safe_same [OF safe]) (auto simp: covers_def pair_defs open_chat_def)
next
  case (Some c)
  let ?i = "hs_contact h" and ?x = "hs_msg_id h"
  let ?d = "if dl = Direct then ''sent'' else ''queued''"
  show ?thesis
  proof (rule safe_put [where K = "{?x}" and c' = "held_chat h dl c", OF safe _ Some])
    show "convs n' = convs (put_conv ?i (held_chat h dl c) n)" using n'(1) Some by simp
    show "covers (\<lambda>j y. open_chat j n \<and> (j = ?i \<longrightarrow> y \<notin> {?x})) X Y n X Y n'"
      using h n' by (auto simp: covers_def pair_defs)
  next
    fix m
    assume m: "m \<in> set (history (held_chat h dl c))" "tracked m" "lone (history c)"
    have "message_id m \<noteq> ?x \<and> m \<in> set (history c) \<or> message_id m = ?x \<and> delivery m = ?d"
      using m(1) [unfolded held_chat_simps] m(2,3)
      by (intro marked [where p = "\<lambda>m. ?x \<noteq> [] \<and> our_message ?x m"]) (auto intro: points_our_message simp: tracked_def)
    moreover have "?x \<noteq> []" if "message_id m = ?x" using that m(2) by (auto simp: tracked_def)
    ultimately show "m \<in> set (history c) \<and> message_id m \<notin> {?x} \<and>
         (map_of (relay_receipts c) (message_id m) \<noteq> None \<longrightarrow> map_of (relay_receipts (held_chat h dl c)) (message_id m) \<noteq> None)
       \<or> backed X Y n' ?i (held_chat h dl c) m"
      using clock dl held_chat_copies [of dl _ h c] by (cases dl) (auto simp: backed_def)
  qed (simp_all add: lone_mark)
qed

lemma safe_held_done:
  assumes "safe X Y n"
  shows "safe X Y (snd (held_done P now f dl n))"
proof (cases "position (\<lambda>h. hs_frame h = f) (held n)")
  case None
  with assms show ?thesis by (simp add: held_done_def)
next
  case (Some k)
  let ?h = "held n ! k"
  from Some have k: "k < length (held n)" using position_Some by blast
  show ?thesis
  proof (cases "dl = Failed")
    case True
    have "safe X Y (n\<lparr>held := (held n)[k := ?h\<lparr>hs_in_flight := False\<rparr>]\<rparr>)"
      by (intro safe_same [OF assms] covers_grow) (simp_all add: pending_pairs_def clocked_def)
    with True Some show ?thesis by (simp add: held_done_def Let_def)
  next
    case False
    define n1 where "n1 = n\<lparr>held := take k (held n) @ drop (Suc k) (held n), touched := True\<rparr>"
    define n2 where "n2 = (case get_conv (hs_contact ?h) n1 of None \<Rightarrow> n1 | Some c \<Rightarrow> put_conv (hs_contact ?h) (held_chat ?h dl c) n1)"
    define n3 where "n3 = (if dl = Direct \<and> hs_msg_id ?h \<noteq> [] then await_receipt now (hs_contact ?h) (hs_msg_id ?h) n2 else n2)"
    have "safe X Y n3"
    proof (rule safe_landed [OF assms False, of ?h])
      show "set (held n) \<subseteq> insert ?h (set (held n3))"
        using set_without [OF k] by (auto simp: n3_def n2_def n1_def await_receipt_def split: option.splits)
      show "dl = Direct \<Longrightarrow> hs_msg_id ?h \<noteq> [] \<Longrightarrow> (hs_contact ?h, hs_msg_id ?h) \<in> clocked n3"
        by (auto simp: n3_def await_receipt_def clocked_def await_pair_def)
    qed (auto simp: n3_def n2_def n1_def await_receipt_def put_conv_def split: option.splits)
    then have "safe X Y (flush_held_for P now (Some (hs_contact ?h)) True n3)" "safe X Y n3" by (simp_all add: safe_flush)
    moreover have "snd (held_done P now f dl n) = (if dl = Direct then flush_held_for P now (Some (hs_contact ?h)) True n3 else n3)"
      by (cases "dl = Direct"; cases "hs_msg_id ?h = []")
        (simp_all only: held_done_def Some option.case Let_def False if_False if_True n3_def n2_def n1_def snd_conv simp_thms delivery.distinct)
    ultimately show ?thesis by simp
  qed
qed


text \<open>Nothing need wait for a receipt of a message that is no longer at "sent".\<close>

lemma safe_drop:
  assumes "safe X (insert (i, x) Y) n"
    and "\<And>c m. \<lbrakk>get_conv i n = Some c; \<not> closed c; lone (history c); m \<in> set (history c); tracked m; message_id m = x\<rbrakk> \<Longrightarrow> delivery m \<noteq> ''sent''"
  shows "safe X Y n"
  unfolding safe_def
proof (intro allI impI conjI ballI)
  fix j c m
  assume c: "get_conv j n = Some c" "\<not> closed c"
  then show l: "lone (history c)" using assms(1) by (simp add: safe_def)
  assume m: "m \<in> set (history c)" "tracked m"
  then have "backed X (insert (i, x) Y) n j c m" using c assms(1) by (simp add: safe_def)
  moreover have "delivery m \<noteq> ''sent''" if "(j, message_id m) = (i, x)" using assms(2) c l m that by simp
  ultimately show "backed X Y n j c m" by (auto simp: backed_def)
qed

lemma safe_unconfirmed_done:
  assumes "safe X (insert (await_pair a) Y) n"
  shows "safe X Y (snd (unconfirmed_done now a dl n))"
proof (cases dl)
  case (Relayed copies)
  let ?i = "aw_contact a" and ?x = "aw_msg_id a"
  have s: "safe X (insert (?i, ?x) Y) n" using assms by (simp add: await_pair_def)
  show ?thesis
  proof (cases "get_conv ?i n")
    case None
    then have "safe X Y n" by (intro safe_drop [OF s]) simp
    with None Relayed show ?thesis by (simp add: unconfirmed_done_def)
  next
    case (Some c)
    let ?p = "\<lambda>m. our_message ?x m \<and> delivery m = ''sent''"
    let ?c' = "(keep_copies ?x (copies @ [handed_directly]) c)\<lparr>history := update_first ?p (\<lambda>m. m\<lparr>delivery := ''queued''\<rparr>) (history c)\<rparr>"
    let ?n' = "put_conv ?i ?c' n"
    have "safe X (insert (?i, ?x) Y) ?n'"
    proof (rule safe_put [where K = "{}", OF s refl Some])
      show "covers (\<lambda>j y. open_chat j n \<and> (j = ?i \<longrightarrow> y \<notin> {})) X (insert (?i, ?x) Y) n X (insert (?i, ?x) Y) ?n'"
        by (auto simp: covers_def pair_defs)
    next
      fix m
      assume "m \<in> set (history ?c')"
      then have "m \<in> set (history c) \<or> (\<exists>m0 \<in> set (history c). ?p m0 \<and> m = m0\<lparr>delivery := ''queued''\<rparr>)"
        by (intro updated_member) simp
      then show "m \<in> set (history c) \<and> message_id m \<notin> {} \<and>
           (map_of (relay_receipts c) (message_id m) \<noteq> None \<longrightarrow> map_of (relay_receipts ?c') (message_id m) \<noteq> None)
         \<or> backed X (insert (?i, ?x) Y) ?n' ?i ?c' m"
        by (auto simp: our_message_def backed_def)
    qed (simp_all add: lone_mark)
    then have "safe X Y ?n'"
    proof (rule safe_drop)
      fix c1 m
      assume g: "get_conv ?i ?n' = Some c1" "lone (history c1)" and m: "m \<in> set (history c1)" "tracked m" "message_id m = ?x"
      from g(1) have c1: "c1 = ?c'" by simp
      with g(2) have l: "lone (history c)" by (simp add: lone_mark)
      have "?x \<noteq> []" using m by (auto simp: tracked_def)
      then have "update_first ?p (\<lambda>m. m\<lparr>delivery := ''queued''\<rparr>) (history c)
          = map (\<lambda>m. if ?p m then m\<lparr>delivery := ''queued''\<rparr> else m) (history c)"
        by (intro update_ours [OF l]) (auto simp: our_message_def named_ours_def)
      with m(1) c1 have "m \<in> (\<lambda>m. if ?p m then m\<lparr>delivery := ''queued''\<rparr> else m) ` set (history c)" by simp
      then show "delivery m \<noteq> ''sent''" using m(2,3) by (auto simp: our_message_def tracked_def split: if_splits)
    qed
    with Some Relayed show ?thesis by (simp add: unconfirmed_done_def)
  qed
next
  case Direct
  have "safe X Y (n\<lparr>awaiting_receipt := awaiting_receipt n @ [a\<lparr>aw_since := now\<rparr>]\<rparr>)"
    by (rule safe_same [OF assms]) (auto intro!: covers_grow simp: pair_defs await_pair_def)
  with Direct show ?thesis by (simp add: unconfirmed_done_def)
next
  case Failed
  have "safe X Y (n\<lparr>awaiting_receipt := awaiting_receipt n @ [a]\<rparr>)"
    by (rule safe_same [OF assms]) (auto intro!: covers_grow simp: pair_defs await_pair_def)
  with Failed show ?thesis by (simp add: unconfirmed_done_def)
qed


lemma safe_settle:
  assumes "safe X (chases (fi_done f) \<union> Y) n"
  shows "safe X Y (snd (settle P now f n))"
proof -
  note s = safe_one_off [OF assms, of f now]
  show ?thesis
    using s by (cases "fi_done f") (auto simp: settle_def chases_def Let_def safe_caller safe_control safe_held_done safe_unconfirmed_done)
qed

lemma safe_outbound:
  assumes "safe X (\<Union> (chases ` fi_done ` set fs) \<union> Y) n"
  shows "safe X Y (snd (apply_outbound P now fs n))"
proof -
  have "safe X Y (snd (fold (\<lambda>f (ids, n). let (more, n) = settle P now f n in (fold add_id more ids, n)) fs (ids, n)))" for ids
    using assms
  proof (induction fs arbitrary: n ids)
    case (Cons f fs)
    obtain more n1 where st: "settle P now f n = (more, n1)" by fastforce
    from Cons.prems have "safe X (chases (fi_done f) \<union> (\<Union> (chases ` fi_done ` set fs) \<union> Y)) n" by (simp add: Un_assoc)
    from safe_settle [OF this, of P now] st have "safe X (\<Union> (chases ` fi_done ` set fs) \<union> Y) n1" by simp
    from Cons.IH [OF this, of "fold add_id more ids"] show ?case by (simp add: st)
  qed simp
  then show ?thesis by (simp add: apply_outbound_def)
qed

lemma safe_take:
  assumes "safe X Y n" and "set (out_queue n) \<subseteq> set qs \<union> set rest"
  shows "safe X (chased qs \<union> Y) (n\<lparr>out_queue := rest\<rparr>)"
proof (rule safe_same [OF assms(1)])
  have "chased (out_queue n) \<subseteq> chased qs \<union> chased rest" using assms(2) unfolding chased_def by blast
  then show "covers (\<lambda>j x. open_chat j n) X Y n X (chased qs \<union> Y) (n\<lparr>out_queue := rest\<rparr>)"
    by (intro covers_grow) (auto simp: pair_defs)
qed simp

section \<open>The receipt clock\<close>

text \<open>What becomes of one entry of the clock.\<close>

lemma sweep_one_cases:
  assumes "sweep_one P R now a (still, n) = (still', n')"
  obtains (early) "now - aw_since a < RECEIPT_TIMEOUT" "still' = still @ [a]" "n' = n"
    | (dropped) "still' = still" "n' = n"
        "\<And>c. get_conv (aw_contact a) n = Some c \<Longrightarrow> \<not> closed c \<Longrightarrow> (\<And>s pt. seal_olm R s pt \<noteq> None) \<Longrightarrow>
           find (unconfirmed_message (aw_msg_id a)) (history c) = None"
    | (again) c m w ses d r where "\<not> now - aw_since a < RECEIPT_TIMEOUT" "get_conv (aw_contact a) n = Some c" "\<not> closed c"
        "find (unconfirmed_message (aw_msg_id a)) (history c) = Some m" "seal_olm R (session c) (text_bytes (msg_text m)) = Some (w, ses)"
        "ds_recipient d = aw_contact a" "ds_frame d = Message (my_id n) (aw_msg_id a) w"
        "(still' = still @ [a] \<and> n' = put_conv (aw_contact a) (c\<lparr>session := ses\<rparr>) n) \<or>
         (still' = still \<and> n' = queue_out d r (Done_Unconfirmed a) (put_conv (aw_contact a) (c\<lparr>session := ses\<rparr>) n))"
proof (cases "now - aw_since a < RECEIPT_TIMEOUT")
  case True
  with assms show ?thesis by (intro early) (auto simp: sweep_one_def Let_def)
next
  case late: False
  show ?thesis
  proof (cases "\<exists>c m w ses. get_conv (aw_contact a) n = Some c \<and> \<not> closed c \<and>
      find (unconfirmed_message (aw_msg_id a)) (history c) = Some m \<and> seal_olm R (session c) (text_bytes (msg_text m)) = Some (w, ses)")
    case True
    then obtain c m w ses where c: "get_conv (aw_contact a) n = Some c" "\<not> closed c"
      "find (unconfirmed_message (aw_msg_id a)) (history c) = Some m" "seal_olm R (session c) (text_bytes (msg_text m)) = Some (w, ses)" by blast
    let ?routed = "has_relay_route P (aw_contact a)"
    let ?d = "detach P (if ?routed then [] else peer_address c) (aw_contact a) (Message (my_id n) (aw_msg_id a) w) (\<not> ?routed)"
    from assms late c show ?thesis
      by (intro again [OF late c, of ?d "if ?routed then RelayOnly else DirectThenRelay"])
        (simp_all add: detach_def, auto simp: sweep_one_def Let_def detach_def split: if_splits)
  next
    case False
    have none: "find (unconfirmed_message (aw_msg_id a)) (history c) = None"
      if "get_conv (aw_contact a) n = Some c" "\<not> closed c" "\<And>s pt. seal_olm R s pt \<noteq> None" for c
    proof (rule ccontr)
      note seals = that(3)
      assume "find (unconfirmed_message (aw_msg_id a)) (history c) \<noteq> None"
      then obtain m where "find (unconfirmed_message (aw_msg_id a)) (history c) = Some m" by blast
      moreover obtain w ses where "seal_olm R (session c) (text_bytes (msg_text m)) = Some (w, ses)"
        using seals by (metis not_None_eq surj_pair)
      ultimately show False using False that(1,2) by blast
    qed
    have "(still', n') = (still, n)"
    proof (cases "get_conv (aw_contact a) n")
      case (Some c)
      show ?thesis
      proof (cases "closed c \<or> find (unconfirmed_message (aw_msg_id a)) (history c) = None")
        case True
        with assms late Some show ?thesis by (cases "closed c") (simp_all add: sweep_one_def)
      next
        case open_c: False
        then obtain m where "find (unconfirmed_message (aw_msg_id a)) (history c) = Some m" by blast
        moreover from this open_c False Some have "seal_olm R (session c) (text_bytes (msg_text m)) = None"
          by (cases "seal_olm R (session c) (text_bytes (msg_text m))") auto
        ultimately show ?thesis using assms late Some open_c by (simp add: sweep_one_def Let_def)
      qed
    qed (use assms late in \<open>simp add: sweep_one_def Let_def\<close>)
    then show ?thesis using dropped none by simp
  qed
qed

lemma safe_sweep_one:
  assumes seals: "\<And>s pt. seal_olm R s pt \<noteq> None" and run: "sweep_one P R now a (still, n) = (still', n')"
    and safe: "safe X (insert (await_pair a) (await_pair ` set still \<union> Y)) n"
  shows "safe X (await_pair ` set still' \<union> Y) n'"
proof -
  let ?i = "aw_contact a" and ?x = "aw_msg_id a"
  let ?Z = "await_pair ` set still \<union> Y"
  have s: "safe X (insert (?i, ?x) ?Z) n" using safe by (simp add: await_pair_def)
  show ?thesis
    using run
  proof (cases rule: sweep_one_cases)
    case early
    with safe show ?thesis by (auto elim!: safe_bigger)
  next
    case dropped
    have "delivery m \<noteq> ''sent''" if "get_conv ?i n = Some c" "\<not> closed c" "m \<in> set (history c)" "tracked m" "message_id m = ?x" for c m
      using dropped(3) [OF that(1,2) seals] that(3-5) by (auto simp: find_None_iff unconfirmed_message_def tracked_def)
    with safe_drop [OF s] dropped(1,2) show ?thesis by blast
  next
    case (again c m w ses d r)
    let ?n1 = "put_conv ?i (c\<lparr>session := ses\<rparr>) n"
    have n1: "safe X (insert (?i, ?x) ?Z) ?n1" by (rule safe_put_records [OF s again(2)]) simp_all
    have "safe X ?Z (queue_out d r (Done_Unconfirmed a) ?n1)"
      by (rule safe_same [OF n1]) (auto simp: queue_out_def pair_defs chases_def await_pair_def intro!: covers_grow)
    moreover have "safe X (await_pair ` set (still @ [a]) \<union> Y) ?n1"
      using n1 by (auto simp: await_pair_def elim!: safe_bigger)
    ultimately show ?thesis using again(8) by auto
  qed
qed

lemma safe_sweep_fold:
  assumes seals: "\<And>s pt. seal_olm R s pt \<noteq> None"
  shows "fold (sweep_one P R now) as (still, n) = (still', n') \<Longrightarrow> safe X (await_pair ` set as \<union> (await_pair ` set still \<union> Y)) n \<Longrightarrow>
    safe X (await_pair ` set still' \<union> Y) n'"
proof (induction as arbitrary: still n)
  case (Cons a as)
  obtain s1 n1 where one: "sweep_one P R now a (still, n) = (s1, n1)" by fastforce
  from Cons.prems(2) have "safe X (insert (await_pair a) (await_pair ` set still \<union> (await_pair ` set as \<union> Y))) n"
    by (simp add: Un_left_commute)
  from safe_sweep_one [OF seals one this] have "safe X (await_pair ` set as \<union> (await_pair ` set s1 \<union> Y)) n1" by (simp add: Un_left_commute)
  with Cons.IH [of s1 n1] Cons.prems(1) one show ?case by simp
qed simp

lemma safe_sweep:
  assumes "\<And>s pt. seal_olm R s pt \<noteq> None" and "safe X Y n"
  shows "safe X Y (sweep_unconfirmed P R now n)"
proof -
  obtain still n1 where f: "fold (sweep_one P R now) (awaiting_receipt n) ([], n\<lparr>awaiting_receipt := []\<rparr>) = (still, n1)" by fastforce
  have "safe X (await_pair ` set (awaiting_receipt n) \<union> (await_pair ` set [] \<union> Y)) (n\<lparr>awaiting_receipt := []\<rparr>)"
    by (rule safe_same [OF assms(2)]) (auto intro!: covers_grow simp: pair_defs)
  from safe_sweep_fold [OF assms(1) f this] have n1: "safe X (await_pair ` set still \<union> Y) n1" .
  have "safe X Y (n1\<lparr>awaiting_receipt := awaiting_receipt n1 @ still\<rparr>)"
    by (rule safe_same [OF n1]) (auto intro!: covers_grow simp: pair_defs)
  then show ?thesis by (simp add: sweep_unconfirmed_def f)
qed


section \<open>Frames from contacts\<close>

lemma lone_step: "hist_step now rc h h' \<Longrightarrow> lone h \<Longrightarrow> lone h'"
proof (induction rule: hist_step.induct)
  case (completed t h i)
  then show ?case by (subst lone_same) simp_all
qed (simp_all add: lone_other lone_filter lone_same make_tombstone_def)

lemma tracked_step: "hist_step now rc h h' \<Longrightarrow> m \<in> set h' \<Longrightarrow> tracked m \<Longrightarrow> m \<in> set h \<or> delivery m = ''delivered''"
proof (induction rule: hist_step.induct)
  case (completed t h i)
  then show ?case by (auto dest!: updated_member simp: placeholder_for_def tracked_def)
next
  case (rewritten h target t)
  then show ?case by (auto dest!: updated_member simp: open_to_change_def tracked_def)
next
  case (retracted h target)
  then show ?case by (auto dest!: updated_member simp: open_to_change_def tracked_def make_tombstone_def)
next
  case (confirmed named h)
  then show ?case by (auto dest!: updated_member)
qed (auto simp: tracked_def)

lemma steps_ours:
  assumes "steps now rc c c'"
  shows "lone (history c) \<Longrightarrow> lone (history c')"
    and "m \<in> set (history c') \<Longrightarrow> tracked m \<Longrightarrow> m \<in> set (history c) \<or> delivery m = ''delivered''"
proof -
  have "(lone (history c) \<longrightarrow> lone h') \<and> (\<forall>m \<in> set h'. tracked m \<longrightarrow> m \<in> set (history c) \<or> delivery m = ''delivered'')"
    if "(hist_step now rc)\<^sup>*\<^sup>* (history c) h'" for h'
    using that by (induction rule: rtranclp_induct) (auto dest: lone_step tracked_step)
  with assms show "lone (history c) \<Longrightarrow> lone (history c')"
    "m \<in> set (history c') \<Longrightarrow> tracked m \<Longrightarrow> m \<in> set (history c) \<or> delivery m = ''delivered''"
    by (auto simp: steps_def)
qed

lemma office_more: "messenger.more n' = messenger.more n \<Longrightarrow> pending_sends n' = pending_sends n \<and> held n' = held n \<and> out_queue n' = out_queue n"
  by (cases n; cases n') simp

lemma safe_quiet:
  assumes safe: "safe X Y n" and q: "quiet n n'" and f: "process_frame R w d f n = Some (r, n')"
  shows "safe X Y n'"
proof -
  have same: "pending_sends n' = pending_sends n" "held n' = held n" "out_queue n' = out_queue n" "awaiting_receipt n' = awaiting_receipt n"
    using q office_more by (auto simp: quiet_def)
  then have pairs: "pending_pairs n' = pending_pairs n" "held_pairs n' = held_pairs n" "clocked n' = clocked n" by (simp_all add: pair_defs)
  show ?thesis
    unfolding safe_def
  proof (intro allI impI)
    fix j c'
    assume j: "get_conv j n' = Some c'" "\<not> closed c'"
    with q obtain c where c: "get_conv j n = Some c" "relay_receipts c' = relay_receipts c" "\<not> closed c" by (auto simp: quiet_def)
    obtain c0 where c0: "get_conv j n = Some c0" "steps (unat w) (confirms R f n) c0 c'" using frame_chat_from [OF f j(1)] by blast
    with c have "c0 = c" by simp
    with c0 have st: "steps (unat w) (confirms R f n) c c'" by simp
    from safe c have old: "lone (history c)" "\<And>m. m \<in> set (history c) \<Longrightarrow> tracked m \<Longrightarrow> backed X Y n j c m" by (auto simp: safe_def)
    have "backed X Y n' j c' m" if "m \<in> set (history c')" "tracked m" for m
      using steps_ours(2) [OF st that] old(2) [of m] that(2) by (auto simp: backed_def pairs c(2))
    with steps_ours(1) [OF st old(1)] show "lone (history c') \<and> (\<forall>m \<in> set (history c'). tracked m \<longrightarrow> backed X Y n' j c' m)" by blast
  qed
qed

lemma on_delivered_cases:
  assumes "on_delivered R w s m n = (r, n')"
  obtains "n' = n"
    | c c1 where "get_conv s n = Some c" "steps 0 None c c1" "kin c c1" "n' = put_conv s c1 n"
    | c c1 named where "get_conv s n = Some c" "steps 0 None c c1" "kin c c1" "named \<noteq> []"
        "n' = put_conv s (c1\<lparr>history := update_first (names_ours named) (\<lambda>m. m\<lparr>delivery := ''delivered''\<rparr>) (history c1)\<rparr>)
           (n\<lparr>awaiting_receipt := filter (\<lambda>a. \<not> (aw_contact a = s \<and> aw_msg_id a = named)) (awaiting_receipt n)\<rparr>)"
proof -
  have st: "steps 0 None c (mark_alive w (c\<lparr>session := ses\<rparr>))" "kin c (mark_alive w (c\<lparr>session := ses\<rparr>))"
    for c :: "'a conv" and ses by (rule steps_session [OF steps_alive]) simp
  show ?thesis
  proof (cases "Option.bind (get_conv s n) (\<lambda>c. map_option (\<lambda>x. (c, x)) (opened R (session c) m))")
    case None
    then have "n' = n"
      using assms by (auto simp: on_delivered_def signal_def opened_def split: if_splits option.splits bind_splits)
    then show ?thesis by (rule that(1))
  next
    case (Some y)
    then obtain c pt ses where y: "get_conv s n = Some c" "opened R (session c) m = Some (pt, ses)" by (auto simp: bind_eq_Some_conv)
    then have "parses_olm R m" by (simp add: opened_def split: if_splits)
    with assms y show ?thesis
      using that(2) [OF y(1) st(1) st(2)] that(3) [OF y(1) st(1) st(2), of "from_utf8_lossy pt" ses]
      by (auto simp: on_delivered_def signal_def kept_chat_def Let_def split: if_splits)
  qed
qed

lemma safe_chat:
  assumes "safe X Y n" and "get_conv s n = Some c" and "steps u rc c c1" and "kin c c1"
  shows "safe X Y (put_conv s c1 n)"
proof (rule safe_put [where K = "{}", OF assms(1) refl assms(2)])
  show "covers (\<lambda>j x. open_chat j n \<and> (j = s \<longrightarrow> x \<notin> {})) X Y n X Y (put_conv s c1 n)"
    by (rule covers_grow) (simp_all add: pair_defs)
next
  fix m
  assume m: "m \<in> set (history c1)" "tracked m"
  from steps_ours(2) [OF assms(3) m] assms(4)
  show "m \<in> set (history c) \<and> message_id m \<notin> {} \<and>
      (map_of (relay_receipts c) (message_id m) \<noteq> None \<longrightarrow> map_of (relay_receipts c1) (message_id m) \<noteq> None)
    \<or> backed X Y (put_conv s c1 n) s c1 m"
    by (auto simp: kin_def backed_def)
qed (use assms steps_ours(1) [OF assms(3)] in \<open>auto simp: kin_def\<close>)

lemma safe_delivered:
  assumes safe: "safe X Y n" and run: "on_delivered R w s m n = (r, n')"
  shows "safe X Y n'"
  using run
proof (cases rule: on_delivered_cases)
  case 1
  with safe show ?thesis by simp
next
  case (2 c c1)
  with safe_chat [OF safe 2(1-3)] show ?thesis by simp
next
  case (3 c c1 named)
  let ?c2 = "c1\<lparr>history := update_first (names_ours named) (\<lambda>m. m\<lparr>delivery := ''delivered''\<rparr>) (history c1)\<rparr>"
  have st: "steps 0 (Some named) c1 ?c2" by (rule steps_one) (simp add: hist_step.confirmed)
  have k: "kin c1 ?c2" by (simp add: kin_def)
  have "safe X Y (put_conv s c1 n)" by (rule safe_chat [OF safe 3(1-3)])
  then have "safe X Y (put_conv s ?c2 (put_conv s c1 n))" by (rule safe_chat [OF _ _ st k]) simp
  then have n2: "safe X Y (put_conv s ?c2 n)" by (simp add: put_conv_def)
  have "safe X (insert (s, named) Y) n'"
    by (rule safe_same [OF n2]) (auto simp: 3(5) put_conv_def pair_defs await_pair_def intro!: covers_grow)
  then show ?thesis
  proof (rule safe_drop)
    fix d m
    assume g: "get_conv s n' = Some d" "lone (history d)" and m: "m \<in> set (history d)" "tracked m" "message_id m = named"
    have d: "d = ?c2" using g(1) by (simp add: 3(5))
    with g(2) have l: "lone (history c1)" by (simp add: lone_mark)
    have np: "\<not> prefix ''t:'' named" using m by (auto simp: tracked_def)
    have "update_first (names_ours named) (\<lambda>m. m\<lparr>delivery := ''delivered''\<rparr>) (history c1)
        = map (\<lambda>m. if names_ours named m then m\<lparr>delivery := ''delivered''\<rparr> else m) (history c1)"
      by (rule update_ours [OF l 3(4)]) (use np in \<open>auto simp: names_ours_def named_ours_def\<close>)
    with m(1) d have "m \<in> (\<lambda>m. if names_ours named m then m\<lparr>delivery := ''delivered''\<rparr> else m) ` set (history c1)" by simp
    then obtain m0 where m0: "m = (if names_ours named m0 then m0\<lparr>delivery := ''delivered''\<rparr> else m0)" by blast
    have "names_ours named m" using m(2,3) np 3(4) by (simp add: names_ours_def tracked_def)
    with m0 show "delivery m \<noteq> ''sent''" by (cases "names_ours named m0") simp_all
  qed
qed

lemma safe_frame:
  assumes "safe X Y n" and "process_frame R w d f n = Some (r, n')"
  shows "safe X Y n'"
proof (cases "is_receipt f")
  case True
  then obtain s m where "f = Delivered s m" by (cases f) (auto simp: is_receipt_def)
  with assms(2) have "on_delivered R w s m (n\<lparr>touched := True\<rparr>) = (r, n')" by (simp add: process_frame_def Let_def)
  from safe_delivered [OF _ this] assms(1) show ?thesis by simp
next
  case False
  from safe_quiet [OF assms(1) frame_quiet [OF assms(2) False] assms(2)] show ?thesis .
qed


section \<open>Time and the composer\<close>

text \<open>A sweep of every chat that drops messages or moves them on, and keeps the records the rest go by.\<close>

lemma safe_sweep_chats:
  assumes safe: "safe X Y n" and mail: "messenger.more n' = messenger.more n" "awaiting_receipt n' = awaiting_receipt n"
    and chats: "\<And>i c'. get_conv i n' = Some c' \<Longrightarrow> \<exists>c. get_conv i n = Some c \<and> closed c' = closed c \<and>
       (lone (history c) \<longrightarrow> lone (history c')) \<and>
       (lone (history c) \<longrightarrow> (\<forall>m \<in> set (history c'). tracked m \<longrightarrow> delivery m = ''expired'' \<or>
          m \<in> set (history c) \<and> map_of (relay_receipts c') (message_id m) = map_of (relay_receipts c) (message_id m)))"
  shows "safe X Y n'"
proof -
  have pairs: "pending_pairs n' = pending_pairs n" "held_pairs n' = held_pairs n" "clocked n' = clocked n"
    using office_more [OF mail(1)] mail(2) by (simp_all add: pair_defs)
  show ?thesis
    unfolding safe_def
  proof (intro allI impI)
    fix i c'
    assume i: "get_conv i n' = Some c'" "\<not> closed c'"
    from chats [OF i(1)] obtain c where c: "get_conv i n = Some c" "closed c' = closed c" "lone (history c) \<Longrightarrow> lone (history c')"
      and kept: "\<And>m. lone (history c) \<Longrightarrow> m \<in> set (history c') \<Longrightarrow> tracked m \<Longrightarrow> delivery m = ''expired'' \<or>
          m \<in> set (history c) \<and> map_of (relay_receipts c') (message_id m) = map_of (relay_receipts c) (message_id m)"
      by blast
    from safe c i have l: "lone (history c)" and old: "\<And>m. m \<in> set (history c) \<Longrightarrow> tracked m \<Longrightarrow> backed X Y n i c m"
      by (auto simp: safe_def)
    have "backed X Y n' i c' m" if "m \<in> set (history c')" "tracked m" for m
      using kept [OF l that] old [of m] that(2) by (auto simp: backed_def pairs)
    with c(3) l show "lone (history c') \<and> (\<forall>m \<in> set (history c'). tracked m \<longrightarrow> backed X Y n' i c' m)" by blast
  qed
qed

lemma fold_forget_mail [simp]:
  "messenger.more (fold forget_media ids n) = messenger.more n" "awaiting_receipt (fold forget_media ids n) = awaiting_receipt n"
  by (induction ids arbitrary: n) (simp_all add: forget_media_def)

lemma sweep_burns_mail [simp]:
  "messenger.more (snd (sweep_burns now n)) = messenger.more n" "awaiting_receipt (snd (sweep_burns now n)) = awaiting_receipt n"
  by (simp_all add: sweep_burns_def Let_def)

lemma sweep_time_mail [simp]:
  "messenger.more (sweep_time now n) = messenger.more n" "awaiting_receipt (sweep_time now n) = awaiting_receipt n"
  by (simp_all add: sweep_time_def Let_def)

lemma burn_keep_ours: "from_me m' \<Longrightarrow> m' \<in> set (burn_keep now m) \<Longrightarrow> m' = m"
  by (auto simp: burn_keep_def burn_lapsed_def make_burn_tombstone_def split: if_splits)

lemma lone_burns: "lone h \<Longrightarrow> lone (concat (map (burn_keep now) h))"
proof (erule lone_le)
  fix i
  have "length (filter (named_ours i) (burn_keep now m)) \<le> length (filter (named_ours i) [m])" for m
    by (simp add: burn_keep_def named_ours_def burn_lapsed_def make_burn_tombstone_def)
  then show "length (filter (named_ours i) (concat (map (burn_keep now) h))) \<le> length (filter (named_ours i) h)"
  proof (induction h)
    case (Cons m h)
    have "length (filter (named_ours i) (burn_keep now m)) + length (filter (named_ours i) (concat (map (burn_keep now) h)))
        \<le> length (filter (named_ours i) [m]) + length (filter (named_ours i) h)"
      using Cons by (intro add_mono) simp_all
    then show ?case by (simp split: if_splits)
  qed simp
qed

lemma safe_sweep_burns:
  assumes "safe X Y n"
  shows "safe X Y (snd (sweep_burns now n))"
proof (rule safe_sweep_chats [OF assms])
  fix i c'
  assume "get_conv i (snd (sweep_burns now n)) = Some c'"
  then obtain c where c: "get_conv i n = Some c" "c' = c\<lparr>history := concat (map (burn_keep now) (history c))\<rparr>"
    by (auto simp: get_conv_sweep_burns burn_sweep_chat_eq)
  have "m \<in> set (history c)" if "m \<in> set (history c')" "tracked m" for m
    using that c(2) burn_keep_ours by (fastforce simp: tracked_def)
  with c show "\<exists>c. get_conv i n = Some c \<and> closed c' = closed c \<and> (lone (history c) \<longrightarrow> lone (history c')) \<and>
       (lone (history c) \<longrightarrow> (\<forall>m \<in> set (history c'). tracked m \<longrightarrow> delivery m = ''expired'' \<or>
          m \<in> set (history c) \<and> map_of (relay_receipts c') (message_id m) = map_of (relay_receipts c) (message_id m)))"
    by (intro exI [of _ c]) (auto simp: lone_burns)
qed simp_all

lemma map_of_deletes: "(\<And>m. m \<in> set ms \<Longrightarrow> message_id m \<noteq> x) \<Longrightarrow> map_of (fold (\<lambda>m. AList.delete (message_id m)) ms rs) x = map_of rs x"
  by (induction ms arbitrary: rs) (auto simp: delete_conv)

lemma lone_expire: "lone h \<Longrightarrow> lone (map (\<lambda>m. if queue_lapsed now m then m\<lparr>delivery := ''expired''\<rparr> else m) h)"
proof (erule lone_le)
  fix i
  have "named_ours i (if queue_lapsed now m then m\<lparr>delivery := ''expired''\<rparr> else m) = named_ours i m" for m
    by (simp add: named_ours_def)
  then show "length (filter (named_ours i) (map (\<lambda>m. if queue_lapsed now m then m\<lparr>delivery := ''expired''\<rparr> else m) h)) \<le> length (filter (named_ours i) h)"
    by (simp add: filter_map o_def)
qed

lemma time_sweep_chat_ours:
  "closed (fst (time_sweep_chat now c)) = closed c"
  "lone (history c) \<Longrightarrow> lone (history (fst (time_sweep_chat now c)))"
  "lone (history c) \<Longrightarrow> m \<in> set (history (fst (time_sweep_chat now c))) \<Longrightarrow> tracked m \<Longrightarrow> delivery m = ''expired'' \<or>
     m \<in> set (history c) \<and> map_of (relay_receipts (fst (time_sweep_chat now c))) (message_id m) = map_of (relay_receipts c) (message_id m)"
proof -
  let ?h = "map (\<lambda>m. if queue_lapsed now m then m\<lparr>delivery := ''expired''\<rparr> else m) (history c)"
  let ?c = "fst (time_sweep_chat now c)"
  have h: "history ?c = ?h \<or> (\<exists>p. history ?c = filter p ?h)"
    and r: "relay_receipts ?c = fold (\<lambda>m. AList.delete (message_id m)) (filter (queue_lapsed now) (history c)) (relay_receipts c)"
    by (auto simp: time_sweep_chat_def Let_def)
  show "closed ?c = closed c" by (simp add: time_sweep_chat_def Let_def)
  show "lone (history c) \<Longrightarrow> lone (history ?c)" using h by (elim disjE exE) (simp_all only: lone_expire lone_filter)
  assume l: "lone (history c)" and m: "m \<in> set (history ?c)" "tracked m"
  from h m(1) have "m \<in> set ?h" by auto
  then consider "delivery m = ''expired''" | "m \<in> set (history c)" "\<not> queue_lapsed now m" by (auto split: if_splits)
  then show "delivery m = ''expired'' \<or> m \<in> set (history c) \<and> map_of (relay_receipts ?c) (message_id m) = map_of (relay_receipts c) (message_id m)"
  proof cases
    case 2
    have "message_id q \<noteq> message_id m" if q: "q \<in> set (filter (queue_lapsed now) (history c))" for q
    proof
      assume same: "message_id q = message_id m"
      have "named_ours (message_id m) q" "named_ours (message_id m) m" "message_id m \<noteq> []"
        using q m(2) same by (auto simp: named_ours_def queue_lapsed_def tracked_def)
      then have "q = m" using lone_twice [OF l] q 2(1) by auto
      with q 2(2) show False by simp
    qed
    then have "map_of (relay_receipts ?c) (message_id m) = map_of (relay_receipts c) (message_id m)"
      unfolding r by (rule map_of_deletes)
    with 2 show ?thesis by simp
  qed simp
qed

lemma safe_sweep_time:
  assumes "safe X Y n"
  shows "safe X Y (sweep_time now n)"
proof (rule safe_sweep_chats [OF safe_sweep_burns [OF assms, of now]])
  fix i c'
  assume "get_conv i (sweep_time now n) = Some c'"
  then obtain c where "get_conv i (snd (sweep_burns now n)) = Some c" "c' = fst (time_sweep_chat now c)"
    by (auto simp: get_conv_sweep_time)
  then show "\<exists>c. get_conv i (snd (sweep_burns now n)) = Some c \<and> closed c' = closed c \<and> (lone (history c) \<longrightarrow> lone (history c')) \<and>
       (lone (history c) \<longrightarrow> (\<forall>m \<in> set (history c'). tracked m \<longrightarrow> delivery m = ''expired'' \<or>
          m \<in> set (history c) \<and> map_of (relay_receipts c') (message_id m) = map_of (relay_receipts c) (message_id m)))"
    using time_sweep_chat_ours [where now = now and c = c] by (intro exI [of _ c]) auto
qed simp_all

definition fresh_id :: "string \<Rightarrow> string \<Rightarrow> 's office \<Rightarrow> bool" where
  "fresh_id i contact n \<longleftrightarrow> i \<noteq> [] \<and> \<not> prefix ''t:'' i \<and>
     (\<forall>c. get_conv contact n = Some c \<longrightarrow> list_all (\<lambda>m. \<not> named_ours i m) (history c))"

lemma lone_push:
  assumes "lone h" and "list_all (\<lambda>m. \<not> named_ours i m) h" and "{message_id x, transfer_id x} \<subseteq> {i, []}"
  shows "lone (h @ [x])"
proof -
  have "filter (named_ours i) h = []" using assms(2) by (simp add: list_all_iff filter_empty_conv)
  then show ?thesis using assms(1,3) by (auto simp: lone_def named_ours_def)
qed

text \<open>A message of ours is added, and its frame queued.\<close>

lemma safe_push:
  assumes safe: "safe X Y n" and c: "get_conv contact n = Some c" and fresh: "fresh_id i contact n"
    and x: "{message_id x, transfer_id x} \<subseteq> {i, []}" "delivery x = ''queued''"
    and p: "ps_contact p = contact" "ps_msg_id p = i"
  shows "safe X Y ((put_conv contact (push_message x (c\<lparr>session := ses\<rparr>)) n)\<lparr>pending_sends := pending_sends n @ [p]\<rparr>)"
proof (rule safe_put [where K = "{}" and c' = "push_message x (c\<lparr>session := ses\<rparr>)", OF safe _ c])
  let ?c' = "push_message x (c\<lparr>session := ses\<rparr>)"
  let ?n' = "(put_conv contact ?c' n)\<lparr>pending_sends := pending_sends n @ [p]\<rparr>"
  show "covers (\<lambda>j x. open_chat j n \<and> (j = contact \<longrightarrow> x \<notin> {})) X Y n X Y ?n'"
    by (rule covers_grow) (auto simp: pair_defs)
  have "list_all (\<lambda>m. \<not> named_ours i m) (history c)" using fresh c by (simp add: fresh_id_def)
  then show "lone (history c) \<Longrightarrow> lone (history ?c')" using lone_push x(1) by (simp add: push_message_def)
  fix m
  assume "m \<in> set (history ?c')" "tracked m"
  then show "m \<in> set (history c) \<and> message_id m \<notin> {} \<and>
      (map_of (relay_receipts c) (message_id m) \<noteq> None \<longrightarrow> map_of (relay_receipts ?c') (message_id m) \<noteq> None)
    \<or> backed X Y ?n' contact ?c' m"
    using x p by (auto simp: push_message_def backed_def pending_pairs_def tracked_def)
qed (simp_all add: put_conv_def push_message_def)

lemma safe_send:
  assumes "fresh_id i contact n" and "safe X Y n"
  shows "safe X Y (snd (send_inner R now i contact t burn n))"
proof (cases "\<exists>c m ses. get_conv contact n = Some c \<and> seal_olm R (session c) (text_body burn t) = Some (m, ses) \<and>
    length t \<le> MAX_TEXT_BYTES \<and> may_send c = None")
  case False
  then have "snd (send_inner R now i contact t burn n) = n"
    by (auto simp: send_inner_def split: option.splits)
  with assms(2) show ?thesis by simp
next
  case True
  then obtain c m ses where c: "get_conv contact n = Some c" and s: "seal_olm R (session c) (text_body burn t) = Some (m, ses)"
    "length t \<le> MAX_TEXT_BYTES" "may_send c = None" by blast
  let ?m = "(text_message now True t i)\<lparr>delivery := ''queued'', burn_secs := burn\<rparr>"
  let ?p = "\<lparr>ps_contact = contact, ps_msg_id = i, ps_frame = text_frame burn (my_id n) i m\<rparr>"
  have "safe X Y ((put_conv contact (push_message ?m (c\<lparr>session := ses\<rparr>)) n)\<lparr>pending_sends := pending_sends n @ [?p]\<rparr>)"
    by (rule safe_push [OF assms(2) c assms(1)]) (simp_all add: text_message_def)
  with c s show ?thesis by (simp add: send_inner_def)
qed

lemma safe_stored: "store_media d b n = (r, n') \<Longrightarrow> safe X Y n' = safe X Y n"
proof (rule safe_same_mail)
  assume "store_media d b n = (r, n')"
  then show "same_mail n n'" by (auto simp: store_media_def same_mail_def split: if_splits option.splits)
qed

lemma safe_incoming:
  assumes "safe X Y n" and "seal_incoming R t contact what mt len thumb n = Some n'"
  shows "safe X Y n'" and "fresh_id i contact n \<Longrightarrow> fresh_id i contact n'"
proof -
  from assms(2) obtain c ses p where c: "get_conv contact n = Some c"
    and n': "n' = (put_conv contact (c\<lparr>session := ses\<rparr>) n)\<lparr>pending_sends := pending_sends n @ [p]\<rparr>"
    by (auto simp: seal_incoming_def split: option.splits)
  have "safe X Y (put_conv contact (c\<lparr>session := ses\<rparr>) n)" by (rule safe_put_records [OF assms(1) c]) simp_all
  then show "safe X Y n'" unfolding n' by (rule safe_same) (auto intro!: covers_grow simp: pair_defs)
  show "fresh_id i contact n \<Longrightarrow> fresh_id i contact n'" using c by (simp add: n' fresh_id_def)
qed

lemma safe_payload:
  assumes "safe X Y n" and "fresh_id t contact n"
  shows "safe X Y (snd (send_payload R now t file thumb_file contact data mt what thumb burn n))"
proof -
  obtain r1 n1 where s1: "store_media file data n = (r1, n1)" by fastforce
  obtain r2 n2 where s2: "(if thumb = [] then (Some [], n1) else store_media thumb_file thumb n1) = (r2, n2)" by fastforce
  have n1: "safe X Y n1" "convs n1 = convs n" using assms(1) safe_stored [OF s1] store_media_office(4) [OF s1] by simp_all
  then have n2: "safe X Y n2" "convs n2 = convs n"
    using s2 safe_stored [of thumb_file thumb n1 r2 n2 X Y] store_media_office(4) [of thumb_file thumb n1 r2 n2]
    by (auto split: if_splits)
  then have fresh: "fresh_id t contact n2" using assms(2) by (simp add: fresh_id_def get_conv_def)
  show ?thesis
  proof (cases "\<exists>media thumb_i c w ses. r1 = Some media \<and> r2 = Some thumb_i \<and> get_conv contact n2 = Some c \<and>
      seal_olm R (session c) (attachment_body burn t what mt data) = Some (w, ses)")
    case True
    then obtain media thumb_i c w ses where r: "r1 = Some media" "r2 = Some thumb_i" and c: "get_conv contact n2 = Some c"
      and w: "seal_olm R (session c) (attachment_body burn t what mt data) = Some (w, ses)" by blast
    let ?m = "(media_message now True what mt media (length data) t thumb_i)\<lparr>delivery := ''queued'', burn_secs := burn\<rparr>"
    let ?p = "\<lparr>ps_contact = contact, ps_msg_id = t, ps_frame = attachment_frame burn (my_id n2) w\<rparr>"
    have "safe X Y ((put_conv contact (push_message ?m (c\<lparr>session := ses\<rparr>)) n2)\<lparr>pending_sends := pending_sends n2 @ [?p]\<rparr>)"
      by (rule safe_push [OF n2(1) c fresh]) (simp_all add: media_message_def text_message_def)
    with r c w show ?thesis by (simp add: send_payload_def s1 s2)
  next
    case False
    then have "snd (send_payload R now t file thumb_file contact data mt what thumb burn n) \<in> {n1, n2}"
      by (simp only: send_payload_def s1 s2 prod.case) (auto split: option.splits)
    with n1 n2 show ?thesis by auto
  qed
qed

lemma safe_attach:
  assumes "fresh_id t contact n" and "safe X Y n"
  shows "safe X Y (snd (send_media_inner R now t file thumb_file contact data mt what thumb burn n))"
proof -
  have "safe X Y (snd (case (if what = ''video'' \<and> burn = 0 then seal_incoming R t contact what mt (length data) thumb n else Some n) of
      None \<Rightarrow> (Inl NotSealed, n) | Some n \<Rightarrow> send_payload R now t file thumb_file contact data mt what thumb burn n))" for data thumb mt
    using assms safe_incoming [OF assms(2), of R t contact what mt "length data" thumb]
    by (auto split: option.splits if_splits intro!: safe_payload)
  with assms(2) show ?thesis by (auto simp: send_media_inner_def split: option.splits)
qed

lemma safe_viewed:
  assumes "safe X Y n"
  shows "safe X Y (snd (mark_burn_viewed R now contact i shown n))"
proof -
  have marked: "safe X Y ((put_conv contact (c\<lparr>history := update_first (burn_named i) (\<lambda>m. m\<lparr>viewed_at := at\<rparr>) (history c)\<rparr>) n)\<lparr>touched := True\<rparr>)"
    if c: "get_conv contact n = Some c" for c at
  proof -
    let ?c' = "c\<lparr>history := update_first (burn_named i) (\<lambda>m. m\<lparr>viewed_at := at\<rparr>) (history c)\<rparr>"
    have "safe X Y (put_conv contact ?c' n)"
    proof (rule safe_put [where K = "{}", OF assms refl c])
      show "covers (\<lambda>j x. open_chat j n \<and> (j = contact \<longrightarrow> x \<notin> {})) X Y n X Y (put_conv contact ?c' n)"
        by (rule covers_grow) (simp_all add: pair_defs)
    next
      fix m
      assume "m \<in> set (history ?c')" "tracked m"
      then have "m \<in> set (history c)" by (auto dest!: updated_member simp: burn_named_def tracked_def)
      then show "m \<in> set (history c) \<and> message_id m \<notin> {} \<and>
          (map_of (relay_receipts c) (message_id m) \<noteq> None \<longrightarrow> map_of (relay_receipts ?c') (message_id m) \<noteq> None)
        \<or> backed X Y (put_conv contact ?c' n) contact ?c' m" by simp
    qed (simp_all add: lone_same)
    then show ?thesis by simp
  qed
  have receipt: "safe X Y (send_burn_receipt R contact target n1)" if "safe X Y n1" for target and n1 :: "'a office"
  proof (cases "\<exists>c m ses. get_conv contact n1 = Some c \<and> seal_olm R (session c) (text_bytes target) = Some (m, ses)")
    case True
    then obtain c m ses where c: "get_conv contact n1 = Some c" "seal_olm R (session c) (text_bytes target) = Some (m, ses)" by blast
    have "safe X Y (put_conv contact (c\<lparr>session := ses\<rparr>) n1)" by (rule safe_put_records [OF that c(1)]) simp_all
    then have "safe X Y ((put_conv contact (c\<lparr>session := ses\<rparr>) n1)\<lparr>detached_sends := q\<rparr>)" for q
      by (elim safe_same) (auto intro!: covers_grow simp: pair_defs)
    with c show ?thesis by (simp add: send_burn_receipt_def)
  next
    case False
    then have "send_burn_receipt R contact target n1 = n1" by (auto simp: send_burn_receipt_def split: option.splits)
    with that show ?thesis by simp
  qed
  show ?thesis
    using assms marked receipt by (auto simp: mark_burn_viewed_def Let_def split: option.splits)
qed

end
