(* ===== verification/OutboxSafe.thy ===== *)
theory OutboxSafe
  imports OutboxInv
begin

text \<open>
  What sending guarantees. Every operation that touches a message on its way out is a step of \<open>mail_step\<close>, in any
  order and with any answers of the network; the invariant is that an unconfirmed text is always somewhere the
  program will send it from again, or on a relay.
\<close>

section \<open>The traffic\<close>

text \<open>The node, with the outbox entries and the batch of deferred sends that are being sent without the lock.\<close>

record 's traffic =
  room :: "'s office"
  running :: "outbound list"
  sending :: "planned_send list"

inductive mail_step :: "'s olm \<Rightarrow> 's traffic \<Rightarrow> 's traffic \<Rightarrow> bool" for R where
  composed: "fresh_id i contact (room s) \<Longrightarrow> mail_step R s (s\<lparr>room := snd (send_inner R now i contact t burn (room s))\<rparr>)"
| attached: "fresh_id t contact (room s) \<Longrightarrow>
    mail_step R s (s\<lparr>room := snd (send_media_inner R now t file thumb_file contact data mt what thumb burn (room s))\<rparr>)"
| planned: "plan_pending_sends P (room s) = (plan, n') \<Longrightarrow>
    mail_step R s (s\<lparr>room := n', sending := sending s @ (case plan of None \<Rightarrow> [] | Some qs \<Rightarrow> qs)\<rparr>)"
| answered: "\<lbrakk>sending s = a @ ps @ b; list_all2 (\<lambda>p o'. \<exists>dial copied. o' = execute_one dial copied p) ps os\<rbrakk> \<Longrightarrow>
    mail_step R s (s\<lparr>room := snd (apply_send_outcomes P now os (room s)), sending := a @ b\<rparr>)"
| taken: "take_outbox (room s) = (qs, n') \<Longrightarrow> mail_step R s (s\<lparr>room := n', running := running s @ qs\<rparr>)"
| taken_own: "take_caller_outbox (room s) = (qs, n') \<Longrightarrow> mail_step R s (s\<lparr>room := n', running := running s @ qs\<rparr>)"
| finished: "\<lbrakk>running s = a @ os @ b; list_all2 (\<lambda>o' f. f = abandon o' \<or> (\<exists>dial copied. f = run_outbound dial copied o')) os fs\<rbrakk> \<Longrightarrow>
    mail_step R s (s\<lparr>room := snd (apply_outbound P now fs (room s)), running := a @ b\<rparr>)"
| retried: "mail_step R s (s\<lparr>room := flush_held_for P now only df (room s)\<rparr>)"
| signals_retried: "mail_step R s (s\<lparr>room := flush_pending_control_for P now only (room s)\<rparr>)"
| signalled: "mail_step R s (s\<lparr>room := queue_pending_control P p r (room s)\<rparr>)"
| told: "mail_step R s (s\<lparr>room := deliver_with P addr contact f fresh Done_Nothing (room s)\<rparr>)"
| heard: "mail_step R s (s\<lparr>room := heard_from P now contact (room s)\<rparr>)"
| swept: "mail_step R s (s\<lparr>room := sweep_unconfirmed P R now (room s)\<rparr>)"
| received: "process_frame R w drawn f (room s) = Some (rep, n') \<Longrightarrow> mail_step R s (s\<lparr>room := n'\<rparr>)"
| timed: "mail_step R s (s\<lparr>room := sweep_time now (room s)\<rparr>)"
| viewed: "mail_step R s (s\<lparr>room := snd (mark_burn_viewed R now contact i at (room s))\<rparr>)"

definition accounted :: "'s traffic \<Rightarrow> bool" where
  "accounted s = safe ((\<lambda>p. (pl_contact p, pl_msg_id p)) ` set (sending s)) (chased (running s)) (room s)"

lemma chased_mid: "chased (a @ os @ b) = chased os \<union> chased (a @ b)"
  by auto

lemma finished_chases:
  "list_all2 (\<lambda>o' f. f = abandon o' \<or> (\<exists>dial copied. f = run_outbound dial copied o')) os fs \<Longrightarrow> chased os = \<Union> (chases ` fi_done ` set fs)"
proof (induction rule: list_all2_induct)
  case (Cons o' os f fs)
  then have "fi_done f = ob_done o'" by (auto simp: abandon_def run_outbound_def finish_with_def)
  with Cons show ?case by simp
qed simp

lemma safe_told: "safe X Y n \<Longrightarrow> safe X Y (deliver_with P addr contact f fresh Done_Nothing n)"
  by (auto simp: deliver_with_def safe_queue_out elim!: safe_same intro!: covers_grow simp: pair_defs)

lemma safe_signalled: "safe X Y n \<Longrightarrow> safe X Y (queue_pending_control P p r n)"
  by (simp add: queue_pending_control_def Let_def safe_queue_out)

lemma accounted_step:
  assumes "mail_step R s s'" and "accounted s" and seals: "\<And>x pt. seal_olm R x pt \<noteq> None"
  shows "accounted s'"
  using assms(1,2)
proof (induction rule: mail_step.induct)
  case (planned P s plan n')
  let ?pl = "\<lambda>p. (pl_contact p, pl_msg_id p)"
  obtain qs n1 where f: "fold (plan_one P) (pending_sends (room s)) ([], (room s)\<lparr>pending_sends := []\<rparr>) = (qs, n1)" by fastforce
  have "safe (?pl ` set (sending s) \<union> (\<lambda>p. (ps_contact p, ps_msg_id p)) ` set (pending_sends (room s)) \<union> ?pl ` set [])
      (chased (running s)) ((room s)\<lparr>pending_sends := []\<rparr>)"
    by (rule safe_same [OF planned(2) [unfolded accounted_def]]) (auto intro!: covers_grow simp: pair_defs)
  from safe_plan [OF f this] have "safe (?pl ` set (sending s) \<union> ?pl ` set qs) (chased (running s)) n1" .
  moreover have "n' = n1" "(case plan of None \<Rightarrow> [] | Some qs \<Rightarrow> qs) = qs"
    using planned(1) f by (auto simp: plan_pending_sends_def split: if_splits)
  ultimately show ?case by (simp add: accounted_def image_Un)
next
  case (answered s a ps b os P now)
  then have "safe ((\<lambda>p. (pl_contact p, pl_msg_id p)) ` set (a @ b) \<union> (\<lambda>p. (pl_contact p, pl_msg_id p)) ` set ps) (chased (running s)) (room s)"
    by (simp add: accounted_def image_Un Un_ac)
  from safe_outcomes [OF answered(2) this] show ?case by (simp add: accounted_def)
next
  case (taken s qs n')
  then have n': "qs = out_queue (room s)" "n' = (room s)\<lparr>out_queue := []\<rparr>" by (auto simp: take_outbox_def)
  from safe_take [OF taken(2) [unfolded accounted_def], of qs "[]"] show ?case
    by (simp add: accounted_def n' Un_commute)
next
  case (taken_own s qs n')
  then have n': "qs = filter is_caller (out_queue (room s))" "n' = (room s)\<lparr>out_queue := filter (\<lambda>o'. \<not> is_caller o') (out_queue (room s))\<rparr>"
    by (auto simp: take_caller_outbox_def)
  from safe_take [OF taken_own(2) [unfolded accounted_def], of qs "filter (\<lambda>o'. \<not> is_caller o') (out_queue (room s))"] show ?case
    by (auto simp: accounted_def n' Un_commute)
next
  case (finished s a os b fs P now)
  then have "safe ((\<lambda>p. (pl_contact p, pl_msg_id p)) ` set (sending s)) (\<Union> (chases ` fi_done ` set fs) \<union> chased (a @ b)) (room s)"
    by (simp only: accounted_def chased_mid finished_chases)
  from safe_outbound [OF this] show ?case by (simp add: accounted_def)
next
  case (received w drawn f s rep n')
  then show ?case using safe_frame by (simp add: accounted_def) blast
qed (simp_all add: accounted_def safe_send safe_attach safe_flush safe_flush_control safe_signalled safe_told safe_heard safe_sweep seals
  safe_sweep_time safe_viewed)


text \<open>
  C1. No ordinary text (burn messages are left out, \<open>tracked\<close>) is lost on its way out, while sealing succeeds. However composing, batches of sends, rounds of the outbox, retries, receipts,
  other frames and the sweeps interleave, and whatever dials and relays answer: in an open chat a text of ours that
  is "queued" waits to be sent, is on its way, is held, or has its copies on relays on record; one "waiting" or
  held for an update is in the held queue; one "sent" has its receipt waited for, or a copy on its way. No two
  messages of ours share an id.
\<close>

theorem no_text_lost:
  assumes "(mail_step R)\<^sup>*\<^sup>* s s'" and "accounted s" and "\<And>x pt. seal_olm R x pt \<noteq> None"
    and "get_conv i (room s') = Some c" and "\<not> closed c" and "m \<in> set (history c)" and "tracked m"
  shows "(delivery m = ''queued'' \<longrightarrow>
        (\<exists>p \<in> set (pending_sends (room s')). ps_contact p = i \<and> ps_msg_id p = message_id m) \<or>
        (\<exists>p \<in> set (sending s'). pl_contact p = i \<and> pl_msg_id p = message_id m) \<or>
        (\<exists>h \<in> set (held (room s')). hs_contact h = i \<and> hs_msg_id h = message_id m) \<or>
        map_of (relay_receipts c) (message_id m) \<noteq> None)
    \<and> (delivery m \<in> {''waiting'', ''update''} \<longrightarrow> (\<exists>h \<in> set (held (room s')). hs_contact h = i \<and> hs_msg_id h = message_id m))
    \<and> (delivery m = ''sent'' \<longrightarrow>
        (\<exists>a \<in> set (awaiting_receipt (room s')). aw_contact a = i \<and> aw_msg_id a = message_id m) \<or>
        (\<exists>o' a. o' \<in> set (out_queue (room s')) \<union> set (running s') \<and> ob_done o' = Done_Unconfirmed a
           \<and> aw_contact a = i \<and> aw_msg_id a = message_id m))
    \<and> (\<forall>m' \<in> set (history c). from_me m' \<and> message_id m' = message_id m \<longrightarrow> m' = m)"
proof -
  have "accounted s'"
    using assms(1)
  proof (induction rule: rtranclp_induct)
    case (step y z)
    from accounted_step [OF step(2,3) assms(3)] show ?case .
  qed (rule assms(2))
  then have l: "lone (history c)" and b: "backed ((\<lambda>p. (pl_contact p, pl_msg_id p)) ` set (sending s')) (chased (running s')) (room s') i c m"
    using assms(4-7) by (auto simp: accounted_def safe_def)
  have "delivery m = ''queued'' \<Longrightarrow>
      (\<exists>p \<in> set (pending_sends (room s')). ps_contact p = i \<and> ps_msg_id p = message_id m) \<or>
      (\<exists>p \<in> set (sending s'). pl_contact p = i \<and> pl_msg_id p = message_id m) \<or>
      (\<exists>h \<in> set (held (room s')). hs_contact h = i \<and> hs_msg_id h = message_id m) \<or>
      map_of (relay_receipts c) (message_id m) \<noteq> None"
    using b by (fastforce simp: backed_def pending_pairs_def held_pairs_def)
  moreover have "delivery m \<in> {''waiting'', ''update''} \<Longrightarrow> \<exists>h \<in> set (held (room s')). hs_contact h = i \<and> hs_msg_id h = message_id m"
    using b by (fastforce simp: backed_def held_pairs_def)
  moreover have "delivery m = ''sent'' \<Longrightarrow>
      (\<exists>a \<in> set (awaiting_receipt (room s')). aw_contact a = i \<and> aw_msg_id a = message_id m) \<or>
      (\<exists>o' a. o' \<in> set (out_queue (room s')) \<union> set (running s') \<and> ob_done o' = Done_Unconfirmed a
         \<and> aw_contact a = i \<and> aw_msg_id a = message_id m)"
    using b by (fastforce simp: backed_def clocked_def chased_def await_pair_def)
  moreover have "m' = m" if "m' \<in> set (history c)" "from_me m'" "message_id m' = message_id m" for m'
    using lone_twice [OF l that(1) assms(6), of "message_id m"] that assms(7) by (simp add: named_ours_def tracked_def)
  ultimately show ?thesis by blast
qed

section \<open>Retries\<close>

text \<open>While the clock of a contact with no relay route runs, nothing that retries by itself queues anything for them.\<close>

definition resting :: "paths \<Rightarrow> string \<Rightarrow> nat \<Rightarrow> 's office \<Rightarrow> bool" where
  "resting P i now n \<longleftrightarrow> \<not> has_relay_route P i
     \<and> (case map_of (held_backoff n) i of None \<Rightarrow> False | Some (_, next_at) \<Rightarrow> now < next_at)"

abbreviation out_to :: "string \<Rightarrow> 's office \<Rightarrow> outbound list" where
  "out_to i n \<equiv> filter (\<lambda>o'. ds_recipient (ob_send o') = i) (out_queue n)"

abbreviation relayless_to :: "string \<Rightarrow> 's office \<Rightarrow> outbound list" where
  "relayless_to i n \<equiv> filter (\<lambda>o'. ds_recipient (ob_send o') = i \<and> relayless (ob_send o')) (out_queue n)"

lemma resting_no_retry: "resting P i now n \<Longrightarrow> \<not> may_retry P i now n"
  by (auto simp: resting_def may_retry_def split: option.splits)

lemma resting_backoff: "held_backoff m = held_backoff n \<Longrightarrow> resting P i now m = resting P i now n"
  by (simp add: resting_def)

lemma held_due_resting:
  assumes "\<not> has_relay_route P i" and "\<not> may_retry P i now n"
    and "(k, r) \<in> set (held_due P now only df n (length pre) busy hs)"
  shows "hs_contact ((pre @ hs) ! k) \<noteq> i"
  using assms(3)
proof (induction hs arbitrary: pre busy)
  case (Cons h hs)
  have later: "hs_contact ((pre @ h # hs) ! k) \<noteq> i"
    if "(k, r) \<in> set (held_due P now only df n (Suc (length pre)) busy hs)" for busy
    using Cons.IH [of "pre @ [h]" busy] that by simp
  show ?case using Cons.prems later assms(1,2) by (auto split: if_splits)
qed simp

lemma send_held_others:
  assumes "\<forall>(k, r) \<in> set irs. hs_contact (held m ! k) \<noteq> i"
  shows "out_to i (fold (send_held P) irs m) = out_to i m"
  using assms
proof (induction irs arbitrary: m)
  case (Cons ir irs)
  obtain k r where ir: "ir = (k, r)" by fastforce
  have same: "hs_contact (held (send_held P ir m) ! j) = hs_contact (held m ! j)" for j
    by (cases "k < length (held m)"; simp add: send_held_def queue_out_def Let_def nth_list_update list_update_beyond ir)
  have "out_to i (send_held P ir m) = out_to i m"
    using Cons.prems by (simp add: send_held_def queue_out_def Let_def ir detach_def)
  moreover have "out_to i (fold (send_held P) irs (send_held P ir m)) = out_to i (send_held P ir m)"
    using Cons.prems by (intro Cons.IH) (auto simp: same)
  ultimately show ?case by simp
qed simp

lemma flush_held_resting:
  assumes "resting P i now n"
  shows "out_to i (flush_held_for P now only df n) = out_to i n"
proof -
  define hs where "hs = filter (\<lambda>h. open_chat (hs_contact h) n) (held n)"
  define m where "m = n\<lparr>held := hs, touched := touched n \<or> length hs \<noteq> length (held n)\<rparr>"
  have "resting P i now m" using assms by (simp add: m_def resting_def)
  then have "\<not> has_relay_route P i" "\<not> may_retry P i now m" using resting_no_retry by (auto simp: resting_def)
  from held_due_resting [OF this, where pre = "[]" and hs = hs and only = only and df = df and busy = "[]"]
  have "hs_contact (hs ! k) \<noteq> i" if "(k, r) \<in> set (held_due P now only df m 0 [] hs)" for k r
    using that by simp
  then have "\<forall>(k, r) \<in> set (held_due P now only df m 0 [] hs). hs_contact (held m ! k) \<noteq> i"
    by (auto simp: m_def simp del: held_due.simps)
  from send_held_others [OF this, of P] show ?thesis
    by (simp add: flush_held_for_def Let_def hs_def [symmetric] m_def [symmetric]) (simp add: m_def)
qed

lemma flush_control_resting:
  assumes "resting P i now n" and "distinct (map pc_frame (pending_control n))"
  shows "relayless_to i (flush_pending_control_for P now only n) = relayless_to i n"
proof -
  define allowed where "allowed p \<longleftrightarrow> \<not> pc_in_flight p \<and> (only = None \<or> only = Some (pc_recipient p))
      \<and> (\<not> relayless (detach_pending P p) \<or> may_retry P (pc_recipient p) now n)" for p
  define mark where "mark p = (if allowed p then p\<lparr>pc_in_flight := True\<rparr> else p)" for p :: held_control
  define m where "m = n\<lparr>pending_control := map mark (pending_control n)\<rparr>"
  let ?put = "\<lambda>f k. case find (\<lambda>p. pc_frame p = f) (pending_control k) of None \<Rightarrow> k
      | Some p \<Rightarrow> queue_out (detach_pending P p) RelayThenDirect (Done_Control f) k"
  have keep: "pending_control (?put f k) = pending_control k" for f and k :: "'a office"
    by (simp add: queue_out_def split: option.splits)
  have one: "relayless_to i (?put (pc_frame q) k) = relayless_to i k"
    if k: "pending_control k = map mark (pending_control n)" and q: "q \<in> set (pending_control n)" "allowed q" for q and k :: "'a office"
  proof -
    have "\<exists>p. find (\<lambda>p. pc_frame p = pc_frame q) (map mark (pending_control n)) = Some p \<and> p = mark q"
    proof (cases "find (\<lambda>p. pc_frame p = pc_frame q) (map mark (pending_control n))")
      case None
      then show ?thesis using q(1) by (auto simp: find_None_iff mark_def)
    next
      case (Some p)
      then have "p \<in> set (map mark (pending_control n))" "pc_frame p = pc_frame q" by (auto simp: find_Some_iff)
      then obtain q' where "q' \<in> set (pending_control n)" "p = mark q'" "pc_frame q' = pc_frame q"
        by (auto simp: mark_def split: if_splits)
      moreover from this(1,3) q(1) assms(2) have "q' = q" by (auto simp: distinct_map dest: inj_onD)
      ultimately show ?thesis using Some by simp
    qed
    moreover have "pc_recipient q \<noteq> i \<or> \<not> relayless (detach_pending P q)"
      using q(2) resting_no_retry [OF assms(1)] by (auto simp: allowed_def)
    ultimately show ?thesis using q(2)
      by (auto simp: k queue_out_def mark_def detach_pending_def Let_def split: prod.splits)
  qed
  have "relayless_to i (fold ?put (map pc_frame qs) k) = relayless_to i k"
    if "pending_control k = map mark (pending_control n)" "set qs \<subseteq> set (pending_control n) \<inter> Collect allowed" for qs and k :: "'a office"
    using that
  proof (induction qs arbitrary: k)
    case (Cons q qs)
    have "relayless_to i (fold ?put (map pc_frame qs) (?put (pc_frame q) k)) = relayless_to i (?put (pc_frame q) k)"
    proof (rule Cons.IH)
      show "pending_control (?put (pc_frame q) k) = map mark (pending_control n)" unfolding keep by (rule Cons.prems)
      show "set qs \<subseteq> set (pending_control n) \<inter> Collect allowed" using Cons.prems by simp
    qed
    with one [of k q] Cons.prems show ?case by simp
  qed simp
  from this [of m "filter allowed (pending_control n)"]
  have "relayless_to i (fold ?put (map pc_frame (filter allowed (pending_control n))) m) = relayless_to i n" by (auto simp: m_def)
  moreover have "flush_pending_control_for P now only n = fold ?put (map pc_frame (filter allowed (pending_control n))) m"
    by (simp add: flush_pending_control_for_def Let_def m_def mark_def [abs_def] allowed_def [abs_def])
  ultimately show ?thesis by simp
qed

lemma sweep_one_resting:
  assumes "resting P i now n"
  shows "resting P i now (snd (sweep_one P R now a (still, n))) \<and> out_to i (snd (sweep_one P R now a (still, n))) = out_to i n"
proof (cases "aw_contact a = i")
  case True
  have rest: "resting P i now (put_conv i c n)" for c using assms by (simp add: resting_def put_conv_def)
  have shut: "\<not> may_retry P i now (put_conv i c n)" "\<not> has_relay_route P i" "out_queue (put_conv i c n) = out_queue n" for c
    using resting_no_retry [OF rest] assms by (simp_all add: resting_def put_conv_def)
  show ?thesis using True assms rest shut
    by (auto simp: sweep_one_def Let_def split: option.splits)
next
  case False
  with assms show ?thesis
    by (auto simp: sweep_one_def Let_def resting_def put_conv_def queue_out_def detach_def split: option.splits prod.splits)
qed

lemma sweep_resting:
  assumes "resting P i now n"
  shows "out_to i (sweep_unconfirmed P R now n) = out_to i n"
proof -
  have "out_to i (snd (fold (sweep_one P R now) as (still, m))) = out_to i m" if "resting P i now m" for as still and m :: "'a office"
    using that
  proof (induction as arbitrary: still m)
    case (Cons a as)
    obtain st k where k: "sweep_one P R now a (still, m) = (st, k)" by fastforce
    with sweep_one_resting [OF Cons.prems, of R a still] Cons.IH [of k st] show ?case by simp
  qed simp
  from this [of "n\<lparr>awaiting_receipt := []\<rparr>" "awaiting_receipt n" "[]"] assms show ?thesis
    by (simp add: sweep_unconfirmed_def resting_def case_prod_beta)
qed

text \<open>
  C34. The retry clock of a contact with no relay route. However many tries have failed before, the next waits
  60 seconds, then 120 and so on, doubling up to five minutes, a quarter of an hour in the background. Until it has
  run, none of what retries by itself reaches for the contact: the held queue and the receipt clock queue nothing
  for them at all, the held control frames nothing without a relay of its own. (A message composed meanwhile is
  still tried at once.)
\<close>

theorem retry_delays:
  assumes "map_of (held_backoff n) i = None" and "\<not> has_relay_route P i" and "length ts = k"
    and "n' = held_retry_failed i now (fold (held_retry_failed i) ts n)"
  shows "map_of (held_backoff n') i
         = (let delay = min (60 * 2 ^ k) (if background n then 900 else 300) in Some (delay, now + delay))
    \<and> (may_retry P i t n' \<longrightarrow> now + min (60 * 2 ^ k) (if background n then 900 else 300) \<le> t)
    \<and> (t < now + min (60 * 2 ^ k) (if background n then 900 else 300) \<longrightarrow>
         out_to i (flush_held_for P t only df n') = out_to i n' \<and> out_to i (sweep_unconfirmed P R t n') = out_to i n'
       \<and> (distinct (map pc_frame (pending_control n')) \<longrightarrow> relayless_to i (flush_pending_control_for P t only n') = relayless_to i n'))"
proof -
  define cap :: nat where "cap = (if background n then 900 else 300)"
  have bg: "background (held_retry_failed j u m) = background m" for j u m
    by (simp add: held_retry_failed_def Let_def)
  have one: "map_of (held_backoff (held_retry_failed i u m)) i
      = (let delay = (case map_of (held_backoff m) i of Some (d, _) \<Rightarrow> min (d * 2) cap | None \<Rightarrow> 60) in Some (delay, u + delay))"
    if "background m = background n" for u m
    using that by (simp add: held_retry_failed_def Let_def update_conv cap_def HELD_RETRY_FIRST_SECS_def
        HELD_RETRY_CAP_BACKGROUND_SECS_def HELD_RETRY_CAP_OPEN_SECS_def split: option.splits)
  have cap: "60 \<le> cap" by (simp add: cap_def)
  have fold_bg: "background (fold (held_retry_failed i) us n) = background n" for us
    by (induction us rule: rev_induct) (simp_all add: bg)
  have main: "map_of (held_backoff (held_retry_failed i u (fold (held_retry_failed i) us n))) i
      = Some (min (60 * 2 ^ length us) cap, u + min (60 * 2 ^ length us) cap)" for u us
  proof (induction us arbitrary: u rule: rev_induct)
    case Nil
    show ?case using one [of n u] assms(1) cap by (simp add: Let_def min_def)
  next
    case (snoc v us)
    have "min (min (60 * 2 ^ length us) cap * 2) cap = min (60 * 2 ^ Suc (length us)) cap" by (simp add: min_def)
    then show ?case
      using one [of "held_retry_failed i v (fold (held_retry_failed i) us n)" u] snoc.IH [of v] fold_bg
      by (simp add: bg Let_def)
  qed
  have "map_of (held_backoff n') i
       = (let delay = min (60 * 2 ^ k) (if background n then 900 else 300) in Some (delay, now + delay))"
    using main [of now ts] assms(3,4) by (simp add: cap_def Let_def)
  moreover from this have "resting P i t n'" if "t < now + min (60 * 2 ^ k) (if background n then 900 else 300)"
    using assms(2) that by (simp add: resting_def Let_def)
  moreover have "now + min (60 * 2 ^ k) (if background n then 900 else 300) \<le> t" if "may_retry P i t n'"
    using calculation(1) assms(2) that by (simp add: may_retry_def Let_def)
  ultimately show ?thesis using flush_held_resting sweep_resting flush_control_resting by blast
qed

text \<open>
  C4. What the receipt clock sends again: only a text that is still there, ours, handed over and unconfirmed for half
  a minute or more, in an open chat, under its own id and with its present text; never a burn message.
\<close>

theorem only_unconfirmed_texts_again:
  assumes "o' \<in> set (out_queue (sweep_unconfirmed P R now n)) - set (out_queue n)"
  shows "\<exists>a c m ses w ses'. a \<in> set (awaiting_receipt n) \<and> 30 \<le> now - aw_since a \<and> ob_done o' = Done_Unconfirmed a
     \<and> get_conv (aw_contact a) n = Some c \<and> \<not> closed c
     \<and> m \<in> set (history c) \<and> from_me m \<and> burn_secs m = 0 \<and> delivery m = ''sent'' \<and> message_id m = aw_msg_id a
     \<and> ds_recipient (ob_send o') = aw_contact a \<and> ds_frame (ob_send o') = Message (my_id n) (message_id m) w
     \<and> seal_olm R ses (text_bytes (msg_text m)) = Some (w, ses')"
proof -
  define good :: "outbound \<Rightarrow> bool" where "good o' \<longleftrightarrow> (\<exists>a c m ses w ses'. a \<in> set (awaiting_receipt n) \<and> 30 \<le> now - aw_since a \<and> ob_done o' = Done_Unconfirmed a
     \<and> get_conv (aw_contact a) n = Some c \<and> \<not> closed c
     \<and> m \<in> set (history c) \<and> from_me m \<and> burn_secs m = 0 \<and> delivery m = ''sent'' \<and> message_id m = aw_msg_id a
     \<and> ds_recipient (ob_send o') = aw_contact a \<and> ds_frame (ob_send o') = Message (my_id n) (message_id m) w
     \<and> seal_olm R ses (text_bytes (msg_text m)) = Some (w, ses'))" for o' :: outbound
  define kept where "kept n1 \<longleftrightarrow> my_id n1 = my_id n \<and> set (out_queue n1) \<subseteq> set (out_queue n) \<union> {o'. good o'} \<and>
     (\<forall>i. map_option (\<lambda>c. (history c, closed c)) (get_conv i n1) = map_option (\<lambda>c. (history c, closed c)) (get_conv i n))" for n1 :: "'a office"
  have step: "kept (snd (sweep_one P R now a (still, n1)))" if n1: "kept n1" and a: "a \<in> set (awaiting_receipt n)" for a still n1
  proof -
    obtain still' n' where run: "sweep_one P R now a (still, n1) = (still', n')" by fastforce
    show ?thesis
      using run
    proof (cases rule: sweep_one_cases)
      case (again c1 m w ses d r)
      from n1 have "map_option (\<lambda>c. (history c, closed c)) (get_conv (aw_contact a) n1) = map_option (\<lambda>c. (history c, closed c)) (get_conv (aw_contact a) n)"
        unfolding kept_def by blast
      with again(2) obtain c where c: "get_conv (aw_contact a) n = Some c" "history c = history c1" "closed c = closed c1"
        by (cases "get_conv (aw_contact a) n") auto
      have mm: "m \<in> set (history c)" "from_me m" "message_id m = aw_msg_id a" "delivery m = ''sent''" "burn_secs m = 0"
        using again(4) c(2) by (auto simp: find_Some_iff unconfirmed_message_def)
      let ?n2 = "put_conv (aw_contact a) (c1\<lparr>session := ses\<rparr>) n1"
      have n2: "kept ?n2" using n1 again(2) c by (auto simp: kept_def)
      have "my_id n1 = my_id n" using n1 by (simp add: kept_def)
      then have "good \<lparr>ob_send = d, ob_route = r, ob_done = Done_Unconfirmed a\<rparr>"
        unfolding good_def using a again(1,3,5,6,7) c mm
        by (intro exI [of _ a] exI [of _ c] exI [of _ m]) (auto simp: RECEIPT_TIMEOUT_def)
      with n2 have "kept (queue_out d r (Done_Unconfirmed a) ?n2)" by (auto simp: kept_def queue_out_def)
      with n2 again(8) run show ?thesis by auto
    qed (use n1 run in simp_all)
  qed
  have "kept (snd (fold (sweep_one P R now) as (still, n1)))" if "kept n1" "set as \<subseteq> set (awaiting_receipt n)" for as still n1
    using that
  proof (induction as arbitrary: still n1)
    case (Cons a as)
    then have "kept (snd (sweep_one P R now a (still, n1)))" by (intro step) auto
    with Cons.IH [of "snd (sweep_one P R now a (still, n1))" "fst (sweep_one P R now a (still, n1))"] Cons.prems show ?case by simp
  qed simp
  from this [of "n\<lparr>awaiting_receipt := []\<rparr>" "awaiting_receipt n" "[]"]
  have "kept (snd (fold (sweep_one P R now) (awaiting_receipt n) ([], n\<lparr>awaiting_receipt := []\<rparr>)))"
    by (simp add: kept_def)
  then have "set (out_queue (sweep_unconfirmed P R now n)) \<subseteq> set (out_queue n) \<union> {o'. good o'}"
    by (simp add: sweep_unconfirmed_def kept_def case_prod_unfold Let_def)
  with assms show ?thesis unfolding good_def by blast
qed


text \<open>
  C33. The held queue of a contact with no relay route: a retry sends at most one frame to them, the oldest held, over
  a direct connection only, and none while that one is on its way or the clock or an update holds it back; the
  frames behind it keep their places.
\<close>

theorem oldest_held_goes_alone:
  assumes "\<not> has_relay_route P i"
  shows "map (\<lambda>o'. (ds_frame (ob_send o'), ob_route o')) (filter (\<lambda>o'. ds_recipient (ob_send o') = i) (out_queue (flush_held_for P now only df n)))
    = map (\<lambda>o'. (ds_frame (ob_send o'), ob_route o')) (filter (\<lambda>o'. ds_recipient (ob_send o') = i) (out_queue n))
      @ (case filter (\<lambda>h. hs_contact h = i) (if open_chat i n then held n else []) of
           [] \<Rightarrow> []
         | h # _ \<Rightarrow> if (only = None \<or> only = Some i) \<and> \<not> peer_outdated i n \<and> \<not> hs_in_flight h \<and> may_retry P i now n
                    then [(hs_frame h, DirectThenRelay)] else [])"
proof -
  define kept where "kept = filter (\<lambda>h. open_chat (hs_contact h) n) (held n)"
  let ?n = "n\<lparr>held := kept, touched := touched n \<or> length kept \<noteq> length (held n)\<rparr>"
  let ?view = "\<lambda>os. map (\<lambda>o'. (ds_frame (ob_send o'), ob_route o')) (filter (\<lambda>o'. ds_recipient (ob_send o') = i) os)"
  have outdated: "peer_outdated j ?n = peer_outdated j n" and retry: "may_retry P j now ?n = may_retry P j now n" for j
    by (simp_all add: peer_outdated_def may_retry_def)
  have sent: "?view (out_queue (fold (send_held P) irs m))
      = ?view (out_queue m) @ map (\<lambda>(k, r). (hs_frame (held m ! k), r)) (filter (\<lambda>(k, r). hs_contact (held m ! k) = i) irs)"
    for irs and m :: "'a office"
  proof (induction irs arbitrary: m)
    case (Cons ir irs)
    obtain k r where ir: "ir = (k, r)" by fastforce
    have same: "hs_contact (held (send_held P ir m) ! j) = hs_contact (held m ! j)" "hs_frame (held (send_held P ir m) ! j) = hs_frame (held m ! j)" for j
      by (cases "k < length (held m)"; simp add: send_held_def queue_out_def Let_def nth_list_update list_update_beyond ir)+
    have "out_queue (send_held P ir m) = out_queue m @ [\<lparr>ob_send = detach P (case get_conv (hs_contact (held m ! k)) m of None \<Rightarrow> [] | Some c \<Rightarrow> peer_address c)
        (hs_contact (held m ! k)) (hs_frame (held m ! k)) True, ob_route = r, ob_done = Done_Held (hs_frame (held m ! k))\<rparr>]"
      by (simp add: send_held_def queue_out_def Let_def ir)
    with Cons [of "send_held P ir m"] show ?case by (simp add: same [unfolded ir] ir detach_def)
  qed simp
  have due: "map (\<lambda>(k, r). (hs_frame (all ! k), r)) (filter (\<lambda>(k, r). hs_contact (all ! k) = i) (held_due P now only df n k busy hs))
      = (if i \<in> set busy then [] else case filter (\<lambda>h. hs_contact h = i) hs of [] \<Rightarrow> []
         | h # _ \<Rightarrow> if (only = None \<or> only = Some i) \<and> \<not> peer_outdated i n \<and> \<not> hs_in_flight h \<and> may_retry P i now n
                    then [(hs_frame h, DirectThenRelay)] else [])"
    if "all = pre @ hs" "length pre = k" for all pre hs k busy
    using that
  proof (induction hs arbitrary: pre k busy)
    case (Cons h hs)
    have h: "all ! k = h" using Cons.prems nth_append_length [of pre h hs] by simp
    have IH: "map (\<lambda>(k, r). (hs_frame (all ! k), r)) (filter (\<lambda>(k, r). hs_contact (all ! k) = i) (held_due P now only df n (Suc k) busy hs))
      = (if i \<in> set busy then [] else case filter (\<lambda>h. hs_contact h = i) hs of [] \<Rightarrow> []
         | h # _ \<Rightarrow> if (only = None \<or> only = Some i) \<and> \<not> peer_outdated i n \<and> \<not> hs_in_flight h \<and> may_retry P i now n
                    then [(hs_frame h, DirectThenRelay)] else [])" for busy
      using Cons.IH [of "pre @ [h]" "Suc k" busy] Cons.prems by simp
    show ?case
    proof (cases "hs_contact h = i")
      case True
      show ?thesis
      proof (cases "only \<noteq> None \<and> only \<noteq> Some i \<or> peer_outdated i n")
        case skipped: True
        have "(case filter (\<lambda>h. hs_contact h = i) hs of [] \<Rightarrow> []
         | h # _ \<Rightarrow> if (only = None \<or> only = Some i) \<and> \<not> peer_outdated i n \<and> \<not> hs_in_flight h \<and> may_retry P i now n
                    then [(hs_frame h, DirectThenRelay)] else []) = []"
          using skipped by (auto split: list.splits)
        with True skipped IH [of busy] show ?thesis by auto
      next
        case False
        have none: "filter (\<lambda>(k, r). hs_contact (all ! k) = i) (held_due P now only df n (Suc k) busy hs) = []" if "i \<in> set busy" for busy
          using IH [of busy] that by simp
        show ?thesis
          using False True assms h none [of busy] none [of "i # busy"] by (cases "i \<in> set busy") auto
      qed
    next
      case False
      let ?F = "filter (\<lambda>(k, r). hs_contact (all ! k) = i)"
      have "?F (held_due P now only df n k busy (h # hs)) \<in>
          {?F (held_due P now only df n (Suc k) busy hs), ?F (held_due P now only df n (Suc k) (hs_contact h # busy) hs)}"
        using False h by simp
      then have "map (\<lambda>(k, r). (hs_frame (all ! k), r)) (?F (held_due P now only df n k busy (h # hs)))
          = map (\<lambda>(k, r). (hs_frame (all ! k), r)) (?F (held_due P now only df n (Suc k) busy hs))"
        using IH [of busy] IH [of "hs_contact h # busy"] False by (elim insertE emptyE) simp_all
      then show ?thesis unfolding IH using False by simp
    qed
  qed simp
  have due_n: "held_due P now only df ?n k busy hs = held_due P now only df n k busy hs" for k busy hs
    by (induction hs arbitrary: k busy) (simp_all only: held_due.simps outdated retry)
  have first: "filter (\<lambda>h. hs_contact h = i) kept = filter (\<lambda>h. hs_contact h = i) (if open_chat i n then held n else [])"
    by (auto simp: kept_def filter_empty_conv intro!: filter_cong)
  have "flush_held_for P now only df n = fold (send_held P) (held_due P now only df ?n 0 [] kept) ?n"
    by (simp add: flush_held_for_def kept_def Let_def)
  with sent [of "held_due P now only df ?n 0 [] kept" ?n] due [of kept "[]" kept 0 "[]"] show ?thesis
    by (simp add: due_n first)
qed


section \<open>Concrete runs\<close>

definition quiet_traffic :: "nat traffic" where
  "quiet_traffic = \<lparr>room = quiet_room, running = [], sending = []\<rparr>"

definition no_relays :: paths where
  "no_relays = \<lparr>route_of = (\<lambda>_. (None, [])), set_route = (\<lambda>_. (None, [])), handle_of = (\<lambda>_. ''bobs'')\<rparr>"

lemma quiet_accounted: "accounted quiet_traffic"
  by (auto simp: accounted_def quiet_traffic_def safe_def quiet_room_def get_conv_def lone_def split: if_splits)

lemma plain_olm_seals: "seal_olm plain_olm x pt \<noteq> None"
  by (simp add: plain_olm_def)

definition first_text :: chat_message where
  "first_text = (text_message 900 True ''hi'' ''a7'')\<lparr>delivery := ''queued''\<rparr>"

definition sent_room :: "nat office" where
  "sent_room = snd (send_inner plain_olm 900 ''a7'' ''bob'' ''hi'' 0 quiet_room)"

lemma sent_room_bob: "get_conv ''bob'' sent_room = Some (sample_chat\<lparr>history := [first_text]\<rparr>)"
  by (simp add: sent_room_def send_inner_def MAX_TEXT_BYTES_def may_send_def sample_chat_def awaiting_approval_def plain_olm_def
      push_message_def first_text_def text_message_def)

theorem no_text_lost_witness:
  "first_text \<in> set (history (sample_chat\<lparr>history := [first_text]\<rparr>)) \<and> delivery first_text = ''queued'' \<and>
   (\<exists>p \<in> set (pending_sends sent_room). ps_contact p = ''bob'' \<and> ps_msg_id p = ''a7'')"
proof -
  have "mail_step plain_olm quiet_traffic (quiet_traffic\<lparr>room := snd (send_inner plain_olm 900 ''a7'' ''bob'' ''hi'' 0 (room quiet_traffic))\<rparr>)"
    by (rule mail_step.composed) (auto simp: fresh_id_def quiet_traffic_def)
  then have run: "(mail_step plain_olm)\<^sup>*\<^sup>* quiet_traffic (quiet_traffic\<lparr>room := sent_room\<rparr>)"
    by (intro r_into_rtranclp) (simp add: sent_room_def quiet_traffic_def)
  have c: "get_conv ''bob'' (room (quiet_traffic\<lparr>room := sent_room\<rparr>)) = Some (sample_chat\<lparr>history := [first_text]\<rparr>)"
    by (simp add: sent_room_bob)
  have t: "tracked first_text" "delivery first_text = ''queued''" "message_id first_text = ''a7''"
    by (simp_all add: tracked_def first_text_def text_message_def)
  have "held quiet_room = []" by (simp add: quiet_room_def)
  then have rest: "sending (quiet_traffic\<lparr>room := sent_room\<rparr>) = []" "held sent_room = []"
    by (simp_all add: quiet_traffic_def sent_room_def send_inner_def MAX_TEXT_BYTES_def may_send_def sample_chat_def awaiting_approval_def
        plain_olm_def push_message_def)
  show ?thesis
    using no_text_lost [OF run quiet_accounted plain_olm_seals c _ _ t(1)] t rest by (auto simp: sample_chat_def)
qed

definition unlucky_room :: "nat office" where
  "unlucky_room = quiet_room\<lparr>held := [\<lparr>hs_contact = ''bob'', hs_msg_id = ''a1'', hs_frame = Message ''me'' ''a1'' (sealed_as ''a1''), hs_in_flight = False\<rparr>]\<rparr>"

theorem retry_delays_witness:
  "let failed = held_retry_failed ''bob'' 1000 (fold (held_retry_failed ''bob'') [10, 100, 300] unlucky_room)
   in map_of (held_backoff failed) ''bob'' = Some (300, 1300) \<and> \<not> may_retry no_relays ''bob'' 1299 failed
    \<and> out_to ''bob'' (flush_held_for no_relays 1299 None True failed) = out_to ''bob'' failed
    \<and> relayless_to ''bob'' (flush_pending_control_for no_relays 1299 None failed) = relayless_to ''bob'' failed"
proof -
  define failed where "failed = held_retry_failed ''bob'' 1000 (fold (held_retry_failed ''bob'') [10, 100, 300] unlucky_room)"
  have "map_of (held_backoff unlucky_room) ''bob'' = None" "\<not> has_relay_route no_relays ''bob''"
    by (simp_all add: unlucky_room_def quiet_room_def has_relay_route_def no_relays_def)
  note r = retry_delays [OF this refl failed_def, where t = 1299 and only = None and df = True and R = plain_olm]
  have "\<not> background unlucky_room" by (simp add: unlucky_room_def quiet_room_def)
  moreover have "pending_control failed = []"
    by (simp add: failed_def held_retry_failed_def Let_def unlucky_room_def quiet_room_def)
  ultimately have "map_of (held_backoff failed) ''bob'' = Some (300, 1300) \<and> \<not> may_retry no_relays ''bob'' 1299 failed
    \<and> out_to ''bob'' (flush_held_for no_relays 1299 None True failed) = out_to ''bob'' failed
    \<and> relayless_to ''bob'' (flush_pending_control_for no_relays 1299 None failed) = relayless_to ''bob'' failed"
    using r by (simp add: Let_def)
  then show ?thesis unfolding Let_def failed_def .
qed

definition waiting_room :: "nat office" where
  "waiting_room = quiet_room\<lparr>convs := [(''bob'', sample_chat)],
     awaiting_receipt := [\<lparr>aw_contact = ''bob'', aw_msg_id = ''a1'', aw_since = 50\<rparr>]\<rparr>"

theorem only_unconfirmed_texts_again_witness:
  "\<exists>o' \<in> set (out_queue (sweep_unconfirmed no_relays plain_olm 90 waiting_room)). \<exists>a c m ses w ses'. a \<in> set (awaiting_receipt waiting_room)
     \<and> 30 \<le> 90 - aw_since a \<and> ob_done o' = Done_Unconfirmed a
     \<and> get_conv (aw_contact a) waiting_room = Some c \<and> \<not> closed c
     \<and> m \<in> set (history c) \<and> from_me m \<and> burn_secs m = 0 \<and> delivery m = ''sent'' \<and> message_id m = aw_msg_id a
     \<and> ds_recipient (ob_send o') = aw_contact a \<and> ds_frame (ob_send o') = Message (my_id waiting_room) (message_id m) w
     \<and> seal_olm plain_olm ses (text_bytes (msg_text m)) = Some (w, ses')"
proof -
  have bob: "get_conv ''bob'' waiting_room = Some sample_chat" by (simp add: waiting_room_def get_conv_def)
  have "out_queue waiting_room = []" "out_queue (sweep_unconfirmed no_relays plain_olm 90 waiting_room) \<noteq> []"
    using bob by (simp_all add: waiting_room_def quiet_room_def sweep_unconfirmed_def sweep_one_def RECEIPT_TIMEOUT_def Let_def
        sample_chat_def unconfirmed_message_def text_message_def plain_olm_def has_relay_route_def no_relays_def may_retry_def
        peer_outdated_def outdated_def queue_out_def put_conv_def get_conv_def)
  then obtain o' where "o' \<in> set (out_queue (sweep_unconfirmed no_relays plain_olm 90 waiting_room)) - set (out_queue waiting_room)"
    by (metis Diff_empty list.set(1) list.set_intros(1) neq_Nil_conv)
  from only_unconfirmed_texts_again [OF this] this show ?thesis by blast
qed

definition held_room :: "nat office" where
  "held_room = quiet_room\<lparr>held := map (\<lambda>i. \<lparr>hs_contact = ''bob'', hs_msg_id = i, hs_frame = Message ''me'' i (sealed_as i), hs_in_flight = False\<rparr>) [''a1'', ''a2'']\<rparr>"

theorem oldest_held_goes_alone_witness:
  "map (\<lambda>o'. (ds_frame (ob_send o'), ob_route o')) (filter (\<lambda>o'. ds_recipient (ob_send o') = ''bob'') (out_queue (flush_held_for no_relays 90 None False held_room)))
   = [(Message ''me'' ''a1'' (sealed_as ''a1''), DirectThenRelay)]"
proof -
  have "\<not> has_relay_route no_relays ''bob''" by (simp add: has_relay_route_def no_relays_def)
  from oldest_held_goes_alone [OF this, of 90 None False held_room] show ?thesis
    by (simp add: held_room_def quiet_room_def open_chat_def get_conv_def sample_chat_def peer_outdated_def outdated_def may_retry_def
        has_relay_route_def no_relays_def)
qed

end
