(* ===== verification/HeldDrain.thy ===== *)
theory HeldDrain
  imports OutboxSafe
begin

text \<open>
  The held queue empties: a contact without relays whose device answers gets every frame held for them, oldest first,
  each as soon as the one before it landed.
\<close>

definition dial_round :: "paths \<Rightarrow> nat \<Rightarrow> 's office \<Rightarrow> frame list \<times> 's office" where
  "dial_round P now n =
     (let (qs, n) = take_outbox n
      in (map (\<lambda>o'. ds_frame (ob_send o')) qs, snd (apply_outbound P now (map (run_outbound True None) qs) n)))"

fun dial_rounds :: "paths \<Rightarrow> nat \<Rightarrow> nat \<Rightarrow> 's office \<Rightarrow> frame list \<times> 's office" where
  "dial_rounds P now 0 n = ([], n)"
| "dial_rounds P now (Suc k) n =
     (let (fs, n) = dial_round P now n; (gs, n) = dial_rounds P now k n in (fs @ gs, n))"

definition reachable_peer :: "paths \<Rightarrow> string \<Rightarrow> 's office \<Rightarrow> bool" where
  "reachable_peer P i n \<longleftrightarrow> \<not> has_relay_route P i \<and>
     (\<exists>c. get_conv i n = Some c \<and> \<not> closed c \<and> \<not> outdated c \<and> peer_address c \<noteq> [])"

lemma held_chat_peer [simp]: "outdated (held_chat h dl c) = outdated c" "peer_address (held_chat h dl c) = peer_address c"
  by (auto simp: held_chat_def Let_def outdated_def keep_copies_def split: delivery.splits)

text \<open>A retry with everything held for one reachable contact, and nothing on its way: the head goes.\<close>

lemma flush_head:
  assumes up: "reachable_peer P i n" and held: "held n = hs" "list_all (\<lambda>h. hs_contact h = i \<and> \<not> hs_in_flight h) hs"
    and due: "may_retry P i now n" "out_queue n = []" "only = None \<or> only = Some i"
  shows "\<exists>n' d. flush_held_for P now only df n = n' \<and> convs n' = convs n \<and> awaiting_receipt n' = awaiting_receipt n \<and>
    (case hs of [] \<Rightarrow> held n' = [] \<and> out_queue n' = []
     | h # rest \<Rightarrow> held n' = h\<lparr>hs_in_flight := True\<rparr> # rest \<and> ds_address d \<noteq> [] \<and> ds_recipient d = i \<and> ds_frame d = hs_frame h
         \<and> out_queue n' = [\<lparr>ob_send = d, ob_route = DirectThenRelay, ob_done = Done_Held (hs_frame h)\<rparr>])"
proof -
  obtain c where c: "get_conv i n = Some c" "\<not> closed c" "\<not> outdated c" "peer_address c \<noteq> []" and route: "\<not> has_relay_route P i"
    using up by (auto simp: reachable_peer_def)
  have kept: "filter (\<lambda>h. open_chat (hs_contact h) n) (held n) = hs"
    using held c by (auto simp: open_chat_def list_all_iff filter_id_conv)
  let ?n = "n\<lparr>held := hs, touched := touched n \<or> length hs \<noteq> length (held n)\<rparr>"
  have fresh: "may_retry P i now ?n" "\<not> peer_outdated i ?n" using due(1) c by (simp_all add: may_retry_def peer_outdated_def)
  have rest: "held_due P now only df ?n k busy xs = []"
    if "list_all (\<lambda>h. hs_contact h = i) xs" "i \<in> set busy" for k busy xs
    using that route due(3) by (induction xs arbitrary: k) (auto simp: fresh)
  have flush: "flush_held_for P now only df n = fold (send_held P) (held_due P now only df ?n 0 [] hs) ?n"
    by (simp add: flush_held_for_def kept Let_def)
  show ?thesis
  proof (cases hs)
    case Nil
    then show ?thesis using due(2) flush by simp
  next
    case (Cons h rest_hs)
    then have h: "hs_contact h = i" "\<not> hs_in_flight h" and rest_hs: "list_all (\<lambda>h. hs_contact h = i) rest_hs"
      using held(2) by (auto simp: list_all_iff)
    have "held_due P now only df ?n 0 [] (h # rest_hs) = [(0, DirectThenRelay)]"
      using route due(3) fresh h rest [OF rest_hs, of "[i]"] by auto
    with flush Cons have "flush_held_for P now only df n = send_held P (0, DirectThenRelay) ?n" by simp
    then show ?thesis
      using Cons h c due(2)
      by (intro exI [of _ "flush_held_for P now only df n"] exI [of _ "detach P (peer_address c) i (hs_frame h) True"])
        (simp add: send_held_def queue_out_def Let_def detach_def)
  qed
qed

lemma retry_after_reach: "may_retry P i now n \<Longrightarrow> may_retry P i now (note_reach now f n)" if "fi_delivery f = Direct" "fi_recipient f = i"
  using that by (auto simp: may_retry_def note_reach_def peer_outdated_def delete_conv split: option.splits)

text \<open>One round with the head on its way: it lands, its receipt is waited for, the next one goes.\<close>

lemma dial_round_head:
  assumes up: "reachable_peer P i n" and held: "held n = h\<lparr>hs_in_flight := True\<rparr> # hs" "list_all (\<lambda>h. hs_contact h = i \<and> \<not> hs_in_flight h) (h # hs)"
    and out: "out_queue n = [\<lparr>ob_send = d, ob_route = DirectThenRelay, ob_done = Done_Held (hs_frame h)\<rparr>]"
      "ds_address d \<noteq> []" "ds_recipient d = i" "ds_frame d = hs_frame h"
    and due: "may_retry P i now n"
  shows "\<exists>n2. dial_round P now n = ([hs_frame h], flush_held_for P now (Some i) True n2) \<and> reachable_peer P i n2 \<and>
     held n2 = hs \<and> out_queue n2 = [] \<and> may_retry P i now n2 \<and>
     set (awaiting_receipt n) \<subseteq> set (awaiting_receipt n2) \<and>
     (hs_msg_id h \<noteq> [] \<longrightarrow> (i, hs_msg_id h) \<in> await_pair ` set (awaiting_receipt n2))"
proof -
  obtain c where c: "get_conv i n = Some c" "\<not> closed c" "\<not> outdated c" "peer_address c \<noteq> []" and route: "\<not> has_relay_route P i"
    using up by (auto simp: reachable_peer_def)
  have hi: "hs_contact h = i" using held(2) by simp
  let ?f = "\<lparr>fi_done = Done_Held (hs_frame h), fi_delivery = Direct, fi_recipient = i, fi_frame = hs_frame h, fi_relayless = relayless d\<rparr>"
  let ?h = "h\<lparr>hs_in_flight := True\<rparr>"
  have run: "run_outbound True None \<lparr>ob_send = d, ob_route = DirectThenRelay, ob_done = Done_Held (hs_frame h)\<rparr> = ?f"
    using out by (simp add: run_outbound_def finish_with_def run_send_def Let_def)
  define n0 where "n0 = n\<lparr>out_queue := []\<rparr>"
  define n1 where "n1 = note_reach now ?f n0"
  define n2 where "n2 = (if hs_msg_id h = [] then put_conv i (held_chat ?h Direct c) (n1\<lparr>held := hs, touched := True\<rparr>)
     else await_receipt now i (hs_msg_id h) (put_conv i (held_chat ?h Direct c) (n1\<lparr>held := hs, touched := True\<rparr>)))"
  have n0: "may_retry P i now n0" using due by (simp add: n0_def may_retry_def peer_outdated_def)
  then have n1: "may_retry P i now n1" "held n1 = held n" "out_queue n1 = []" "get_conv i n1 = Some c" "awaiting_receipt n1 = awaiting_receipt n"
    using retry_after_reach [of ?f i P now n0] c(1) by (simp_all add: n1_def note_reach_def n0_def)
  have same: "hold_one_off ?f n1 = n1" by (simp add: hold_one_off_def)
  have "snd (held_done P now (hs_frame h) Direct n1) = flush_held_for P now (Some i) True n2"
    unfolding n2_def using n1(2,4) held(1) hi by (simp add: held_done_def Let_def)
  moreover have "dial_round P now n = ([hs_frame h], snd (settle P now ?f n0))"
    using out run by (simp add: dial_round_def take_outbox_def apply_outbound_def n0_def case_prod_unfold Let_def)
  ultimately have "dial_round P now n = ([hs_frame h], flush_held_for P now (Some i) True n2)"
    by (simp add: settle_def n1_def [symmetric] same Let_def)
  moreover have g: "get_conv i n2 = Some (held_chat ?h Direct c)" by (simp add: n2_def await_receipt_def)
  moreover have "reachable_peer P i n2" using g c route by (simp add: reachable_peer_def)
  moreover have "held n2 = hs" "out_queue n2 = []" using n1(3) by (simp_all add: n2_def await_receipt_def)
  moreover have "may_retry P i now n2"
    using n1(1,4) g c(3) by (simp add: may_retry_def peer_outdated_def) (simp add: n2_def await_receipt_def)
  moreover have "set (awaiting_receipt n) \<subseteq> set (awaiting_receipt n2)" "hs_msg_id h \<noteq> [] \<longrightarrow> (i, hs_msg_id h) \<in> await_pair ` set (awaiting_receipt n2)"
    using n1(5) by (auto simp: n2_def await_receipt_def await_pair_def)
  ultimately show ?thesis by blast
qed

lemma drain_rounds:
  assumes "reachable_peer P i n" and "held n = hs" and "list_all (\<lambda>h. hs_contact h = i \<and> \<not> hs_in_flight h) hs"
    and "may_retry P i now n" and "out_queue n = []" and "only = None \<or> only = Some i"
  shows "\<exists>n'. dial_rounds P now (length hs) (flush_held_for P now only df n) = (map hs_frame hs, n') \<and> held n' = [] \<and> out_queue n' = []
    \<and> await_pair ` set (awaiting_receipt n) \<union> {(i, hs_msg_id h) | h. h \<in> set hs \<and> hs_msg_id h \<noteq> []} \<subseteq> await_pair ` set (awaiting_receipt n')"
  using assms
proof (induction hs arbitrary: n only df)
  case Nil
  with flush_head [of P i n "[]" now only df] show ?case by auto
next
  case (Cons h hs)
  obtain n1 d where n1: "flush_held_for P now only df n = n1" "convs n1 = convs n" "awaiting_receipt n1 = awaiting_receipt n"
    "held n1 = h\<lparr>hs_in_flight := True\<rparr> # hs" "ds_address d \<noteq> []" "ds_recipient d = i" "ds_frame d = hs_frame h"
    "out_queue n1 = [\<lparr>ob_send = d, ob_route = DirectThenRelay, ob_done = Done_Held (hs_frame h)\<rparr>]"
    using flush_head [OF Cons.prems, of df] by auto
  have up: "reachable_peer P i n1" using Cons.prems(1) n1(2) by (simp add: reachable_peer_def get_conv_def)
  have "held_backoff n1 = held_backoff n"
  proof -
    have "held_backoff (fold (send_held P) irs m) = held_backoff m" for irs and m :: "'a office"
      by (induction irs arbitrary: m) (simp_all add: send_held_def queue_out_def Let_def)
    then show ?thesis using n1(1) by (auto simp: flush_held_for_def Let_def)
  qed
  then have due: "may_retry P i now n1" using Cons.prems(4) n1(2) by (simp add: may_retry_def peer_outdated_def get_conv_def)
  from dial_round_head [OF up n1(4) Cons.prems(3) n1(8,5-7) due] obtain n2 where
      r: "dial_round P now n1 = ([hs_frame h], flush_held_for P now (Some i) True n2)" and n2: "reachable_peer P i n2"
      "held n2 = hs" "out_queue n2 = []" "may_retry P i now n2" "set (awaiting_receipt n1) \<subseteq> set (awaiting_receipt n2)"
      "hs_msg_id h \<noteq> [] \<longrightarrow> (i, hs_msg_id h) \<in> await_pair ` set (awaiting_receipt n2)" by blast
  from Cons.prems(3) have "list_all (\<lambda>h. hs_contact h = i \<and> \<not> hs_in_flight h) hs" by simp
  from Cons.IH [OF n2(1,2) this n2(4,3), of "Some i" True] obtain n' where
      n': "dial_rounds P now (length hs) (flush_held_for P now (Some i) True n2) = (map hs_frame hs, n')" "held n' = []" "out_queue n' = []"
      "await_pair ` set (awaiting_receipt n2) \<union> {(i, hs_msg_id h) | h. h \<in> set hs \<and> hs_msg_id h \<noteq> []} \<subseteq> await_pair ` set (awaiting_receipt n')"
    by auto
  have "await_pair ` set (awaiting_receipt n) \<union> {(i, hs_msg_id h') | h'. h' \<in> set (h # hs) \<and> hs_msg_id h' \<noteq> []} \<subseteq> await_pair ` set (awaiting_receipt n')"
    using n'(4) n2(5,6) n1(3) by auto
  with n' r n1(1) show ?case by (intro exI [of _ n']) simp
qed

text \<open>
  C32. The held queue of a contact without relays empties, in order. Once the retry clock allows it and their device
  answers, one retry and as many rounds of the outbox as there are frames held deliver every one of them, oldest
  first; then nothing is held or queued and every message among them has its receipt waited for.
\<close>

theorem held_queue_drains:
  assumes "\<not> has_relay_route P i" and "get_conv i n = Some c" and "\<not> closed c" and "\<not> outdated c" and "peer_address c \<noteq> []"
    and "list_all (\<lambda>h. hs_contact h = i \<and> \<not> hs_in_flight h) (held n)" and "out_queue n = []" and "may_retry P i now n"
  shows "\<exists>n'. dial_rounds P now (length (held n)) (flush_held_for P now None False n) = (map hs_frame (held n), n')
     \<and> held n' = [] \<and> out_queue n' = []
     \<and> (\<forall>h \<in> set (held n). hs_msg_id h \<noteq> [] \<longrightarrow> (\<exists>a \<in> set (awaiting_receipt n'). aw_contact a = i \<and> aw_msg_id a = hs_msg_id h))"
proof -
  have "reachable_peer P i n" using assms(1-5) by (simp add: reachable_peer_def)
  from drain_rounds [OF this refl assms(6,8,7), of None False] obtain n' where
      n': "dial_rounds P now (length (held n)) (flush_held_for P now None False n) = (map hs_frame (held n), n')" "held n' = []" "out_queue n' = []"
      "await_pair ` set (awaiting_receipt n) \<union> {(i, hs_msg_id h) | h. h \<in> set (held n) \<and> hs_msg_id h \<noteq> []} \<subseteq> await_pair ` set (awaiting_receipt n')"
    by blast
  have "\<exists>a \<in> set (awaiting_receipt n'). aw_contact a = i \<and> aw_msg_id a = hs_msg_id h" if "h \<in> set (held n)" "hs_msg_id h \<noteq> []" for h
  proof -
    have "(i, hs_msg_id h) \<in> await_pair ` set (awaiting_receipt n')" using n'(4) that by blast
    then show ?thesis by (auto simp: await_pair_def)
  qed
  with n' show ?thesis by blast
qed

theorem held_queue_drains_witness:
  "\<exists>n'. dial_rounds no_relays 90 2 (flush_held_for no_relays 90 None False held_room)
       = ([Message ''me'' ''a1'' (sealed_as ''a1''), Message ''me'' ''a2'' (sealed_as ''a2'')], n')
     \<and> held n' = [] \<and> (\<exists>a \<in> set (awaiting_receipt n'). aw_contact a = ''bob'' \<and> aw_msg_id a = ''a2'')"
proof -
  have "\<not> has_relay_route no_relays ''bob''" by (simp add: has_relay_route_def no_relays_def)
  moreover have bob: "get_conv ''bob'' held_room = Some (sample_chat\<lparr>history := []\<rparr>)" by (simp add: held_room_def)
  moreover have "\<not> closed (sample_chat\<lparr>history := []\<rparr>)" "\<not> outdated (sample_chat\<lparr>history := []\<rparr>)" "peer_address (sample_chat\<lparr>history := []\<rparr>) \<noteq> []"
    by (simp_all add: sample_chat_def outdated_def)
  moreover have h: "held held_room = map (\<lambda>i. \<lparr>hs_contact = ''bob'', hs_msg_id = i, hs_frame = Message ''me'' i (sealed_as i), hs_in_flight = False\<rparr>) [''a1'', ''a2'']"
    by (simp add: held_room_def)
  moreover have "list_all (\<lambda>h. hs_contact h = ''bob'' \<and> \<not> hs_in_flight h) (held held_room)" by (simp add: h)
  moreover have "out_queue held_room = []" "may_retry no_relays ''bob'' 90 held_room"
    using bob by (simp_all add: held_room_def quiet_room_def may_retry_def peer_outdated_def sample_chat_def outdated_def get_conv_def)
  ultimately have "\<exists>n'. dial_rounds no_relays 90 (length (held held_room)) (flush_held_for no_relays 90 None False held_room) = (map hs_frame (held held_room), n')
     \<and> held n' = [] \<and> out_queue n' = []
     \<and> (\<forall>h \<in> set (held held_room). hs_msg_id h \<noteq> [] \<longrightarrow> (\<exists>a \<in> set (awaiting_receipt n'). aw_contact a = ''bob'' \<and> aw_msg_id a = hs_msg_id h))"
    by (intro held_queue_drains)
  then show ?thesis by (auto simp: h numeral_2_eq_2)
qed

end
