(* ===== verification/OutboxEdits.thy ===== *)
theory OutboxEdits
  imports OutboxSafe
begin

text \<open>
  Edits and unsends of messages that have not arrived yet: what they do to a held message, and the cases in which
  the frames that leave are not those the change calls for.
\<close>

section \<open>A held message is changed in its place\<close>

lemma held_unsend_leaves_nothing:
  assumes "position (held_unsent contact i) (held n) = Some k" and "get_conv contact n = Some c"
    and "finish_unsend P R contact i recalled n = (r, n')"
  shows "r = Inr ()" "held n' = take k (held n) @ drop (Suc k) (held n)" "out_queue n' = out_queue n" "pending_sends n' = pending_sends n"
    "get_conv contact n' = Some (c\<lparr>history := filter (\<lambda>m. \<not> our_message i m) (history c)\<rparr>)"
  using assms by (auto simp: finish_unsend_def Let_def)

lemma held_edit_in_place:
  assumes "position (held_unsent contact i) (held n) = Some k" and "get_conv contact n = Some c"
    and "finish_edit P R contact i t recalled n = (Inr (), n')"
  shows "\<exists>burn w ses. burn = (case find (our_message i) (history c) of None \<Rightarrow> 0 | Some m \<Rightarrow> burn_secs m)
      \<and> seal_olm R (session c) (text_body burn t) = Some (w, ses)
      \<and> held n' = (held n)[k := (held n ! k)\<lparr>hs_frame := text_frame burn (my_id n) i w\<rparr>] \<and> out_queue n' = out_queue n"
  using assms by (auto simp: finish_edit_def Let_def split: option.splits)

section \<open>Where the frames that leave miss the change\<close>

text \<open>
  A deferred send is not looked for: an unsend (or an edit) made before the next batch is planned leaves it in the
  queue, and its frame goes out after the one that names it.
\<close>

lemma unsend_leaves_deferred:
  "pending_sends (snd (begin_unsend now contact i n)) = pending_sends n"
  "pending_sends (snd (finish_unsend P R contact i recalled n)) = pending_sends n"
  by (auto simp: begin_unsend_def begin_change_def queued_copies_def finish_unsend_def deliver_with_def queue_out_def Let_def
      split: option.splits prod.splits)

text \<open>
  The outcome of a batch marks a message that was unsent in the meantime, and the receipt clock then takes the
  tombstone for an unconfirmed text: it goes out again, empty.
\<close>

lemma tombstone_marked_and_resent:
  assumes "from_me m" and "\<not> is_system m" and "message_id m = i" and "i \<noteq> []" and "burn_secs m = 0"
  shows "is_sent_message i (make_tombstone m)"
    and "unconfirmed_message i ((make_tombstone m)\<lparr>delivery := ''sent''\<rparr>)"
    and "msg_text ((make_tombstone m)\<lparr>delivery := ''sent''\<rparr>) = []"
  using assms by (simp_all add: is_sent_message_def make_tombstone_def unconfirmed_message_def)

text \<open>
  An edit of a queued message whose copies were all recalled posts an ordinary message in their place, whatever
  the message was: a burn message becomes one that stays.
\<close>

lemma recalled_edit_posts_plain:
  assumes "position (held_unsent contact i) (held n) = None" and "get_conv contact n = Some c"
    and "finish_edit P R contact i t (Some True) n = (Inr (), n')"
  shows "\<exists>w. map (\<lambda>o'. (ds_frame (ob_send o'), ob_route o')) (out_queue n')
      = map (\<lambda>o'. (ds_frame (ob_send o'), ob_route o')) (out_queue n) @ [(Message (my_id n) i w, RelayOnly)]"
  using assms by (auto simp: finish_edit_def queue_out_def detach_def split: option.splits)

text \<open>If no relay takes the replacement, where the contact has a relay route, nothing holds it and nothing sends it again.\<close>

lemma failed_replacement_dropped:
  assumes "fi_done f = Done_Caller record" and "fi_delivery f = Failed" and "\<not> fi_relayless f"
  shows "settle P now f n = ([], n)"
  using assms by (auto simp: settle_def note_reach_def hold_one_off_def caller_done_def Let_def split: option.splits)

text \<open>The outcome of a batch that comes in after the receipt takes "delivered" back.\<close>

lemma outcome_overtakes_receipt:
  assumes "lone h" and "m \<in> set h" and "tracked m" and "delivery m = ''delivered''"
  shows "\<exists>m' \<in> set (update_first (is_sent_message (message_id m)) (\<lambda>m. m\<lparr>delivery := ''sent''\<rparr>) h).
      message_id m' = message_id m \<and> delivery m' = ''sent''"
proof -
  have "update_first (is_sent_message (message_id m)) (\<lambda>m. m\<lparr>delivery := ''sent''\<rparr>) h
      = map (\<lambda>x. if is_sent_message (message_id m) x then x\<lparr>delivery := ''sent''\<rparr> else x) h"
    by (rule update_ours [OF assms(1)]) (use assms(3) in \<open>auto simp: tracked_def is_sent_message_def named_ours_def\<close>)
  moreover have "is_sent_message (message_id m) m" using assms(3) by (simp add: is_sent_message_def tracked_def)
  ultimately have "m\<lparr>delivery := ''sent''\<rparr> \<in> set (update_first (is_sent_message (message_id m)) (\<lambda>m. m\<lparr>delivery := ''sent''\<rparr>) h)"
    using assms(2) by (auto intro: image_eqI [where x = m])
  then show ?thesis by (rule bexI [rotated]) simp
qed

text \<open>A message held for an update is not open to a change of any age, as one held for a contact who is away is.\<close>

lemma held_for_update_not_open:
  assumes "delivery m = ''update''" and "EDIT_WINDOW < now - sent_at m"
  shows "\<not> still_open now m" "still_open now (m\<lparr>delivery := ''waiting''\<rparr>)"
  using assms by (auto simp: still_open_def)

text \<open>The text of an edit has no bound of its own: any length is taken.\<close>

lemma edit_any_length:
  assumes "get_conv contact n = Some c" and "\<not> closed c" and "find (own_text i) (history c) = Some m" and "still_open now m"
  shows "\<exists>r n'. begin_edit now contact i t n = (Inr r, n')"
  using assms by (auto simp: begin_edit_def begin_change_def queued_copies_def Let_def split: if_splits)

end
