(* ===== verification/Names.thy ===== *)
theory Names
  imports Envelope "HOL-Library.List_Lexorder" "HOL-Library.Char_ord"
begin

text \<open>
  What is shown of a contact's identity (\<open>core/src/node.rs\<close>, \<open>core/src/node/pairing.rs\<close>): the name it chose, made safe
  to show, the tag drawn from its key, and the safety number two people compare. SHA-256 is an argument.
\<close>

section \<open>Characters\<close>

text \<open>\<open>str::chars\<close>: each character by its UTF-8 bytes, as the first byte gives their number.\<close>

definition char_len :: "char \<Rightarrow> nat" where
  "char_len c = (if code c < 128 then 1 else if code c < 224 then 2 else if code c < 240 then 3 else 4)"

function str_chars :: "string \<Rightarrow> string list" where
  "str_chars [] = []"
| "str_chars (c # s) = take (char_len c) (c # s) # str_chars (drop (char_len c) (c # s))"
  by pat_completeness auto
termination by (relation "measure length") (auto simp: char_len_def)

definition code_point :: "string \<Rightarrow> nat" where
  "code_point w =
     (case map code w of
        [a] \<Rightarrow> a
      | [a, b] \<Rightarrow> (a mod 32) * 64 + b mod 64
      | [a, b, c] \<Rightarrow> ((a mod 16) * 64 + b mod 64) * 64 + c mod 64
      | [a, b, c, d] \<Rightarrow> (((a mod 8) * 64 + b mod 64) * 64 + c mod 64) * 64 + d mod 64
      | _ \<Rightarrow> 0)"

definition is_whitespace :: "string \<Rightarrow> bool" where
  "is_whitespace w \<longleftrightarrow> w \<in> set white_space"

definition is_control :: "string \<Rightarrow> bool" where
  "is_control w = (let c = code_point w in c < 32 \<or> 127 \<le> c \<and> c < 160)"

section \<open>Display names\<close>

definition MAX_NAME_CHARS :: nat where "MAX_NAME_CHARS = 64"
definition DEFAULT_NAME :: string where "DEFAULT_NAME = ''Anon''"

definition invisible :: "string \<Rightarrow> bool" where
  "invisible w =
     (is_control w \<or>
      (let c = code_point w
       in c \<in> {0x00AD, 0x034F, 0x061C, 0x115F, 0x1160, 0x17B4, 0x17B5, 0x200B, 0x200E, 0x200F, 0x3164, 0xFEFF, 0xFFA0}
          \<or> 0x180B \<le> c \<and> c \<le> 0x180F \<or> 0x202A \<le> c \<and> c \<le> 0x202E \<or> 0x2060 \<le> c \<and> c \<le> 0x206F
          \<or> 0xFE00 \<le> c \<and> c \<le> 0xFE0D \<or> 0xFFF0 \<le> c \<and> c \<le> 0xFFFB \<or> 0xE0000 \<le> c \<and> c \<le> 0xE0FFF))"

text \<open>The loop, over the visible characters: what is kept so far, how many, and whether a space is due.\<close>

fun name_loop :: "string list \<Rightarrow> nat \<Rightarrow> bool \<Rightarrow> string list \<Rightarrow> string list" where
  "name_loop shown count pending_space [] = shown"
| "name_loop shown count pending_space (c # cs) =
     (if is_whitespace c then name_loop shown count (shown \<noteq> []) cs
      else if MAX_NAME_CHARS \<le> count then shown
      else (let space = (pending_space \<and> count + 1 < MAX_NAME_CHARS);
                shown = (if space then shown @ ['' ''] else shown);
                count = (if space then count + 1 else count)
            in name_loop (shown @ [c]) (count + 1) False cs))"

definition name_chars :: "string list \<Rightarrow> string list" where
  "name_chars cs = name_loop [] 0 False (filter (\<lambda>c. \<not> invisible c) cs)"

definition clean_display_name :: "string \<Rightarrow> string" where
  "clean_display_name raw = (let shown = name_chars (str_chars raw) in if shown = [] then DEFAULT_NAME else concat shown)"

section \<open>Identity tags and safety numbers\<close>

definition TAG_ALPHABET :: string where "TAG_ALPHABET = ''0123456789ABCDEFGHJKMNPQRSTVWXYZ''"

definition identity_tag :: "(bytes \<Rightarrow> bytes) \<Rightarrow> string \<Rightarrow> string" where
  "identity_tag sha identity_key = map (\<lambda>b. TAG_ALPHABET ! (unat b mod length TAG_ALPHABET)) (take 6 (sha (text_bytes identity_key)))"

definition safety_input :: "string \<Rightarrow> string \<Rightarrow> bytes" where
  "safety_input own contact =
     (let (a, b) = (if own \<le> contact then (own, contact) else (contact, own))
      in text_bytes (''nightdrop/safety/v1'' @ a @ '':'' @ b))"

definition safety_digest :: "(bytes \<Rightarrow> bytes) \<Rightarrow> string \<Rightarrow> string \<Rightarrow> bytes" where
  "safety_digest sha own contact = sha (safety_input own contact)"

definition pad5 :: "nat \<Rightarrow> string" where
  "pad5 v = replicate (5 - length (dec v)) CHR ''0'' @ dec v"

definition safety_group :: "bytes \<Rightarrow> nat \<Rightarrow> string" where
  "safety_group digest i = pad5 (be_nat (map (\<lambda>j. digest ! ((i * 5 + j) mod 32)) [0..<5]) mod 100000)"

fun joined :: "string \<Rightarrow> string list \<Rightarrow> string" where
  "joined sep [] = []"
| "joined sep [w] = w"
| "joined sep (w # v # ws) = w @ sep @ joined sep (v # ws)"

definition render_safety_number :: "bytes \<Rightarrow> string" where
  "render_safety_number digest = joined '' '' (map (safety_group digest) [0..<12])"

text \<open>The payload of a scanned safety QR against our digest, \<open>None\<close> where it is no base64.\<close>

definition safety_qr_matches :: "(bytes \<Rightarrow> bytes) \<Rightarrow> (string \<Rightarrow> bytes option) \<Rightarrow> string \<Rightarrow> string \<Rightarrow> string \<Rightarrow> bool" where
  "safety_qr_matches sha unb64 own contact scanned =
     (let theirs = (case unb64 (trim scanned) of None \<Rightarrow> [] | Some b \<Rightarrow> b)
      in length theirs = 32 \<and> theirs = safety_digest sha own contact)"

section \<open>A cleaned name\<close>

text \<open>Tidy: visible characters, at most 64, single spaces and only between them.\<close>

definition tidy :: "string list \<Rightarrow> bool" where
  "tidy cs \<longleftrightarrow> length cs \<le> MAX_NAME_CHARS \<and> (\<forall>c \<in> set cs. \<not> invisible c \<and> (is_whitespace c \<longrightarrow> c = '' ''))
     \<and> (cs \<noteq> [] \<longrightarrow> \<not> is_whitespace (hd cs) \<and> \<not> is_whitespace (last cs))
     \<and> successively (\<lambda>a b. \<not> (is_whitespace a \<and> is_whitespace b)) cs"

lemma space_white [simp]: "is_whitespace '' ''"
  by code_simp

lemma space_visible [simp]: "\<not> invisible '' ''"
  by (simp add: invisible_def is_control_def code_point_def code_def)

lemma tidy_snoc:
  assumes "tidy cs" and "length cs < MAX_NAME_CHARS" and "\<not> invisible c" and "\<not> is_whitespace c"
  shows "tidy (cs @ [c])"
  using assms by (cases "cs = []") (auto simp: tidy_def successively_append_iff)

lemma tidy_snoc_space:
  assumes "tidy cs" and "cs \<noteq> []" and "length cs + 1 < MAX_NAME_CHARS" and "\<not> invisible c" and "\<not> is_whitespace c"
  shows "tidy (cs @ ['' '', c])"
  using assms by (auto simp: tidy_def successively_append_iff)

lemma name_loop_tidy:
  assumes "tidy shown" and "count = length shown" and "pending_space \<longrightarrow> shown \<noteq> []" and "\<forall>c \<in> set cs. \<not> invisible c"
  shows "tidy (name_loop shown count pending_space cs)"
  using assms
proof (induction shown count pending_space cs rule: name_loop.induct)
  case (2 shown count pending_space c cs)
  show ?case
  proof (cases "is_whitespace c \<or> MAX_NAME_CHARS \<le> count")
    case True
    with 2 show ?thesis by auto
  next
    case False
    with 2(3-6) have "tidy ((if pending_space \<and> count + 1 < MAX_NAME_CHARS then shown @ ['' ''] else shown) @ [c])"
      by (auto intro: tidy_snoc dest: tidy_snoc_space)
    with False 2 show ?thesis by (auto simp: Let_def)
  qed
qed simp

text \<open>What is tidy is left as it is.\<close>

lemma name_loop_same:
  assumes "tidy (shown @ (if pending_space then ['' ''] else []) @ cs)" and "count = length shown" and "pending_space \<longrightarrow> shown \<noteq> [] \<and> cs \<noteq> []"
    and "pending_space \<longrightarrow> \<not> is_whitespace (hd cs)"
  shows "name_loop shown count pending_space cs = shown @ (if pending_space then ['' ''] else []) @ cs"
  using assms
proof (induction shown count pending_space cs rule: name_loop.induct)
  case (2 shown count pending_space c cs)
  show ?case
  proof (cases "is_whitespace c")
    case True
    with 2(3) have c: "c = '' ''" "shown \<noteq> []" "\<not> pending_space" "cs \<noteq> []" "\<not> is_whitespace (hd cs)"
      using 2(6) by (auto simp: tidy_def successively_append_iff successively_Cons hd_append split: if_splits)
    with 2(1) [OF True] 2(3,4) True show ?thesis by simp
  next
    case False
    with 2(3,4) have "count < MAX_NAME_CHARS" "pending_space \<longrightarrow> count + 1 < MAX_NAME_CHARS" by (auto simp: tidy_def split: if_splits)
    with False 2 show ?thesis by (auto simp: Let_def)
  qed
qed auto

lemma name_chars_tidy: "tidy (name_chars cs)"
  unfolding name_chars_def by (rule name_loop_tidy) (auto simp: tidy_def)

lemma name_chars_same: "tidy cs \<Longrightarrow> name_chars cs = cs"
  using name_loop_same [of "[]" False cs 0] by (simp add: name_chars_def tidy_def filter_id_conv)

text \<open>Characters of well-formed text are whole, and whole characters stay apart when joined.\<close>

definition whole :: "string \<Rightarrow> bool" where
  "whole w \<longleftrightarrow> w \<noteq> [] \<and> length w = char_len (hd w)"

lemma str_chars_concat: "\<forall>w \<in> set cs. whole w \<Longrightarrow> str_chars (concat cs) = cs"
proof (induction cs)
  case (Cons w cs)
  then obtain c u where w: "w = c # u" and n: "char_len c = Suc (length u)" by (cases w) (auto simp: whole_def)
  with Cons show ?case by simp
qed simp

lemma valid_first: "utf8_valid (a # s) \<Longrightarrow> char_len a \<le> Suc (length s) \<and> utf8_valid (drop (char_len a) (a # s))"
  unfolding utf8_valid.simps(2) [of a s]
  by (cases s; cases "tl s"; cases "tl (tl s)") (auto simp: char_len_def simp del: utf8_valid.simps split: if_splits)

lemma chars_whole: "utf8_valid s \<Longrightarrow> w \<in> set (str_chars s) \<Longrightarrow> whole w"
proof (induction s rule: str_chars.induct)
  case (2 c s)
  note v = valid_first [OF 2(2)]
  have "whole (take (char_len c) (c # s))" using v by (simp add: whole_def char_len_def)
  with 2(1) v 2(3) show ?case by auto
qed simp

lemma name_loop_set: "set (name_loop shown count pending_space cs) \<subseteq> set shown \<union> set cs \<union> {'' ''}"
proof (induction shown count pending_space cs rule: name_loop.induct)
  case (2 shown count pending_space c cs)
  show ?case
  proof (cases "is_whitespace c \<or> MAX_NAME_CHARS \<le> count")
    case True
    with 2(1) show ?thesis by auto
  next
    case False
    with 2(2) [OF _ _ refl refl refl] show ?thesis by (simp only: name_loop.simps Let_def if_False de_Morgan_disj) (auto split: if_splits)
  qed
qed auto

lemma name_chars_whole: "utf8_valid raw \<Longrightarrow> w \<in> set (name_chars (str_chars raw)) \<Longrightarrow> whole w"
  using name_loop_set [of "[]" 0 False "filter (\<lambda>c. \<not> invisible c) (str_chars raw)"] chars_whole [of raw w]
  by (fastforce simp: name_chars_def whole_def char_len_def code_def)

lemma default_chars: "str_chars DEFAULT_NAME = [''A'', ''n'', ''o'', ''n'']"
  by (simp add: DEFAULT_NAME_def char_len_def code_def)

lemma default_tidy: "tidy (str_chars DEFAULT_NAME)"
  unfolding default_chars
  by (simp add: tidy_def MAX_NAME_CHARS_def invisible_def is_control_def code_point_def code_def is_whitespace_def white_space_def char_of_def)

lemma clean_name_chars: "utf8_valid raw \<Longrightarrow>
    str_chars (clean_display_name raw) = (if name_chars (str_chars raw) = [] then str_chars DEFAULT_NAME else name_chars (str_chars raw))"
  using str_chars_concat name_chars_whole by (auto simp: clean_display_name_def Let_def)

text \<open>
  C36. A name a contact chose cannot harm what is shown around it. Whatever text it sends, the name kept has at most
  64 characters, none of them a control, bidirectional, zero-width or tag character, and no white space but
  single spaces between them; cleaning it again changes nothing, and a name that was so already is kept as it is.
\<close>

theorem contact_name_safe:
  assumes "utf8_valid raw"
  shows "tidy (str_chars (clean_display_name raw)) \<and> clean_display_name (clean_display_name raw) = clean_display_name raw
    \<and> (tidy (str_chars raw) \<and> raw \<noteq> [] \<longrightarrow> clean_display_name raw = raw)"
proof (intro conjI impI)
  show tidy: "tidy (str_chars (clean_display_name raw))"
    using assms by (simp add: clean_name_chars name_chars_tidy default_tidy)
  have same: "clean_display_name t = t" if "tidy (str_chars t)" "t \<noteq> []" for t
  proof -
    have "name_chars (str_chars t) = str_chars t" using that(1) by (rule name_chars_same)
    moreover have "concat (str_chars t) = t" by (induction t rule: str_chars.induct) simp_all
    moreover have "str_chars t \<noteq> []" using that(2) by (cases t) simp_all
    ultimately show ?thesis by (simp add: clean_display_name_def)
  qed
  have "clean_display_name raw \<noteq> []"
  proof (cases "name_chars (str_chars raw) = []")
    case False
    then obtain w ws where w: "name_chars (str_chars raw) = w # ws" by (cases "name_chars (str_chars raw)") auto
    with name_chars_whole [OF assms, of w] show ?thesis by (simp add: clean_display_name_def whole_def)
  qed (simp add: clean_display_name_def DEFAULT_NAME_def)
  with same [OF tidy] show "clean_display_name (clean_display_name raw) = clean_display_name raw" by simp
  show "clean_display_name raw = raw" if "tidy (str_chars raw) \<and> raw \<noteq> []" using that same by blast
qed

text \<open>A name with a bidirectional override, a line feed and spaces at its ends.\<close>

definition odd_name :: string where
  "odd_name = '' A'' @ map char_of [0xE2, 0x80, 0xAE :: nat] @ ''l  i '' @ [char_of (10 :: nat)]"

theorem contact_name_safe_witness:
  "clean_display_name odd_name = ''Al i'' \<and> clean_display_name ''Al i'' = ''Al i''"
proof -
  have v: "utf8_valid odd_name" by (simp add: odd_name_def cont_byte_def code_def)
  let ?rlo = "map char_of [0xE2, 0x80, 0xAE :: nat]"
  let ?cs = "['' '', ''A'', ?rlo, ''l'', '' '', '' '', ''i'', '' '', [char_of (10 :: nat)]]"
  have eq: "odd_name = concat ?cs" by (simp add: odd_name_def)
  have "str_chars (concat ?cs) = ?cs" by (rule str_chars_concat) (simp add: whole_def char_len_def code_def)
  then have chars: "str_chars odd_name = ?cs" unfolding eq .
  have hidden: "invisible ?rlo" "invisible [char_of (10 :: nat)]"
    by (simp_all add: invisible_def is_control_def code_point_def code_def)
  have shown: "\<not> invisible ''A''" "\<not> invisible ''l''" "\<not> invisible ''i''"
    by (simp_all add: invisible_def is_control_def code_point_def code_def)
  have solid: "\<not> is_whitespace ''A''" "\<not> is_whitespace ''l''" "\<not> is_whitespace ''i''"
    by code_simp+
  have c: "clean_display_name odd_name = ''Al i''"
    using hidden shown solid by (simp add: clean_display_name_def name_chars_def chars MAX_NAME_CHARS_def Let_def)
  with contact_name_safe [OF v] show ?thesis by simp
qed

text \<open>
  C35. Both devices of a chat show one safety number, and a device accepts the payload the other shows exactly when
  both are for the same pair of identity keys, unless the two pairs' digests collide.
\<close>

theorem safety_number_names_pair:
  assumes "unb64 (trim scanned) = Some (safety_digest sha x y)" and "length (safety_digest sha x y) = 32"
    and "safety_digest sha own contact = safety_digest sha x y \<longrightarrow> safety_input own contact = safety_input x y"
    and "CHR '':'' \<notin> set own \<union> set contact \<union> set x \<union> set y"
  shows "render_safety_number (safety_digest sha own contact) = render_safety_number (safety_digest sha contact own)
    \<and> (safety_qr_matches sha unb64 own contact scanned \<longleftrightarrow> {own, contact} = {x, y})"
proof -
  have sym: "safety_input a b = safety_input b a" for a b
    by (auto simp: safety_input_def)
  have split: "a = a' \<and> b = b'" if "a @ '':'' @ b = a' @ '':'' @ b'" "CHR '':'' \<notin> set a \<union> set a'" for a b a' b'
  proof -
    have "takeWhile (\<lambda>c. c \<noteq> CHR '':'') (u @ '':'' @ v) = u" if "CHR '':'' \<notin> set u" for u v
      using that by (induction u) auto
    from this [of a b] this [of a' b'] that have "a = a'" by simp
    with that(1) show ?thesis by simp
  qed
  have "{own, contact} = {x, y}" if "safety_input own contact = safety_input x y"
  proof -
    from that have "text_bytes (''nightdrop/safety/v1'' @ min own contact @ '':'' @ max own contact)
        = text_bytes (''nightdrop/safety/v1'' @ min x y @ '':'' @ max x y)"
      by (auto simp: safety_input_def min_def max_def split: if_splits)
    then have "min own contact @ '':'' @ max own contact = min x y @ '':'' @ max x y" using text_bytes_inj by fastforce
    then have "min own contact = min x y \<and> max own contact = max x y" using assms(4) by (intro split) (auto simp: min_def)
    then show ?thesis by (auto simp: min_def max_def split: if_splits)
  qed
  with assms(3) sym have "safety_digest sha own contact = safety_digest sha x y \<longleftrightarrow> {own, contact} = {x, y}"
    by (auto simp: safety_digest_def doubleton_eq_iff)
  with assms(1,2) sym show ?thesis by (auto simp: safety_qr_matches_def safety_digest_def)
qed

text \<open>A hash that keeps what follows the domain apart, for keys this short.\<close>

definition tail_hash :: "bytes \<Rightarrow> bytes" where
  "tail_hash b = take 32 (drop 19 b @ replicate 32 0)"

theorem safety_number_names_pair_witness:
  "safety_qr_matches tail_hash (\<lambda>_. Some (safety_digest tail_hash ''bo'' ''al'')) ''al'' ''bo'' ''scanned'' \<and>
   \<not> safety_qr_matches tail_hash (\<lambda>_. Some (safety_digest tail_hash ''bo'' ''al'')) ''al'' ''eve'' ''scanned''"
proof -
  let ?q = "\<lambda>_ :: string. Some (safety_digest tail_hash ''bo'' ''al'')"
  have in1: "safety_input ''bo'' ''al'' = text_bytes ''nightdrop/safety/v1al:bo''" "safety_input ''al'' ''bo'' = text_bytes ''nightdrop/safety/v1al:bo''"
    "safety_input ''al'' ''eve'' = text_bytes ''nightdrop/safety/v1al:eve''"
    by (simp_all add: safety_input_def less_eq_list_code less_char_def)
  have 32: "length (safety_digest tail_hash ''bo'' ''al'') = 32" by (simp add: safety_digest_def tail_hash_def)
  have "safety_digest tail_hash ''al'' ''eve'' \<noteq> safety_digest tail_hash ''bo'' ''al''"
    by (simp add: safety_digest_def in1 tail_hash_def text_bytes_def)
  then show ?thesis
    using safety_number_names_pair [of ?q "''scanned''" tail_hash "''bo''" "''al''" "''al''" "''bo''", OF refl 32]
      safety_number_names_pair [of ?q "''scanned''" tail_hash "''bo''" "''al''" "''al''" "''eve''", OF refl 32]
    by (simp add: in1 doubleton_eq_iff)
qed

end
