(* ===== verification/ShortCode.thy ===== *)
theory ShortCode
  imports Conversation
begin

text \<open>
  Pairing by an invite: its payload (\<open>core/src/api.rs\<close>), and the short-code handshake through the relays
  (\<open>core/src/node/pairing.rs\<close>, \<open>core/src/node.rs\<close>), the inviter's side over any number of service rounds and the
  joiner's as a loop over what its clock and the relays answer. SPAKE2, ML-KEM, the AEAD and the hash are fields of
  a record; what is drawn at random is an argument. A relay's \<open>take\<close> answers the blobs it held, or \<open>None\<close>.
\<close>

section \<open>Invite payloads\<close>

fun split_once_at :: "string \<Rightarrow> string \<Rightarrow> (string \<times> string) option" where
  "split_once_at pat [] = (if pat = [] then Some ([], []) else None)"
| "split_once_at pat (c # s) =
     (if prefix pat (c # s) then Some ([], drop (length pat) (c # s))
      else map_option (\<lambda>(a, b). (c # a, b)) (split_once_at pat s))"

definition strip_prefix :: "string \<Rightarrow> string \<Rightarrow> string option" where
  "strip_prefix p s = (if prefix p s then Some (drop (length p) s) else None)"

definition query_parts :: "string \<Rightarrow> string list option" where
  "query_parts payload = map_option (\<lambda>(_, q). split_at_chars (\<lambda>c. c = CHR ''&'') q) (split_once_at ''://pair?'' payload)"

text \<open>\<open>Iterator::find_map\<close>.\<close>

fun find_map :: "('a \<Rightarrow> 'b option) \<Rightarrow> 'a list \<Rightarrow> 'b option" where
  "find_map f [] = None"
| "find_map f (x # xs) = (case f x of None \<Rightarrow> find_map f xs | Some y \<Rightarrow> Some y)"

definition invite_param :: "string \<Rightarrow> string \<Rightarrow> string option" where
  "invite_param payload key =
     Option.bind (query_parts payload)
       (find_map (\<lambda>kv. case split_once CHR ''='' kv of Some (k, v) \<Rightarrow> if k = key then Some v else None | None \<Rightarrow> None))"

text \<open>JSON and base64 of a relay set, and base64 of a 32-byte secret.\<close>

record invite_codec =
  set_text :: "relay_set \<Rightarrow> string"
  read_set :: "string \<Rightarrow> relay_set option"
  secret_text :: "bytes \<Rightarrow> string"
  read_secret :: "string \<Rightarrow> bytes option"

record invite_extras =
  extra_relays :: "relay_set option"
  extra_pass :: "bytes option"

definition parse_invite_relay_set :: "invite_codec \<Rightarrow> string \<Rightarrow> relay_set option" where
  "parse_invite_relay_set J payload =
     Option.bind (query_parts payload) (\<lambda>parts.
       Option.bind (find_map (strip_prefix ''rs='') parts) (\<lambda>v. map_option sanitize_peer_set (read_set J v)))"

definition decode_secret :: "invite_codec \<Rightarrow> string \<Rightarrow> bytes option" where
  "decode_secret J s = (case read_secret J (trim s) of None \<Rightarrow> None | Some b \<Rightarrow> if length b = 32 then Some b else None)"

definition parse_invite_extras :: "invite_codec \<Rightarrow> string \<Rightarrow> invite_extras" where
  "parse_invite_extras J payload =
     \<lparr>extra_relays = parse_invite_relay_set J payload,
      extra_pass = Option.bind (invite_param payload ''ck'') (decode_secret J)\<rparr>"

text \<open>The last value given for each key counts.\<close>

fun invite_fields :: "string list \<Rightarrow> string option \<times> string option \<times> string option \<Rightarrow> string option \<times> string option \<times> string option" where
  "invite_fields [] f = f"
| "invite_fields (kv # kvs) (addr, ik, otk) =
     invite_fields kvs
       (case split_once CHR ''='' kv of None \<Rightarrow> (addr, ik, otk)
        | Some (k, v) \<Rightarrow>
            if k = ''addr'' then (Some v, ik, otk)
            else if k = ''ik'' then (addr, Some v, otk)
            else if k = ''otk'' then (addr, ik, Some v) else (addr, ik, otk))"

definition parse_invite :: "string \<Rightarrow> (string \<times> string \<times> string) option" where
  "parse_invite payload =
     (case query_parts payload of None \<Rightarrow> None
      | Some parts \<Rightarrow>
          (case invite_fields parts (None, None, None) of
             (Some addr, ik, otk) \<Rightarrow>
               if \<not> sane_address addr then None
               else (case (ik, otk) of (Some ik, Some otk) \<Rightarrow> Some (addr, ik, otk) | _ \<Rightarrow> None)
           | _ \<Rightarrow> None))"

definition short_code_payload :: "invite_codec \<Rightarrow> string \<Rightarrow> string \<Rightarrow> string \<Rightarrow> relay_set \<Rightarrow> bytes option \<Rightarrow> string" where
  "short_code_payload J addr ik otk rs pass =
     ''nightdrop://pair?addr='' @ addr @ ''&ik='' @ ik @ ''&otk='' @ otk @ ''&rs='' @ set_text J rs
       @ (case pass of None \<Rightarrow> [] | Some s \<Rightarrow> ''&ck='' @ secret_text J s)"

text \<open>The QR's payload, which carries no relay set.\<close>

definition qr_payload :: "invite_codec \<Rightarrow> string \<Rightarrow> string \<Rightarrow> string \<Rightarrow> bytes option \<Rightarrow> string" where
  "qr_payload J addr ik otk pass =
     ''nightdrop://pair?addr='' @ addr @ ''&ik='' @ ik @ ''&otk='' @ otk
       @ (case pass of None \<Rightarrow> [] | Some s \<Rightarrow> ''&ck='' @ secret_text J s)"

definition split_code :: "string \<Rightarrow> (string \<times> string) option" where
  "split_code typed = split_once CHR ''-'' (map ascii_lower (trim typed))"

section \<open>The handshake\<close>

record ('p, 'k) handshake =
  pake_start :: "bytes \<Rightarrow> nat \<Rightarrow> 'p \<times> bytes"
  pake_finish :: "'p \<Rightarrow> bytes \<Rightarrow> bytes option"
  kem_generate :: "nat \<Rightarrow> 'k \<times> bytes"
  kem_encapsulate :: "bytes \<Rightarrow> nat \<Rightarrow> (bytes \<times> bytes) option"
  kem_decapsulate :: "'k \<Rightarrow> bytes \<Rightarrow> bytes option"
  hybrid_seal_key :: "bytes \<Rightarrow> bytes \<Rightarrow> bytes"
  seal_with :: "bytes \<Rightarrow> bytes \<Rightarrow> nat \<Rightarrow> bytes option"
  open_with :: "bytes \<Rightarrow> bytes \<Rightarrow> bytes option"
  digest_of :: "bytes \<Rightarrow> bytes"

definition two_fields :: "bytes \<Rightarrow> (bytes \<times> bytes) option" where
  "two_fields blob = Option.bind (take_field blob) (\<lambda>(a, r). map_option (\<lambda>(b, _). (a, b)) (take_field r))"

definition three_fields :: "bytes \<Rightarrow> (bytes \<times> bytes \<times> bytes) option" where
  "three_fields blob =
     Option.bind (take_field blob) (\<lambda>(a, r). Option.bind (take_field r) (\<lambda>(b, r). map_option (\<lambda>(c, _). (a, b, c)) (take_field r)))"

definition build_invite_response :: "('p, 'k) handshake \<Rightarrow> nat \<Rightarrow> string \<Rightarrow> string \<Rightarrow> bytes \<Rightarrow> bytes option" where
  "build_invite_response H r secret payload opener =
     Option.bind (two_fields opener) (\<lambda>(msg_j, kem_public).
       let (bouncer, msg_i) = pake_start H (text_bytes secret) r
       in Option.bind (pake_finish H bouncer msg_j) (\<lambda>key.
            Option.bind (kem_encapsulate H kem_public r) (\<lambda>(ct, ss).
              map_option (\<lambda>sealed. put_field msg_i @ put_field ct @ put_field sealed)
                (seal_with H (hybrid_seal_key H key ss) (text_bytes payload) r))))"

section \<open>The inviter\<close>

definition MAX_OPENERS_PER_INVITE :: nat where "MAX_OPENERS_PER_INVITE = 3"

record pending_invite =
  pi_slot :: string
  pi_secret :: string
  pi_payload :: string
  pi_ttl :: nat
  pi_expiry :: instant
  pi_openers :: "bytes list"

text \<open>
  The openers of one take, with the digests seen for this invite, those answered in this call and the answers posted to
  every relay, each beside its opener; whether the invite is to be retired. \<open>R\<close> is what is drawn for an answer.
\<close>

fun answer_openers ::
  "('p, 'k) handshake \<Rightarrow> (bytes \<Rightarrow> nat) \<Rightarrow> pending_invite \<Rightarrow> bytes list \<Rightarrow> bytes list \<times> bytes list \<times> (bytes \<times> bytes) list \<Rightarrow>
   bool \<times> bytes list \<times> bytes list \<times> (bytes \<times> bytes) list" where
  "answer_openers H R p [] st = (False, st)"
| "answer_openers H R p (opener # rest) (seen, answered, answers) =
     (let d = digest_of H opener
      in if d \<in> set answered then answer_openers H R p rest (seen, answered, answers)
         else if d \<notin> set seen \<and> MAX_OPENERS_PER_INVITE \<le> length seen then (True, seen, answered, answers)
         else answer_openers H R p rest
                (if d \<in> set seen then seen else seen @ [d], answered @ [d],
                 case build_invite_response H (R opener) (pi_secret p) (pi_payload p) opener of
                   None \<Rightarrow> answers | Some response \<Rightarrow> answers @ [(opener, response)]))"

fun answer_relays ::
  "('p, 'k) handshake \<Rightarrow> (bytes \<Rightarrow> nat) \<Rightarrow> pending_invite \<Rightarrow> bytes list option list \<Rightarrow> bytes list \<times> bytes list \<times> (bytes \<times> bytes) list \<Rightarrow>
   bool \<times> bytes list \<times> bytes list \<times> (bytes \<times> bytes) list" where
  "answer_relays H R p [] st = (False, st)"
| "answer_relays H R p (taken # rest) st =
     (case taken of None \<Rightarrow> answer_relays H R p rest st
      | Some openers \<Rightarrow>
          (let (retire, st) = answer_openers H R p openers st
           in if retire then (True, st) else answer_relays H R p rest st))"

record service_outcome =
  openers_seen :: "(string \<times> bytes list) list"
  retired :: "string list"
  posted_answers :: "(string \<times> bytes \<times> bytes) list"

definition service_one ::
  "('p, 'k) handshake \<Rightarrow> (bytes \<Rightarrow> nat) \<Rightarrow> (string \<Rightarrow> bytes list option list) \<Rightarrow> pending_invite \<Rightarrow> service_outcome \<Rightarrow> service_outcome" where
  "service_one H R takes p o' =
     (let (retire, seen, _, answers) = answer_relays H R p (takes (pi_slot p)) (pi_openers p, [], [])
      in o'\<lparr>openers_seen := openers_seen o' @ [(pi_slot p, seen)],
            retired := (if retire then retired o' @ [pi_slot p] else retired o'),
            posted_answers := posted_answers o' @ map (\<lambda>(opener, response). (pi_slot p, opener, response)) answers\<rparr>)"

definition service_invites ::
  "('p, 'k) handshake \<Rightarrow> (bytes \<Rightarrow> nat) \<Rightarrow> (string \<Rightarrow> bytes list option list) \<Rightarrow> pending_invite list \<Rightarrow> service_outcome" where
  "service_invites H R takes invites =
     fold (service_one H R takes) invites \<lparr>openers_seen = [], retired = [], posted_answers = []\<rparr>"

text \<open>The node's side: its hosted invites, the plan (\<open>None\<close>: nothing to do), and what a round brings back.\<close>

definition stage_invite :: "nat \<Rightarrow> pending_invite \<Rightarrow> pending_invite list \<Rightarrow> pending_invite list option" where
  "stage_invite relay_count p hosted = (if relay_count = 0 then None else Some (filter (\<lambda>q. pi_slot q \<noteq> pi_slot p) hosted @ [p]))"

definition invite_service_plan :: "nat \<Rightarrow> instant \<Rightarrow> pending_invite list \<Rightarrow> pending_invite list option \<times> pending_invite list" where
  "invite_service_plan relay_count now hosted =
     (let hosted = filter (\<lambda>p. now < pi_expiry p) hosted
      in (if hosted = [] \<or> relay_count = 0 then None else Some hosted, hosted))"

definition note_openers :: "string \<times> bytes list \<Rightarrow> pending_invite list \<Rightarrow> pending_invite list" where
  "note_openers se hosted =
     update_first (\<lambda>p. pi_slot p = fst se) (\<lambda>p. p\<lparr>pi_openers := snd se\<rparr>) hosted"

definition apply_invite_service :: "service_outcome \<Rightarrow> pending_invite list \<Rightarrow> pending_invite list" where
  "apply_invite_service o' hosted =
     filter (\<lambda>p. pi_slot p \<notin> set (retired o')) (fold note_openers (openers_seen o') hosted)"

section \<open>The joiner\<close>

definition RENDEZVOUS_POLL :: duration where "RENDEZVOUS_POLL = 500 * 1000000"
definition RENDEZVOUS_REPOST :: duration where "RENDEZVOUS_REPOST = secs 20"
definition POST_ESTABLISH_TIMEOUT :: duration where "POST_ESTABLISH_TIMEOUT = secs 240"
definition POST_RETRY_INTERVAL :: duration where "POST_RETRY_INTERVAL = secs 2"

datatype join_error = No_relay | Unreachable | Timed_out | Handshake_failed | Wrong_code | Corrupt_invite

definition opener_of :: "('p, 'k) handshake \<Rightarrow> nat \<Rightarrow> string \<Rightarrow> bytes" where
  "opener_of H r secret = put_field (snd (pake_start H (text_bytes secret) r)) @ put_field (snd (kem_generate H r))"

definition finish_join :: "('p, 'k) handshake \<Rightarrow> nat \<Rightarrow> string \<Rightarrow> bytes \<times> bytes \<times> bytes \<Rightarrow> join_error + string" where
  "finish_join H r secret answer =
     (let (msg_i, kem_ct, sealed) = answer
      in case pake_finish H (fst (pake_start H (text_bytes secret) r)) msg_i of None \<Rightarrow> Inl Handshake_failed
         | Some key \<Rightarrow>
             (case kem_decapsulate H (fst (kem_generate H r)) kem_ct of None \<Rightarrow> Inl Wrong_code
              | Some ss \<Rightarrow>
                  (case open_with H (hybrid_seal_key H key ss) sealed of None \<Rightarrow> Inl Wrong_code
                   | Some payload \<Rightarrow> (case from_utf8 payload of None \<Rightarrow> Inl Corrupt_invite | Some t \<Rightarrow> Inr t))))"

text \<open>
  The rounds of posting the opener, each with what every relay answered and the clock after it, the wait before the next
  round aside: \<open>None\<close> while rounds are still to come, the error, or how many relays took it.
\<close>

fun post_opener :: "instant \<Rightarrow> (bool list \<times> instant) list \<Rightarrow> (join_error + nat) option" where
  "post_opener deadline [] = None"
| "post_opener deadline ((took, clock) # rounds) =
     (let posted = length (filter id took)
      in if 0 < posted then Some (Inr posted)
         else if deadline \<le> clock then Some (Inl Unreachable) else post_opener deadline rounds)"

text \<open>
  The rounds of waiting: the clock before and after the sleep, and what each relay handed out. The result, \<open>None\<close> while
  rounds are still to come, and how often the opener was posted again.
\<close>

fun await_answer ::
  "('p, 'k) handshake \<Rightarrow> nat \<Rightarrow> string \<Rightarrow> instant \<Rightarrow> instant \<Rightarrow> nat \<Rightarrow> (instant \<times> instant \<times> bytes list option list) list \<Rightarrow>
   (join_error + string) option \<times> nat" where
  "await_answer H r secret deadline last_post reposts [] = (None, reposts)"
| "await_answer H r secret deadline last_post reposts ((clock, awake, taken) # rounds) =
     (if deadline \<le> clock then (Some (Inl Timed_out), reposts)
      else (let due = (RENDEZVOUS_REPOST \<le> awake - last_post);
                last_post = (if due then awake else last_post);
                reposts = (if due then reposts + 1 else reposts)
            in case find_map three_fields (concat (map (\<lambda>t. case t of None \<Rightarrow> [] | Some blobs \<Rightarrow> blobs) taken)) of
                 None \<Rightarrow> await_answer H r secret deadline last_post reposts rounds
               | Some answer \<Rightarrow> (Some (finish_join H r secret answer), reposts)))"

definition run_join_handshake ::
  "('p, 'k) handshake \<Rightarrow> nat \<Rightarrow> nat \<Rightarrow> string \<Rightarrow> duration \<Rightarrow> instant \<Rightarrow> (bool list \<times> instant) list \<Rightarrow> instant \<Rightarrow>
   (instant \<times> instant \<times> bytes list option list) list \<Rightarrow> (join_error + string) option" where
  "run_join_handshake H r relay_count secret timeout start posts posted_at rounds =
     (if relay_count = 0 then Some (Inl No_relay)
      else (case post_opener (start + POST_ESTABLISH_TIMEOUT) posts of
              None \<Rightarrow> None
            | Some (Inl e) \<Rightarrow> Some (Inl e)
            | Some (Inr _) \<Rightarrow> fst (await_answer H r secret (posted_at + timeout) posted_at 0 rounds)))"

section \<open>Payloads are read back\<close>

lemma split_amp: "CHR ''&'' \<notin> set a \<Longrightarrow> split_at_chars (\<lambda>c. c = CHR ''&'') (a @ CHR ''&'' # s) = a # split_at_chars (\<lambda>c. c = CHR ''&'') s"
  by (induction a) auto

lemma split_no_amp: "CHR ''&'' \<notin> set a \<Longrightarrow> split_at_chars (\<lambda>c. c = CHR ''&'') a = [a]"
  by (induction a) auto

lemma invite_scheme: "split_once_at ''://pair?'' (''nightdrop://pair?'' @ s) = Some (''nightdrop'', s)"
  by simp

lemma param_split: "CHR ''='' \<notin> set k \<Longrightarrow> split_once CHR ''='' (k @ CHR ''='' # v) = Some (k, v)"
  by (induction k) (auto simp: split_once_def)

lemma short_code_parts:
  assumes "CHR ''&'' \<notin> set addr \<union> set ik \<union> set otk \<union> set (set_text J rs)" and "\<forall>s. pass = Some s \<longrightarrow> CHR ''&'' \<notin> set (secret_text J s)"
  shows "query_parts (short_code_payload J addr ik otk rs pass)
    = Some ([''addr='' @ addr, ''ik='' @ ik, ''otk='' @ otk, ''rs='' @ set_text J rs]
            @ (case pass of None \<Rightarrow> [] | Some s \<Rightarrow> [''ck='' @ secret_text J s]))"
proof -
  let ?last = "case pass of None \<Rightarrow> [] | Some s \<Rightarrow> ''&ck='' @ secret_text J s"
  have "query_parts (short_code_payload J addr ik otk rs pass)
      = Some (split_at_chars (\<lambda>c. c = CHR ''&'') ((''addr='' @ addr) @ CHR ''&'' # (''ik='' @ ik) @ CHR ''&'' # (''otk='' @ otk)
          @ CHR ''&'' # (''rs='' @ set_text J rs) @ ?last))"
    by (simp add: query_parts_def short_code_payload_def)
  also have "split_at_chars (\<lambda>c. c = CHR ''&'') ((''addr='' @ addr) @ CHR ''&'' # (''ik='' @ ik) @ CHR ''&'' # (''otk='' @ otk)
          @ CHR ''&'' # (''rs='' @ set_text J rs) @ ?last)
      = [''addr='' @ addr, ''ik='' @ ik, ''otk='' @ otk] @ split_at_chars (\<lambda>c. c = CHR ''&'') ((''rs='' @ set_text J rs) @ ?last)"
    using assms(1) by (subst split_amp, simp)+ simp
  also have "split_at_chars (\<lambda>c. c = CHR ''&'') ((''rs='' @ set_text J rs) @ ?last)
      = (''rs='' @ set_text J rs) # (case pass of None \<Rightarrow> [] | Some s \<Rightarrow> [''ck='' @ secret_text J s])"
  proof (cases pass)
    case None
    then show ?thesis using assms(1) split_no_amp [of "''rs='' @ set_text J rs"] by simp
  next
    case (Some s)
    then show ?thesis
      using assms split_amp [of "''rs='' @ set_text J rs" "''ck='' @ secret_text J s"] split_no_amp [of "''ck='' @ secret_text J s"] by simp
  qed
  finally show ?thesis by simp
qed

text \<open>
  C39. An invite says what it was made to say. The payload sealed for a short code is read back as the address, the
  keys, the inviter's relays as the code keeps them and the pass that went into it.
\<close>

theorem invite_read_back:
  assumes "sane_address addr" and "CHR ''&'' \<notin> set ik \<union> set otk \<union> set (set_text J rs)"
    and "read_set J (set_text J rs) = Some rs"
    and "\<forall>s. pass = Some s \<longrightarrow> length s = 32 \<and> CHR ''&'' \<notin> set (secret_text J s) \<and> read_secret J (trim (secret_text J s)) = Some s"
  shows "parse_invite (short_code_payload J addr ik otk rs pass) = Some (addr, ik, otk)
    \<and> parse_invite_extras J (short_code_payload J addr ik otk rs pass) = \<lparr>extra_relays = Some (sanitize_peer_set rs), extra_pass = pass\<rparr>"
proof -
  have "CHR ''&'' \<notin> set addr" using assms(1) by (auto simp: sane_address_def list_all_iff is_ascii_alnum_def)
  then have parts: "query_parts (short_code_payload J addr ik otk rs pass)
    = Some ([''addr='' @ addr, ''ik='' @ ik, ''otk='' @ otk, ''rs='' @ set_text J rs]
            @ (case pass of None \<Rightarrow> [] | Some s \<Rightarrow> [''ck='' @ secret_text J s]))"
    using assms(2,4) by (intro short_code_parts) auto
  have keys: "split_once CHR ''='' (''addr='' @ v) = Some (''addr'', v)" "split_once CHR ''='' (''ik='' @ v) = Some (''ik'', v)"
    "split_once CHR ''='' (''otk='' @ v) = Some (''otk'', v)" "split_once CHR ''='' (''rs='' @ v) = Some (''rs'', v)"
    "split_once CHR ''='' (''ck='' @ v) = Some (''ck'', v)" for v
    by (simp_all add: split_once_def)
  have "parse_invite (short_code_payload J addr ik otk rs pass) = Some (addr, ik, otk)"
    using assms(1) parts by (cases pass) (simp_all add: parse_invite_def keys [simplified])
  moreover have "parse_invite_relay_set J (short_code_payload J addr ik otk rs pass) = Some (sanitize_peer_set rs)"
    using assms(3) by (simp add: parse_invite_relay_set_def parts strip_prefix_def)
  moreover have "Option.bind (invite_param (short_code_payload J addr ik otk rs pass) ''ck'') (decode_secret J) = pass"
  proof (cases pass)
    case None
    then show ?thesis using parts by (simp add: invite_param_def keys [simplified])
  next
    case (Some s)
    then show ?thesis using parts assms(4) by (simp add: invite_param_def keys [simplified] decode_secret_def)
  qed
  ultimately show ?thesis by (simp add: parse_invite_extras_def)
qed

section \<open>Guesses\<close>

text \<open>One call: what it answers is among the digests seen, which never exceed the cap nor shrink.\<close>

lemma answer_openers_seen:
  assumes "answer_openers H R p openers (seen, answered, answers) = (retire, seen', answered', answers')"
    and "length seen \<le> MAX_OPENERS_PER_INVITE" and "\<forall>(op, r) \<in> set answers. digest_of H op \<in> set seen"
  shows "length seen' \<le> MAX_OPENERS_PER_INVITE \<and> set seen \<subseteq> set seen' \<and> (\<forall>(op, r) \<in> set answers'. digest_of H op \<in> set seen')"
  using assms
proof (induction openers arbitrary: seen answered answers)
  case (Cons op rest)
  let ?d = "digest_of H op"
  show ?case
  proof (cases "?d \<in> set answered \<or> ?d \<notin> set seen \<and> MAX_OPENERS_PER_INVITE \<le> length seen")
    case True
    with Cons show ?thesis by (auto simp: Let_def split: if_splits)
  next
    case False
    then have new: "(?d \<in> set answered) = False" "(?d \<notin> set seen \<and> MAX_OPENERS_PER_INVITE \<le> length seen) = False" by auto
    define answers1 where "answers1 = (case build_invite_response H (R op) (pi_secret p) (pi_payload p) op of
        None \<Rightarrow> answers | Some response \<Rightarrow> answers @ [(op, response)])"
    let ?seen = "if ?d \<in> set seen then seen else seen @ [?d]"
    have "answer_openers H R p rest (?seen, answered @ [?d], answers1) = (retire, seen', answered', answers')"
      using Cons.prems(1) new by (simp only: answer_openers.simps Let_def if_False answers1_def)
    moreover have "length ?seen \<le> MAX_OPENERS_PER_INVITE" using Cons.prems(2) False by auto
    moreover have "\<forall>(op', r) \<in> set answers1. digest_of H op' \<in> set ?seen"
      using Cons.prems(3) by (auto simp: answers1_def split: option.splits)
    ultimately show ?thesis using Cons.IH [of ?seen "answered @ [?d]" answers1] by auto
  qed
qed auto

lemma answer_relays_seen:
  assumes "answer_relays H R p takes (seen, answered, answers) = (retire, seen', answered', answers')"
    and "length seen \<le> MAX_OPENERS_PER_INVITE" and "\<forall>(op, r) \<in> set answers. digest_of H op \<in> set seen"
  shows "length seen' \<le> MAX_OPENERS_PER_INVITE \<and> set seen \<subseteq> set seen' \<and> (\<forall>(op, r) \<in> set answers'. digest_of H op \<in> set seen')"
  using assms
proof (induction takes arbitrary: seen answered answers)
  case (Cons t takes)
  show ?case
  proof (cases t)
    case (Some openers)
    obtain stop seen1 answered1 answers1 where one: "answer_openers H R p openers (seen, answered, answers) = (stop, seen1, answered1, answers1)"
      by (metis prod_cases4)
    note s1 = answer_openers_seen [OF one Cons.prems(2,3)]
    show ?thesis
    proof (cases stop)
      case True
      with Cons.prems(1) Some one s1 show ?thesis by auto
    next
      case False
      with Cons.prems(1) Some one have "answer_relays H R p takes (seen1, answered1, answers1) = (retire, seen', answered', answers')" by simp
      from Cons.IH [OF this] s1 show ?thesis by blast
    qed
  qed (use Cons in simp)
qed auto

text \<open>A service round, and hosting beside it.\<close>

datatype host_op =
    Host pending_invite
  | Serve nat instant "bytes \<Rightarrow> nat" "string \<Rightarrow> bytes list option list"

fun host_step :: "('p, 'k) handshake \<Rightarrow> host_op \<Rightarrow> pending_invite list \<times> (string \<times> bytes \<times> bytes) list \<Rightarrow> pending_invite list \<times> (string \<times> bytes \<times> bytes) list" where
  "host_step H (Host p) (hosted, posted) = (filter (\<lambda>q. pi_slot q \<noteq> pi_slot p) hosted @ [p], posted)"
| "host_step H (Serve relay_count now R takes) (hosted, posted) =
     (case invite_service_plan relay_count now hosted of
        (None, hosted) \<Rightarrow> (hosted, posted)
      | (Some invites, hosted) \<Rightarrow>
          (let o' = service_invites H R takes invites
           in (apply_invite_service o' hosted, posted @ posted_answers o')))"

definition host_run :: "('p, 'k) handshake \<Rightarrow> host_op list \<Rightarrow> pending_invite list \<times> (string \<times> bytes \<times> bytes) list \<Rightarrow> pending_invite list \<times> (string \<times> bytes \<times> bytes) list" where
  "host_run H ops st = fold (host_step H) ops st"

definition slots_distinct :: "pending_invite list \<Rightarrow> bool" where
  "slots_distinct hosted = distinct (map pi_slot hosted)"

text \<open>The guesses at a slot's code that were answered.\<close>

definition guesses :: "('p, 'k) handshake \<Rightarrow> string \<Rightarrow> (string \<times> bytes \<times> bytes) list \<Rightarrow> bytes set" where
  "guesses H slot posted = {digest_of H op | op r. (slot, op, r) \<in> set posted}"

lemma guesses_append [simp]: "guesses H slot (a @ b) = guesses H slot a \<union> guesses H slot b"
  by (auto simp: guesses_def)

lemma service_one_adds:
  "openers_seen (service_one H R takes p o') = openers_seen o' @ openers_seen (service_one H R takes p \<lparr>openers_seen = [], retired = [], posted_answers = []\<rparr>)"
  "retired (service_one H R takes p o') = retired o' @ retired (service_one H R takes p \<lparr>openers_seen = [], retired = [], posted_answers = []\<rparr>)"
  "posted_answers (service_one H R takes p o') = posted_answers o' @ posted_answers (service_one H R takes p \<lparr>openers_seen = [], retired = [], posted_answers = []\<rparr>)"
  by (auto simp: service_one_def Let_def split: prod.splits)

lemma service_fold:
  assumes "distinct (map pi_slot invites)"
  shows "openers_seen (fold (service_one H R takes) invites o') = openers_seen o' @ openers_seen (service_invites H R takes invites)
    \<and> retired (fold (service_one H R takes) invites o') = retired o' @ retired (service_invites H R takes invites)
    \<and> posted_answers (fold (service_one H R takes) invites o') = posted_answers o' @ posted_answers (service_invites H R takes invites)"
  using assms
proof (induction invites arbitrary: o')
  case (Cons p invites)
  let ?e = "\<lparr>openers_seen = [], retired = [], posted_answers = []\<rparr>"
  from Cons have "distinct (map pi_slot invites)" by simp
  from Cons.IH [OF this, of "service_one H R takes p o'"] Cons.IH [OF this, of "service_one H R takes p ?e"]
    service_one_adds [of H R takes p o']
  show ?case by (simp add: service_invites_def)
qed (simp add: service_invites_def)

lemma service_Cons:
  assumes "distinct (map pi_slot (p # invites))"
    and "answer_relays H R p (takes (pi_slot p)) (pi_openers p, [], []) = (retire, seen, answered, answers)"
  shows "openers_seen (service_invites H R takes (p # invites)) = (pi_slot p, seen) # openers_seen (service_invites H R takes invites)
    \<and> retired (service_invites H R takes (p # invites)) = (if retire then [pi_slot p] else []) @ retired (service_invites H R takes invites)
    \<and> posted_answers (service_invites H R takes (p # invites))
        = map (\<lambda>(op, r). (pi_slot p, op, r)) answers @ posted_answers (service_invites H R takes invites)"
proof -
  let ?e = "\<lparr>openers_seen = [], retired = [], posted_answers = []\<rparr>"
  from assms(1) have d: "distinct (map pi_slot invites)" by simp
  show ?thesis
    using service_fold [OF d, of H R takes "service_one H R takes p ?e"] assms(2)
    by (simp add: service_invites_def service_one_def Let_def)
qed

text \<open>What a round does for one slot.\<close>

lemma service_slots: "fst ` set (openers_seen (service_invites H R takes invites)) \<subseteq> pi_slot ` set invites
    \<and> set (retired (service_invites H R takes invites)) \<subseteq> pi_slot ` set invites
    \<and> fst ` set (posted_answers (service_invites H R takes invites)) \<subseteq> pi_slot ` set invites"
  if "distinct (map pi_slot invites)"
  using that
proof (induction invites)
  case (Cons p invites)
  obtain retire seen answered answers where
    a: "answer_relays H R p (takes (pi_slot p)) (pi_openers p, [], []) = (retire, seen, answered, answers)" by (metis prod_cases4)
  from service_Cons [where takes = takes, OF Cons.prems a] Cons show ?case by auto
qed (simp add: service_invites_def)

lemma note_openers_slots [simp]: "map pi_slot (note_openers se hosted) = map pi_slot hosted"
proof -
  have "map pi_slot (update_first p (\<lambda>p. p\<lparr>pi_openers := x\<rparr>) hosted) = map pi_slot hosted" for p x
    by (induction hosted) auto
  then show ?thesis by (simp add: note_openers_def)
qed

lemma notes_slots [simp]: "map pi_slot (fold note_openers ses hosted) = map pi_slot hosted"
  by (induction ses arbitrary: hosted) simp_all

lemma notes_keep:
  assumes "p \<in> set (fold note_openers ses hosted)" and "pi_slot p \<notin> fst ` set ses"
  shows "p \<in> set hosted"
proof -
  have one: "q \<in> set hosted" if "q \<in> set (note_openers se hosted)" "pi_slot q \<noteq> fst se" for q se hosted
  proof -
    have "q \<in> set (update_first (\<lambda>p. pi_slot p = fst se) (\<lambda>p. p\<lparr>pi_openers := snd se\<rparr>) hosted) \<Longrightarrow> q \<in> set hosted"
      using that(2) by (induction hosted) (auto split: if_splits)
    with that(1) show ?thesis by (simp add: note_openers_def)
  qed
  show ?thesis using assms by (induction ses arbitrary: hosted) (auto dest: one)
qed

lemma note_openers_sets:
  assumes "distinct (map pi_slot hosted)" and "q \<in> set (note_openers (slot, seen) hosted)" and "pi_slot q = slot"
  shows "pi_openers q = seen"
proof -
  have "pi_openers q = seen" if "q \<in> set (update_first (\<lambda>p. pi_slot p = slot) (\<lambda>p. p\<lparr>pi_openers := seen\<rparr>) ps)" "distinct (map pi_slot ps)" for ps
    using that
  proof (induction ps)
    case (Cons y ps)
    show ?case
    proof (cases "pi_slot y = slot")
      case True
      have "q \<notin> set ps" using Cons.prems(2) assms(3) True by (metis distinct.simps(2) image_eqI list.set_map list.simps(9))
      with True Cons.prems(1) show ?thesis by simp
    next
      case False
      then have "q \<noteq> y" using assms(3) by blast
      with False Cons show ?thesis by simp
    qed
  qed simp
  from this [of hosted] assms(1,2) show ?thesis by (simp add: note_openers_def)
qed

lemma notes_set:
  assumes "distinct (map fst ses)" and "distinct (map pi_slot hosted)" and "(slot, seen) \<in> set ses"
    and "q \<in> set (fold note_openers ses hosted)" and "pi_slot q = slot"
  shows "pi_openers q = seen"
  using assms
proof (induction ses arbitrary: hosted)
  case (Cons se ses)
  show ?case
  proof (cases "se = (slot, seen)")
    case True
    have "slot \<notin> fst ` set ses" using Cons.prems(1) True by simp
    moreover have "q \<in> set (fold note_openers ses (note_openers (slot, seen) hosted))" using Cons.prems(4) True by simp
    ultimately have "q \<in> set (note_openers (slot, seen) hosted)" using Cons.prems(5)
      notes_keep [of q ses "note_openers (slot, seen) hosted"] by blast
    from note_openers_sets [OF Cons.prems(2) this Cons.prems(5)] show ?thesis .
  next
    case False
    show ?thesis
    proof (rule Cons.IH)
      show "distinct (map pi_slot (note_openers se hosted))" using Cons.prems(2) by simp
    qed (use Cons.prems False in simp_all)
  qed
qed simp

lemma service_slot:
  assumes "distinct (map pi_slot invites)" and "p \<in> set invites"
    and "answer_relays H R p (takes (pi_slot p)) (pi_openers p, [], []) = (retire, seen, answered, answers)"
  shows "(pi_slot p, seen) \<in> set (openers_seen (service_invites H R takes invites))
    \<and> {(op, r). (pi_slot p, op, r) \<in> set (posted_answers (service_invites H R takes invites))} = set answers
    \<and> (pi_slot p \<in> set (retired (service_invites H R takes invites)) \<longleftrightarrow> retire)"
  using assms
proof (induction invites)
  case (Cons q invites)
  obtain retire' seen' answered' answers' where
    a: "answer_relays H R q (takes (pi_slot q)) (pi_openers q, [], []) = (retire', seen', answered', answers')" by (metis prod_cases4)
  note c = service_Cons [where takes = takes, OF Cons.prems(1) a]
  from Cons.prems(1) have d: "distinct (map pi_slot invites)" by simp
  show ?case
  proof (cases "p = q")
    case True
    with a Cons.prems(3) have eq: "retire' = retire" "seen' = seen" "answers' = answers" by auto
    have "pi_slot p \<notin> pi_slot ` set invites" using Cons.prems(1) True by auto
    with service_slots [OF d, of H R takes] have
      "pi_slot p \<notin> set (retired (service_invites H R takes invites))" "\<forall>op r. (pi_slot p, op, r) \<notin> set (posted_answers (service_invites H R takes invites))"
      by (blast, metis fst_conv image_eqI subsetD)
    then have none: "(pi_slot p \<in> set (retired (service_invites H R takes invites))) = False"
      "{(op, r). (pi_slot p, op, r) \<in> set (posted_answers (service_invites H R takes invites))} = {}" by auto
    have "openers_seen (service_invites H R takes (q # invites)) = (pi_slot p, seen) # openers_seen (service_invites H R takes invites)"
      using c eq True by blast
    moreover have "retired (service_invites H R takes (q # invites)) = (if retire then [pi_slot p] else []) @ retired (service_invites H R takes invites)"
      using c eq True by blast
    moreover have "posted_answers (service_invites H R takes (q # invites))
        = map (\<lambda>(op, r). (pi_slot p, op, r)) answers @ posted_answers (service_invites H R takes invites)"
      using c eq True by blast
    ultimately show ?thesis using none by (intro conjI) (simp, fastforce, simp)
  next
    case False
    with Cons.prems(2) have p: "p \<in> set invites" by simp
    have "pi_slot p \<noteq> pi_slot q"
      using Cons.prems(1) p by (metis distinct.simps(2) image_eqI list.set_map list.simps(9))
    with p have "p \<in> set invites" "pi_slot p \<noteq> pi_slot q" by blast+
    with Cons.IH [OF d] Cons.prems(3) c show ?thesis by auto
  qed
qed simp

lemma service_keys: "distinct (map pi_slot invites) \<Longrightarrow> map fst (openers_seen (service_invites H R takes invites)) = map pi_slot invites"
proof (induction invites)
  case (Cons p invites)
  obtain retire seen answered answers where
    a: "answer_relays H R p (takes (pi_slot p)) (pi_openers p, [], []) = (retire, seen, answered, answers)" by (metis prod_cases4)
  from service_Cons [where takes = takes, OF Cons.prems a] Cons show ?case by simp
qed (simp add: service_invites_def)

text \<open>What is known of a slot: at most as many guesses answered as the cap allows, all of them counted while it is hosted.\<close>

definition guesses_counted :: "('p, 'k) handshake \<Rightarrow> string \<Rightarrow> pending_invite list \<times> (string \<times> bytes \<times> bytes) list \<Rightarrow> bool" where
  "guesses_counted H slot st \<longleftrightarrow> slots_distinct (fst st) \<and> finite (guesses H slot (snd st)) \<and> card (guesses H slot (snd st)) \<le> MAX_OPENERS_PER_INVITE
     \<and> (\<forall>p \<in> set (fst st). pi_slot p = slot \<longrightarrow> length (pi_openers p) \<le> MAX_OPENERS_PER_INVITE \<and> guesses H slot (snd st) \<subseteq> set (pi_openers p))"

lemma card_of_list: "A \<subseteq> set xs \<Longrightarrow> finite A \<and> card A \<le> length xs"
  by (meson List.finite_set card_length card_mono finite_subset le_trans)

lemma counted_serve:
  assumes "guesses_counted H slot (hosted, posted)"
  shows "guesses_counted H slot (host_step H (Serve relay_count now R takes) (hosted, posted))"
proof -
  define alive where "alive = filter (\<lambda>p. now < pi_expiry p) hosted"
  have d: "distinct (map pi_slot alive)" using assms distinct_map_filter by (auto simp: guesses_counted_def slots_distinct_def alive_def)
  have kept: "guesses_counted H slot (alive, posted)" using assms d by (auto simp: guesses_counted_def slots_distinct_def alive_def)
  show ?thesis
  proof (cases "alive = [] \<or> relay_count = 0")
    case True
    then have "host_step H (Serve relay_count now R takes) (hosted, posted) = (alive, posted)"
      unfolding host_step.simps invite_service_plan_def Let_def alive_def [symmetric] by auto
    with kept show ?thesis by simp
  next
    case False
    define out where "out = service_invites H R takes alive"
    have step: "host_step H (Serve relay_count now R takes) (hosted, posted) = (apply_invite_service out alive, posted @ posted_answers out)"
      using False unfolding host_step.simps invite_service_plan_def Let_def alive_def [symmetric] out_def by auto
    have d': "distinct (map pi_slot (apply_invite_service out alive))"
      by (simp add: apply_invite_service_def distinct_map_filter d)
    show ?thesis
    proof (cases "slot \<in> pi_slot ` set alive")
      case True
      then obtain p where p: "p \<in> set alive" "pi_slot p = slot" by auto
      obtain retire seen answered answers where
        a: "answer_relays H R p (takes (pi_slot p)) (pi_openers p, [], []) = (retire, seen, answered, answers)" by (metis prod_cases4)
      from kept p have "length (pi_openers p) \<le> MAX_OPENERS_PER_INVITE" "guesses H slot posted \<subseteq> set (pi_openers p)" by (auto simp: guesses_counted_def)
      with answer_relays_seen [OF a] have seen: "length seen \<le> MAX_OPENERS_PER_INVITE" "guesses H slot posted \<subseteq> set seen"
        "\<forall>(op, r) \<in> set answers. digest_of H op \<in> set seen" by auto
      note s = service_slot [where takes = takes, OF d p(1) a, folded out_def, unfolded p(2)]
      have "guesses H slot (posted_answers out) \<subseteq> set seen" using s seen(3) by (fastforce simp: guesses_def)
      with seen(2) have g: "guesses H slot (posted @ posted_answers out) \<subseteq> set seen" by simp
      moreover have "pi_openers q = seen" if "q \<in> set (apply_invite_service out alive)" "pi_slot q = slot" for q
        using that s d service_keys [OF d, of H R takes]
        by (intro notes_set [of "openers_seen out" alive slot seen q]) (auto simp: apply_invite_service_def out_def)
      ultimately show ?thesis
        using step d' card_of_list [OF g] seen(1) by (auto simp: guesses_counted_def slots_distinct_def)
    next
      case False
      with service_slots [OF d, of H R takes] have "guesses H slot (posted_answers out) = {}" by (force simp: guesses_def out_def)
      moreover have "slot \<notin> pi_slot ` set (apply_invite_service out alive)"
      proof -
        have "pi_slot ` set (apply_invite_service out alive) \<subseteq> pi_slot ` set (fold note_openers (openers_seen out) alive)"
          unfolding apply_invite_service_def set_filter by blast
        also have "\<dots> = pi_slot ` set alive"
          using notes_slots [of "openers_seen out" alive] by (metis list.set_map)
        finally show ?thesis using False by blast
      qed
      ultimately show ?thesis using step d' kept by (auto simp: guesses_counted_def slots_distinct_def)
    qed
  qed
qed

lemma counted_host:
  assumes "guesses_counted H slot (hosted, posted)" and "pi_slot p \<noteq> slot"
  shows "guesses_counted H slot (host_step H (Host p) (hosted, posted))"
  using assms by (auto simp: guesses_counted_def slots_distinct_def distinct_map_filter)

text \<open>
  C38. A short code can be guessed at three times. From the moment an invite is hosted, whatever relays hand out in
  however many rounds, and whatever else is hosted meanwhile, the openers answered for its slot have at most
  three different digests, unless its slot is hosted anew.
\<close>

theorem code_guesses_bounded:
  assumes "slots_distinct hosted" and "pi_openers p = []" and "\<forall>(slot, answer) \<in> set posted. slot \<noteq> pi_slot p"
    and "\<forall>q. Host q \<in> set ops \<longrightarrow> pi_slot q \<noteq> pi_slot p"
  shows "finite (guesses H (pi_slot p) (snd (host_run H (Host p # ops) (hosted, posted))))
    \<and> card (guesses H (pi_slot p) (snd (host_run H (Host p # ops) (hosted, posted)))) \<le> 3"
proof -
  have none: "guesses H (pi_slot p) posted = {}" using assms(3) by (force simp: guesses_def)
  have start: "guesses_counted H (pi_slot p) (host_step H (Host p) (hosted, posted))"
    using assms(1,2) none by (auto simp: guesses_counted_def slots_distinct_def distinct_map_filter MAX_OPENERS_PER_INVITE_def)
  have "guesses_counted H (pi_slot p) (fold (host_step H) ops st)" if "guesses_counted H (pi_slot p) st" for st
    using that assms(4)
  proof (induction ops arbitrary: st)
    case (Cons op ops)
    obtain h ps where st: "st = (h, ps)" by fastforce
    have "guesses_counted H (pi_slot p) (host_step H op st)"
    proof (cases op)
      case (Host q)
      with Cons.prems have "guesses_counted H (pi_slot p) (h, ps)" "pi_slot q \<noteq> pi_slot p" by (simp_all add: st)
      then show ?thesis unfolding st Host by (rule counted_host)
    next
      case (Serve relay_count now R takes)
      with Cons.prems show ?thesis by (simp only: st counted_serve)
    qed
    with Cons show ?case by simp
  qed simp
  from this [OF start] show ?thesis by (simp add: host_run_def guesses_counted_def MAX_OPENERS_PER_INVITE_def)
qed

text \<open>An invite staged anew under a slot whose round is still out gets the old one's openers, or goes with it.\<close>

lemma replaced_invite_inherits:
  assumes "stage_invite relay_count q hosted = Some hosted'" and "pi_slot q = slot"
  shows "apply_invite_service \<lparr>openers_seen = [(slot, seen)], retired = (if retire then [slot] else []), posted_answers = answers\<rparr> hosted'
    = (if retire then filter (\<lambda>p. pi_slot p \<noteq> slot) hosted else filter (\<lambda>p. pi_slot p \<noteq> slot) hosted @ [q\<lparr>pi_openers := seen\<rparr>])"
proof -
  have h: "hosted' = filter (\<lambda>p. pi_slot p \<noteq> slot) hosted @ [q]" using assms by (auto simp: stage_invite_def split: if_splits)
  have "update_first (\<lambda>p. pi_slot p = slot) f (filter (\<lambda>p. pi_slot p \<noteq> slot) xs @ [q]) = filter (\<lambda>p. pi_slot p \<noteq> slot) xs @ [f q]" for f and xs :: "pending_invite list"
    using assms(2) by (induction xs) auto
  then show ?thesis using assms(2) by (simp add: h apply_invite_service_def note_openers_def)
qed

section \<open>A joiner with the code\<close>

definition taken_blobs :: "bytes list option list \<Rightarrow> bytes list" where
  "taken_blobs takes = concat (map (\<lambda>t. case t of None \<Rightarrow> [] | Some blobs \<Rightarrow> blobs) takes)"

lemma answer_openers_append:
  "answer_openers H R p (xs @ ys) st = (case answer_openers H R p xs st of (True, st) \<Rightarrow> (True, st) | (False, st) \<Rightarrow> answer_openers H R p ys st)"
  by (induction H R p xs st rule: answer_openers.induct) (simp_all add: Let_def)

lemma answer_relays_flat: "answer_relays H R p takes st = answer_openers H R p (taken_blobs takes) st"
proof (induction takes arbitrary: st)
  case (Cons t takes)
  show ?case
  proof (cases t)
    case None
    with Cons show ?thesis by (simp add: taken_blobs_def)
  next
    case (Some blobs)
    with Cons show ?thesis
      by (simp add: taken_blobs_def answer_openers_append split: prod.splits bool.splits)
  qed
qed (simp add: taken_blobs_def)

text \<open>With no more than three different openers in all, none is refused, and each that builds an answer is answered once.\<close>

lemma answered_once:
  assumes "\<forall>o' \<in> set ops. digest_of H o' = digest_of H op \<longrightarrow> o' = op"
    and "distinct seen" and "card (set seen \<union> digest_of H ` set ops) \<le> MAX_OPENERS_PER_INVITE"
    and "build_invite_response H (R op) (pi_secret p) (pi_payload p) op = Some response"
  shows "\<exists>seen' answered' new. answer_openers H R p ops (seen, answered, answers) = (False, seen', answered', answers @ new)
    \<and> filter (\<lambda>(o', r). o' = op) new = (if op \<in> set ops \<and> digest_of H op \<notin> set answered then [(op, response)] else [])"
  using assms(1-3)
proof (induction ops arbitrary: seen answered answers)
  case (Cons x ops)
  let ?d = "digest_of H x"
  have same: "\<forall>o' \<in> set ops. digest_of H o' = digest_of H op \<longrightarrow> o' = op" and x: "?d = digest_of H op \<longrightarrow> x = op"
    using Cons.prems(1) by auto
  have fin: "finite (set seen \<union> digest_of H ` set (x # ops))" by simp
  show ?case
  proof (cases "?d \<in> set answered")
    case True
    have "set seen \<union> digest_of H ` set ops \<subseteq> set seen \<union> digest_of H ` set (x # ops)" by auto
    from card_mono [OF fin this] Cons.prems(3) have "card (set seen \<union> digest_of H ` set ops) \<le> MAX_OPENERS_PER_INVITE" by simp
    from Cons.IH [OF same Cons.prems(2) this, of answered answers] True show ?thesis by auto
  next
    case False
    let ?seen = "if ?d \<in> set seen then seen else seen @ [?d]"
    have "(?d \<notin> set seen \<and> MAX_OPENERS_PER_INVITE \<le> length seen) = False"
    proof (rule ccontr)
      assume "(?d \<notin> set seen \<and> MAX_OPENERS_PER_INVITE \<le> length seen) \<noteq> False"
      then have "Suc MAX_OPENERS_PER_INVITE \<le> card (insert ?d (set seen))"
        using Cons.prems(2) by (simp add: distinct_card)
      also have "\<dots> \<le> card (set seen \<union> digest_of H ` set (x # ops))" by (rule card_mono [OF fin]) auto
      finally show False using Cons.prems(3) by simp
    qed
    moreover define answers1 where "answers1 = (case build_invite_response H (R x) (pi_secret p) (pi_payload p) x of
        None \<Rightarrow> [] | Some r \<Rightarrow> [(x, r)])"
    ultimately have step: "answer_openers H R p (x # ops) (seen, answered, answers)
        = answer_openers H R p ops (?seen, answered @ [?d], answers @ answers1)"
    proof -
      have new: "(?d \<in> set answered) = False" using False by simp
      show ?thesis
        by (simp only: answer_openers.simps Let_def new if_False answers1_def
            \<open>(?d \<notin> set seen \<and> MAX_OPENERS_PER_INVITE \<le> length seen) = False\<close>)
          (simp split: option.split)
    qed
    have "distinct ?seen" using Cons.prems(2) by simp
    moreover have "set ?seen \<union> digest_of H ` set ops = set seen \<union> digest_of H ` set (x # ops)" by auto
    with Cons.prems(3) have "card (set ?seen \<union> digest_of H ` set ops) \<le> MAX_OPENERS_PER_INVITE" by (simp only:)
    ultimately obtain seen' answered' new where
      rest: "answer_openers H R p ops (?seen, answered @ [?d], answers @ answers1) = (False, seen', answered', (answers @ answers1) @ new)"
      and one: "filter (\<lambda>(o', r). o' = op) new = (if op \<in> set ops \<and> digest_of H op \<notin> set (answered @ [?d]) then [(op, response)] else [])"
      using Cons.IH [OF same, of ?seen "answered @ [?d]" "answers @ answers1"] by blast
    have "filter (\<lambda>(o', r). o' = op) (answers1 @ new)
        = (if op \<in> set (x # ops) \<and> digest_of H op \<notin> set answered then [(op, response)] else [])"
    proof (cases "x = op")
      case True
      with False one assms(4) show ?thesis by (simp add: answers1_def)
    next
      case other: False
      then have "filter (\<lambda>(o', r). o' = op) answers1 = []" by (simp add: answers1_def split: option.splits)
      moreover have "?d \<noteq> digest_of H op" using x other by blast
      ultimately show ?thesis using one other by auto
    qed
    with step rest show ?thesis by (metis append.assoc)
  qed
qed simp

lemma service_posted:
  assumes "distinct (map pi_slot invites)" and "p \<in> set invites"
    and "answer_relays H R p (takes (pi_slot p)) (pi_openers p, [], []) = (retire, seen, answered, answers)"
  shows "filter (\<lambda>(s, _). s = pi_slot p) (posted_answers (service_invites H R takes invites)) = map (\<lambda>(op, r). (pi_slot p, op, r)) answers"
  using assms
proof (induction invites)
  case (Cons q invites)
  obtain retire' seen' answered' answers' where
    a: "answer_relays H R q (takes (pi_slot q)) (pi_openers q, [], []) = (retire', seen', answered', answers')" by (metis prod_cases4)
  have c: "posted_answers (service_invites H R takes (q # invites))
      = map (\<lambda>(op, r). (pi_slot q, op, r)) answers' @ posted_answers (service_invites H R takes invites)"
    using service_Cons [where takes = takes, OF Cons.prems(1) a] by blast
  from Cons.prems(1) have d: "distinct (map pi_slot invites)" "pi_slot q \<notin> pi_slot ` set invites" by auto
  show ?case
  proof (cases "p = q")
    case True
    with service_slots [OF d(1), of H R takes] d(2) have "pi_slot p \<notin> fst ` set (posted_answers (service_invites H R takes invites))" by blast
    then have "filter (\<lambda>(s, _). s = pi_slot p) (posted_answers (service_invites H R takes invites)) = []"
      by (force simp: filter_empty_conv)
    moreover have "answers' = answers" using a Cons.prems(3) True by simp
    moreover have "filter (\<lambda>(s, _). s = pi_slot p) (map (\<lambda>(op, r). (pi_slot p, op, r)) answers) = map (\<lambda>(op, r). (pi_slot p, op, r)) answers"
      by (induction answers) auto
    ultimately show ?thesis using True by (simp add: c)
  next
    case False
    with Cons.prems(2) have p: "p \<in> set invites" by simp
    then have "pi_slot q \<noteq> pi_slot p" using d(2) by auto
    then have "filter (\<lambda>(s, _). s = pi_slot p) (map (\<lambda>(op, r). (pi_slot q, op, r)) answers') = []" by auto
    with Cons.IH [OF d(1) p Cons.prems(3)] show ?thesis by (simp add: c)
  qed
qed simp

lemma find_map_skips: "\<forall>b \<in> set junk. f b = None \<Longrightarrow> find_map f (junk @ x # rest) = (case f x of None \<Rightarrow> find_map f rest | Some y \<Rightarrow> Some y)"
  by (induction junk) (simp_all split: option.splits)

text \<open>
  C37. A joiner with the right code is paired, among guesses of others. If its opener is in what any of the inviter's
  relays hands out while the invite is hosted, and the openers handed out make, with those answered before, no more
  than three different ones, one service round answers it exactly once however many copies there are, and the invite
  stays hosted. If that answer is the first of the form of an answer that the joiner finds in a round before its
  time is up, it gives it the inviter's payload. (All openers of a code are answered in one mailbox, so an answer to
  another opener that is found first ends the attempt.)
\<close>

theorem short_code_pairs:
  assumes pake: "\<And>pw a b. \<exists>k. pake_finish H (fst (pake_start H pw a)) (snd (pake_start H pw b)) = Some k
        \<and> pake_finish H (fst (pake_start H pw b)) (snd (pake_start H pw a)) = Some k"
    and kem: "\<And>a e. \<exists>ct ss. kem_encapsulate H (snd (kem_generate H a)) e = Some (ct, ss) \<and> kem_decapsulate H (fst (kem_generate H a)) ct = Some ss
        \<and> length ct < 2 ^ 32"
    and aead: "\<And>k e. \<exists>b. seal_with H k (text_bytes (pi_payload p)) e = Some b \<and> open_with H k b = Some (text_bytes (pi_payload p)) \<and> length b < 2 ^ 32"
    and lengths: "\<And>pw a. length (snd (pake_start H pw a)) < 2 ^ 32" "\<And>a. length (snd (kem_generate H a)) < 2 ^ 32"
    and hosted: "slots_distinct hosted" "p \<in> set hosted" "now < pi_expiry p" "0 < relay_count" "utf8_valid (pi_payload p)"
    and opener: "opener = opener_of H j (pi_secret p)" "opener \<in> set (taken_blobs (takes (pi_slot p)))"
      "\<forall>op \<in> set (taken_blobs (takes (pi_slot p))). digest_of H op = digest_of H opener \<longrightarrow> op = opener"
    and left: "distinct (pi_openers p)" "card (set (pi_openers p) \<union> digest_of H ` set (taken_blobs (takes (pi_slot p)))) \<le> 3"
    and round: "after = host_step H (Serve relay_count now R takes) (hosted, [])"
  shows "\<exists>response. filter (\<lambda>(s, op, r). s = pi_slot p \<and> op = opener) (snd after) = [(pi_slot p, opener, response)]
    \<and> pi_slot p \<in> pi_slot ` set (fst after)
    \<and> (\<forall>deadline last reposts clock awake taken rounds junk rest.
         clock < deadline \<and> taken_blobs taken = junk @ response # rest \<and> (\<forall>b \<in> set junk. three_fields b = None) \<longrightarrow>
         fst (await_answer H j (pi_secret p) deadline last reposts ((clock, awake, taken) # rounds)) = Some (Inr (pi_payload p)))"
proof -
  let ?pw = "text_bytes (pi_secret p)" and ?i = "R opener"
  obtain k where k: "pake_finish H (fst (pake_start H ?pw ?i)) (snd (pake_start H ?pw j)) = Some k"
    "pake_finish H (fst (pake_start H ?pw j)) (snd (pake_start H ?pw ?i)) = Some k" using pake by blast
  obtain ct ss where ct: "kem_encapsulate H (snd (kem_generate H j)) ?i = Some (ct, ss)" "kem_decapsulate H (fst (kem_generate H j)) ct = Some ss"
    "length ct < 2 ^ 32" using kem by blast
  obtain b where b: "seal_with H (hybrid_seal_key H k ss) (text_bytes (pi_payload p)) ?i = Some b"
    "open_with H (hybrid_seal_key H k ss) b = Some (text_bytes (pi_payload p))" "length b < 2 ^ 32" using aead by blast
  define response where "response = put_field (snd (pake_start H ?pw ?i)) @ put_field ct @ put_field b"
  have fields: "two_fields opener = Some (snd (pake_start H ?pw j), snd (kem_generate H j))"
    using lengths take_put_field [of "snd (kem_generate H j)" "[]"] by (simp add: opener(1) opener_of_def two_fields_def)
  have built: "build_invite_response H (R opener) (pi_secret p) (pi_payload p) opener = Some response"
    by (simp add: build_invite_response_def fields k(1) ct(1) b(1) response_def case_prod_unfold Let_def)
  have read: "three_fields response = Some (snd (pake_start H ?pw ?i), ct, b)"
    using lengths ct(3) b(3) take_put_field [of b "[]"] by (simp add: response_def three_fields_def)
  have fin: "finish_join H j (pi_secret p) (snd (pake_start H ?pw ?i), ct, b) = Inr (pi_payload p)"
    using hosted(5) by (simp add: finish_join_def k(2) ct(2) b(2))
  define alive where "alive = filter (\<lambda>p. now < pi_expiry p) hosted"
  have p: "p \<in> set alive" and d: "distinct (map pi_slot alive)"
    using hosted(1-3) distinct_map_filter by (auto simp: alive_def slots_distinct_def)
  obtain seen' answered' new where a: "answer_relays H R p (takes (pi_slot p)) (pi_openers p, [], []) = (False, seen', answered', new)"
    and one: "filter (\<lambda>(o', r). o' = opener) new = [(opener, response)]"
    using answered_once [where R = R and p = p and answered = "[]" and answers = "[]", OF opener(3) left(1) _ built] left(2) opener(2)
    by (auto simp: answer_relays_flat MAX_OPENERS_PER_INVITE_def)
  have "alive \<noteq> []" "relay_count \<noteq> 0" using p hosted(4) by auto
  then have out: "after = (apply_invite_service (service_invites H R takes alive) alive, posted_answers (service_invites H R takes alive))"
    unfolding round host_step.simps invite_service_plan_def Let_def alive_def [symmetric] by simp
  have "filter (\<lambda>(s, op, r). s = pi_slot p \<and> op = opener) (snd after)
      = filter (\<lambda>(s, op, r). op = opener) (filter (\<lambda>(s, _). s = pi_slot p) (snd after))"
    by (simp add: case_prod_unfold conj_commute)
  also have "\<dots> = filter (\<lambda>(s, op, r). op = opener) (map (\<lambda>(op, r). (pi_slot p, op, r)) new)"
    unfolding out snd_conv service_posted [where takes = takes, OF d p a] ..
  also have "\<dots> = map (\<lambda>(op, r). (pi_slot p, op, r)) (filter (\<lambda>(o', r). o' = opener) new)"
    by (simp add: filter_map o_def case_prod_unfold)
  finally have posted: "filter (\<lambda>(s, op, r). s = pi_slot p \<and> op = opener) (snd after) = [(pi_slot p, opener, response)]"
    by (simp add: one)
  have "pi_slot p \<notin> set (retired (service_invites H R takes alive))"
    using service_slot [where takes = takes, OF d p a] by blast
  moreover have "pi_slot p \<in> pi_slot ` set (fold note_openers (openers_seen (service_invites H R takes alive)) alive)"
    using p by (metis image_eqI list.set_map notes_slots)
  ultimately have stays: "pi_slot p \<in> pi_slot ` set (fst after)" by (auto simp: out apply_invite_service_def)
  have found: "fst (await_answer H j (pi_secret p) deadline last reposts ((clock, awake, taken) # rounds)) = Some (Inr (pi_payload p))"
    if "clock < deadline" "taken_blobs taken = junk @ response # rest" "\<forall>b \<in> set junk. three_fields b = None"
    for deadline last clock awake :: instant and reposts taken rounds junk rest
    using that find_map_skips [OF that(3), of response rest] by (simp add: taken_blobs_def read fin Let_def)
  show ?thesis by (intro exI [of _ response] conjI posted stays) (use found in blast)
qed

text \<open>
  C40. Joining ends. A round of posting that reached no relay waits two seconds and a round of waiting for the answer
  half a second, so after 121 of the one and one more of the other than fit the timeout the call has returned.
\<close>

theorem join_ends:
  assumes "\<forall>i < length posts. start + i * POST_RETRY_INTERVAL \<le> snd (posts ! i)" and "121 \<le> length posts"
    and "\<forall>i < length rounds. posted_at + i * RENDEZVOUS_POLL \<le> fst (rounds ! i)" and "timeout \<le> (length rounds - 1) * RENDEZVOUS_POLL" and "rounds \<noteq> []"
  shows "run_join_handshake H r relay_count secret timeout start posts posted_at rounds \<noteq> None"
proof -
  have post: "post_opener deadline ps \<noteq> None" if "\<exists>x \<in> set ps. deadline \<le> snd x" for deadline ps
    using that by (induction deadline ps rule: post_opener.induct) (auto simp: Let_def)
  have wait: "fst (await_answer H r secret deadline last reposts rs) \<noteq> None" if "\<exists>x \<in> set rs. deadline \<le> fst x" for deadline last reposts rs
    using that
  proof (induction rs arbitrary: last reposts)
    case (Cons x rs)
    obtain clock awake taken where x: "x = (clock, awake, taken)" by (cases x)
    show ?case
      using Cons by (cases "deadline \<le> clock"; cases "find_map three_fields (concat (map (\<lambda>t. case t of None \<Rightarrow> [] | Some blobs \<Rightarrow> blobs) taken))")
        (simp_all add: x Let_def)
  qed simp
  have "posts ! 120 \<in> set posts" "start + 120 * POST_RETRY_INTERVAL \<le> snd (posts ! 120)" using assms(1,2) by auto
  then have "\<exists>x \<in> set posts. start + POST_ESTABLISH_TIMEOUT \<le> snd x"
    by (intro bexI [of _ "posts ! 120"]) (simp_all add: POST_RETRY_INTERVAL_def POST_ESTABLISH_TIMEOUT_def secs_def)
  then have p: "post_opener (start + POST_ESTABLISH_TIMEOUT) posts \<noteq> None" by (rule post)
  have last: "length rounds - 1 < length rounds" using assms(5) by simp
  then have "posted_at + timeout \<le> fst (rounds ! (length rounds - 1))" using assms(3,4) by (meson add_left_mono le_trans)
  with last have "\<exists>x \<in> set rounds. posted_at + timeout \<le> fst x" by (meson nth_mem)
  then have "fst (await_answer H r secret (posted_at + timeout) posted_at 0 rounds) \<noteq> None" by (rule wait)
  with p show ?thesis by (auto simp: run_join_handshake_def split: sum.splits)
qed

section \<open>Concrete runs\<close>

text \<open>Primitives in the clear: both sides derive the secret itself, and a sealed blob starts with its key.\<close>

definition plain_shake :: "(bytes, unit) handshake" where
  "plain_shake =
     \<lparr>pake_start = (\<lambda>pw _. (pw, [7])), pake_finish = (\<lambda>pw _. Some pw), kem_generate = (\<lambda>_. ((), [1])),
      kem_encapsulate = (\<lambda>_ _. Some ([2], [3])), kem_decapsulate = (\<lambda>_ _. Some [3]), hybrid_seal_key = (\<lambda>a b. take 4 (a @ b)),
      seal_with = (\<lambda>k pt _. Some (take 4 k @ pt)),
      open_with = (\<lambda>k b. if prefix (take 4 k) b then Some (drop (length (take 4 k)) b) else None), digest_of = id\<rparr>"

definition cedar_invite :: pending_invite where
  "cedar_invite = \<lparr>pi_slot = ''s1'', pi_secret = ''cedar'', pi_payload = ''pair'', pi_ttl = 600, pi_expiry = 1000, pi_openers = []\<rparr>"

theorem invite_read_back_witness:
  "parse_invite (short_code_payload \<lparr>set_text = (\<lambda>_. ''e30''), read_set = (\<lambda>_. Some \<lparr>nightdrop = True, set_relays = []\<rparr>),
       secret_text = (\<lambda>_. ''AAAA''), read_secret = (\<lambda>_. Some (replicate 32 0))\<rparr> ''bob.onion:1'' ''ik='' ''k1''
       \<lparr>nightdrop = True, set_relays = []\<rparr> (Some (replicate 32 0))) = Some (''bob.onion:1'', ''ik='', ''k1'')"
  using invite_read_back [of "''bob.onion:1''" "''ik=''" "''k1''" "\<lparr>set_text = (\<lambda>_. ''e30''), read_set = (\<lambda>_. Some \<lparr>nightdrop = True, set_relays = []\<rparr>),
       secret_text = (\<lambda>_. ''AAAA''), read_secret = (\<lambda>_. Some (replicate 32 0))\<rparr>" "\<lparr>nightdrop = True, set_relays = []\<rparr>" "Some (replicate 32 0)"]
  by (simp add: sane_address_def MAX_ADDRESS_BYTES_def is_ascii_alnum_def)

text \<open>Four different guesses at the code: three are answered, and the invite is gone.\<close>

definition guess_round :: "nat \<Rightarrow> host_op" where
  "guess_round g = Serve 1 5 (\<lambda>_. 0) (\<lambda>_. [None, Some [put_field [7] @ put_field [of_nat g]]])"

theorem code_guesses_bounded_witness:
  "finite (guesses plain_shake ''s1'' (snd (host_run plain_shake (Host cedar_invite # map guess_round [1, 2, 3, 4]) ([], []))))
   \<and> card (guesses plain_shake ''s1'' (snd (host_run plain_shake (Host cedar_invite # map guess_round [1, 2, 3, 4]) ([], [])))) \<le> 3"
proof -
  have "pi_slot cedar_invite = ''s1''" by (simp add: cedar_invite_def)
  moreover have "\<forall>q. Host q \<in> set (map guess_round [1, 2, 3, 4]) \<longrightarrow> pi_slot q \<noteq> pi_slot cedar_invite"
    by (simp add: guess_round_def)
  moreover have "pi_openers cedar_invite = []" by (simp add: cedar_invite_def)
  ultimately show ?thesis
    using code_guesses_bounded [of "[]" cedar_invite "[]" "map guess_round [1, 2, 3, 4]" plain_shake]
    by (simp only: slots_distinct_def) (simp only: list.map list.set distinct.simps ball_empty simp_thms)
qed

text \<open>The joiner's opener twice, behind somebody else's guess, and one relay that did not answer.\<close>

definition cedar_takes :: "bytes list option list" where
  "cedar_takes = [None, Some [put_field [7] @ put_field [9], opener_of plain_shake 3 ''cedar''], Some [opener_of plain_shake 3 ''cedar'']]"

theorem short_code_pairs_witness:
  "\<exists>response. filter (\<lambda>(s, op, r). s = ''s1'' \<and> op = opener_of plain_shake 3 ''cedar'') (snd (host_step plain_shake (Serve 1 5 (\<lambda>_. 0) (\<lambda>_. cedar_takes)) ([cedar_invite], [])))
        = [(''s1'', opener_of plain_shake 3 ''cedar'', response)]
     \<and> fst (await_answer plain_shake 3 ''cedar'' 100 0 0 [(1, 2, [Some [[], response]])]) = Some (Inr ''pair'')"
proof -
  define after where "after = host_step plain_shake (Serve 1 5 (\<lambda>_. 0) (\<lambda>_. cedar_takes)) ([cedar_invite], [])"
  have parts: "pi_slot cedar_invite = ''s1''" "pi_secret cedar_invite = ''cedar''" "pi_payload cedar_invite = ''pair''" "pi_openers cedar_invite = []"
    "pi_expiry cedar_invite = 1000" by (simp_all add: cedar_invite_def)
  have handed: "set (taken_blobs cedar_takes) = {put_field [7] @ put_field [9], opener_of plain_shake 3 ''cedar''}"
    by (simp add: taken_blobs_def cedar_takes_def insert_commute)
  have id: "digest_of plain_shake = id" by (simp add: plain_shake_def)
  have two: "card {a, b} \<le> 3" for a b :: bytes by (simp add: card_insert_if)
  have "\<exists>response. filter (\<lambda>(s, op, r). s = pi_slot cedar_invite \<and> op = opener_of plain_shake 3 (pi_secret cedar_invite)) (snd after)
        = [(pi_slot cedar_invite, opener_of plain_shake 3 (pi_secret cedar_invite), response)]
    \<and> pi_slot cedar_invite \<in> pi_slot ` set (fst after)
    \<and> (\<forall>deadline last reposts clock awake taken rounds junk rest.
         clock < deadline \<and> taken_blobs taken = junk @ response # rest \<and> (\<forall>b \<in> set junk. three_fields b = None) \<longrightarrow>
         fst (await_answer plain_shake 3 (pi_secret cedar_invite) deadline last reposts ((clock, awake, taken) # rounds)) = Some (Inr (pi_payload cedar_invite)))"
  proof (rule short_code_pairs [OF _ _ _ _ _ _ _ _ _ _ refl _ _ _ _ after_def])
    show "card (set (pi_openers cedar_invite) \<union> digest_of plain_shake ` set (taken_blobs cedar_takes)) \<le> 3"
      by (simp only: parts id handed list.set Un_empty_left image_id id_apply two)
    show "opener_of plain_shake 3 (pi_secret cedar_invite) \<in> set (taken_blobs cedar_takes)" by (simp add: handed parts)
    show "\<forall>op \<in> set (taken_blobs cedar_takes). digest_of plain_shake op = digest_of plain_shake (opener_of plain_shake 3 (pi_secret cedar_invite))
        \<longrightarrow> op = opener_of plain_shake 3 (pi_secret cedar_invite)" by (simp add: id)
  qed (auto simp: plain_shake_def parts slots_distinct_def text_bytes_def code_def)
  then obtain response where r: "filter (\<lambda>(s, op, r). s = pi_slot cedar_invite \<and> op = opener_of plain_shake 3 (pi_secret cedar_invite)) (snd after)
        = [(pi_slot cedar_invite, opener_of plain_shake 3 (pi_secret cedar_invite), response)]"
    and await: "\<forall>deadline last reposts clock awake taken rounds junk rest.
         clock < deadline \<and> taken_blobs taken = junk @ response # rest \<and> (\<forall>b \<in> set junk. three_fields b = None) \<longrightarrow>
         fst (await_answer plain_shake 3 (pi_secret cedar_invite) deadline last reposts ((clock, awake, taken) # rounds)) = Some (Inr (pi_payload cedar_invite))"
    by (elim exE conjE)
  have "three_fields [] = None" by (simp add: three_fields_def take_field_def)
  then have "(1 :: nat) < 100 \<and> taken_blobs [Some [[], response]] = [[]] @ response # [] \<and> (\<forall>b \<in> set [[]]. three_fields b = None)"
    by (simp add: taken_blobs_def)
  from await [rule_format, OF this]
  have "fst (await_answer plain_shake 3 (pi_secret cedar_invite) 100 0 0 [(1, 2, [Some [[], response]])]) = Some (Inr (pi_payload cedar_invite))" .
  with r show ?thesis unfolding parts after_def by (intro exI [of _ response] conjI)
qed

theorem join_ends_witness:
  "run_join_handshake plain_shake 3 1 ''cedar'' (secs 1) 0 (map (\<lambda>i. ([False], i * POST_RETRY_INTERVAL)) [0..<121]) 0
     (map (\<lambda>i. (i * RENDEZVOUS_POLL, i * RENDEZVOUS_POLL, [None])) [0..<3]) \<noteq> None"
  by (rule join_ends) (simp_all add: RENDEZVOUS_POLL_def secs_def del: upt.simps)

end
