(* ===== verification/NearbyPath.thy ===== *)
theory NearbyPath
  imports ContactLimits Envelope
begin

text \<open>
  The same-Wi-Fi path beside Tor (\<open>core/src/transport/nearby.rs\<close>) and the announcement that opens it
  (\<open>core/src/node/nearby.rs\<close>): which addresses and interfaces are used, where a send dials, the token exchange of a local
  connection from both ends, the back-off and the probes. Sockets are inputs: what the other end answers, whether
  a write went through, what the clock reads; threads run one after the other.
\<close>

section \<open>Addresses\<close>

type_synonym ipv4 = "byte \<times> byte \<times> byte \<times> byte"
type_synonym place = "ipv4 \<times> nat"

definition is_private :: "ipv4 \<Rightarrow> bool" where
  "is_private ip =
     (let (a, b, _, _) = ip
      in a = 10 \<or> a = 172 \<and> 16 \<le> b \<and> b \<le> 31 \<or> a = 192 \<and> b = 168 \<or> a = 169 \<and> b = 254)"

definition same_subnet :: "ipv4 \<Rightarrow> ipv4 \<Rightarrow> bool" where
  "same_subnet x y =
     (let (a, b, c, _) = x; (a', b', c', _) = y
      in if a = 127 then a' = 127
         else if a = 10 then a' = 10
         else if a = 192 \<and> b = 168 then a' = a \<and> b' = b \<and> c' = c
         else a' = a \<and> b' = b)"

definition octet :: "byte \<Rightarrow> string" where
  "octet b = dec (unat b)"

definition net_of_ip :: "ipv4 \<Rightarrow> string" where
  "net_of_ip ip =
     (let (a, b, c, _) = ip
      in if a = 10 then ''10.*.*.*''
         else if a = 192 \<and> b = 168 then ''192.168.'' @ octet c @ ''.*''
         else if a = 127 then ''127.*.*.*''
         else if is_private ip then octet a @ ''.'' @ octet b @ ''.*.*''
         else ''a public address'')"

definition MIN_PORT :: nat where "MIN_PORT = 32768"

definition valid_port :: "nat \<Rightarrow> bool" where
  "valid_port port \<longleftrightarrow> MIN_PORT \<le> port"

definition TOKEN_CHARS :: nat where "TOKEN_CHARS = 43"

definition valid_token :: "string \<Rightarrow> bool" where
  "valid_token t \<longleftrightarrow> length t = TOKEN_CHARS \<and> list_all (\<lambda>c. is_ascii_alnum c \<or> c = CHR ''-'' \<or> c = CHR ''_'') t"

text \<open>\<open>Ipv4Addr\<close> as text, and its \<open>FromStr\<close>: four numbers of at most three digits, without leading zeros.\<close>

definition show_ipv4 :: "ipv4 \<Rightarrow> string" where
  "show_ipv4 ip = (let (a, b, c, d) = ip in octet a @ ''.'' @ octet b @ ''.'' @ octet c @ ''.'' @ octet d)"

definition read_octet :: "string \<Rightarrow> byte option" where
  "read_octet s =
     (if s \<noteq> [] \<and> length s \<le> 3 \<and> list_all is_digit s \<and> (length s = 1 \<or> hd s \<noteq> CHR ''0'') \<and> digits_value s < 256
      then Some (of_nat (digits_value s)) else None)"

definition read_ipv4 :: "string \<Rightarrow> ipv4 option" where
  "read_ipv4 s =
     (case map read_octet (split_at_chars (\<lambda>c. c = CHR ''.'') s) of
        [Some a, Some b, Some c, Some d] \<Rightarrow> Some (a, b, c, d)
      | _ \<Rightarrow> None)"

section \<open>Announcements\<close>

record peer_nearby =
  pn_seq :: nat
  pn_on :: bool
  pn_at :: "(place \<times> string) option"

text \<open>Loopback stands in for a local network in tests only.\<close>

definition parse_body :: "bytes \<Rightarrow> peer_nearby option" where
  "parse_body body =
     (case from_utf8 body of None \<Rightarrow> None
      | Some t \<Rightarrow>
          (case split_at_chars (\<lambda>c. c = CHR '':'') t of [] \<Rightarrow> None
           | first # rest \<Rightarrow>
               (case parse_uint (2 ^ 64) first of None \<Rightarrow> None
                | Some seq \<Rightarrow>
                    if rest = [''0''] then Some \<lparr>pn_seq = seq, pn_on = False, pn_at = None\<rparr>
                    else if rest = [''1''] then Some \<lparr>pn_seq = seq, pn_on = True, pn_at = None\<rparr>
                    else (case rest of
                            [one, ip, port, token] \<Rightarrow>
                              if one \<noteq> ''1'' then None
                              else (case (read_ipv4 ip, parse_uint (2 ^ 16) port) of
                                      (Some ip, Some port) \<Rightarrow>
                                        if valid_port port \<and> is_private ip \<and> valid_token token
                                        then Some \<lparr>pn_seq = seq, pn_on = True, pn_at = Some ((ip, port), token)\<rparr>
                                        else None
                                    | _ \<Rightarrow> None)
                          | _ \<Rightarrow> None))))"

definition nearby_body :: "nat \<Rightarrow> string option \<Rightarrow> place option \<Rightarrow> string" where
  "nearby_body seq token at =
     (case (token, at) of
        (None, _) \<Rightarrow> dec seq @ '':0''
      | (Some _, None) \<Rightarrow> dec seq @ '':1''
      | (Some t, Some (ip, port)) \<Rightarrow> dec seq @ '':1:'' @ show_ipv4 ip @ '':'' @ dec port @ '':'' @ t)"

section \<open>Interfaces\<close>

definition NEVER :: "string list" where
  "NEVER = [''lo'', ''rmnet'', ''ccmni'', ''v4-'', ''tun'', ''tap'', ''ppp'', ''wg'', ''utun'', ''dummy'', ''docker'',
            ''veth'', ''virbr'', ''vboxnet'']"

definition WIFI :: "string list" where
  "WIFI = [''wlan'', ''swlan'', ''ap'', ''softap'', ''wl'', ''wi-fi'', ''wifi'']"

definition WIRED :: "string list" where
  "WIRED = [''eth'', ''en'', ''ethernet'', ''usb'']"

definition interface_rank :: "string \<Rightarrow> nat option" where
  "interface_rank name =
     (let n = map ascii_lower name
      in if list_ex (\<lambda>p. prefix p n) NEVER \<or> prefix ''br-'' n \<or> prefix ''podman'' n then None
         else if list_ex (\<lambda>p. prefix p n) WIFI then Some 0
         else if list_ex (\<lambda>p. prefix p n) WIRED then Some 1
         else Some 2)"

text \<open>\<open>Iterator::min_by_key\<close>: the first of the least.\<close>

fun min_ranked :: "(nat \<times> 'a) list \<Rightarrow> (nat \<times> 'a) option" where
  "min_ranked [] = None"
| "min_ranked (x # xs) = (case min_ranked xs of None \<Rightarrow> Some x | Some y \<Rightarrow> Some (if fst x \<le> fst y then x else y))"

section \<open>Routes and reachability\<close>

record nearby_route =
  our_token :: string
  route_peer :: "(place \<times> string) option"

record nearby_shared =
  nb_routes :: "(string \<times> nearby_route) list"
  nb_reachable :: "(string \<times> instant) list"
  nb_failed :: "(string \<times> instant) list"
  nb_probing :: "string list"
  nb_connections :: nat
  nb_interfaces :: "(string \<times> ipv4) list option"
  nb_listening :: "nat option"

definition RETRY_AFTER :: duration where "RETRY_AFTER = secs 60"
definition REACHABLE_FOR :: duration where "REACHABLE_FOR = secs 120"
definition MAX_CONNECTIONS :: nat where "MAX_CONNECTIONS = 16"
definition PREAMBLE :: bytes where "PREAMBLE = text_bytes ''ND-NEARBY/1 ''"

text \<open>\<open>default_ip\<close> is the address of the default route, used while the app has not listed the interfaces.\<close>

definition local_ip :: "ipv4 option \<Rightarrow> nearby_shared \<Rightarrow> ipv4 option" where
  "local_ip default_ip s =
     (case nb_interfaces s of
        Some listed \<Rightarrow>
          map_option snd
            (min_ranked (List.map_filter (\<lambda>(name, ip). map_option (\<lambda>rank. (rank, ip)) (interface_rank name))
                           (filter (\<lambda>(_, ip). is_private ip) listed)))
      | None \<Rightarrow> (case default_ip of None \<Rightarrow> None | Some ip \<Rightarrow> if is_private ip then Some ip else None))"

definition local_ips :: "ipv4 option \<Rightarrow> nearby_shared \<Rightarrow> ipv4 list" where
  "local_ips default_ip s =
     (case nb_interfaces s of
        Some listed \<Rightarrow> map snd (filter (\<lambda>(name, ip). is_private ip \<and> interface_rank name \<noteq> None) listed)
      | None \<Rightarrow> (case local_ip default_ip s of None \<Rightarrow> [] | Some ip \<Rightarrow> [ip]))"

definition on_our_network :: "ipv4 option \<Rightarrow> nearby_shared \<Rightarrow> ipv4 \<Rightarrow> bool" where
  "on_our_network default_ip s p = list_ex (\<lambda>ours. same_subnet ours p) (local_ips default_ip s)"

definition admits_source :: "ipv4 option \<Rightarrow> nearby_shared \<Rightarrow> ipv4 \<Rightarrow> bool" where
  "admits_source default_ip s from = (is_private from \<and> on_our_network default_ip s from)"

definition record_result :: "string \<Rightarrow> bool \<Rightarrow> instant \<Rightarrow> nearby_shared \<Rightarrow> nearby_shared" where
  "record_result p ok' now s =
     (if ok' then s\<lparr>nb_reachable := AList.update p now (nb_reachable s), nb_failed := AList.delete p (nb_failed s)\<rparr>
      else s\<lparr>nb_failed := AList.update p now (nb_failed s)\<rparr>)"

definition recently_failed :: "string \<Rightarrow> instant \<Rightarrow> nearby_shared \<Rightarrow> bool" where
  "recently_failed p now s = (case map_of (nb_failed s) p of None \<Rightarrow> False | Some t \<Rightarrow> now - t < RETRY_AFTER)"

definition reachable_recently :: "string \<Rightarrow> duration \<Rightarrow> instant \<Rightarrow> nearby_shared \<Rightarrow> bool" where
  "reachable_recently p within now s = (case map_of (nb_reachable s) p of None \<Rightarrow> False | Some t \<Rightarrow> now - t < within)"

definition nearby_reachable :: "string \<Rightarrow> instant \<Rightarrow> nearby_shared \<Rightarrow> bool" where
  "nearby_reachable p now s = reachable_recently p REACHABLE_FOR now s"

section \<open>Dialling\<close>

definition preamble :: "string \<Rightarrow> bytes" where
  "preamble token = PREAMBLE @ text_bytes token @ [10]"

definition tokens_equal :: "bytes \<Rightarrow> bytes \<Rightarrow> bool" where
  "tokens_equal a b =
     (length a = TOKEN_CHARS \<and> length b = TOKEN_CHARS
      \<and> fold (\<lambda>(x, y) acc. or acc (xor x y)) (zip a b) 0 = 0)"

text \<open>What the other end sent in reply, 44 bytes or nothing.\<close>

definition exchange_ok :: "bytes option \<Rightarrow> string \<Rightarrow> bool" where
  "exchange_ok answer token =
     (case answer of None \<Rightarrow> False
      | Some a \<Rightarrow> length a = TOKEN_CHARS + 1 \<and> tokens_equal (take TOKEN_CHARS a) (text_bytes token) \<and> a ! TOKEN_CHARS = 10)"

text \<open>Where a send to a peer connects, with the token to present and the one to expect.\<close>

definition dial_target :: "ipv4 option \<Rightarrow> nearby_shared \<Rightarrow> string \<Rightarrow> (place \<times> string \<times> string) option" where
  "dial_target default_ip s p =
     (case map_of (nb_routes s) p of None \<Rightarrow> None
      | Some r \<Rightarrow>
          (case route_peer r of None \<Rightarrow> None
           | Some (addr, their_token) \<Rightarrow>
               if on_our_network default_ip s (fst addr) then Some (addr, their_token, our_token r) else None))"

text \<open>\<open>dial\<close>: \<open>world\<close> is what the end at an address answers to the bytes sent to it; the clock is read after the attempt.\<close>

definition dial :: "ipv4 option \<Rightarrow> (place \<Rightarrow> bytes \<Rightarrow> bytes option) \<Rightarrow> instant \<Rightarrow> string \<Rightarrow> nearby_shared \<Rightarrow> bool \<times> nearby_shared" where
  "dial default_ip world after p s =
     (case dial_target default_ip s p of None \<Rightarrow> (False, s)
      | Some (addr, their_token, ours) \<Rightarrow>
          if exchange_ok (world addr (preamble their_token)) ours then (True, s)
          else (False, record_result p False after s))"

definition send_nearby ::
  "ipv4 option \<Rightarrow> (place \<Rightarrow> bytes \<Rightarrow> bytes option) \<Rightarrow> bool \<Rightarrow> instant \<Rightarrow> instant \<Rightarrow> string \<Rightarrow> nearby_shared \<Rightarrow> bool \<times> nearby_shared" where
  "send_nearby default_ip world written now after p s =
     (if recently_failed p now s then (False, s)
      else (let (connected, s) = dial default_ip world after p s
            in if \<not> connected then (False, s) else (written, record_result p written after s)))"

text \<open>\<open>send\<close>: the local path first, then the main transport.\<close>

definition send_either ::
  "ipv4 option \<Rightarrow> (place \<Rightarrow> bytes \<Rightarrow> bytes option) \<Rightarrow> bool \<Rightarrow> bool \<Rightarrow> instant \<Rightarrow> instant \<Rightarrow> string \<Rightarrow> nearby_shared \<Rightarrow> bool \<times> nearby_shared" where
  "send_either default_ip world written main now after p s =
     (let (ok', s) = send_nearby default_ip world written now after p s in (ok' \<or> main, s))"

definition probes_due :: "instant \<Rightarrow> nearby_shared \<Rightarrow> string list" where
  "probes_due now s =
     filter (\<lambda>p. \<not> reachable_recently p RETRY_AFTER now s \<and> \<not> recently_failed p now s)
       (map fst (filter (\<lambda>(_, r). route_peer r \<noteq> None) (nb_routes s)))"

definition start_probe :: "string \<Rightarrow> nearby_shared \<Rightarrow> bool \<times> nearby_shared" where
  "start_probe p s = (if p \<in> set (nb_probing s) then (False, s) else (True, s\<lparr>nb_probing := p # nb_probing s\<rparr>))"

definition finish_probe :: "ipv4 option \<Rightarrow> (place \<Rightarrow> bytes \<Rightarrow> bytes option) \<Rightarrow> instant \<Rightarrow> string \<Rightarrow> nearby_shared \<Rightarrow> nearby_shared" where
  "finish_probe default_ip world after p s =
     (let (connected, s) = dial default_ip world after p s;
          s = (if connected then record_result p True after s else s)
      in s\<lparr>nb_probing := removeAll p (nb_probing s)\<rparr>)"

section \<open>Listening\<close>

text \<open>\<open>set_nearby\<close>; \<open>port\<close> is what binding gives, if it works.\<close>

definition set_routes :: "nat option \<Rightarrow> (string \<times> nearby_route) list \<Rightarrow> nearby_shared \<Rightarrow> nearby_shared" where
  "set_routes port rs s =
     (let s = s\<lparr>nb_routes := rs\<rparr>
      in if rs \<noteq> [] \<and> nb_listening s = None then s\<lparr>nb_listening := port\<rparr>
         else if rs = [] \<and> nb_listening s \<noteq> None then s\<lparr>nb_listening := None\<rparr>
         else s)"

definition nearby_address :: "ipv4 option \<Rightarrow> nearby_shared \<Rightarrow> place option" where
  "nearby_address default_ip s =
     (case nb_listening s of None \<Rightarrow> None | Some port \<Rightarrow> map_option (\<lambda>ip. (ip, port)) (local_ip default_ip s))"

text \<open>An accepted connection, and one that ended.\<close>

definition accept_from :: "ipv4 option \<Rightarrow> ipv4 \<Rightarrow> nearby_shared \<Rightarrow> bool \<times> nearby_shared" where
  "accept_from default_ip from s =
     (if \<not> admits_source default_ip s from \<or> MAX_CONNECTIONS \<le> nb_connections s then (False, s)
      else (True, s\<lparr>nb_connections := nb_connections s + 1\<rparr>))"

definition connection_ended :: "nearby_shared \<Rightarrow> nearby_shared" where
  "connection_ended s = s\<lparr>nb_connections := nb_connections s - 1\<rparr>"

text \<open>The opening line: whose token it is, and what is answered, if anything.\<close>

definition find_route :: "bytes \<Rightarrow> (string \<times> nearby_route) list \<Rightarrow> (string \<times> string) option" where
  "find_route presented rs =
     fold (\<lambda>(onion, r) found.
             if tokens_equal presented (text_bytes (our_token r))
             then (case route_peer r of Some (_, theirs) \<Rightarrow> Some (onion, theirs) | None \<Rightarrow> found)
             else found) rs None"

definition serve_hello :: "bytes \<Rightarrow> nearby_shared \<Rightarrow> (string \<times> bytes) option" where
  "serve_hello hello s =
     (if length hello \<noteq> length PREAMBLE + TOKEN_CHARS + 1 \<or> \<not> prefix PREAMBLE hello \<or> last hello \<noteq> 10 then None
      else map_option (\<lambda>(onion, theirs). (onion, text_bytes theirs @ [10]))
             (find_route (take TOKEN_CHARS (drop (length PREAMBLE) hello)) (nb_routes s)))"

definition serve :: "bytes \<Rightarrow> instant \<Rightarrow> nearby_shared \<Rightarrow> bytes option \<times> nearby_shared" where
  "serve hello now s =
     (case serve_hello hello s of None \<Rightarrow> (None, s)
      | Some (onion, answer) \<Rightarrow> (Some answer, record_result onion True now s))"

text \<open>A frame that came in over a served connection.\<close>

definition frame_from :: "string \<Rightarrow> instant \<Rightarrow> nearby_shared \<Rightarrow> nearby_shared" where
  "frame_from onion now s = s\<lparr>nb_reachable := AList.update onion now (nb_reachable s)\<rparr>"


section \<open>Local addresses only\<close>

lemma same_subnet_private: "is_private x \<Longrightarrow> same_subnet x y \<Longrightarrow> is_private y"
  by (cases x; cases y) (auto simp: is_private_def same_subnet_def Let_def split: if_splits)

lemma local_ips_private: "ip \<in> set (local_ips default_ip s) \<Longrightarrow> is_private ip"
  by (auto simp: local_ips_def local_ip_def split: option.splits if_splits)

lemma our_network_private: "on_our_network default_ip s ip \<Longrightarrow> is_private ip"
  by (auto simp: on_our_network_def list_ex_iff dest: local_ips_private intro: same_subnet_private)

lemma dial_target_local: "dial_target default_ip s p = Some (addr, t, t') \<Longrightarrow> on_our_network default_ip s (fst addr)"
  by (auto simp: dial_target_def split: option.splits if_splits)

lemma dial_worlds:
  assumes "\<And>pl b. on_our_network default_ip s (fst pl) \<Longrightarrow> w pl b = w' pl b"
  shows "dial default_ip w after p s = dial default_ip w' after p s"
  using assms by (auto simp: dial_def dest: dial_target_local split: option.splits)

text \<open>Diagnostics name the network, never the host.\<close>

lemma diagnostics_hide_host: "is_private x \<Longrightarrow> same_subnet x y \<Longrightarrow> net_of_ip x = net_of_ip y"
  by (cases x; cases y) (auto simp: is_private_def same_subnet_def net_of_ip_def Let_def split: if_splits)

text \<open>The address announced is one we listen for: private, on the best-ranked interface.\<close>

lemma min_ranked_none: "min_ranked xs = None \<longleftrightarrow> xs = []"
  by (cases xs) (auto split: option.splits)

lemma min_ranked_least: "min_ranked xs = Some x \<Longrightarrow> x \<in> set xs \<and> (\<forall>y \<in> set xs. fst x \<le> fst y)"
  by (induction xs arbitrary: x) (auto simp: min_ranked_none split: option.splits if_splits)

lemma nearby_address_local:
  assumes "nearby_address default_ip s = Some (ip, port)"
  shows "ip \<in> set (local_ips default_ip s)"
proof (cases "nb_interfaces s")
  case (Some listed)
  let ?c = "List.map_filter (\<lambda>(name, ip). map_option (\<lambda>rank. (rank, ip)) (interface_rank name)) (filter (\<lambda>(_, ip). is_private ip) listed)"
  from assms Some obtain rank where "min_ranked ?c = Some (rank, ip)" by (auto simp: nearby_address_def local_ip_def split: option.splits)
  then have "(rank, ip) \<in> set ?c" using min_ranked_least by blast
  then show ?thesis using Some by (force simp: local_ips_def map_filter_def split: option.splits)
qed (use assms in \<open>auto simp: nearby_address_def local_ips_def split: option.splits\<close>)

text \<open>
  The local path leaves the device only towards the local network. Whatever a contact announced and whatever
  else answers, what a send or a probe does is decided by private addresses on a subnet of one of our own usable
  interfaces: two worlds that agree there are told apart by neither.
\<close>

theorem nearby_stays_local:
  assumes "\<And>pl b. \<lbrakk>is_private (fst pl); on_our_network default_ip s (fst pl)\<rbrakk> \<Longrightarrow> w pl b = w' pl b"
  shows "send_either default_ip w written main now after p s = send_either default_ip w' written main now after p s
    \<and> finish_probe default_ip w after p s = finish_probe default_ip w' after p s"
proof -
  have "dial default_ip w after p s = dial default_ip w' after p s"
    by (rule dial_worlds) (use assms our_network_private in blast)
  then show ?thesis by (simp add: send_either_def send_nearby_def finish_probe_def)
qed

section \<open>The token exchange\<close>

lemma or_word_zero: "or (a :: byte) b = 0 \<longleftrightarrow> a = 0 \<and> b = 0"
  by (auto simp: bit_eq_iff bit_or_iff)

lemma xor_word_zero: "xor (a :: byte) b = 0 \<longleftrightarrow> a = b"
  by (auto simp: bit_eq_iff bit_xor_iff)

lemma fold_differences: "fold (\<lambda>(x, y) acc. or acc (xor x y)) zs (acc :: byte) = 0 \<longleftrightarrow> acc = 0 \<and> (\<forall>(x, y) \<in> set zs. x = y)"
  by (induction zs arbitrary: acc) (auto simp: or_word_zero xor_word_zero)

lemma tokens_equal_iff: "tokens_equal a b \<longleftrightarrow> length a = TOKEN_CHARS \<and> a = b"
proof
  assume t: "tokens_equal a b"
  then have len: "length a = TOKEN_CHARS" "length b = TOKEN_CHARS" and "\<forall>(x, y) \<in> set (zip a b). x = y"
    unfolding tokens_equal_def fold_differences by auto
  then have "a ! i = b ! i" if "i < length a" for i
  proof -
    have "i < length (zip a b)" "zip a b ! i = (a ! i, b ! i)" using that len by simp_all
    then have "(a ! i, b ! i) \<in> set (zip a b)" by (metis nth_mem)
    from bspec [OF \<open>\<forall>(x, y) \<in> set (zip a b). x = y\<close> this] show ?thesis by simp
  qed
  with len show "length a = TOKEN_CHARS \<and> a = b" by (auto intro: nth_equalityI)
next
  assume "length a = TOKEN_CHARS \<and> a = b"
  then show "tokens_equal a b" by (auto simp: tokens_equal_def fold_differences in_set_zip)
qed

lemma find_route_finds:
  assumes "distinct (map (\<lambda>(_, r). our_token r) rs)" and "length presented = TOKEN_CHARS"
  shows "find_route presented rs = Some (onion, theirs)
    \<longleftrightarrow> (\<exists>r pl. (onion, r) \<in> set rs \<and> text_bytes (our_token r) = presented \<and> route_peer r = Some (pl, theirs))"
proof -
  let ?f = "\<lambda>(onion, r) found. if tokens_equal presented (text_bytes (our_token r))
      then (case route_peer r of Some (_, theirs) \<Rightarrow> Some (onion, theirs) | None \<Rightarrow> found) else found"
  have other: "fold ?f rs found = found" if "\<forall>(_, r) \<in> set rs. text_bytes (our_token r) \<noteq> presented" for rs and found :: "(string \<times> string) option"
    using that by (induction rs) (auto simp: tokens_equal_iff)
  have "fold ?f rs None = Some (onion, theirs)
      \<longleftrightarrow> (\<exists>r pl. (onion, r) \<in> set rs \<and> text_bytes (our_token r) = presented \<and> route_peer r = Some (pl, theirs))"
    using assms(1)
  proof (induction rs)
    case (Cons x rs)
    obtain onion' r where x: "x = (onion', r)" by (cases x)
    show ?case
    proof (cases "text_bytes (our_token r) = presented")
      case True
      have none: "\<forall>(_, r') \<in> set rs. text_bytes (our_token r') \<noteq> presented"
        using Cons.prems x True text_bytes_inj by force
      have eq: "tokens_equal presented (text_bytes (our_token r))" using True assms(2) by (simp add: tokens_equal_iff)
      have "fold ?f (x # rs) None = (case route_peer r of Some (_, theirs) \<Rightarrow> Some (onion', theirs) | None \<Rightarrow> None)"
        by (simp only: fold_Cons o_apply x prod.case eq if_True other [OF none])
      moreover have "(\<exists>r' pl. (onion, r') \<in> set (x # rs) \<and> text_bytes (our_token r') = presented \<and> route_peer r' = Some (pl, theirs))
          \<longleftrightarrow> onion = onion' \<and> (\<exists>pl. route_peer r = Some (pl, theirs))"
        using none True by (fastforce simp: x)
      ultimately show ?thesis by (cases "route_peer r") auto
    next
      case False
      then have "\<not> tokens_equal presented (text_bytes (our_token r))" by (auto simp: tokens_equal_iff)
      with False Cons x show ?thesis by auto
    qed
  qed simp
  then show ?thesis by (simp add: find_route_def)
qed

lemma serve_preamble:
  assumes "length token = TOKEN_CHARS"
  shows "serve_hello (preamble token) s = map_option (\<lambda>(onion, theirs). (onion, text_bytes theirs @ [10])) (find_route (text_bytes token) (nb_routes s))"
  using assms by (simp add: serve_hello_def preamble_def)

text \<open>
  A local connection stands between two contacts only. The dialler accepts what the listener answers exactly when
  the token it presented is the one the listener gave to a chat, and that chat gave the listener the
  token the dialler expects; the listener then takes the connection for that chat's, and otherwise answers nothing
  or what the dialler refuses.
\<close>

theorem nearby_exchange_pairs:
  assumes "distinct (map (\<lambda>(_, r). our_token r) (nb_routes s))" and "length token = TOKEN_CHARS" and "length mine = TOKEN_CHARS"
    and "\<forall>(_, r) \<in> set (nb_routes s). \<forall>pl t. route_peer r = Some (pl, t) \<longrightarrow> length t = TOKEN_CHARS"
  shows "exchange_ok (fst (serve (preamble token) now s)) mine
    \<longleftrightarrow> (\<exists>onion pl. (onion, \<lparr>our_token = token, route_peer = Some (pl, mine)\<rparr>) \<in> set (nb_routes s)
          \<and> serve (preamble token) now s = (Some (text_bytes mine @ [10]), record_result onion True now s))"
proof -
  note found = find_route_finds [OF assms(1), of "text_bytes token"]
  have route: "r = \<lparr>our_token = token, route_peer = Some (pl, t)\<rparr>" if "text_bytes (our_token r) = text_bytes token" "route_peer r = Some (pl, t)" for r pl t
    using that text_bytes_inj by (cases r) auto
  show ?thesis
  proof (cases "find_route (text_bytes token) (nb_routes s)")
    case None
    then have "\<not> (\<exists>onion pl. (onion, \<lparr>our_token = token, route_peer = Some (pl, mine)\<rparr>) \<in> set (nb_routes s))"
      using found assms(2) by fastforce
    then show ?thesis by (auto simp: serve_def serve_preamble [OF assms(2)] None exchange_ok_def)
  next
    case (Some f)
    obtain onion t where f: "f = (onion, t)" by (cases f)
    have "length (text_bytes token) = TOKEN_CHARS" using assms(2) by simp
    from found [OF this, THEN iffD1, OF Some [unfolded f]] obtain r pl where
      "(onion, r) \<in> set (nb_routes s)" "text_bytes (our_token r) = text_bytes token" "route_peer r = Some (pl, t)" by blast
    with route have r: "(onion, \<lparr>our_token = token, route_peer = Some (pl, t)\<rparr>) \<in> set (nb_routes s)" by metis
    with assms(4) have t: "length t = TOKEN_CHARS" by fastforce
    have served: "serve (preamble token) now s = (Some (text_bytes t @ [10]), record_result onion True now s)"
      by (simp add: serve_def serve_preamble [OF assms(2)] Some f)
    have "exchange_ok (fst (serve (preamble token) now s)) mine \<longleftrightarrow> t = mine"
      using t assms(3) text_bytes_inj by (auto simp: served exchange_ok_def tokens_equal_iff nth_append)
    moreover have "t = u" if "serve (preamble token) now s = (Some (text_bytes u @ [10]), st)" for u st
      using that text_bytes_inj by (simp add: served)
    ultimately show ?thesis using r served by blast
  qed
qed

section \<open>Reading an announcement back\<close>

lemma digit_not: "is_digit c \<Longrightarrow> c \<noteq> CHR '':'' \<and> c \<noteq> CHR ''.''"
  by (auto simp: is_digit_def code_def)

lemma dec_plain: "list_all (\<lambda>c. c \<noteq> CHR '':'') (dec n)" "list_all (\<lambda>c. c \<noteq> CHR ''.'') (dec n)"
  using dec_is_digits [of n] digit_not by (auto simp: list_all_iff)

lemma dec_hd: "0 < n \<Longrightarrow> hd (dec n) \<noteq> CHR ''0''"
proof (induction n rule: dec.induct)
  case (1 n)
  show ?case
  proof (cases "n < 10")
    case True
    then have "of_char (digit_char n) = 48 + n" by (rule of_char_digit_char)
    with 1(2) have "digit_char n \<noteq> CHR ''0''" by auto
    with True show ?thesis by (simp add: dec.simps [of n])
  next
    case False
    then have "hd (dec (n div 10)) \<noteq> CHR ''0''" using 1 by simp
    then show ?thesis using False dec_nonempty [of "n div 10"] by (simp add: dec.simps [of n])
  qed
qed

lemma read_octet_back: "read_octet (octet b) = Some b"
proof -
  have b: "unat b < 256" using unsigned_less [of b] by simp
  have len: "length (dec (unat b)) \<le> 3" using b by (simp add: dec.simps)
  have "length (dec (unat b)) = 1 \<or> hd (dec (unat b)) \<noteq> CHR ''0''"
    using dec_hd [of "unat b"] by (cases "unat b = 0") (simp_all add: dec.simps [of 0])
  with b len show ?thesis by (simp add: read_octet_def octet_def dec_is_digits digits_value_dec dec_nonempty)
qed

lemma show_ipv4_plain: "list_all (\<lambda>c. c \<noteq> CHR '':'') (show_ipv4 ip)"
  by (cases ip) (simp add: show_ipv4_def octet_def dec_plain)

lemma read_show_ipv4: "read_ipv4 (show_ipv4 ip) = Some ip"
proof -
  obtain a b c d where ip: "ip = (a, b, c, d)" by (cases ip)
  have o': "list_all (\<lambda>c. \<not> c = CHR ''.'') (octet x)" for x using dec_plain(2) by (simp add: octet_def)
  have "split_at_chars (\<lambda>c. c = CHR ''.'') (show_ipv4 ip) = [octet a, octet b, octet c, octet d]"
    by (simp add: ip show_ipv4_def split_chunk [OF o'] split_last_chunk [OF o'])
  then show ?thesis by (simp add: read_ipv4_def read_octet_back ip)
qed

text \<open>What one side announces, the other reads: whether the path is on, and where and with which token.\<close>

theorem announcement_read_back:
  assumes "seq < 2 ^ 64" and "\<forall>t. token = Some t \<longrightarrow> valid_token t"
    and "\<forall>ip port. at = Some (ip, port) \<longrightarrow> is_private ip \<and> valid_port port \<and> port < 2 ^ 16"
  shows "parse_body (text_bytes (nearby_body seq token at))
    = Some \<lparr>pn_seq = seq, pn_on = (token \<noteq> None), pn_at = (case (token, at) of (Some t, Some pl) \<Rightarrow> Some (pl, t) | _ \<Rightarrow> None)\<rparr>"
proof -
  have colon: "list_all (\<lambda>c. \<not> c = CHR '':'') (dec n)" "list_all (\<lambda>c. \<not> c = CHR '':'') (show_ipv4 ip)" for n ip
    using dec_plain(1) show_ipv4_plain by simp_all
  have plain: "list_all (\<lambda>c. code c < 128) (dec n)" for n
    using dec_is_digits [of n] by (auto simp: list_all_iff is_digit_def)
  have ipv4: "list_all (\<lambda>c. code c < 128) (show_ipv4 ip)" for ip
    by (cases ip) (use plain in \<open>simp add: show_ipv4_def octet_def code_def\<close>)
  have tok: "list_all (\<lambda>c. code c < 128) t" "list_all (\<lambda>c. \<not> c = CHR '':'') t" if "valid_token t" for t
    using that by (force simp: valid_token_def list_all_iff is_ascii_alnum_def code_def Let_def)+
  let ?b = "nearby_body seq token at"
  show ?thesis
  proof (cases token)
    case None
    then have b: "?b = dec seq @ '':0''" by (simp add: nearby_body_def)
    have u: "utf8_valid ?b" unfolding b by (rule utf8_valid_ascii) (use plain in \<open>simp add: code_def\<close>)
    have "split_at_chars (\<lambda>c. c = CHR '':'') ?b = [dec seq, ''0'']" by (simp add: b split_chunk [OF colon(1)])
    then show ?thesis unfolding parse_body_def from_utf8_text [OF u] using assms(1) None by (simp add: parse_uint_dec)
  next
    case token: (Some t)
    show ?thesis
    proof (cases at)
      case None
      then have b: "?b = dec seq @ '':1''" by (simp add: nearby_body_def token)
      have u: "utf8_valid ?b" unfolding b by (rule utf8_valid_ascii) (use plain in \<open>simp add: code_def\<close>)
      have "split_at_chars (\<lambda>c. c = CHR '':'') ?b = [dec seq, ''1'']" by (simp add: b split_chunk [OF colon(1)])
      then show ?thesis unfolding parse_body_def from_utf8_text [OF u] using assms(1) None token by (simp add: parse_uint_dec)
    next
      case (Some pl)
      obtain ip port where pl: "pl = (ip, port)" by (cases pl)
      have t: "valid_token t" and at: "is_private ip" "valid_port port" "port < 2 ^ 16" using assms(2,3) token Some pl by auto
      have b: "?b = dec seq @ '':1:'' @ show_ipv4 ip @ '':'' @ dec port @ '':'' @ t" by (simp add: nearby_body_def token Some pl)
      have u: "utf8_valid ?b" unfolding b
        by (rule utf8_valid_ascii) (use plain ipv4 tok(1) [OF t] in \<open>simp add: code_def\<close>)
      have "split_at_chars (\<lambda>c. c = CHR '':'') ?b = [dec seq, ''1'', show_ipv4 ip, dec port, t]"
        by (simp add: b split_chunk [OF colon(1)] split_chunk [OF colon(2)] split_last_chunk [OF tok(2) [OF t]])
      then show ?thesis unfolding parse_body_def from_utf8_text [OF u]
        using assms(1) t at by (simp add: parse_uint_dec read_show_ipv4 token Some pl)
    qed
  qed
qed

text \<open>A contact can name no address but a private one, and no port of a service.\<close>

lemma announced_place_private:
  assumes "parse_body b = Some p" and "pn_at p = Some ((ip, port), token)"
  shows "is_private ip \<and> valid_port port \<and> port < 2 ^ 16 \<and> valid_token token"
proof -
  have "n < bound" if "parse_uint bound t = Some n" for bound t n using that by (auto simp: parse_uint_def Let_def split: if_splits)
  from this [of "2 ^ 16"] assms show ?thesis
    by (auto simp: parse_body_def split: option.splits list.splits if_splits)
qed

end
