(* ===== verification/Inbound.thy ===== *)
theory Inbound
  imports Wire
begin

text \<open>
  The byte budget of a transport's inbound frames (\<open>core/src/transport/inbound.rs\<close>): a reader reserves a frame's length
  before its body, and the reservation stays with the frame until the core takes it. The connections run beside each
  other; a step is one atomic change of the shared count with what goes with it.
\<close>

section \<open>The budget\<close>

definition INBOUND_BUDGET_BYTES :: nat where "INBOUND_BUDGET_BYTES = 64 * 1024 * 1024"
definition INBOUND_WAIT :: duration where "INBOUND_WAIT = secs 60"
definition WAIT_STEP :: duration where "WAIT_STEP = 25 * 1000000"

definition try_reserve :: "nat \<Rightarrow> nat \<Rightarrow> nat \<Rightarrow> nat option" where
  "try_reserve limit len current = (if current \<noteq> 0 \<and> limit < current + len then None else Some (current + len))"

definition release_bytes :: "nat \<Rightarrow> nat \<Rightarrow> nat" where
  "release_bytes len h = h - len"

text \<open>
  \<open>reserve_blocking\<close>: each try sees the count then held, and the clock after it failed. \<open>None\<close> while tries are still to
  come, then whether there was room in time, with the count it left.
\<close>

fun reserve_blocking :: "nat \<Rightarrow> nat \<Rightarrow> instant \<Rightarrow> (nat \<times> instant) list \<Rightarrow> nat option option" where
  "reserve_blocking limit len deadline [] = None"
| "reserve_blocking limit len deadline ((current, clock) # tries) =
     (case try_reserve limit len current of
        Some h \<Rightarrow> Some (Some h)
      | None \<Rightarrow> if clock < deadline then reserve_blocking limit len deadline tries else Some None)"

section \<open>Connections and the queue\<close>

text \<open>The shared count, the announced lengths of the bodies being read, by connection, and the frames the core has yet to take.\<close>

record inbound =
  held_bytes :: nat
  being_read :: "(nat \<times> nat) list"
  waiting_frames :: "bytes list"

datatype inbound_event =
    Prefix nat bytes
  | Body nat bytes
  | Broken nat
  | Take

text \<open>
  \<open>read_frame\<close>, at its two changes of the count: the prefix, once a try finds room; and the body, as many bytes as
  came, or a failed read. \<open>Take\<close> is \<open>try_recv\<close>.
\<close>

definition start_frame :: "nat \<Rightarrow> nat \<Rightarrow> bytes \<Rightarrow> inbound \<Rightarrow> inbound" where
  "start_frame limit conn prefix4 s =
     (case frame_len prefix4 of
        Inl _ \<Rightarrow> s
      | Inr len \<Rightarrow>
          (case try_reserve limit len (held_bytes s) of
             None \<Rightarrow> s
           | Some h \<Rightarrow> s\<lparr>held_bytes := h, being_read := (conn, len) # being_read s\<rparr>))"

definition end_frame :: "nat \<Rightarrow> bytes option \<Rightarrow> inbound \<Rightarrow> inbound" where
  "end_frame conn got s =
     (case map_of (being_read s) conn of
        None \<Rightarrow> s
      | Some len \<Rightarrow>
          (let s = s\<lparr>being_read := AList.delete conn (being_read s)\<rparr>
           in case got of
                Some data \<Rightarrow>
                  if length data = len then s\<lparr>waiting_frames := waiting_frames s @ [data]\<rparr>
                  else s\<lparr>held_bytes := release_bytes len (held_bytes s)\<rparr>
              | None \<Rightarrow> s\<lparr>held_bytes := release_bytes len (held_bytes s)\<rparr>))"

definition take_frame :: "inbound \<Rightarrow> bytes option \<times> inbound" where
  "take_frame s =
     (case waiting_frames s of
        [] \<Rightarrow> (None, s)
      | f # fs \<Rightarrow> (Some f, s\<lparr>waiting_frames := fs, held_bytes := release_bytes (length f) (held_bytes s)\<rparr>))"

fun inbound_step :: "nat \<Rightarrow> inbound_event \<Rightarrow> inbound \<Rightarrow> inbound" where
  "inbound_step limit (Prefix conn p) s = (if map_of (being_read s) conn = None then start_frame limit conn p s else s)"
| "inbound_step limit (Body conn data) s = end_frame conn (Some data) s"
| "inbound_step limit (Broken conn) s = end_frame conn None s"
| "inbound_step limit Take s = snd (take_frame s)"

definition inbound_run :: "nat \<Rightarrow> inbound_event list \<Rightarrow> inbound \<Rightarrow> inbound" where
  "inbound_run limit evs s = fold (inbound_step limit) evs s"

definition idle_inbound :: inbound where
  "idle_inbound = \<lparr>held_bytes = 0, being_read = [], waiting_frames = []\<rparr>"

section \<open>What is held\<close>

definition reading_bytes :: "inbound \<Rightarrow> nat" where
  "reading_bytes s = sum_list (map snd (being_read s))"

definition waiting_bytes :: "inbound \<Rightarrow> nat" where
  "waiting_bytes s = sum_list (map length (waiting_frames s))"

text \<open>The count is exact; past the limit it is a single frame's.\<close>

definition counted_within :: "nat \<Rightarrow> inbound \<Rightarrow> bool" where
  "counted_within limit s \<longleftrightarrow>
     held_bytes s = reading_bytes s + waiting_bytes s
     \<and> distinct (map fst (being_read s))
     \<and> held_bytes s \<le> max limit MAX_FRAME_BYTES"

lemma sum_list_delete:
  assumes "distinct (map fst m)" and "map_of m k = Some (v :: nat)"
  shows "sum_list (map snd (AList.delete k m)) + v = sum_list (map snd m)"
  using assms
proof (induction m)
  case (Cons p m)
  obtain k' v' where p: "p = (k', v')" by (cases p)
  show ?case
  proof (cases "k' = k")
    case True
    with Cons.prems p have "k \<notin> fst ` set m" "v' = v" by auto
    then show ?thesis using p True by (simp add: delete_absent)
  next
    case False
    with Cons p show ?thesis by simp
  qed
qed simp

lemma start_within:
  assumes "counted_within limit s" and "map_of (being_read s) conn = None"
  shows "counted_within limit (start_frame limit conn p s)"
proof (cases "be_nat p \<le> MAX_FRAME_BYTES \<and> try_reserve limit (be_nat p) (held_bytes s) \<noteq> None")
  case True
  then obtain h where h: "try_reserve limit (be_nat p) (held_bytes s) = Some h" by blast
  then have "h = held_bytes s + be_nat p" "held_bytes s = 0 \<or> h \<le> limit" by (auto simp: try_reserve_def split: if_splits)
  with True have "h = held_bytes s + be_nat p" "h \<le> max limit MAX_FRAME_BYTES" by auto
  moreover have "start_frame limit conn p s = s\<lparr>held_bytes := h, being_read := (conn, be_nat p) # being_read s\<rparr>"
    using True h by (simp add: start_frame_def frame_len_def Let_def)
  moreover have "conn \<notin> fst ` set (being_read s)" using assms(2) by (simp add: map_of_eq_None_iff)
  ultimately show ?thesis using assms(1) by (simp add: counted_within_def reading_bytes_def waiting_bytes_def)
next
  case False
  then have "start_frame limit conn p s = s" by (auto simp: start_frame_def frame_len_def Let_def)
  with assms(1) show ?thesis by simp
qed

lemma end_within:
  assumes "counted_within limit s"
  shows "counted_within limit (end_frame conn got s)"
proof (cases "map_of (being_read s) conn")
  case (Some len)
  from assms have d: "distinct (map fst (being_read s))" by (simp add: counted_within_def)
  note sum = sum_list_delete [OF d Some]
  have d': "distinct (map fst (AList.delete conn (being_read s)))" using d by (rule distinct_delete)
  show ?thesis
    using assms Some sum d'
    by (auto simp: counted_within_def end_frame_def release_bytes_def reading_bytes_def waiting_bytes_def Let_def split: option.splits)
qed (use assms in \<open>simp add: end_frame_def\<close>)

lemma take_within: "counted_within limit s \<Longrightarrow> counted_within limit (snd (take_frame s))"
  by (auto simp: counted_within_def take_frame_def release_bytes_def reading_bytes_def waiting_bytes_def split: list.splits)

lemma step_within: "counted_within limit s \<Longrightarrow> counted_within limit (inbound_step limit ev s)"
  by (cases ev) (simp_all add: start_within end_within take_within)

text \<open>
  However many connections read at once, what is being read and what the core has yet to take is counted to the
  byte, and is at most the limit, or one frame where that is larger than the limit.
\<close>

theorem inbound_memory_bounded:
  "let s = inbound_run limit evs idle_inbound
   in held_bytes s = reading_bytes s + waiting_bytes s \<and> reading_bytes s + waiting_bytes s \<le> max limit MAX_FRAME_BYTES"
proof -
  have "counted_within limit (fold (inbound_step limit) evs s)" if "counted_within limit s" for s
    using that by (induction evs arbitrary: s) (auto intro: step_within)
  moreover have "counted_within limit idle_inbound" by (simp add: counted_within_def idle_inbound_def reading_bytes_def waiting_bytes_def)
  ultimately have "counted_within limit (inbound_run limit evs idle_inbound)" by (simp only: inbound_run_def)
  then have "held_bytes (inbound_run limit evs idle_inbound) = reading_bytes (inbound_run limit evs idle_inbound) + waiting_bytes (inbound_run limit evs idle_inbound)"
    "held_bytes (inbound_run limit evs idle_inbound) \<le> max limit MAX_FRAME_BYTES"
    unfolding counted_within_def by blast+
  then show ?thesis unfolding Let_def by (metis (no_types))
qed

text \<open>A core that takes what waits makes room: with nothing else being read, any frame is admitted.\<close>

lemma empty_queue_admits:
  assumes "counted_within limit s" and "being_read s = []" and "waiting_frames s = []"
  shows "try_reserve limit len (held_bytes s) = Some len"
  using assms by (simp add: counted_within_def try_reserve_def reading_bytes_def waiting_bytes_def)

text \<open>The count is of bytes: empty frames are admitted in any number, however full the budget within its limit.\<close>

lemma empty_frames_uncounted:
  assumes "held_bytes s \<le> limit" and "being_read s = []"
  shows "length (waiting_frames (inbound_run limit (concat (replicate k [Prefix 0 [0, 0, 0, 0], Body 0 []])) s)) = length (waiting_frames s) + k"
  using assms
proof (induction k arbitrary: s)
  case (Suc k)
  have len: "frame_len [0, 0, 0, 0] = Inr 0" by (simp add: frame_len_def be_nat_def Let_def)
  have "try_reserve limit 0 (held_bytes s) = Some (held_bytes s)" using Suc.prems(1) by (simp add: try_reserve_def)
  then have one: "inbound_step limit (Body 0 []) (inbound_step limit (Prefix 0 [0, 0, 0, 0]) s) = s\<lparr>waiting_frames := waiting_frames s @ [[]]\<rparr>"
    using Suc.prems(2) by (cases s) (simp add: start_frame_def end_frame_def len)
  show ?case using Suc.IH [of "s\<lparr>waiting_frames := waiting_frames s @ [[]]\<rparr>"] Suc.prems one by (simp add: inbound_run_def)
qed (simp add: inbound_run_def)

text \<open>A reader waits at most a minute and one step.\<close>

lemma reader_gives_up:
  assumes "\<forall>i < length tries. start + i * WAIT_STEP \<le> snd (tries ! i)" and "2401 \<le> length tries"
  shows "reserve_blocking limit len (start + INBOUND_WAIT) tries \<noteq> None"
proof -
  have "reserve_blocking limit len deadline tries \<noteq> None" if "\<exists>x \<in> set tries. deadline \<le> snd x" for deadline
    using that
  proof (induction tries)
    case (Cons x tries)
    then have "\<not> deadline \<le> snd x \<Longrightarrow> reserve_blocking limit len deadline tries \<noteq> None" by auto
    then show ?case by (cases x) (simp add: not_le split: option.split)
  qed simp
  moreover have "start + INBOUND_WAIT \<le> snd (tries ! 2400)"
    using assms(1) [rule_format, of 2400] assms(2) by (simp add: INBOUND_WAIT_def WAIT_STEP_def secs_def)
  ultimately show ?thesis using assms(2) by (metis Suc_le_eq nth_mem eval_nat_numeral(3) numeral_eq_Suc)
qed

end
