(* ===== verification/Spec2Isabelle.thy ===== *)
theory Spec2Isabelle
  imports RelayPersist RelayBounds Watchdog RelayServe ContactLimits Update Wire PhotoScrub StreamClean ClientDrain LockSafe HeldDrain OutboxEdits Names ShortCode NearbyPath Inbound
begin

text \<open>
  Night Drop: a verification development of the messenger's core (\<open>src/core/src\<close>) and its relay
  (\<open>src/relay/src\<close>).

  The program. Two people exchange end-to-end encrypted messages over Tor. While the recipient is away,
  frames wait on relays: small stores of opaque blobs under opaque handles. The core keeps the chats, agrees
  a mailbox secret with each contact, polls its relays in fragments that do not reveal the contacts, moves
  its relay list and its signing keys by signed statements, checks for updates, strips attachments of
  metadata, and locks its store key under a passphrase. The relay serves requests over streams of lines,
  persists its mailboxes, and watches its own reachability.

  The theories, and the code each follows:

  \<^item> \<open>Prelude\<close>, \<open>RustStd\<close>: times, words, bytes, association lists; the parts of Rust's standard library the
    source uses (UTF-8, \<open>split\<close>, \<open>trim\<close>, \<open>parse\<close>).
  \<^item> \<open>RelayStore\<close> (\<open>core/src/relay_client/mod.rs\<close>): the store and its seven requests, the drain with its
    budget, the post limits, the reaper, the dashboard snapshot. \<open>RelayInv\<close> proves the store's invariant,
    \<open>RelayMail\<close> delivery (each accepted blob once, in order; draining ends; a request touches only the
    handles it names), \<open>RelayBounds\<close> that replies fit the client's line and the reserve for small blobs holds.
  \<^item> \<open>RelayPersist\<close> (same file): the store file, flush and load, as a step relation of memory, disk, a write
    under way and two clocks; a restart recovers the unexpired blobs.
  \<^item> \<open>LineReader\<close>, \<open>RelayServe\<close> (\<open>relay_client/mod.rs\<close>, \<open>relay/src/main.rs\<close>, \<open>relay/src/stats.rs\<close>): the capped
    and the paced line reader, the budget of half-read lines, the token bucket and the stream loop, the cap
    on streams, the statistics.
  \<^item> \<open>Watchdog\<close> (\<open>relay/src/main.rs\<close>): the verdicts on the relay's own reachability, the dark clocks, restarts.
  \<^item> \<open>ContactLimits\<close> (\<open>node/limits.rs\<close>): clamping of what a contact sends, the daily allowance.
  \<^item> \<open>Wire\<close> (\<open>wire/mod.rs\<close>): frames, versions, padding to size buckets.
  \<^item> \<open>Keyroll\<close>, \<open>Update\<close> (\<open>keyroll.rs\<close>, \<open>update.rs\<close>): rotation of signing keys, the update manifest, version
    order, the streamed response head, the resumable download.
  \<^item> \<open>MediaKind\<close> (\<open>node/media_kind.rs\<close>): which attachments are drawn or played, against a grammar.
  \<^item> \<open>PhotoScrub\<close>, \<open>VideoScrub\<close> (\<open>node/media_scrub.rs\<close>): removal of metadata. \<open>SpanEdits\<close> and \<open>VideoClean\<close> hold the
    locales \<open>span_edits\<close>, \<open>box_edits\<close>; \<open>IsoClean\<close> and \<open>StreamClean\<close> interpret them (and \<open>element_loop\<close>) on the
    box, chunk and element walks of the code.
  \<^item> \<open>ChatState\<close> (\<open>node.rs\<close>): what a chat remembers of its peer's version and liveness.
  \<^item> \<open>Mailbox\<close> (\<open>node/mailbox.rs\<close>): the pair secret, the daily handles, the agreement frames, and the node's
    operations on them. \<open>MailboxAgreement\<close> abstracts two nodes to two pairs and the contributions under way,
    proves that every run of deliveries ends with both sides confirmed, and that the node refines one side.
  \<^item> \<open>PollPlan\<close> (\<open>node/mailbox.rs\<close>): the days polled, their retirement, the fragments. \<open>DrainRound\<close> (\<open>node.rs\<close>,
    \<open>node/messaging.rs\<close>): a round over relays that may fail.
  \<^item> \<open>RelaySets\<close> (\<open>node.rs\<close>, \<open>storage/mod.rs\<close>, \<open>directory.rs\<close>, \<open>node/messaging.rs\<close>): the relay list and what drains
    out of it, the routes, the signed directory.
  \<^item> \<open>RelayClient\<close> (\<open>relay_client/mod.rs\<close>): the client's calls over relays that run \<open>process\<close> and a network that
    loses requests or replies, as a script; what a poll obtains. \<open>ClientDrain\<close> puts it behind a drain round.
  \<^item> \<open>Recall\<close> (\<open>node.rs\<close>): copies of a frame on the recipient's relays, and what a successful recall means.
  \<^item> \<open>Envelope\<close>, \<open>Conversation\<close> (\<open>node.rs\<close>, \<open>node/messaging.rs\<close>): the packed bodies of edits, burns and attachments; what
    a chat keeps, the media store, the sweeps by time and of burn messages.
  \<^item> \<open>Inbox\<close>, \<open>InboxSafe\<close> (\<open>node/frames.rs\<close>): \<open>process_frame\<close>, branch by branch, for the 22 kinds of frames of an
    established conversation (\<open>conversation_frame\<close>); what such a frame may change, as permitted steps of a history, and
    that nothing is shown twice.
  \<^item> \<open>Outbox\<close>, \<open>SendMedia\<close> (\<open>node/messaging.rs\<close>, \<open>node.rs\<close>): composing texts and attachments, deferred sends, the outbox, the
    held queue, the receipt clock, edits and unsends. \<open>OutboxInv\<close> and \<open>OutboxSafe\<close> prove, for every interleaving of
    those operations but edits and unsends, that a text of ours is always accounted for; \<open>HeldDrain\<close> that the held queue empties; \<open>OutboxEdits\<close> shows
    where edits and unsends miss a frame that is already on its way, which is why they are no step of that run.
  \<^item> \<open>Names\<close> (\<open>node.rs\<close>, \<open>node/pairing.rs\<close>): the cleaning of chosen names, identity tags, safety numbers.
  \<^item> \<open>ShortCode\<close> (\<open>api.rs\<close>, \<open>node.rs\<close>, \<open>node/pairing.rs\<close>): invites and their parsing, both sides of the short-code handshake.
  \<^item> \<open>NearbyPath\<close> (\<open>transport/nearby.rs\<close>, \<open>node/nearby.rs\<close>): the same-Wi-Fi path, from what is announced to where is dialled
    and who is answered. \<open>Inbound\<close> (\<open>transport/inbound.rs\<close>): the byte budget of frames on their way in.
  \<^item> \<open>Lock\<close>, \<open>LockSafe\<close> (\<open>storage/lock.rs\<close>): the passphrase lock with its duress slot and its throttle.

  How they meet. \<open>RelayServe\<close> runs \<open>process\<close> of \<open>RelayStore\<close> on the lines of \<open>LineReader\<close>; \<open>RelayPersist\<close> runs the same
  operations beside a disk. \<open>Mailbox\<close> sends the frames of \<open>Wire\<close>; the handle it posts to is the one \<open>PollPlan\<close>
  asks for, and \<open>DrainRound\<close> retires a day of \<open>PollPlan\<close> only when all of it was answered on every relay. \<open>Inbox\<close>
  and \<open>Outbox\<close> work on one node: an office extends the messenger that receives frames. \<open>SendMedia\<close> sends what
  \<open>PhotoScrub\<close> and \<open>VideoScrub\<close> made of a file; \<open>Recall\<close> gives the answer an edit or unsend goes by. \<open>Update\<close> and
  \<open>RelaySets\<close> take the key to trust from \<open>Keyroll\<close>.

  State and effects. A component's state is a record, an operation a function returning the new one. Clocks,
  random bytes, what the network answers and whether a write reaches the disk are inputs. Primitives that are
  not in the repository (signatures, Argon2, AEAD, HKDF, SHA-256, base64, JSON, the ratchet) are fields of
  parameter records; what is relied on is a hypothesis of the theorem that needs it, and each such theorem
  has a witness on a concrete instance. Counters that can wrap or saturate are words; times are natural
  numbers (seconds or nanoseconds) except where the code saturates or the limit is on a 64-bit field.

  Loops. Loops over lists are structural recursion or folds; walks over bytes are functions with a measure on
  what is left, so all of them are total. The exchange of contributions is bounded by \<open>work\<close>, which every
  delivery decreases. No fuel is used.

  Where code and comment differ is recorded beside the lemma that shows it: \<open>overlong_line_accepted\<close>,
  \<open>two_allowances_in_a_day\<close>, \<open>later_metadata_kept\<close>, \<open>matroska_gap_keeps_tags\<close>, \<open>slow_sender_outlives_polling\<close>,
  \<open>old_costs_cannot_arm\<close>, \<open>clear_duress_unthrottled\<close>, \<open>unheard_take_loses_mail\<close>, \<open>unheard_copy_outlives_recall\<close>,
  \<open>retired_day_may_hold_mail\<close>, \<open>unsend_leaves_deferred\<close>, \<open>tombstone_marked_and_resent\<close>, \<open>recalled_edit_posts_plain\<close>,
  \<open>failed_replacement_dropped\<close>, \<open>outcome_overtakes_receipt\<close>, \<open>edit_any_length\<close>, \<open>held_for_update_not_open\<close>, \<open>replaced_invite_inherits\<close>,
  \<open>empty_frames_uncounted\<close>.

  Not modelled. Pairing requests (\<open>Hello\<close>, \<open>Approved\<close>, passes), the standing announcements and the
  frames they answer, backup and the fields of the state file. The synchronous in-memory transport, for
  tests and the demonstration. Sockets, threads, Tor and the bridges: I/O around third-party code. The
  cryptographic wrappers: arguments here. The API surface, its generated bindings, the operator's terminal dashboard
  and the app's user interface.
\<close>

end
